(* ===== verification/Gateway_Prelude.thy ===== *)
theory Gateway_Prelude
  imports Main "HOL-Library.Word" "HOL-Library.Monad_Syntax"
begin

unbundle bit_operations_syntax

text \<open>
  The vocabulary every component of the gateway model shares.

  \<^item> C values: bytes and \<open>size_t\<close> are words (the gateway's targets nRF9160, nRF9151,
    nRF52840 and RW612 are 32-bit, so \<open>size_t\<close> has 32 bits and its arithmetic wraps).
  \<^item> C storage: a buffer is a list of cells, and a cell is \<open>None\<close> while the program has
    not written it (\<open>malloc\<close> and the memory slab hand out indeterminate bytes).
  \<^item> C pointers: a pointer is \<open>None\<close> for \<open>NULL\<close> or \<open>Some\<close> address; a store maps
    the live addresses of one type of object to the objects.
  \<^item> Undefined behaviour: an operation of the model returns \<open>None\<close> when the C code would
    dereference \<open>NULL\<close> or a freed object, free an object twice, or copy outside a
    buffer. A theorem that an operation returns \<open>Some\<close> is a memory-safety theorem.
    Errors the code reports itself are ordinary return values (\<open>- EAGAIN\<close>, a
    \<open>golioth_status\<close>).
\<close>

section \<open>Types and constants\<close>

type_synonym byte = "8 word"
type_synonym cell = "byte option"
type_synonym size_t = "32 word"
type_synonym addr = nat
type_synonym ptr = "addr option"
type_synonym 'a store = "addr \<Rightarrow> 'a option"

text \<open>The C library's error numbers the sources use; the code only relies on their being
  positive and distinct.\<close>

definition EIO :: int where "EIO = 5"
definition EAGAIN :: int where "EAGAIN = 11"
definition ENOMEM :: int where "ENOMEM = 12"
definition EINVAL :: int where "EINVAL = 22"
definition ENOSPC :: int where "ENOSPC = 28"
definition ENODATA :: int where "ENODATA = 61"
definition ENOLINK :: int where "ENOLINK = 67"

lemmas errno_defs = EIO_def EAGAIN_def ENOMEM_def EINVAL_def ENOSPC_def ENODATA_def ENOLINK_def

text \<open>The status codes of the Golioth SDK that the sources name; every other code is
  \<open>GOLIOTH_ERR_OTHER\<close>.\<close>

datatype golioth_status =
  GOLIOTH_OK
| GOLIOTH_ERR_NACK
| GOLIOTH_ERR_MEM_ALLOC
| GOLIOTH_ERR_COAP_RESPONSE
| GOLIOTH_ERR_OTHER nat

text \<open>The build configuration: the options of \<open>Kconfig\<close> the modelled code reads, and
  \<open>block_max\<close> for the SDK's \<open>CONFIG_GOLIOTH_BLOCKWISE_UPLOAD_MAX_BLOCK_SIZE\<close>.\<close>

record config =
  block_max :: size_t
  num_blocks :: nat
  device_cert_max :: size_t
  server_cert_max :: size_t
  cloud :: bool
  cert_builtin :: bool
  scan_filter_bonded :: bool

definition kconfig_default :: "size_t \<Rightarrow> config" where
  "kconfig_default bs =
     \<lparr>block_max = bs, num_blocks = 10, device_cert_max = 1024, server_cert_max = 4096,
      cloud = True, cert_builtin = False, scan_filter_bonded = False\<rparr>"

section \<open>Pointers, stores and buffers\<close>

definition deref :: "'a store \<Rightarrow> ptr \<Rightarrow> 'a option" where
  "deref h p = (case p of None \<Rightarrow> None | Some a \<Rightarrow> h a)"

definition heap_free :: "'a store \<Rightarrow> ptr \<Rightarrow> 'a store option" where
  "heap_free h p =
     (case p of None \<Rightarrow> Some h
      | Some a \<Rightarrow> (case h a of None \<Rightarrow> None | Some _ \<Rightarrow> Some (h(a := None))))"

definition memcpy_to :: "'a list \<Rightarrow> nat \<Rightarrow> 'a list \<Rightarrow> 'a list option" where
  "memcpy_to dst off src =
     (if off + length src \<le> length dst
      then Some (take off dst @ src @ drop (off + length src) dst) else None)"

definition memcpy_from :: "'a list \<Rightarrow> nat \<Rightarrow> nat \<Rightarrow> 'a list option" where
  "memcpy_from src off n = (if off + n \<le> length src then Some (take n (drop off src)) else None)"

lemma deref_simps [simp]: "deref h None = None" "deref h (Some a) = h a"
  by (simp_all add: deref_def)

lemma heap_free_None [simp]: "heap_free h None = Some h"
  by (simp add: heap_free_def)

lemma heap_free_Some [simp]: "h a = Some x \<Longrightarrow> heap_free h (Some a) = Some (h(a := None))"
  by (simp add: heap_free_def)

lemma heap_free_eq_SomeD:
  "heap_free h (Some a) = Some h' \<Longrightarrow> (\<exists>x. h a = Some x) \<and> h' = h(a := None)"
  by (auto simp: heap_free_def split: option.splits)

lemma memcpy_to_length: "memcpy_to dst off src = Some dst' \<Longrightarrow> length dst' = length dst"
  by (auto simp: memcpy_to_def split: if_splits)

lemma memcpy_to_take:
  "memcpy_to dst off src = Some dst' \<Longrightarrow> take (off + length src) dst' = take off dst @ src"
  by (auto simp: memcpy_to_def split: if_splits)

lemma memcpy_to_ok [simp]:
  "off + length src \<le> length dst \<Longrightarrow>
   memcpy_to dst off src = Some (take off dst @ src @ drop (off + length src) dst)"
  by (simp add: memcpy_to_def)

lemma memcpy_to_fault: "length dst < off + length src \<Longrightarrow> memcpy_to dst off src = None"
  by (simp add: memcpy_to_def)

lemma memcpy_from_ok [simp]:
  "off + n \<le> length src \<Longrightarrow> memcpy_from src off n = Some (take n (drop off src))"
  by (simp add: memcpy_from_def)

lemma memcpy_from_fault: "length src < off + n \<Longrightarrow> memcpy_from src off n = None"
  by (simp add: memcpy_from_def)

section \<open>Word arithmetic\<close>

text \<open>The few facts that move a \<open>size_t\<close> computation that does not wrap to \<open>nat\<close>.\<close>

named_theorems size_arith

lemma unat_min_word [size_arith]: "unat (min a b :: 'a::len word) = min (unat a) (unat b)"
  by (simp add: min_def word_le_nat_alt)

lemma unat_diff_word [size_arith]: "b \<le> (a :: 'a::len word) \<Longrightarrow> unat (a - b) = unat a - unat b"
  by (rule unat_sub)

lemma unat_plus_size:
  "unat a + unat b < 2 ^ 32 \<Longrightarrow> unat (a + b :: size_t) = unat a + unat b"
  by (subst unat_add_lem [symmetric]) simp_all

lemma unat_size_bound: "unat (a :: size_t) < 2 ^ 32"
  using unsigned_less [of a] by simp

lemma unat_of_nat_size: "n < 2 ^ 32 \<Longrightarrow> unat (of_nat n :: size_t) = n"
  by (simp add: unat_of_nat take_bit_nat_eq_self)

lemma unat_plus_le_size:
  "unat (a :: size_t) + unat b \<le> unat (c :: size_t) \<Longrightarrow> unat (a + b) = unat a + unat b"
  using unat_size_bound [of c] by (intro unat_plus_size) simp

lemma word_neq_0_unat: "(a :: 'a::len word) \<noteq> 0 \<Longrightarrow> 0 < unat a"
  by (simp add: unat_gt_0)

section \<open>Sections of a store\<close>

lemma restrict_compl_upd [simp]:
  "a \<notin> X \<Longrightarrow> (m |` (- X))(a := None) = m |` (- insert a X)"
  by (auto simp: restrict_map_def fun_eq_iff)

lemma restrict_UNIV [simp]: "m |` UNIV = m"
  by (auto simp: restrict_map_def)

lemma upd_None_restrict: "m(a := None) = m |` (- {a})"
  by (auto simp: restrict_map_def fun_eq_iff)

section \<open>Pointers as lists\<close>

fun ptr_list :: "ptr \<Rightarrow> addr list" where
  "ptr_list None = []"
| "ptr_list (Some a) = [a]"

lemma heap_free_ptr_list:
  "set (ptr_list p) \<subseteq> dom h \<Longrightarrow> heap_free h p = Some (h |` (- set (ptr_list p)))"
  by (cases p) (auto simp: heap_free_def upd_None_restrict)

lemma restrict_restrict_compl: "(m |` (- X)) |` (- Y) = m |` (- (X \<union> Y))"
  by (auto simp: restrict_map_def fun_eq_iff)

section \<open>Results\<close>

text \<open>\<open>holds\<close> is the weakest precondition of the option monad: it makes returning a result
  part of a lemma.\<close>

definition holds :: "('a \<Rightarrow> bool) \<Rightarrow> 'a option \<Rightarrow> bool" where
  "holds P r \<longleftrightarrow> (\<exists>x. r = Some x \<and> P x)"

lemma holds_simps [simp]: "holds P (Some x) = P x" "\<not> holds P None"
  by (simp_all add: holds_def)

lemma holds_bind [simp]: "holds P (Option.bind r f) = holds (\<lambda>x. holds P (f x)) r"
  by (cases r) simp_all

lemma holds_mono: "holds P r \<Longrightarrow> (\<And>x. P x \<Longrightarrow> Q x) \<Longrightarrow> holds Q r"
  by (auto simp: holds_def)

lemma holds_imp: "holds Q r \<Longrightarrow> Q \<le> P \<Longrightarrow> holds P r"
  by (auto simp: holds_def)

end
