(* ===== verification/Block.thy ===== *)
theory Block
  imports Gateway_Prelude
begin

text \<open>
  The block allocator of \<open>lib/block.c\<close>: fixed-size blocks of one memory slab, each with a
  length, a last-block flag and a buffer of \<open>block_max\<close> bytes. Zephyr's
  \<open>k_mem_slab_alloc\<close> is not part of the repository, so the slot it returns (\<open>None\<close>
  when the timeout expires) is an argument of \<open>block_alloc\<close>, and \<open>slab_slot_ok\<close> states
  what it promises: a slot that is not in use, of at most \<open>num_blocks\<close>.
\<close>

section \<open>Data and operations\<close>

record block =
  user_data :: ptr
  last_flag :: bool
  blk_len :: size_t
  blk_data :: "cell list"

type_synonym slab = "block store"

definition block_alloc :: "config \<Rightarrow> slab \<Rightarrow> ptr \<Rightarrow> ptr \<Rightarrow> ptr \<times> slab" where
  "block_alloc c s slot ud =
     (case slot of
        None \<Rightarrow> (None, s)
      | Some a \<Rightarrow>
          (Some a, s(a \<mapsto> \<lparr>user_data = ud, last_flag = False, blk_len = 0,
                         blk_data = replicate (unat (block_max c)) None\<rparr>)))"

definition block_free :: "slab \<Rightarrow> addr \<Rightarrow> slab option" where
  "block_free s a = heap_free s (Some a)"

definition block_length :: "block \<Rightarrow> size_t" where
  "block_length b = blk_len b"

definition block_mark_last :: "block \<Rightarrow> block" where
  "block_mark_last b = b\<lparr>last_flag := True\<rparr>"

definition block_is_last :: "block \<Rightarrow> bool" where
  "block_is_last b = last_flag b"

text \<open>\<open>block_append\<close> copies without a check: where the block has no room the copy leaves
  the buffer, which is undefined.\<close>

definition block_append :: "block \<Rightarrow> byte list \<Rightarrow> block option" where
  "block_append b bytes =
     (case memcpy_to (blk_data b) (unat (blk_len b)) (map Some bytes) of
        None \<Rightarrow> None
      | Some d \<Rightarrow> Some (b\<lparr>blk_data := d, blk_len := blk_len b + of_nat (length bytes)\<rparr>))"

definition block_get :: "config \<Rightarrow> block \<Rightarrow> size_t \<Rightarrow> size_t \<Rightarrow> (int \<times> cell list) option" where
  "block_get c b off n =
     (if off + n > block_max c then Some (- EINVAL, [])
      else (case memcpy_from (blk_data b) (unat off) (unat n) of
              None \<Rightarrow> None | Some cs \<Rightarrow> Some (0, cs)))"

section \<open>Invariant\<close>

text \<open>The cells of a block that hold data, and the invariant: the buffer has its full
  size, the length stays inside it, and every cell below the length has been written.\<close>

definition block_cells :: "block \<Rightarrow> cell list" where
  "block_cells b = take (unat (blk_len b)) (blk_data b)"

definition block_ok :: "config \<Rightarrow> block \<Rightarrow> bool" where
  "block_ok c b \<longleftrightarrow> length (blk_data b) = unat (block_max c) \<and> blk_len b \<le> block_max c \<and>
     None \<notin> set (block_cells b)"

definition slab_slot_ok :: "config \<Rightarrow> slab \<Rightarrow> ptr \<Rightarrow> bool" where
  "slab_slot_ok c s slot \<longleftrightarrow>
     (case slot of None \<Rightarrow> True | Some a \<Rightarrow> s a = None \<and> card (dom s) < num_blocks c)"

section \<open>Lemmas\<close>

lemma block_alloc_None [simp]: "block_alloc c s None ud = (None, s)"
  by (simp add: block_alloc_def)

lemma length_block_cells: "block_ok c b \<Longrightarrow> length (block_cells b) = unat (blk_len b)"
  by (simp add: block_ok_def block_cells_def word_le_nat_alt)

lemma block_mark_last_simps [simp]:
  "block_cells (block_mark_last b) = block_cells b"
  "block_is_last (block_mark_last b)"
  "block_length (block_mark_last b) = block_length b"
  by (simp_all add: block_mark_last_def block_cells_def block_is_last_def block_length_def)

lemma block_ok_mark_last [simp]: "block_ok c (block_mark_last b) = block_ok c b"
  by (simp add: block_ok_def block_mark_last_def block_cells_def)

text \<open>A slot handed out is an empty, well-formed block that is not marked last, and the
  slab never holds more than its number of blocks.\<close>

lemma block_alloc_fresh:
  assumes "block_alloc c s (Some a) ud = (p, s')"
  shows "p = Some a" and "\<exists>b. s' = s(a \<mapsto> b) \<and> block_ok c b \<and> block_cells b = [] \<and> \<not> block_is_last b"
  using assms by (auto simp: block_alloc_def block_ok_def block_cells_def block_is_last_def)

lemma block_alloc_capacity:
  assumes "finite (dom s)" and "card (dom s) \<le> num_blocks c" and "slab_slot_ok c s slot"
  shows "card (dom (snd (block_alloc c s slot ud))) \<le> num_blocks c"
  using assms by (auto simp: block_alloc_def slab_slot_ok_def card_insert_if split: option.splits)

text \<open>Appending to a well-formed block that has room keeps it well-formed and extends its
  data; without room the copy is out of bounds.\<close>

lemma block_append_room:
  assumes ok: "block_ok c b" and room: "unat (blk_len b) + length bytes \<le> unat (block_max c)"
  shows "\<exists>b'. block_append b bytes = Some b' \<and> block_ok c b' \<and>
           block_cells b' = block_cells b @ map Some bytes \<and>
           block_is_last b' = block_is_last b \<and> user_data b' = user_data b"
proof -
  have len: "unat (of_nat (length bytes) :: size_t) = length bytes"
    using room unat_size_bound [of "block_max c"] by (intro unat_of_nat_size) simp
  have sum: "unat (blk_len b + of_nat (length bytes)) = unat (blk_len b) + length bytes"
    using room len by (subst unat_plus_le_size [of _ _ "block_max c"]) simp_all
  obtain d where d: "memcpy_to (blk_data b) (unat (blk_len b)) (map Some bytes) = Some d"
    using ok room by (simp add: block_ok_def)
  have "length d = unat (block_max c)"
    using memcpy_to_length [OF d] ok by (simp add: block_ok_def)
  moreover have "take (unat (blk_len b) + length bytes) d = block_cells b @ map Some bytes"
    using memcpy_to_take [OF d] by (simp add: block_cells_def)
  ultimately show ?thesis
    using ok room d sum
    by (auto simp: block_append_def block_ok_def block_cells_def block_is_last_def word_le_nat_alt)
qed

lemma block_append_no_room:
  assumes "block_ok c b" and "unat (block_max c) < unat (blk_len b) + length bytes"
  shows "block_append b bytes = None"
  using assms by (simp add: block_append_def block_ok_def memcpy_to_fault)

text \<open>A fresh block filled with at most as many bytes as it has room for.\<close>

lemma block_filled:
  assumes len: "length bytes \<le> unat (block_max c)"
  shows "\<exists>b1. block_append \<lparr>user_data = None, last_flag = False, blk_len = 0,
      blk_data = replicate (unat (block_max c)) None\<rparr> bytes = Some b1 \<and>
    block_ok c (if l then block_mark_last b1 else b1) \<and>
    block_cells (if l then block_mark_last b1 else b1) = map Some bytes \<and>
    block_is_last (if l then block_mark_last b1 else b1) = l"
proof -
  define b0 where "b0 = \<lparr>user_data = None, last_flag = False, blk_len = 0,
      blk_data = replicate (unat (block_max c)) None\<rparr>"
  have "block_ok c b0" "block_cells b0 = []" "\<not> block_is_last b0" "blk_len b0 = 0"
    by (simp_all add: b0_def block_ok_def block_cells_def block_is_last_def)
  then obtain b1 where "block_append b0 bytes = Some b1" "block_ok c b1" "block_cells b1 = map Some bytes"
      "\<not> block_is_last b1"
    using block_append_room [of c b0 bytes] len by auto
  then show ?thesis unfolding b0_def by simp
qed

text \<open>Reading below the length returns written cells; reading past the capacity is
  reported, unless the sum of offset and length wraps.\<close>

lemma block_get_data:
  assumes ok: "block_ok c b" and le: "unat off + unat n \<le> unat (blk_len b)"
  shows "block_get c b off n = Some (0, take (unat n) (drop (unat off) (block_cells b)))"
proof -
  have bound: "unat (blk_len b) \<le> unat (block_max c)"
    using ok by (simp add: block_ok_def word_le_nat_alt)
  have "unat (off + n) = unat off + unat n"
    using le bound by (intro unat_plus_le_size [of _ _ "block_max c"]) simp
  then have "\<not> off + n > block_max c"
    using le bound by (simp add: word_less_nat_alt)
  moreover have "memcpy_from (blk_data b) (unat off) (unat n)
      = Some (take (unat n) (drop (unat off) (blk_data b)))"
    using ok le bound by (intro memcpy_from_ok) (simp add: block_ok_def)
  moreover have "take (unat n) (drop (unat off) (blk_data b))
      = take (unat n) (drop (unat off) (block_cells b))"
    using le by (simp add: block_cells_def drop_take min_absorb1)
  ultimately show ?thesis by (simp add: block_get_def)
qed

lemma block_get_too_far:
  assumes "unat off + unat n < 2 ^ 32" and "unat (block_max c) < unat off + unat n"
  shows "block_get c b off n = Some (- EINVAL, [])"
  using assms by (simp add: block_get_def word_less_nat_alt unat_plus_size)

lemma block_free_simp [simp]: "s a = Some b \<Longrightarrow> block_free s a = Some (s(a := None))"
  by (simp add: block_free_def)

section \<open>Properties\<close>

text \<open>C34. Data appended to a well-formed block that has room is read back unchanged at the
  offset where it was put, what was there before is still there, and the last-block mark is
  not touched.\<close>

theorem block_append_get:
  assumes ok: "block_ok c b" and room: "unat (blk_len b) + length bytes \<le> unat (block_max c)"
  shows "\<exists>b'. block_append b bytes = Some b' \<and> block_ok c b' \<and> block_is_last b' = block_is_last b \<and>
     block_get c b' (block_length b) (of_nat (length bytes)) = Some (0, map Some bytes) \<and>
     block_get c b' 0 (block_length b) = Some (0, block_cells b)"
proof -
  obtain b' where b': "block_append b bytes = Some b'" "block_ok c b'"
    "block_cells b' = block_cells b @ map Some bytes" "block_is_last b' = block_is_last b"
    using block_append_room [OF ok room] by blast
  have len: "length (block_cells b) = unat (block_length b)"
    using length_block_cells [OF ok] by (simp add: block_length_def)
  have n: "unat (of_nat (length bytes) :: size_t) = length bytes"
    using room unat_size_bound [of "block_max c"] by (intro unat_of_nat_size) simp
  have "unat (blk_len b') = unat (block_length b) + length bytes"
    using length_block_cells [OF b'(2)] b'(3) len by simp
  then show ?thesis
    using b' len n by (intro exI [of _ b']) (simp add: block_get_data)
qed

theorem block_append_get_witness:
  "block_get (kconfig_default 4) (the (block_append (the (snd (block_alloc (kconfig_default 4) Map.empty (Some 0) None) 0)) [7, 9])) 0 2
   = Some (0, [Some 7, Some 9])"
proof -
  define b where "b = the (snd (block_alloc (kconfig_default 4) Map.empty (Some 0) None) 0)"
  have ok: "block_ok (kconfig_default 4) b"
    by (simp add: b_def block_alloc_def block_ok_def block_cells_def kconfig_default_def)
  have len: "block_length b = 0" "blk_len b = 0"
    by (simp_all add: b_def block_alloc_def block_length_def)
  have "unat (blk_len b) + length [7, 9 :: byte] \<le> unat (block_max (kconfig_default 4))"
    using len by (simp add: kconfig_default_def)
  from block_append_get [OF ok this] show ?thesis
    using len by (auto simp: b_def [symmetric])
qed

text \<open>Where the sum of offset and length wraps, the check lets the request through.\<close>

lemma block_get_fault:
  assumes ok: "block_ok c b"
  shows "block_get c b off n = None \<longleftrightarrow>
      2 ^ 32 \<le> unat off + unat n \<and> unat off + unat n - 2 ^ 32 \<le> unat (block_max c)"
proof -
  have l: "length (blk_data b) = unat (block_max c)" using ok by (simp add: block_ok_def)
  have bounds: "unat off < 2 ^ 32" "unat n < 2 ^ 32" "unat (block_max c) < 2 ^ 32"
    by (rule unat_size_bound)+
  have wrap: "unat (off + n) = unat off + unat n - 2 ^ 32" if "2 ^ 32 \<le> unat off + unat n"
    using that bounds by (simp add: unat_word_ariths(1) mod_if)
  show ?thesis
  proof (cases "2 ^ 32 \<le> unat off + unat n")
    case True
    then have "length (blk_data b) < unat off + unat n" using l bounds by simp
    then show ?thesis using wrap [OF True] True
      by (simp add: block_get_def memcpy_from_fault word_less_nat_alt not_less)
  next
    case False
    then have "unat (off + n) = unat off + unat n" by (intro unat_plus_size) simp
    then show ?thesis using False l
      by (simp add: block_get_def word_less_nat_alt not_less)
  qed
qed



end
