(* ===== verification/Ownership.thy ===== *)
theory Ownership
  imports Gateway_Prelude
begin

text \<open>
  Contexts that own heap objects. The downlink contexts own slab blocks, the uplinks own
  malloc'ed blocks; in both, every live context is well-formed, no object belongs to two
  contexts, and the store holds exactly the objects that are owned, so nothing leaks and
  nothing dangles. The locale states what the components rely on (well-formedness depends
  on the owned objects only) and proves once that an operation that replaces one context
  keeps the invariant and the frame.
\<close>

section \<open>The invariant\<close>

definition own_inv ::
  "('c \<Rightarrow> addr list) \<Rightarrow> ('o store \<Rightarrow> 'c \<Rightarrow> bool) \<Rightarrow> 'o store \<Rightarrow> 'c store \<Rightarrow> bool" where
  "own_inv owned good s cs \<longleftrightarrow>
     (\<forall>p d. cs p = Some d \<longrightarrow> good s d) \<and>
     (\<forall>p q d e. cs p = Some d \<longrightarrow> cs q = Some e \<longrightarrow> p \<noteq> q \<longrightarrow> set (owned d) \<inter> set (owned e) = {}) \<and>
     (\<forall>a. a \<in> dom s \<longleftrightarrow> (\<exists>p d. cs p = Some d \<and> a \<in> set (owned d)))"

text \<open>What a slot of the context store owns.\<close>

definition slot_owned :: "('c \<Rightarrow> addr list) \<Rightarrow> 'c option \<Rightarrow> addr set" where
  "slot_owned owned v = (case v of None \<Rightarrow> {} | Some d \<Rightarrow> set (owned d))"

lemma slot_owned_simps [simp]:
  "slot_owned owned None = {}" "slot_owned owned (Some d) = set (owned d)"
  by (simp_all add: slot_owned_def)

lemma own_inv_empty: "own_inv owned good Map.empty Map.empty"
  by (simp add: own_inv_def)

lemma own_inv_good: "own_inv owned good s cs \<Longrightarrow> cs p = Some d \<Longrightarrow> good s d"
  by (simp add: own_inv_def)

lemma own_inv_disjoint:
  "own_inv owned good s cs \<Longrightarrow> p \<noteq> q \<Longrightarrow> slot_owned owned (cs p) \<inter> slot_owned owned (cs q) = {}"
  by (cases "cs p"; cases "cs q") (simp_all add: own_inv_def)

lemma own_inv_dom: "own_inv owned good s cs \<Longrightarrow> a \<in> dom s \<longleftrightarrow> (\<exists>p. a \<in> slot_owned owned (cs p))"
  unfolding own_inv_def slot_owned_def by (fastforce split: option.splits)

lemma own_inv_live:
  "own_inv owned good s cs \<Longrightarrow> cs p = Some d \<Longrightarrow> a \<in> set (owned d) \<Longrightarrow> s a \<noteq> None"
  using own_inv_dom [of owned good s cs a] by (force intro: exI [of _ p])

lemma own_invI:
  assumes "\<And>p d. cs p = Some d \<Longrightarrow> good s d"
    and "\<And>p q. p \<noteq> q \<Longrightarrow> slot_owned owned (cs p) \<inter> slot_owned owned (cs q) = {}"
    and "\<And>a. a \<in> dom s \<longleftrightarrow> (\<exists>p. a \<in> slot_owned owned (cs p))"
  shows "own_inv owned good s cs"
  unfolding own_inv_def
proof (intro conjI allI impI)
  show "good s d" if "cs p = Some d" for p d using assms(1) [OF that] .
  show "set (owned d) \<inter> set (owned e) = {}" if "cs p = Some d" "cs q = Some e" "p \<noteq> q" for p q d e
    using assms(2) [OF that(3)] that by simp
  show "a \<in> dom s \<longleftrightarrow> (\<exists>p d. cs p = Some d \<and> a \<in> set (owned d))" for a
    using assms(3) [of a] by (auto simp: slot_owned_def split: option.splits)
qed

text \<open>Every context other than the one at \<open>p\<close> and every object it owns are untouched.\<close>

definition own_frame ::
  "('c \<Rightarrow> addr list) \<Rightarrow> addr \<Rightarrow> 'o store \<Rightarrow> 'c store \<Rightarrow> 'o store \<Rightarrow> 'c store \<Rightarrow> bool" where
  "own_frame owned p s cs s' cs' \<longleftrightarrow>
     (\<forall>q. q \<noteq> p \<longrightarrow> cs' q = cs q \<and> (\<forall>a \<in> slot_owned owned (cs q). s' a = s a))"

lemma own_frame_refl [simp]: "own_frame owned p s cs s cs"
  by (simp add: own_frame_def)

lemma own_frameD:
  assumes "own_frame owned p s cs s' cs'" and "q \<noteq> p"
  shows "cs' q = cs q" and "cs q = Some d \<Longrightarrow> a \<in> set (owned d) \<Longrightarrow> s' a = s a"
  using assms by (auto simp: own_frame_def)

lemma own_frame_trans:
  assumes "own_frame owned p s cs s1 cs1" and "own_frame owned p s1 cs1 s2 cs2"
  shows "own_frame owned p s cs s2 cs2"
  using assms by (simp add: own_frame_def)

lemma own_frame_upd: "own_frame owned p s cs s (cs(p := v))"
  by (simp add: own_frame_def)

section \<open>The interface and its lemmas\<close>

locale ownership =
  fixes owned :: "'c \<Rightarrow> addr list" and good :: "'o store \<Rightarrow> 'c \<Rightarrow> bool"
  assumes good_cong: "good s d \<Longrightarrow> (\<And>a. a \<in> set (owned d) \<Longrightarrow> s' a = s a) \<Longrightarrow> good s' d"
begin

text \<open>Replacing the context at \<open>p\<close> by \<open>v\<close>: the store may change only at objects of the
  old or the new context, what the new one gains was not in use, and what the old one
  loses is freed.\<close>

lemma replace_keeps:
  assumes inv: "own_inv owned good s cs"
    and frame: "\<And>a. a \<notin> slot_owned owned (cs p) \<Longrightarrow> a \<notin> slot_owned owned v \<Longrightarrow> s' a = s a"
    and fresh: "\<And>a. a \<in> slot_owned owned v \<Longrightarrow> a \<notin> slot_owned owned (cs p) \<Longrightarrow> s a = None"
    and live: "\<And>a. a \<in> slot_owned owned v \<Longrightarrow> s' a \<noteq> None"
    and freed: "\<And>a. a \<in> slot_owned owned (cs p) \<Longrightarrow> a \<notin> slot_owned owned v \<Longrightarrow> s' a = None"
    and good: "\<And>d. v = Some d \<Longrightarrow> good s' d"
  shows "own_inv owned good s' (cs(p := v))" and "own_frame owned p s cs s' (cs(p := v))"
proof -
  have apart: "a \<notin> slot_owned owned (cs p) \<and> a \<notin> slot_owned owned v"
    if "a \<in> slot_owned owned (cs q)" "q \<noteq> p" for a q
  proof -
    have "s a \<noteq> None" using own_inv_dom [OF inv, of a] that by auto
    moreover have "a \<notin> slot_owned owned (cs p)" using own_inv_disjoint [OF inv that(2)] that(1) by blast
    ultimately show ?thesis using fresh [of a] by auto
  qed
  have same: "s' a = s a" if "a \<in> slot_owned owned (cs q)" "q \<noteq> p" for a q
    using apart [OF that] frame by blast
  show "own_frame owned p s cs s' (cs(p := v))" using same by (simp add: own_frame_def)
  show "own_inv owned good s' (cs(p := v))"
  proof (rule own_invI)
    show "good s' d" if "(cs(p := v)) q = Some d" for q d
    proof (cases "q = p")
      case True
      then show ?thesis using that good by simp
    next
      case False
      with that have "cs q = Some d" by simp
      with False same [of _ q] show ?thesis using good_cong [OF own_inv_good [OF inv]] by simp
    qed
    show "slot_owned owned ((cs(p := v)) q) \<inter> slot_owned owned ((cs(p := v)) r) = {}" if "q \<noteq> r" for q r
      using that apart own_inv_disjoint [OF inv, of q r] by (cases "q = p"; cases "r = p") auto
    show "a \<in> dom s' \<longleftrightarrow> (\<exists>q. a \<in> slot_owned owned ((cs(p := v)) q))" for a
    proof (cases "\<exists>q. q \<noteq> p \<and> a \<in> slot_owned owned (cs q)")
      case True
      then obtain q where q: "q \<noteq> p" "a \<in> slot_owned owned (cs q)" by blast
      then have "s' a \<noteq> None" using same [OF q(2,1)] own_inv_dom [OF inv, of a] by auto
      then show ?thesis using q by (auto intro!: exI [of _ q])
    next
      case False
      then have "(\<exists>q. a \<in> slot_owned owned ((cs(p := v)) q)) \<longleftrightarrow> a \<in> slot_owned owned v"
        by (auto split: if_splits intro: exI [of _ p])
      moreover have "s a \<noteq> None \<longleftrightarrow> a \<in> slot_owned owned (cs p)"
        using own_inv_dom [OF inv, of a] False by auto
      ultimately show ?thesis using live [of a] freed [of a] frame [of a] by auto
    qed
  qed
qed

text \<open>The shapes the operations use: a context that keeps its objects (whose contents may
  change), one that frees a prefix of them, one that takes a new one, one that goes, and a
  new one that owns nothing yet or a single object.\<close>

lemma same_keeps:
  assumes "own_inv owned good s cs" and "cs p = Some d" and "set (owned d') = set (owned d)" and "good s d'"
  shows "own_inv owned good s (cs(p \<mapsto> d'))"
  using assms own_inv_live [OF assms(1,2)] by (intro replace_keeps(1)) auto

lemma drop_keeps:
  assumes inv: "own_inv owned good s cs" and d: "cs p = Some d"
    and own: "set (owned d) = X \<union> set (owned d')" "X \<inter> set (owned d') = {}"
    and good: "good (s |` (- X)) d'"
  shows "own_inv owned good (s |` (- X)) (cs(p \<mapsto> d'))"
    and "own_frame owned p s cs (s |` (- X)) (cs(p \<mapsto> d'))"
proof -
  note live = own_inv_live [OF inv d]
  show "own_inv owned good (s |` (- X)) (cs(p \<mapsto> d'))"
    and "own_frame owned p s cs (s |` (- X)) (cs(p \<mapsto> d'))"
    using assms live by (intro replace_keeps [OF inv]; force simp: restrict_map_def)+
qed

lemma extend_keeps:
  assumes inv: "own_inv owned good s cs" and d: "cs p = Some d" and a: "s a = None"
    and own: "set (owned d') = insert a (set (owned d))" and good: "good (s(a \<mapsto> b)) d'"
  shows "own_inv owned good (s(a \<mapsto> b)) (cs(p \<mapsto> d'))"
    and "own_frame owned p s cs (s(a \<mapsto> b)) (cs(p \<mapsto> d'))"
proof -
  note live = own_inv_live [OF inv d]
  show "own_inv owned good (s(a \<mapsto> b)) (cs(p \<mapsto> d'))"
    and "own_frame owned p s cs (s(a \<mapsto> b)) (cs(p \<mapsto> d'))"
    using assms live by (intro replace_keeps [OF inv]; force split: if_splits)+
qed

lemma write_keeps:
  assumes inv: "own_inv owned good s cs" and d: "cs p = Some d" and a: "a \<in> set (owned d)"
    and own: "set (owned d') = set (owned d)" and good: "good (s(a \<mapsto> b)) d'"
  shows "own_inv owned good (s(a \<mapsto> b)) (cs(p \<mapsto> d'))"
    and "own_frame owned p s cs (s(a \<mapsto> b)) (cs(p \<mapsto> d'))"
proof -
  note live = own_inv_live [OF inv d]
  show "own_inv owned good (s(a \<mapsto> b)) (cs(p \<mapsto> d'))"
    and "own_frame owned p s cs (s(a \<mapsto> b)) (cs(p \<mapsto> d'))"
    using assms live by (intro replace_keeps [OF inv]; force split: if_splits)+
qed

lemma remove_keeps:
  assumes inv: "own_inv owned good s cs" and d: "cs p = Some d"
  shows "own_inv owned good (s |` (- set (owned d))) (cs(p := None))"
    and "own_frame owned p s cs (s |` (- set (owned d))) (cs(p := None))"
  using assms by (intro replace_keeps [OF inv]; simp add: restrict_map_def)+

lemma new_keeps:
  assumes inv: "own_inv owned good s cs" and p: "cs p = None"
    and own: "owned d = []" and good: "good s d"
  shows "own_inv owned good s (cs(p \<mapsto> d))"
    and "own_frame owned p s cs s (cs(p \<mapsto> d))"
  using assms by (intro replace_keeps [OF inv]; simp)+

lemma new_with_keeps:
  assumes inv: "own_inv owned good s cs" and p: "cs p = None" and a: "s a = None"
    and own: "owned d = [a]" and good: "good (s(a \<mapsto> b)) d"
  shows "own_inv owned good (s(a \<mapsto> b)) (cs(p \<mapsto> d))"
    and "own_frame owned p s cs (s(a \<mapsto> b)) (cs(p \<mapsto> d))"
  using assms by (intro replace_keeps [OF inv]; force split: if_splits)+

end

end
