(* ===== verification/Downlink.thy ===== *)
theory Downlink
  imports Block Ownership
begin

text \<open>
  The downlink of \<open>lib/downlink.c\<close>: the cloud client pushes blocks into a context
  (\<open>pouch_gateway_downlink_block_cb\<close>, \<open>pouch_gateway_downlink_end_cb\<close>) and the
  Bluetooth transport pulls byte chunks out of it (\<open>pouch_gateway_downlink_get_data\<close>).
  A context holds a FIFO of slab blocks, the block being read and the offset in it, and
  four flags. The slab and the contexts are two stores of one memory; a call of the
  \<open>data_available\<close> callback, always the last thing an operation does, is a boolean of the
  result. What \<open>malloc\<close> and the slab return are arguments.
\<close>

section \<open>Data\<close>

record dl_ctx =
  dl_cb_arg :: nat
  dl_queue :: "addr list"
  dl_current :: ptr
  dl_offset :: size_t
  dl_complete :: bool
  dl_aborted :: bool
  dl_waiting :: bool
  dl_coap_error :: bool

record dl_mem =
  slab :: slab
  ctxs :: "dl_ctx store"

section \<open>Operations\<close>

fun fifo_get :: "addr list \<Rightarrow> ptr \<times> addr list" where
  "fifo_get [] = (None, [])"
| "fifo_get (a # q) = (Some a, q)"

definition fifo_put :: "addr list \<Rightarrow> addr \<Rightarrow> addr list" where
  "fifo_put q a = q @ [a]"

fun flush_block_queue :: "slab \<Rightarrow> addr list \<Rightarrow> slab option" where
  "flush_block_queue s [] = Some s"
| "flush_block_queue s (a # q) = do { s' \<leftarrow> block_free s a; flush_block_queue s' q }"

definition downlink_is_complete :: "dl_ctx \<Rightarrow> bool" where
  "downlink_is_complete d = dl_complete d"

definition dl_ctx_init :: "nat \<Rightarrow> dl_ctx" where
  "dl_ctx_init arg =
     \<lparr>dl_cb_arg = arg, dl_queue = [], dl_current = None, dl_offset = 0, dl_complete = False,
      dl_aborted = False, dl_waiting = True, dl_coap_error = False\<rparr>"

definition downlink_open :: "ptr \<Rightarrow> nat \<Rightarrow> dl_mem \<Rightarrow> ptr \<times> dl_mem" where
  "downlink_open p arg m =
     (case p of
        None \<Rightarrow> (None, m)
      | Some a \<Rightarrow> (Some a, m\<lparr>ctxs := (ctxs m)(a \<mapsto> dl_ctx_init arg)\<rparr>))"

definition downlink_close :: "ptr \<Rightarrow> dl_mem \<Rightarrow> dl_mem option" where
  "downlink_close p m = do {
     d \<leftarrow> deref (ctxs m) p;
     s \<leftarrow> flush_block_queue (slab m) (dl_queue d);
     s' \<leftarrow> heap_free s (dl_current d);
     cs \<leftarrow> heap_free (ctxs m) p;
     Some (m\<lparr>slab := s', ctxs := cs\<rparr>) }"

definition downlink_abort :: "ptr \<Rightarrow> dl_mem \<Rightarrow> dl_mem option" where
  "downlink_abort p m = do {
     a \<leftarrow> p;
     d \<leftarrow> ctxs m a;
     let d' = d\<lparr>dl_aborted := True\<rparr>;
     let m' = m\<lparr>ctxs := (ctxs m)(a \<mapsto> d')\<rparr>;
     if downlink_is_complete d' then downlink_close p m' else Some m' }"

text \<open>\<open>pouch_gateway_downlink_block_cb\<close>; the boolean says whether the
  \<open>data_available\<close> callback ran.\<close>

definition downlink_block_cb ::
  "config \<Rightarrow> addr \<Rightarrow> ptr \<Rightarrow> byte list \<Rightarrow> bool \<Rightarrow> dl_mem \<Rightarrow> (golioth_status \<times> bool \<times> dl_mem) option" where
  "downlink_block_cb c arg slot bytes is_last m = do {
     d \<leftarrow> ctxs m arg;
     if dl_aborted d then Some (GOLIOTH_ERR_NACK, False, m)
     else (case block_alloc c (slab m) slot None of
         (None, s) \<Rightarrow> Some (GOLIOTH_ERR_MEM_ALLOC, False, m)
       | (Some a, s) \<Rightarrow> do {
           b \<leftarrow> s a;
           b1 \<leftarrow> block_append b bytes;
           let b2 = (if is_last then block_mark_last b1 else b1);
           let d1 = d\<lparr>dl_queue := fifo_put (dl_queue d) a\<rparr>;
           let notify = (dl_current d1 = None \<and> dl_waiting d1);
           let d2 = (if dl_current d1 = None then d1\<lparr>dl_waiting := False\<rparr> else d1);
           Some (GOLIOTH_OK, notify, m\<lparr>slab := s(a \<mapsto> b2), ctxs := (ctxs m)(arg \<mapsto> d2)\<rparr>) }) }"

definition downlink_end_cb ::
  "golioth_status \<Rightarrow> addr \<Rightarrow> dl_mem \<Rightarrow> (bool \<times> dl_mem) option" where
  "downlink_end_cb status arg m =
     (if status \<noteq> GOLIOTH_OK then do {
        d \<leftarrow> ctxs m arg;
        if dl_aborted d
        then do { m' \<leftarrow> downlink_close (Some arg) m; Some (False, m') }
        else do {
          let d1 = d\<lparr>dl_coap_error := True\<rparr>;
          let notify = (dl_current d1 = None \<and> dl_waiting d1);
          let d2 = (if dl_current d1 = None then d1\<lparr>dl_waiting := False\<rparr> else d1);
          Some (notify, m\<lparr>ctxs := (ctxs m)(arg \<mapsto> d2)\<rparr>) } }
      else Some (False, m))"

text \<open>The loop of \<open>pouch_gateway_downlink_get_data\<close>: \<open>n\<close> is what is left of
  \<open>*dst_len\<close>, \<open>out\<close> the bytes copied so far (\<open>total_bytes_copied\<close> is its length)
  and \<open>il\<close> the caller's \<open>*is_last\<close>. A failed \<open>block_get\<close> is ignored, as in the code,
  and leaves the destination unwritten.\<close>

function dl_get_loop ::
  "config \<Rightarrow> slab \<Rightarrow> dl_ctx \<Rightarrow> size_t \<Rightarrow> bool \<Rightarrow> cell list \<Rightarrow>
   (int \<times> cell list \<times> bool \<times> dl_ctx \<times> slab) option" where
  "dl_get_loop c s d n il out =
     (if n = 0 then Some (0, out, il, d, s)
      else (case (case dl_current d of Some a \<Rightarrow> (Some a, dl_queue d) | None \<Rightarrow> fifo_get (dl_queue d)) of
          (None, q) \<Rightarrow>
            let d0 = d\<lparr>dl_current := None, dl_queue := q\<rparr> in
            if dl_coap_error d0 then Some (0, out, True, d0\<lparr>dl_complete := True\<rparr>, s)
            else if out = [] then Some (- EAGAIN, out, il, d0\<lparr>dl_waiting := True\<rparr>, s)
            else Some (- EAGAIN, out, il, d0, s)
        | (Some a, q) \<Rightarrow> (case s a of None \<Rightarrow> None | Some b \<Rightarrow>
            let k = min n (block_length b - dl_offset d) in
            (case block_get c b (dl_offset d) k of None \<Rightarrow> None | Some (err, cs) \<Rightarrow>
              let out1 = out @ (if err = 0 then cs else replicate (unat k) None);
                  d1 = d\<lparr>dl_current := Some a, dl_queue := q, dl_offset := dl_offset d + k\<rparr> in
              if block_length b = dl_offset d1 then
                (case block_free s a of None \<Rightarrow> None | Some s1 \<Rightarrow>
                  let (cur, q1) = fifo_get q;
                      d2 = d1\<lparr>dl_offset := 0, dl_current := cur, dl_queue := q1\<rparr> in
                  if block_is_last b then Some (0, out1, True, d2\<lparr>dl_complete := True\<rparr>, s1)
                  else dl_get_loop c s1 d2 (n - k) False out1)
              else dl_get_loop c s d1 (n - k) il out1))))"
  by pat_completeness auto

text \<open>The loop ends: an iteration that copies bytes shrinks \<open>*dst_len\<close>, and one that
  copies none has found an exhausted block and drops it.\<close>

definition dl_owned :: "dl_ctx \<Rightarrow> addr list" where
  "dl_owned d = (case dl_current d of None \<Rightarrow> [] | Some a \<Rightarrow> [a]) @ dl_queue d"

lemma dl_next_block:
  "(case dl_current d of Some a \<Rightarrow> (Some a, dl_queue d) | None \<Rightarrow> fifo_get (dl_queue d)) = (p, q) \<Longrightarrow>
   dl_owned d = (case p of None \<Rightarrow> [] | Some a \<Rightarrow> [a]) @ q"
  by (cases "dl_queue d") (auto simp: dl_owned_def split: option.splits)

lemma dl_owned_fifo_get [simp]:
  "fifo_get q = (p, q') \<Longrightarrow> dl_owned (d\<lparr>dl_current := p, dl_queue := q'\<rparr>) = q"
  by (cases q) (auto simp: dl_owned_def)

lemma copy_progress:
  fixes n :: "'a::len word"
  assumes "\<not> unat (n - k) < unat n" and "k = min n m" and "n \<noteq> 0"
  shows "m = 0"
proof -
  have "unat n - min (unat n) (unat m) = unat n - unat k"
    using assms(2) by (simp add: unat_min_word)
  also have "\<dots> = unat (n - k)" using assms(2) by (simp add: unat_diff_word)
  finally have "unat m = 0"
    using assms word_neq_0_unat [of n] by linarith
  then show ?thesis by (simp add: unat_eq_zero)
qed

lemma dl_owned_next:
  "(Some a, q) = (case dl_current d of Some a \<Rightarrow> (Some a, dl_queue d) | None \<Rightarrow> fifo_get (dl_queue d)) \<Longrightarrow>
   dl_owned d = a # q"
  using dl_next_block [of d "Some a" q] by simp

termination dl_get_loop
proof (relation "measures [\<lambda>(c, s, d, n, il, out). unat n, \<lambda>(c, s, d, n, il, out). length (dl_owned d)]",
       goal_cases)
  case 1
  show ?case by simp
next
  case 2
  then show ?case by (auto dest!: dl_owned_next dest: copy_progress)
next
  case 3
  then show ?case by (auto dest: copy_progress)
qed

declare dl_get_loop.simps [simp del]

definition downlink_get_data ::
  "config \<Rightarrow> addr \<Rightarrow> size_t \<Rightarrow> dl_mem \<Rightarrow>
   (int \<times> size_t \<times> cell list \<times> bool \<times> dl_mem) option" where
  "downlink_get_data c arg dst_len m = do {
     d \<leftarrow> ctxs m arg;
     if downlink_is_complete d then Some (- ENODATA, dst_len, [], False, m)
     else do {
       (ret, out, il, d', s') \<leftarrow> dl_get_loop c (slab m) d dst_len False [];
       Some (ret, of_nat (length out), out, il, m\<lparr>slab := s', ctxs := (ctxs m)(arg \<mapsto> d')\<rparr>) } }"

section \<open>The abstract reader\<close>

text \<open>What a context holds, abstractly, is a list of segments: the unread cells of each
  block with its last-block flag. \<open>seg_read n\<close> reads up to \<open>n\<close> cells of it, stopping
  behind a segment marked last; it returns the cells, whether the last segment ended, and
  what is left.\<close>

type_synonym segs = "(cell list \<times> bool) list"

fun seg_read :: "nat \<Rightarrow> segs \<Rightarrow> cell list \<times> bool \<times> segs" where
  "seg_read n [] = ([], False, [])"
| "seg_read n ((cs, l) # ss) =
     (if n = 0 then ([], False, (cs, l) # ss)
      else if length cs \<le> n then
        (if l then (cs, True, ss)
         else (case seg_read (n - length cs) ss of (o', e, r) \<Rightarrow> (cs @ o', e, r)))
      else (take n cs, False, (drop n cs, l) # ss))"

definition segs_stream :: "segs \<Rightarrow> cell list" where
  "segs_stream ss = concat (map fst ss)"

lemma segs_stream_simps [simp]:
  "segs_stream [] = []" "segs_stream (x # ss) = fst x @ segs_stream ss"
  "segs_stream (ss @ ss') = segs_stream ss @ segs_stream ss'"
  by (simp_all add: segs_stream_def)

text \<open>Reading splits the stream, never exceeds the request, and is short only at the end
  of the segments or behind the last one.\<close>

lemma seg_read_stream: "seg_read n ss = (x, e, r) \<Longrightarrow> segs_stream ss = x @ segs_stream r"
  by (induction n ss arbitrary: x e r rule: seg_read.induct)
     (auto split: if_splits prod.splits)

lemma seg_read_length: "seg_read n ss = (x, e, r) \<Longrightarrow> length x \<le> n"
  by (induction n ss arbitrary: x e r rule: seg_read.induct)
     (fastforce split: if_splits prod.splits)+

lemma seg_read_short: "seg_read n ss = (x, e, r) \<Longrightarrow> length x < n \<Longrightarrow> e \<or> r = []"
  by (induction n ss arbitrary: x e r rule: seg_read.induct)
     (fastforce split: if_splits prod.splits)+

lemma seg_read_0: "seg_read 0 ss = ([], False, ss)"
  by (cases ss) auto

text \<open>The segments of a context, and when it is well-formed: its blocks are distinct, live
  and well-formed, and the offset is inside the current block (0 without one).\<close>

definition blk_seg :: "slab \<Rightarrow> addr \<Rightarrow> cell list \<times> bool" where
  "blk_seg s a = (case s a of None \<Rightarrow> ([], False) | Some b \<Rightarrow> (block_cells b, block_is_last b))"

definition dl_segs :: "slab \<Rightarrow> dl_ctx \<Rightarrow> segs" where
  "dl_segs s d =
     (case dl_current d of
        None \<Rightarrow> []
      | Some a \<Rightarrow> [(drop (unat (dl_offset d)) (fst (blk_seg s a)), snd (blk_seg s a))])
     @ map (blk_seg s) (dl_queue d)"

definition dl_stream :: "slab \<Rightarrow> dl_ctx \<Rightarrow> cell list" where
  "dl_stream s d = segs_stream (dl_segs s d)"

definition dl_ok :: "config \<Rightarrow> slab \<Rightarrow> dl_ctx \<Rightarrow> bool" where
  "dl_ok c s d \<longleftrightarrow>
     distinct (dl_owned d) \<and>
     list_all (\<lambda>a. case s a of None \<Rightarrow> False | Some b \<Rightarrow> block_ok c b) (dl_owned d) \<and>
     (case dl_current d of
        None \<Rightarrow> dl_offset d = 0
      | Some a \<Rightarrow> (case s a of None \<Rightarrow> False | Some b \<Rightarrow> dl_offset d \<le> block_length b))"

lemma blk_seg_upd [simp]: "a \<noteq> a' \<Longrightarrow> blk_seg (s(a' := v)) a = blk_seg s a"
  by (simp add: blk_seg_def)

lemma dl_segs_upd [simp]: "a \<notin> set (dl_owned d) \<Longrightarrow> dl_segs (s(a := v)) d = dl_segs s d"
  by (auto simp: dl_segs_def dl_owned_def blk_seg_def split: option.splits)

lemma dl_ok_owned:
  "dl_ok c s d \<Longrightarrow> a \<in> set (dl_owned d) \<Longrightarrow> \<exists>b. s a = Some b \<and> block_ok c b"
  by (auto simp: dl_ok_def list_all_iff split: option.splits)

lemma dl_ok_upd:
  "dl_ok c s d \<Longrightarrow> a \<notin> set (dl_owned d) \<Longrightarrow> dl_ok c (s(a := v)) d"
  by (auto simp: dl_ok_def list_all_iff dl_owned_def split: option.splits)

text \<open>The flags do not matter for these.\<close>

lemma dl_owned_flags [simp]:
  "dl_owned (d\<lparr>dl_complete := x\<rparr>) = dl_owned d" "dl_owned (d\<lparr>dl_aborted := x\<rparr>) = dl_owned d"
  "dl_owned (d\<lparr>dl_waiting := x\<rparr>) = dl_owned d" "dl_owned (d\<lparr>dl_coap_error := x\<rparr>) = dl_owned d"
  by (simp_all add: dl_owned_def)

lemma dl_segs_flags [simp]:
  "dl_segs s (d\<lparr>dl_complete := x\<rparr>) = dl_segs s d" "dl_segs s (d\<lparr>dl_aborted := x\<rparr>) = dl_segs s d"
  "dl_segs s (d\<lparr>dl_waiting := x\<rparr>) = dl_segs s d" "dl_segs s (d\<lparr>dl_coap_error := x\<rparr>) = dl_segs s d"
  by (simp_all add: dl_segs_def split: option.split)

lemma dl_ok_flags [simp]:
  "dl_ok c s (d\<lparr>dl_complete := x\<rparr>) = dl_ok c s d" "dl_ok c s (d\<lparr>dl_aborted := x\<rparr>) = dl_ok c s d"
  "dl_ok c s (d\<lparr>dl_waiting := x\<rparr>) = dl_ok c s d" "dl_ok c s (d\<lparr>dl_coap_error := x\<rparr>) = dl_ok c s d"
  by (simp_all add: dl_ok_def split: option.split)

section \<open>The reading loop refines the abstract reader\<close>

text \<open>The block the loop works on: it is live and well-formed, the offset lies in it and
  the rest of the queue is a well-formed context without it.\<close>

lemma dl_focus:
  assumes ok: "dl_ok c s d"
    and nxt: "(case dl_current d of Some a \<Rightarrow> (Some a, dl_queue d) | None \<Rightarrow> fifo_get (dl_queue d)) = (Some a, q)"
  obtains b where "s a = Some b" "block_ok c b" "dl_offset d \<le> block_length b" "a \<notin> set q" "distinct q"
    "dl_owned d = a # q"
    "dl_segs s d = (drop (unat (dl_offset d)) (block_cells b), block_is_last b) # map (blk_seg s) q"
    "list_all (\<lambda>a. case s a of None \<Rightarrow> False | Some b \<Rightarrow> block_ok c b) q"
proof -
  have own: "dl_owned d = a # q" using dl_next_block [OF nxt] by simp
  then obtain b where b: "s a = Some b" "block_ok c b" using dl_ok_owned [OF ok, of a] by auto
  have shape: "dl_current d = Some a \<and> dl_queue d = q \<or> dl_current d = None \<and> dl_queue d = a # q"
    using nxt by (cases "dl_queue d") (auto split: option.splits)
  have off: "dl_offset d \<le> block_length b"
    using ok shape b by (auto simp: dl_ok_def)
  have "dl_segs s d = (drop (unat (dl_offset d)) (block_cells b), block_is_last b) # map (blk_seg s) q"
    using ok shape b by (auto simp: dl_ok_def dl_segs_def blk_seg_def)
  with that own b off ok show ?thesis by (auto simp: dl_ok_def)
qed

lemma dl_fifo_segs:
  "fifo_get q = (cur, q1) \<Longrightarrow>
   dl_segs s (d\<lparr>dl_offset := 0, dl_current := cur, dl_queue := q1, dl_complete := x\<rparr>) = map (blk_seg s) q"
  by (cases q) (auto simp: dl_segs_def)

lemma dl_fifo_ok:
  "fifo_get q = (cur, q1) \<Longrightarrow> distinct q \<Longrightarrow>
   list_all (\<lambda>a. case s a of None \<Rightarrow> False | Some b \<Rightarrow> block_ok c b) q \<Longrightarrow>
   dl_ok c s (d\<lparr>dl_offset := 0, dl_current := cur, dl_queue := q1\<rparr>)"
  by (cases q) (auto simp: dl_ok_def dl_owned_def split: option.splits)

lemma dl_rest_ok:
  "list_all (\<lambda>a. case s a of None \<Rightarrow> False | Some b \<Rightarrow> block_ok c b) q \<Longrightarrow> a \<notin> set q \<Longrightarrow>
   list_all (\<lambda>x. case (s(a := v)) x of None \<Rightarrow> False | Some b \<Rightarrow> block_ok c b) q"
  by (auto simp: list_all_iff)

lemma map_blk_seg_upd: "a \<notin> set q \<Longrightarrow> map (blk_seg (s(a := v))) q = map (blk_seg s) q"
  by (induction q) auto

text \<open>What one run of the loop returns, given what the abstract reader returns: the
  segments are read, the exhausted blocks (and no others) are freed, and the flags and
  return code follow from whether the last segment ended and whether data ran short.\<close>

definition dl_loop_post ::
  "config \<Rightarrow> slab \<Rightarrow> dl_ctx \<Rightarrow> nat \<Rightarrow> cell list \<Rightarrow>
   int \<Rightarrow> cell list \<Rightarrow> bool \<Rightarrow> dl_ctx \<Rightarrow> slab \<Rightarrow> bool" where
  "dl_loop_post c s d n out ret out' il' d' s' \<longleftrightarrow>
     (case seg_read n (dl_segs s d) of (x, e, r) \<Rightarrow>
        let short = (\<not> e \<and> length x < n) in
        out' = out @ x \<and> dl_segs s' d' = r \<and> dl_ok c s' d' \<and>
        (\<exists>freed. dl_owned d = freed @ dl_owned d' \<and> s' = s |` (- set freed)) \<and>
        ret = (if short \<and> \<not> dl_coap_error d then - EAGAIN else 0) \<and>
        il' = (e \<or> short \<and> dl_coap_error d) \<and>
        dl_complete d' = (dl_complete d \<or> il') \<and>
        dl_waiting d' = (dl_waiting d \<or> short \<and> \<not> dl_coap_error d \<and> out' = []) \<and>
        dl_coap_error d' = dl_coap_error d \<and> dl_aborted d' = dl_aborted d \<and> dl_cb_arg d' = dl_cb_arg d)"

lemma dl_loop_post_stop: "dl_ok c s d \<Longrightarrow> dl_loop_post c s d 0 out 0 out False d s"
  by (simp add: dl_loop_post_def seg_read_0)

lemma dl_get_loop_0: "dl_get_loop c s d 0 il out = Some (0, out, il, d, s)"
  by (simp add: dl_get_loop.simps)

text \<open>The first iteration, in the three ways it can go.\<close>

lemma dl_iter_empty:
  assumes ok: "dl_ok c s d" and n: "n \<noteq> 0"
    and nxt: "(case dl_current d of Some a \<Rightarrow> (Some a, dl_queue d) | None \<Rightarrow> fifo_get (dl_queue d)) = (None, q)"
  shows "\<exists>ret out' il' d' s'. dl_get_loop c s d n False out = Some (ret, out', il', d', s') \<and>
           dl_loop_post c s d (unat n) out ret out' il' d' s'"
proof -
  have e: "dl_current d = None" "dl_queue d = []" "q = []"
    using nxt by (cases "dl_queue d"; auto split: option.splits)+
  have "d\<lparr>dl_current := None, dl_queue := []\<rparr> = d" using e by simp
  then have run: "dl_get_loop c s d n False out =
      (if dl_coap_error d then Some (0, out, True, d\<lparr>dl_complete := True\<rparr>, s)
       else if out = [] then Some (- EAGAIN, out, False, d\<lparr>dl_waiting := True\<rparr>, s)
       else Some (- EAGAIN, out, False, d, s))"
    using n e by (subst dl_get_loop.simps) (simp add: Let_def del: if_split)
  have "dl_segs s d = []" using e by (simp add: dl_segs_def)
  then show ?thesis
    using ok e word_neq_0_unat [OF n]
    by (simp add: run dl_loop_post_def)
qed

text \<open>What one iteration copies.\<close>

lemma copy_cells:
  assumes b: "block_ok c b" "off \<le> block_length b" and cs: "cs = drop (unat off) (block_cells b)"
    and k: "k = min n (block_length b - off)"
  shows "unat k = min (unat n) (length cs)" "block_get c b off k = Some (0, take (unat k) cs)"
    "block_length b = off + k \<longleftrightarrow> length cs \<le> unat n"
proof -
  have len: "length cs = unat (block_length b - off)"
    using b cs by (simp add: length_block_cells block_length_def unat_diff_word)
  show uk: "unat k = min (unat n) (length cs)" by (simp add: k len unat_min_word)
  have "unat off + unat k \<le> unat (blk_len b)"
    using b(2) by (simp add: uk len block_length_def unat_diff_word word_le_nat_alt)
  then show "block_get c b off k = Some (0, take (unat k) cs)"
    using block_get_data [OF b(1)] cs by simp
  have "block_length b = off + k \<longleftrightarrow> k = block_length b - off" by auto
  also have "\<dots> \<longleftrightarrow> unat k = length cs" by (simp add: len word_unat_eq_iff)
  finally show "block_length b = off + k \<longleftrightarrow> length cs \<le> unat n" by (auto simp: uk)
qed

lemma dl_iter_step:
  assumes n: "n \<noteq> 0"
    and nxt: "(case dl_current d of Some a \<Rightarrow> (Some a, dl_queue d) | None \<Rightarrow> fifo_get (dl_queue d)) = (Some a, q)"
    and b: "s a = Some b" "block_ok c b" "dl_offset d \<le> block_length b"
    and cs: "cs = drop (unat (dl_offset d)) (block_cells b)"
  shows "dl_get_loop c s d n il out =
     (if length cs \<le> unat n
      then let (cur, q1) = fifo_get q;
               d2 = d\<lparr>dl_offset := 0, dl_current := cur, dl_queue := q1\<rparr> in
           if block_is_last b then Some (0, out @ cs, True, d2\<lparr>dl_complete := True\<rparr>, s(a := None))
           else dl_get_loop c (s(a := None)) d2 (n - of_nat (length cs)) False (out @ cs)
      else Some (0, out @ take (unat n) cs, il,
                 d\<lparr>dl_current := Some a, dl_queue := q, dl_offset := dl_offset d + n\<rparr>, s))"
proof -
  define k where "k = min n (block_length b - dl_offset d)"
  note K = copy_cells [OF b(2,3) cs k_def]
  show ?thesis
  proof (cases "length cs \<le> unat n")
    case True
    then have u: "unat k = length cs" using K(1) by simp
    have "of_nat (length cs) = k" unfolding u [symmetric] by simp
    moreover have "min n k = k" by (simp add: k_def)
    ultimately show ?thesis
      using n nxt b(1) True K u
      by (subst dl_get_loop.simps) (simp add: Let_def k_def [symmetric] split: prod.split)
  next
    case False
    then have kn: "k = n" using K(1) by (simp add: word_unat_eq_iff)
    with False K show ?thesis
      using n nxt b(1)
      by (subst dl_get_loop.simps) (simp add: Let_def k_def [symmetric] dl_get_loop_0)
  qed
qed

lemma dl_loop_post_last:
  assumes ok: "dl_ok c s d" and own: "dl_owned d = a # q" and q: "a \<notin> set q" "distinct q"
    and segs: "dl_segs s d = (cs, True) # map (blk_seg s) q"
    and rest: "list_all (\<lambda>a. case s a of None \<Rightarrow> False | Some b \<Rightarrow> block_ok c b) q"
    and fifo: "fifo_get q = (cur, q1)" and n: "n \<noteq> 0" "length cs \<le> n"
  shows "dl_loop_post c s d n out 0 (out @ cs) True
    (d\<lparr>dl_offset := 0, dl_current := cur, dl_queue := q1, dl_complete := True\<rparr>) (s(a := None))"
proof -
  define d2 where "d2 = d\<lparr>dl_offset := 0, dl_current := cur, dl_queue := q1, dl_complete := True\<rparr>"
  have "dl_segs (s(a := None)) d2 = map (blk_seg s) q"
    using dl_fifo_segs [OF fifo] q by (simp add: d2_def map_blk_seg_upd)
  moreover have "dl_ok c (s(a := None)) d2"
    unfolding d2_def dl_ok_flags by (rule dl_fifo_ok [OF fifo q(2) dl_rest_ok [OF rest q(1)]])
  moreover have "dl_owned d2 = q"
    using fifo by (cases q) (auto simp: d2_def dl_owned_def)
  then have "\<exists>freed. dl_owned d = freed @ dl_owned d2 \<and> s(a := None) = s |` (- set freed)"
    using own by (intro exI [of _ "[a]"]) (simp add: upd_None_restrict)
  ultimately show ?thesis
    using segs n unfolding d2_def [symmetric] by (simp add: dl_loop_post_def) (simp add: d2_def)
qed

text \<open>Reading a whole non-last block and then the rest from the next one.\<close>

lemma dl_loop_post_more:
  assumes own: "dl_owned d = a # q"
    and segs: "dl_segs s d = (cs, False) # map (blk_seg s) q" and q: "a \<notin> set q"
    and fifo: "fifo_get q = (cur, q1)" and n: "n \<noteq> 0" "length cs \<le> n"
    and d2: "d2 = d\<lparr>dl_offset := 0, dl_current := cur, dl_queue := q1\<rparr>"
    and post: "dl_loop_post c (s(a := None)) d2 (n - length cs) (out @ cs) ret out' il' d' s'"
  shows "dl_loop_post c s d n out ret out' il' d' s'"
proof -
  have seg2: "dl_segs (s(a := None)) d2 = map (blk_seg s) q"
    using fifo q by (cases q) (auto simp: d2 dl_segs_def map_blk_seg_upd)
  obtain x e r where rd: "seg_read (n - length cs) (map (blk_seg s) q) = (x, e, r)"
    by (cases "seg_read (n - length cs) (map (blk_seg s) q)") auto
  have own2: "dl_owned d2 = q" using fifo by (cases q) (auto simp: d2 dl_owned_def)
  obtain freed where "q = freed @ dl_owned d'" "s' = (s(a := None)) |` (- set freed)"
    using post rd seg2 own2 by (auto simp: dl_loop_post_def Let_def)
  then have "dl_owned d = (a # freed) @ dl_owned d'" "s' = s |` (- set (a # freed))"
    using own by (auto simp: restrict_map_def fun_eq_iff)
  then have fr: "\<exists>freed. dl_owned d = freed @ dl_owned d' \<and> s' = s |` (- set freed)" by blast
  have "seg_read n (dl_segs s d) = (cs @ x, e, r)" using segs n rd by simp
  moreover have "(length (cs @ x) < n) = (length x < n - length cs)" using n by auto
  ultimately show ?thesis
    using post rd seg2 fr by (simp add: dl_loop_post_def d2)
qed

lemma dl_loop_post_part:
  assumes ok: "dl_ok c s d" and own: "dl_owned d = a # q" and q: "a \<notin> set q" "distinct q"
    and b: "s a = Some b" "block_ok c b" "dl_offset d \<le> block_length b"
    and cs: "cs = drop (unat (dl_offset d)) (block_cells b)"
    and segs: "dl_segs s d = (cs, block_is_last b) # map (blk_seg s) q"
    and n: "n \<noteq> 0" "\<not> length cs \<le> unat n"
  shows "dl_loop_post c s d (unat n) out 0 (out @ take (unat n) cs) False
    (d\<lparr>dl_current := Some a, dl_queue := q, dl_offset := dl_offset d + n\<rparr>) s"
proof -
  define d1 where "d1 = d\<lparr>dl_current := Some a, dl_queue := q, dl_offset := dl_offset d + n\<rparr>"
  have "length cs = unat (block_length b) - unat (dl_offset d)"
    using b cs by (simp add: length_block_cells block_length_def)
  with n have le: "unat (dl_offset d) + unat n \<le> unat (block_length b)" by simp
  then have off: "unat (dl_offset d + n) = unat (dl_offset d) + unat n"
    by (intro unat_plus_le_size) simp
  have "dl_segs s d1 = (drop (unat n) cs, block_is_last b) # map (blk_seg s) q"
    using b segs off cs ok by (simp add: d1_def dl_segs_def blk_seg_def add.commute)
  moreover have "dl_owned d1 = dl_owned d" using own by (simp add: d1_def dl_owned_def)
  moreover have "dl_ok c s d1"
    using ok calculation(2) b off le by (simp add: dl_ok_def d1_def word_le_nat_alt)
  ultimately show ?thesis
    using segs n word_neq_0_unat [OF n(1)] unfolding d1_def [symmetric]
    by (simp add: dl_loop_post_def) (simp add: d1_def)
qed

text \<open>The loop, on a well-formed context, never faults and does what the abstract reader
  does.\<close>

lemma dl_get_loop_correct:
  assumes "dl_ok c s d"
  shows "\<exists>ret out' il' d' s'. dl_get_loop c s d n False out = Some (ret, out', il', d', s') \<and>
           dl_loop_post c s d (unat n) out ret out' il' d' s'"
  using assms
proof (induction "length (dl_owned d)" arbitrary: s d n out rule: less_induct)
  case less
  show ?case
  proof (cases "n = 0")
    case True
    then show ?thesis using dl_loop_post_stop [OF less.prems, of out] by (auto simp: dl_get_loop_0)
  next
    case n: False
    obtain p q where nxt:
      "(case dl_current d of Some a \<Rightarrow> (Some a, dl_queue d) | None \<Rightarrow> fifo_get (dl_queue d)) = (p, q)"
      by (cases "case dl_current d of Some a \<Rightarrow> (Some a, dl_queue d) | None \<Rightarrow> fifo_get (dl_queue d)") auto
    show ?thesis
    proof (cases p)
      case None
      with nxt show ?thesis using dl_iter_empty [OF less.prems n] by simp
    next
      case (Some a)
      note nxt' = nxt [unfolded Some]
      obtain b where b: "s a = Some b" "block_ok c b" "dl_offset d \<le> block_length b"
        and q: "a \<notin> set q" "distinct q" and own: "dl_owned d = a # q"
        and segs: "dl_segs s d = (drop (unat (dl_offset d)) (block_cells b), block_is_last b) # map (blk_seg s) q"
        and rest: "list_all (\<lambda>a. case s a of None \<Rightarrow> False | Some b \<Rightarrow> block_ok c b) q"
        by (rule dl_focus [OF less.prems nxt'])
      define cs where "cs = drop (unat (dl_offset d)) (block_cells b)"
      note step = dl_iter_step [where c = c and s = s and d = d and n = n and a = a and q = q and b = b
        and cs = cs, OF n nxt' b cs_def]
      note segs' = segs [folded cs_def]
      obtain cur q1 where fifo: "fifo_get q = (cur, q1)" by fastforce
      define d2 where "d2 = d\<lparr>dl_offset := 0, dl_current := cur, dl_queue := q1\<rparr>"
      have nn: "unat n \<noteq> 0" using n by (simp add: unat_eq_zero)
      consider (part) "\<not> length cs \<le> unat n" | (last) "length cs \<le> unat n" "block_is_last b"
        | (more) "length cs \<le> unat n" "\<not> block_is_last b" by blast
      then show ?thesis
      proof cases
        case part
        then show ?thesis
          using dl_loop_post_part [OF less.prems own q b cs_def segs' n part] part by (auto simp: step)
      next
        case last
        have run: "dl_get_loop c s d n False out = Some (0, out @ cs, True,
            d\<lparr>dl_offset := 0, dl_current := cur, dl_queue := q1, dl_complete := True\<rparr>, s(a := None))"
          using last by (simp add: step fifo)
        have "dl_segs s d = (cs, True) # map (blk_seg s) q" using segs' last by simp
        from run dl_loop_post_last [OF less.prems own q this rest fifo nn last(1)] show ?thesis by blast
      next
        case more
        have own2: "dl_owned d2 = q" using fifo by (cases q) (auto simp: d2_def dl_owned_def)
        have ok2: "dl_ok c (s(a := None)) d2"
          unfolding d2_def by (rule dl_fifo_ok [OF fifo q(2) dl_rest_ok [OF rest q(1)]])
        have len: "unat (of_nat (length cs) :: size_t) = length cs"
          using more(1) unat_size_bound [of n] by (intro unat_of_nat_size) simp
        then have rem: "unat (n - of_nat (length cs)) = unat n - length cs"
          using more(1) by (subst unat_diff_word) (simp_all add: word_le_nat_alt)
        obtain ret out' il' d' s' where
          run: "dl_get_loop c (s(a := None)) d2 (n - of_nat (length cs)) False (out @ cs)
                  = Some (ret, out', il', d', s')" and
          post: "dl_loop_post c (s(a := None)) d2 (unat n - length cs) (out @ cs) ret out' il' d' s'"
          using less.hyps [of d2, OF _ ok2, of "n - of_nat (length cs)" "out @ cs"] own own2 rem by auto
        have "dl_loop_post c s d (unat n) out ret out' il' d' s'"
          using dl_loop_post_more [OF own _ q(1) fifo nn more(1) d2_def post] segs' more(2) by simp
        with run more show ?thesis by (simp add: step fifo d2_def)
      qed
    qed
  qed
qed

section \<open>The invariant of the whole memory\<close>

text \<open>Every live context is well-formed; a context that waits for a wake-up holds no data
  and no error to report; no block belongs to two contexts; and the slab holds exactly the
  blocks of the live contexts, so no block is leaked.\<close>

definition dl_flags_ok :: "dl_ctx \<Rightarrow> bool" where
  "dl_flags_ok d \<longleftrightarrow> (dl_waiting d \<longrightarrow> dl_owned d = [] \<and> \<not> dl_coap_error d)"

definition dl_good :: "config \<Rightarrow> slab \<Rightarrow> dl_ctx \<Rightarrow> bool" where
  "dl_good c s d \<longleftrightarrow> dl_ok c s d \<and> dl_flags_ok d"

definition dl_inv :: "config \<Rightarrow> dl_mem \<Rightarrow> bool" where
  "dl_inv c m \<longleftrightarrow> own_inv dl_owned (dl_good c) (slab m) (ctxs m)"

lemma dl_flags_ok_upd [simp]:
  "dl_flags_ok (d\<lparr>dl_complete := x\<rparr>) = dl_flags_ok d"
  "dl_flags_ok (d\<lparr>dl_aborted := x\<rparr>) = dl_flags_ok d"
  by (simp_all add: dl_flags_ok_def)

lemma dl_ok_cong:
  "dl_ok c s d \<Longrightarrow> (\<And>a. a \<in> set (dl_owned d) \<Longrightarrow> s' a = s a) \<Longrightarrow> dl_ok c s' d"
  by (auto simp: dl_ok_def list_all_iff dl_owned_def split: option.splits)

interpretation dlo: ownership dl_owned "dl_good c" for c
  by unfold_locales (auto simp: dl_good_def intro: dl_ok_cong)

lemma dl_invD:
  assumes "dl_inv c m" and "ctxs m p = Some d"
  shows "dl_ok c (slab m) d" "dl_flags_ok d"
  using own_inv_good [OF assms(1) [unfolded dl_inv_def] assms(2)] by (simp_all add: dl_good_def)

lemma flush_block_queue_eq:
  "distinct q \<Longrightarrow> set q \<subseteq> dom s \<Longrightarrow> flush_block_queue s q = Some (s |` (- set q))"
proof (induction q arbitrary: s)
  case Nil
  then show ?case by simp
next
  case (Cons a q)
  then obtain b where "s a = Some b" by auto
  moreover have "flush_block_queue (s(a := None)) q = Some ((s(a := None)) |` (- set q))"
    using Cons by (intro Cons.IH) auto
  moreover have "(s(a := None)) |` (- set q) = s |` (- set (a # q))"
    by (auto simp: restrict_map_def fun_eq_iff)
  ultimately show ?case by simp
qed

text \<open>The three ways an operation changes the memory: a context drops the first of its
  blocks, a context takes one more block, and a context is freed with all of them.\<close>

lemma dl_inv_drop:
  assumes inv: "dl_inv c m" and d: "ctxs m p = Some d"
    and own: "dl_owned d = freed @ dl_owned d'" and s': "s' = slab m |` (- set freed)"
    and ok': "dl_ok c s' d'" "dl_flags_ok d'"
  shows "dl_inv c (m\<lparr>slab := s', ctxs := (ctxs m)(p \<mapsto> d')\<rparr>)"
proof -
  have "set freed \<inter> set (dl_owned d') = {}" using dl_invD(1) [OF inv d] own by (simp add: dl_ok_def)
  with dlo.drop_keeps(1) [of c "slab m" "ctxs m" p d "set freed" d'] assms show ?thesis
    by (simp add: dl_inv_def dl_good_def)
qed

lemma dl_slab_owner:
  "dl_inv c m \<Longrightarrow> a \<in> dom (slab m) \<longleftrightarrow> (\<exists>p d. ctxs m p = Some d \<and> a \<in> set (dl_owned d))"
  unfolding dl_inv_def own_inv_def by blast

lemma dl_inv_extend:
  assumes inv: "dl_inv c m" and d: "ctxs m p = Some d" and a: "slab m a = None"
    and own: "dl_owned d' = dl_owned d @ [a]"
    and ok': "dl_ok c ((slab m)(a \<mapsto> b)) d'" "dl_flags_ok d'"
  shows "dl_inv c (m\<lparr>slab := (slab m)(a \<mapsto> b), ctxs := (ctxs m)(p \<mapsto> d')\<rparr>)"
  using dlo.extend_keeps(1) [of c "slab m" "ctxs m" p d a d' b] assms by (simp add: dl_inv_def dl_good_def)

lemma dl_inv_remove:
  assumes inv: "dl_inv c m" and d: "ctxs m p = Some d"
  shows "dl_inv c (m\<lparr>slab := slab m |` (- set (dl_owned d)), ctxs := (ctxs m)(p := None)\<rparr>)"
  using dlo.remove_keeps(1) assms by (simp add: dl_inv_def)

section \<open>What each operation does\<close>

lemma dl_inv_empty: "dl_inv c \<lparr>slab = Map.empty, ctxs = Map.empty\<rparr>"
  by (simp add: dl_inv_def own_inv_empty)

lemma dl_inv_new:
  assumes inv: "dl_inv c m" and fresh: "ctxs m a = None"
    and d: "dl_owned d = []" "dl_ok c (slab m) d" "dl_flags_ok d"
  shows "dl_inv c (m\<lparr>ctxs := (ctxs m)(a \<mapsto> d)\<rparr>)"
  using dlo.new_keeps(1) [of c "slab m" "ctxs m" a d] assms by (simp add: dl_inv_def dl_good_def)

lemma dl_ctx_init_simps [simp]:
  "dl_owned (dl_ctx_init arg) = []" "dl_segs s (dl_ctx_init arg) = []" "dl_ok c s (dl_ctx_init arg)"
  "dl_flags_ok (dl_ctx_init arg)" "dl_waiting (dl_ctx_init arg)" "\<not> dl_complete (dl_ctx_init arg)"
  "\<not> dl_aborted (dl_ctx_init arg)" "\<not> dl_coap_error (dl_ctx_init arg)" "dl_cb_arg (dl_ctx_init arg) = arg"
  by (simp_all add: dl_ctx_init_def dl_owned_def dl_segs_def dl_ok_def dl_flags_ok_def)

lemma downlink_open_inv:
  "dl_inv c m \<Longrightarrow> ctxs m a = None \<Longrightarrow> dl_inv c (snd (downlink_open (Some a) arg m))"
  using dl_inv_new [of c m a "dl_ctx_init arg"] by (simp add: downlink_open_def)

lemma downlink_close_ok:
  assumes ok: "dl_ok c (slab m) d" and d: "ctxs m a = Some d"
  shows "downlink_close (Some a) m =
     Some (m\<lparr>slab := slab m |` (- set (dl_owned d)), ctxs := (ctxs m)(a := None)\<rparr>)"
proof -
  have live: "set (dl_owned d) \<subseteq> dom (slab m)" using dl_ok_owned [OF ok] by blast
  have flush: "flush_block_queue (slab m) (dl_queue d) = Some (slab m |` (- set (dl_queue d)))"
    using ok live by (intro flush_block_queue_eq) (auto simp: dl_ok_def dl_owned_def)
  have "heap_free (slab m |` (- set (dl_queue d))) (dl_current d)
      = Some (slab m |` (- set (dl_owned d)))"
  proof (cases "dl_current d")
    case None
    then show ?thesis by (simp add: dl_owned_def)
  next
    case (Some b)
    then have "b \<notin> set (dl_queue d)" "b \<in> dom (slab m)"
      using ok live by (auto simp: dl_ok_def dl_owned_def)
    then show ?thesis using Some
      by (auto simp: heap_free_def dl_owned_def restrict_map_def fun_eq_iff)
  qed
  then show ?thesis using d flush by (simp add: downlink_close_def)
qed

lemma downlink_close_eq:
  "dl_inv c m \<Longrightarrow> ctxs m a = Some d \<Longrightarrow> downlink_close (Some a) m =
     Some (m\<lparr>slab := slab m |` (- set (dl_owned d)), ctxs := (ctxs m)(a := None)\<rparr>)"
  using downlink_close_ok dl_invD(1) by blast

lemma downlink_close_inv:
  "dl_inv c m \<Longrightarrow> ctxs m a = Some d \<Longrightarrow> \<exists>m'. downlink_close (Some a) m = Some m' \<and> dl_inv c m'
     \<and> ctxs m' = (ctxs m)(a := None)"
  using dl_inv_remove downlink_close_eq by fastforce

text \<open>Changing flags only.\<close>

lemma dl_inv_flags:
  assumes inv: "dl_inv c m" and d: "ctxs m p = Some d"
    and "dl_owned d' = dl_owned d" "dl_ok c (slab m) d'" "dl_flags_ok d'"
  shows "dl_inv c (m\<lparr>ctxs := (ctxs m)(p \<mapsto> d')\<rparr>)"
  using dlo.same_keeps [of c "slab m" "ctxs m" p d d'] assms by (simp add: dl_inv_def dl_good_def)

lemma downlink_abort_eq:
  assumes inv: "dl_inv c m" and d: "ctxs m a = Some d"
  shows "downlink_abort (Some a) m = Some
     (if dl_complete d then m\<lparr>slab := slab m |` (- set (dl_owned d)), ctxs := (ctxs m)(a := None)\<rparr>
      else m\<lparr>ctxs := (ctxs m)(a \<mapsto> d\<lparr>dl_aborted := True\<rparr>)\<rparr>)"
proof -
  have inv': "dl_inv c (m\<lparr>ctxs := (ctxs m)(a \<mapsto> d\<lparr>dl_aborted := True\<rparr>)\<rparr>)"
    using dl_invD [OF inv d] by (intro dl_inv_flags [OF inv d]) simp_all
  show ?thesis
    using downlink_close_eq [OF inv', of a "d\<lparr>dl_aborted := True\<rparr>"] d
    by (simp add: downlink_abort_def downlink_is_complete_def)
qed

lemma downlink_abort_inv:
  assumes inv: "dl_inv c m" and d: "ctxs m a = Some d"
  shows "\<exists>m'. downlink_abort (Some a) m = Some m' \<and> dl_inv c m'"
  using dl_inv_remove [OF inv d] dl_inv_flags [OF inv d, of "d\<lparr>dl_aborted := True\<rparr>"] dl_invD [OF inv d]
  by (simp add: downlink_abort_eq [OF inv d])

text \<open>The callbacks from the cloud client.\<close>

lemma downlink_end_cb_inv:
  assumes inv: "dl_inv c m" and d: "ctxs m a = Some d"
  shows "\<exists>w m'. downlink_end_cb st a m = Some (w, m') \<and> dl_inv c m'"
proof (cases "st = GOLIOTH_OK")
  case True
  then show ?thesis using inv by (auto simp: downlink_end_cb_def)
next
  case st: False
  show ?thesis
  proof (cases "dl_aborted d")
    case True
    then show ?thesis using st d downlink_close_inv [OF inv d] by (auto simp: downlink_end_cb_def)
  next
    case False
    define d2 where "d2 = (let d1 = d\<lparr>dl_coap_error := True\<rparr> in
        if dl_current d1 = None then d1\<lparr>dl_waiting := False\<rparr> else d1)"
    have "dl_owned d2 = dl_owned d" "dl_ok c (slab m) d2"
      using dl_invD(1) [OF inv d] by (simp_all add: d2_def Let_def)
    moreover have "dl_flags_ok d2"
      using dl_invD(2) [OF inv d] by (auto simp: d2_def Let_def dl_flags_ok_def dl_owned_def)
    ultimately have "dl_inv c (m\<lparr>ctxs := (ctxs m)(a \<mapsto> d2)\<rparr>)" by (rule dl_inv_flags [OF inv d])
    with st False d show ?thesis by (simp add: downlink_end_cb_def Let_def d2_def)
  qed
qed

lemma downlink_block_cb_eq:
  assumes inv: "dl_inv c m" and d: "ctxs m p = Some d" "\<not> dl_aborted d"
    and slot: "slab m a = None" and len: "length bytes \<le> unat (block_max c)"
  shows "\<exists>b. block_ok c b \<and> block_cells b = map Some bytes \<and> block_is_last b = l \<and>
     downlink_block_cb c p (Some a) bytes l m = Some (GOLIOTH_OK, dl_waiting d,
       m\<lparr>slab := (slab m)(a \<mapsto> b),
         ctxs := (ctxs m)(p \<mapsto> d\<lparr>dl_queue := dl_queue d @ [a], dl_waiting := False\<rparr>)\<rparr>)"
proof -
  obtain b1 where b1: "block_append \<lparr>user_data = None, last_flag = False, blk_len = 0,
      blk_data = replicate (unat (block_max c)) None\<rparr> bytes = Some b1"
    and ok1: "block_ok c (if l then block_mark_last b1 else b1)"
      "block_cells (if l then block_mark_last b1 else b1) = map Some bytes"
      "block_is_last (if l then block_mark_last b1 else b1) = l"
    using block_filled [OF len, of l] by blast
  define b where "b = (if l then block_mark_last b1 else b1)"
  note b = ok1 [folded b_def]
  have wait: "dl_waiting d \<Longrightarrow> dl_current d = None"
    using dl_invD(2) [OF inv d(1)] by (auto simp: dl_flags_ok_def dl_owned_def split: option.splits)
  have same: "d\<lparr>dl_queue := q, dl_waiting := False\<rparr> = d\<lparr>dl_queue := q\<rparr>" if "\<not> dl_waiting d" for q
    using that by (cases d) simp
  have "downlink_block_cb c p (Some a) bytes l m = Some (GOLIOTH_OK, dl_waiting d,
       m\<lparr>slab := (slab m)(a \<mapsto> b),
         ctxs := (ctxs m)(p \<mapsto> d\<lparr>dl_queue := dl_queue d @ [a], dl_waiting := False\<rparr>)\<rparr>)"
  proof (cases "dl_waiting d")
    case True
    then show ?thesis using d b1 wait
      by (simp add: downlink_block_cb_def block_alloc_def b_def fifo_put_def Let_def)
  next
    case False
    then show ?thesis using d b1
      by (simp add: downlink_block_cb_def block_alloc_def b_def fifo_put_def Let_def same [OF False])
  qed
  with b show ?thesis by blast
qed

text \<open>The new block is appended to what the context holds.\<close>

lemma dl_ctx_append:
  assumes ok: "dl_ok c s d" and a: "s a = None" and b: "block_ok c b"
  defines "d' \<equiv> d\<lparr>dl_queue := dl_queue d @ [a], dl_waiting := False\<rparr>"
  shows "dl_owned d' = dl_owned d @ [a]" "dl_ok c (s(a \<mapsto> b)) d'" "dl_flags_ok d'"
    "dl_segs (s(a \<mapsto> b)) d' = dl_segs s d @ [(block_cells b, block_is_last b)]"
proof -
  have fresh: "a \<notin> set (dl_owned d)" using dl_ok_owned [OF ok, of a] a by auto
  show own: "dl_owned d' = dl_owned d @ [a]" by (simp add: d'_def dl_owned_def)
  have ok1: "dl_ok c (s(a \<mapsto> b)) d" using dl_ok_upd [OF ok fresh] .
  have "dl_offset d' = dl_offset d" "dl_current d' = dl_current d" by (simp_all add: d'_def)
  then show "dl_ok c (s(a \<mapsto> b)) d'" using ok1 own fresh b by (auto simp: dl_ok_def split: option.splits)
  show "dl_flags_ok d'" by (simp add: d'_def dl_flags_ok_def)
  have "dl_segs (s(a \<mapsto> b)) d = dl_segs s d" using fresh by simp
  moreover have "dl_segs (s(a \<mapsto> b)) d' = dl_segs (s(a \<mapsto> b)) d @ [blk_seg (s(a \<mapsto> b)) a]"
    by (simp add: d'_def dl_segs_def split: option.split)
  ultimately show "dl_segs (s(a \<mapsto> b)) d' = dl_segs s d @ [(block_cells b, block_is_last b)]"
    by (simp add: blk_seg_def)
qed

lemma downlink_block_cb_inv:
  assumes inv: "dl_inv c m" and d: "ctxs m p = Some d"
    and slot: "slab_slot_ok c (slab m) slot" and len: "length bytes \<le> unat (block_max c)"
  shows "\<exists>st w m'. downlink_block_cb c p slot bytes l m = Some (st, w, m') \<and> dl_inv c m'"
proof (cases "dl_aborted d \<or> slot = None")
  case True
  then show ?thesis using inv d by (auto simp: downlink_block_cb_def)
next
  case False
  then obtain a where a: "slot = Some a" "slab m a = None" "\<not> dl_aborted d"
    using slot by (auto simp: slab_slot_ok_def)
  obtain b where b: "block_ok c b" and run: "downlink_block_cb c p (Some a) bytes l m = Some (GOLIOTH_OK, dl_waiting d,
       m\<lparr>slab := (slab m)(a \<mapsto> b),
         ctxs := (ctxs m)(p \<mapsto> d\<lparr>dl_queue := dl_queue d @ [a], dl_waiting := False\<rparr>)\<rparr>)"
    using downlink_block_cb_eq [OF inv d a(3) a(2) len] by blast
  have ok: "dl_ok c (slab m) d" using dl_invD(1) [OF inv d] .
  show ?thesis
    using dl_inv_extend [OF inv d a(2) dl_ctx_append(1-3) [OF ok a(2) b]] run a(1) by blast
qed

text \<open>Reading: the loop on the context, in its place in the memory.\<close>

lemma downlink_get_data_eq:
  assumes inv: "dl_inv c m" and d: "ctxs m p = Some d" "\<not> dl_complete d"
  shows "\<exists>ret x il d' s'. downlink_get_data c p n m =
       Some (ret, of_nat (length x), x, il, m\<lparr>slab := s', ctxs := (ctxs m)(p \<mapsto> d')\<rparr>) \<and>
     dl_loop_post c (slab m) d (unat n) [] ret x il d' s' \<and>
     dl_inv c (m\<lparr>slab := s', ctxs := (ctxs m)(p \<mapsto> d')\<rparr>)"
proof -
  obtain ret x il d' s' where run: "dl_get_loop c (slab m) d n False [] = Some (ret, x, il, d', s')"
    and post: "dl_loop_post c (slab m) d (unat n) [] ret x il d' s'"
    using dl_get_loop_correct [OF dl_invD(1) [OF inv d(1)], of n "[]"] by blast
  obtain y e r where rd: "seg_read (unat n) (dl_segs (slab m) d) = (y, e, r)"
    by (cases "seg_read (unat n) (dl_segs (slab m) d)") auto
  note P = post [unfolded dl_loop_post_def rd, simplified Let_def prod.case]
  have ok': "dl_ok c s' d'" using P by blast
  have "dl_flags_ok d'"
  proof -
    have "dl_owned d' = []" if "dl_waiting d'"
    proof (cases "dl_waiting d")
      case True
      then show ?thesis using dl_invD(2) [OF inv d(1)] P by (auto simp: dl_flags_ok_def)
    next
      case False
      then have "\<not> e \<and> length y < unat n" using P that by blast
      then have "r = []" using seg_read_short [OF rd] by blast
      then have "dl_segs s' d' = []" using P by blast
      then show ?thesis by (simp add: dl_segs_def dl_owned_def split: option.splits)
    qed
    moreover have "dl_waiting d' \<Longrightarrow> \<not> dl_coap_error d'"
      using dl_invD(2) [OF inv d(1)] P by (auto simp: dl_flags_ok_def)
    ultimately show ?thesis by (simp add: dl_flags_ok_def)
  qed
  moreover obtain freed where "dl_owned d = freed @ dl_owned d'" "s' = slab m |` (- set freed)"
    using P by blast
  ultimately have "dl_inv c (m\<lparr>slab := s', ctxs := (ctxs m)(p \<mapsto> d')\<rparr>)"
    using dl_inv_drop [OF inv d(1) _ _ ok'] by blast
  moreover have "downlink_get_data c p n m =
      Some (ret, of_nat (length x), x, il, m\<lparr>slab := s', ctxs := (ctxs m)(p \<mapsto> d')\<rparr>)"
    using run d by (simp add: downlink_get_data_def downlink_is_complete_def)
  ultimately show ?thesis using post by blast
qed

end
