(* ===== verification/Byte_Source.thy ===== *)
theory Byte_Source
  imports Gateway_Prelude
begin

text \<open>
  The two interfaces between the data modules and the Bluetooth transport. A byte source is
  what a sender pulls from (\<open>pouch_gateway_downlink_get_data\<close> and
  \<open>pouch_gateway_server_cert_get_data\<close> have the same signature and the same contract); a
  bounded buffer is what a receiver pushes into (\<open>pouch_gateway_info_push\<close> and
  \<open>pouch_gateway_device_cert_push\<close>). What a whole transfer does is proved here once.
\<close>

section \<open>Sources\<close>

type_synonym 's pull = "'s \<Rightarrow> size_t \<Rightarrow> (int \<times> size_t \<times> cell list \<times> bool \<times> 's) option"

text \<open>A transfer: pulls of the given sizes until one reports the last byte or an error other
  than \<open>EAGAIN\<close>; the bytes, whether the last byte was reported, and the state.\<close>

fun pull_all :: "'s pull \<Rightarrow> size_t list \<Rightarrow> 's \<Rightarrow> (cell list \<times> bool \<times> 's) option" where
  "pull_all pull [] s = Some ([], False, s)"
| "pull_all pull (n # ns) s = do {
     (ret, k, xs, last, s1) \<leftarrow> pull s n;
     if last \<or> ret \<noteq> 0 \<and> ret \<noteq> - EAGAIN then Some (xs, last, s1)
     else do { (ys, last', s2) \<leftarrow> pull_all pull ns s1; Some (xs @ ys, last', s2) } }"

locale byte_source =
  fixes pull :: "'s pull" and pending :: "'s \<Rightarrow> cell list" and ok :: "'s \<Rightarrow> bool"
  assumes pull_ok: "ok s \<Longrightarrow> \<exists>ret k xs last s'. pull s n = Some (ret, k, xs, last, s') \<and> ok s' \<and>
      pending s = xs @ pending s' \<and> length xs \<le> unat n \<and> (last \<longrightarrow> pending s' = []) \<and>
      (ret = 0 \<longrightarrow> k = of_nat (length xs))"
begin

lemma transfer_prefix:
  "ok s \<Longrightarrow> \<exists>xs last s'. pull_all pull ns s = Some (xs, last, s') \<and> ok s' \<and>
     pending s = xs @ pending s' \<and> (last \<longrightarrow> pending s' = [])"
proof (induction ns arbitrary: s)
  case Nil
  then show ?case by (intro exI [of _ "[]"] exI [of _ False] exI [of _ s]) simp
next
  case (Cons n ns)
  obtain ret k xs last s1 where p: "pull s n = Some (ret, k, xs, last, s1)" "ok s1"
    "pending s = xs @ pending s1" "last \<longrightarrow> pending s1 = []"
    using pull_ok [OF Cons.prems, of n] by blast
  show ?case
  proof (cases "last \<or> ret \<noteq> 0 \<and> ret \<noteq> - EAGAIN")
    case True
    then show ?thesis using p by auto
  next
    case False
    then show ?thesis using Cons.IH [OF p(2)] p by fastforce
  qed
qed

lemma transfer_complete:
  assumes "ok s" and "pull_all pull ns s = Some (xs, True, s')"
  shows "xs = pending s"
  using transfer_prefix [OF assms(1), of ns] assms(2) by auto

end

section \<open>Bounded buffers\<close>

text \<open>The body of both push functions: a check against the capacity, in \<open>size_t\<close>
  arithmetic, then a copy.\<close>

definition buf_push :: "size_t \<Rightarrow> size_t \<times> cell list \<Rightarrow> byte list \<Rightarrow> (int \<times> size_t \<times> cell list) option" where
  "buf_push cap b bytes = (case b of (len, buf) \<Rightarrow>
     let n = of_nat (length bytes) in
     if len + n > cap then Some (- ENOSPC, len, buf)
     else (case memcpy_to buf (unat len) (map Some bytes) of
             None \<Rightarrow> None
           | Some buf' \<Rightarrow> Some (0, len + n, buf')))"

definition buf_ok :: "size_t \<Rightarrow> size_t \<times> cell list \<Rightarrow> bool" where
  "buf_ok cap b \<longleftrightarrow> length (snd b) = unat cap \<and> fst b \<le> cap"

definition buf_data :: "size_t \<times> cell list \<Rightarrow> cell list" where
  "buf_data b = take (unat (fst b)) (snd b)"

definition buf_empty :: "size_t \<Rightarrow> size_t \<times> cell list" where
  "buf_empty cap = (0, replicate (unat cap) None)"

lemma buf_empty_ok [simp]: "buf_ok cap (buf_empty cap)" "buf_data (buf_empty cap) = []"
  by (simp_all add: buf_ok_def buf_data_def buf_empty_def)

lemma buf_push_fits:
  assumes ok: "buf_ok cap b" and fits: "length (buf_data b) + length bytes \<le> unat cap"
  shows "\<exists>b'. buf_push cap b bytes = Some (0, b') \<and> buf_ok cap b' \<and> buf_data b' = buf_data b @ map Some bytes"
proof -
  obtain len buf where b: "b = (len, buf)" by fastforce
  have l: "length (buf_data b) = unat len" using ok by (simp add: b buf_ok_def buf_data_def word_le_nat_alt)
  have n: "unat (of_nat (length bytes) :: size_t) = length bytes"
    using fits unat_size_bound [of cap] by (intro unat_of_nat_size) simp
  have sum: "unat (len + of_nat (length bytes)) = unat len + length bytes"
    using fits l n by (subst unat_plus_le_size [of _ _ cap]) simp_all
  obtain buf' where d: "memcpy_to buf (unat len) (map Some bytes) = Some buf'"
    using ok fits l by (simp add: b buf_ok_def)
  have "\<not> len + of_nat (length bytes) > cap" using sum fits l by (simp add: word_less_nat_alt)
  then have "buf_push cap b bytes = Some (0, len + of_nat (length bytes), buf')"
    using d by (simp add: b buf_push_def)
  moreover have "buf_ok cap (len + of_nat (length bytes), buf')"
    using memcpy_to_length [OF d] ok sum fits l by (simp add: b buf_ok_def word_le_nat_alt)
  moreover have "buf_data (len + of_nat (length bytes), buf') = buf_data b @ map Some bytes"
    using memcpy_to_take [OF d] sum by (simp add: b buf_data_def)
  ultimately show ?thesis by blast
qed

text \<open>Too much is refused as long as the sum does not wrap.\<close>

lemma buf_push_full:
  assumes ok: "buf_ok cap b" and full: "unat cap < length (buf_data b) + length bytes"
    and nowrap: "unat cap + length bytes < 2 ^ 32"
  shows "buf_push cap b bytes = Some (- ENOSPC, b)"
proof -
  obtain len buf where b: "b = (len, buf)" by fastforce
  have l: "length (buf_data b) = unat len" "unat len \<le> unat cap"
    using ok by (simp_all add: b buf_ok_def buf_data_def word_le_nat_alt)
  have n: "unat (of_nat (length bytes) :: size_t) = length bytes"
    using nowrap by (intro unat_of_nat_size) simp
  have "unat (len + of_nat (length bytes)) = unat len + length bytes"
    using nowrap l n by (subst unat_plus_size) simp_all
  then show ?thesis using full l by (simp add: b buf_push_def word_less_nat_alt)
qed

text \<open>The contract, over the operations of a module: a new context is empty, a push appends
  where there is room and is refused without effect where there is not.\<close>

fun push_all :: "('s \<Rightarrow> byte list \<Rightarrow> (int \<times> 's) option) \<Rightarrow> byte list list \<Rightarrow> 's \<Rightarrow> (int \<times> 's) option" where
  "push_all push [] s = Some (0, s)"
| "push_all push (x # xs) s = do {
     (ret, s1) \<leftarrow> push s x;
     if ret \<noteq> 0 then Some (ret, s1) else push_all push xs s1 }"

locale bounded_buffer =
  fixes cap :: size_t and init :: 's and push :: "'s \<Rightarrow> byte list \<Rightarrow> (int \<times> 's) option"
    and content :: "'s \<Rightarrow> cell list" and good :: "'s \<Rightarrow> bool"
  assumes init_ok: "good init" "content init = []"
    and push_fits: "good s \<Longrightarrow> length (content s) + length x \<le> unat cap \<Longrightarrow>
      \<exists>s'. push s x = Some (0, s') \<and> good s' \<and> content s' = content s @ map Some x"
    and push_full: "good s \<Longrightarrow> unat cap < length (content s) + length x \<Longrightarrow>
      unat cap + length x < 2 ^ 32 \<Longrightarrow> push s x = Some (- ENOSPC, s)"
begin

text \<open>A push always returns and keeps the invariant.\<close>

lemma push_total:
  assumes "good s" and "unat cap + length x < 2 ^ 32"
  shows "\<exists>ret s'. push s x = Some (ret, s') \<and> good s'"
proof (cases "length (content s) + length x \<le> unat cap")
  case True
  then show ?thesis using push_fits [OF assms(1)] by blast
next
  case False
  then show ?thesis using push_full [OF assms(1) _ assms(2)] assms(1) by simp
qed

text \<open>A whole reception: it succeeds exactly when everything fits, and then holds all of
  it; otherwise it stops at the first chunk that does not fit.\<close>

lemma push_all_spec:
  assumes "good s" and "length (content s) \<le> unat cap" and "\<forall>x \<in> set xs. unat cap + length x < 2 ^ 32"
  shows "\<exists>ret s'. push_all push xs s = Some (ret, s') \<and> good s' \<and>
     (if length (content s) + length (concat xs) \<le> unat cap
      then ret = 0 \<and> content s' = content s @ map Some (concat xs)
      else ret = - ENOSPC \<and> (\<exists>k < length xs. content s' = content s @ map Some (concat (take k xs))))"
  using assms
proof (induction xs arbitrary: s)
  case Nil
  then show ?case by simp
next
  case (Cons x xs)
  show ?case
  proof (cases "length (content s) + length x \<le> unat cap")
    case False
    then have "push s x = Some (- ENOSPC, s)" using Cons.prems by (intro push_full) auto
    then show ?thesis using Cons.prems False by (auto simp: errno_defs intro!: exI [of _ 0])
  next
    case True
    then obtain s1 where s1: "push s x = Some (0, s1)" "good s1" "content s1 = content s @ map Some x"
      using push_fits Cons.prems by blast
    obtain ret s' where r: "push_all push xs s1 = Some (ret, s')" "good s'"
      and res: "if length (content s1) + length (concat xs) \<le> unat cap
        then ret = 0 \<and> content s' = content s1 @ map Some (concat xs)
        else ret = - ENOSPC \<and> (\<exists>k < length xs. content s' = content s1 @ map Some (concat (take k xs)))"
      using Cons.IH [OF s1(2)] Cons.prems s1 True by auto
    show ?thesis
    proof (cases "length (content s1) + length (concat xs) \<le> unat cap")
      case True
      then show ?thesis using r res s1 by simp
    next
      case False
      then obtain k where "k < length xs" "content s' = content s1 @ map Some (concat (take k xs))" "ret = - ENOSPC"
        using res by auto
      then show ?thesis using r s1 False by (auto intro!: exI [of _ "Suc k"])
    qed
  qed
qed

lemma reception:
  assumes "\<forall>x \<in> set xs. unat cap + length x < 2 ^ 32"
  shows "\<exists>ret s'. push_all push xs init = Some (ret, s') \<and> good s' \<and>
     (if length (concat xs) \<le> unat cap then ret = 0 \<and> content s' = map Some (concat xs)
      else ret = - ENOSPC \<and> (\<exists>k < length xs. content s' = map Some (concat (take k xs))))"
  using push_all_spec [OF init_ok(1) _ assms, unfolded init_ok(2) list.size append_Nil] by simp

end

end
