(* ===== verification/Downlink_Session.thy ===== *)
theory Downlink_Session
  imports Downlink Byte_Source
begin

text \<open>
  Downlinks as a state machine. \<open>dl_op\<close> is one operation on one context, as the cloud
  client or the transport calls it; \<open>dl_session\<close> is the life of one context among
  others, with two ghost byte streams: what the cloud callback accepted for it and what
  \<open>get_data\<close> delivered from it. The results: no operation faults or breaks the memory
  invariant, contexts do not interfere, bytes are delivered in order and exactly once, the
  end is reported when and only when everything was delivered, and no wake-up is lost.
\<close>

section \<open>One operation\<close>

inductive dl_op :: "config \<Rightarrow> addr \<Rightarrow> dl_mem \<Rightarrow> dl_mem \<Rightarrow> bool" for c p where
  op_open: "ctxs m p = None \<Longrightarrow> downlink_open (Some p) arg m = (r, m') \<Longrightarrow> dl_op c p m m'"
| op_block: "slab_slot_ok c (slab m) slot \<Longrightarrow> length bytes \<le> unat (block_max c) \<Longrightarrow>
     downlink_block_cb c p slot bytes l m = Some (st, w, m') \<Longrightarrow> dl_op c p m m'"
| op_end: "downlink_end_cb st p m = Some (w, m') \<Longrightarrow> ctxs m p \<noteq> None \<Longrightarrow> dl_op c p m m'"
| op_pull: "downlink_get_data c p n m = Some (ret, len, out, il, m') \<Longrightarrow> dl_op c p m m'"
| op_abort: "downlink_abort (Some p) m = Some m' \<Longrightarrow> dl_op c p m m'"
| op_close: "downlink_close (Some p) m = Some m' \<Longrightarrow> dl_op c p m m'"

inductive_cases dl_opE: "dl_op c p m m'"

text \<open>An operation on \<open>p\<close> leaves every other context as it was, with the blocks it
  owns.\<close>

definition dl_frame :: "addr \<Rightarrow> dl_mem \<Rightarrow> dl_mem \<Rightarrow> bool" where
  "dl_frame p m m' \<longleftrightarrow> own_frame dl_owned p (slab m) (ctxs m) (slab m') (ctxs m')"

lemma dl_frame_refl [simp]: "dl_frame p m m"
  by (simp add: dl_frame_def)

lemma dl_frame_drop:
  assumes "dl_inv c m" and "ctxs m p = Some d" and "set freed \<subseteq> set (dl_owned d)"
  shows "dl_frame p m (m\<lparr>slab := slab m |` (- set freed), ctxs := (ctxs m)(p := v)\<rparr>)"
  using assms own_inv_disjoint [OF assms(1) [unfolded dl_inv_def], of p]
  by (fastforce simp: dl_frame_def own_frame_def restrict_map_def)

lemma dl_frame_ctx: "dl_frame p m (m\<lparr>ctxs := (ctxs m)(p := v)\<rparr>)"
  by (simp add: dl_frame_def own_frame_def)

lemma dl_frame_extend:
  assumes "dl_inv c m" and "slab m a = None"
  shows "dl_frame p m (m\<lparr>slab := (slab m)(a := x), ctxs := (ctxs m)(p := v)\<rparr>)"
  using assms own_inv_dom [OF assms(1) [unfolded dl_inv_def], of a] by (auto simp: dl_frame_def own_frame_def)

lemma dl_frame_segs:
  assumes "dl_frame p m m'" and "q \<noteq> p" and "ctxs m q = Some d"
  shows "ctxs m' q = Some d" "dl_segs (slab m') d = dl_segs (slab m) d"
proof -
  show "ctxs m' q = Some d"
    using assms own_frameD(1) [of dl_owned p "slab m" "ctxs m"] by (simp add: dl_frame_def)
  have "slab m' a = slab m a" if "a \<in> set (dl_owned d)" for a
    using own_frameD(2) [OF assms(1) [unfolded dl_frame_def] assms(2,3) that] .
  then show "dl_segs (slab m') d = dl_segs (slab m) d"
    by (auto simp: dl_segs_def dl_owned_def blk_seg_def split: option.splits)
qed

lemma dl_op_block:
  assumes inv: "dl_inv c m" and d: "ctxs m p = Some d" and slot: "slab_slot_ok c (slab m) slot"
    and len: "length bytes \<le> unat (block_max c)"
    and run: "downlink_block_cb c p slot bytes l m = Some (st, w, m')"
  shows "st \<noteq> GOLIOTH_OK \<and> m' = m \<and> \<not> w \<or>
     st = GOLIOTH_OK \<and> w = dl_waiting d \<and> \<not> dl_aborted d \<and>
     (\<exists>a b. slab m a = None \<and> block_ok c b \<and> block_cells b = map Some bytes \<and> block_is_last b = l \<and>
        m' = m\<lparr>slab := (slab m)(a \<mapsto> b),
               ctxs := (ctxs m)(p \<mapsto> d\<lparr>dl_queue := dl_queue d @ [a], dl_waiting := False\<rparr>)\<rparr>)"
proof (cases "dl_aborted d \<or> slot = None")
  case True
  then show ?thesis using run d by (auto simp: downlink_block_cb_def split: if_splits)
next
  case False
  then obtain a where a: "slot = Some a" "slab m a = None" "\<not> dl_aborted d"
    using slot by (auto simp: slab_slot_ok_def)
  with downlink_block_cb_eq [OF inv d a(3) a(2) len, of l] run show ?thesis by fastforce
qed

lemma dl_op_end:
  assumes inv: "dl_inv c m" and d: "ctxs m p = Some d"
    and run: "downlink_end_cb st p m = Some (w, m')"
  shows "st = GOLIOTH_OK \<and> \<not> w \<and> m' = m \<or>
     st \<noteq> GOLIOTH_OK \<and> dl_aborted d \<and> \<not> w \<and>
       m' = m\<lparr>slab := slab m |` (- set (dl_owned d)), ctxs := (ctxs m)(p := None)\<rparr> \<or>
     st \<noteq> GOLIOTH_OK \<and> \<not> dl_aborted d \<and> w = dl_waiting d \<and>
       m' = m\<lparr>ctxs := (ctxs m)(p \<mapsto> d\<lparr>dl_coap_error := True, dl_waiting := False\<rparr>)\<rparr>"
proof (cases "st = GOLIOTH_OK \<or> dl_aborted d")
  case True
  then show ?thesis using run d downlink_close_eq [OF inv d]
    by (auto simp: downlink_end_cb_def split: if_splits)
next
  case False
  have wait: "dl_waiting d \<Longrightarrow> dl_current d = None"
    using dl_invD(2) [OF inv d] by (auto simp: dl_flags_ok_def dl_owned_def split: option.splits)
  have same: "d\<lparr>dl_coap_error := x, dl_waiting := False\<rparr> = d\<lparr>dl_coap_error := x\<rparr>" if "\<not> dl_waiting d" for x
    using that by (cases d) simp
  show ?thesis
  proof (cases "dl_waiting d")
    case True
    then show ?thesis using run d False wait by (auto simp: downlink_end_cb_def Let_def)
  next
    case nw: False
    then show ?thesis using run d False
      by (auto simp: downlink_end_cb_def Let_def same [OF nw] split: if_splits)
  qed
qed

lemma dl_op_pull:
  assumes inv: "dl_inv c m" and d: "ctxs m p = Some d"
    and run: "downlink_get_data c p n m = Some (ret, len, x, il, m')"
  shows "dl_complete d \<and> ret = - ENODATA \<and> x = [] \<and> \<not> il \<and> m' = m \<or>
     \<not> dl_complete d \<and> len = of_nat (length x) \<and>
     (\<exists>d' freed. dl_owned d = freed @ dl_owned d' \<and>
        m' = m\<lparr>slab := slab m |` (- set freed), ctxs := (ctxs m)(p \<mapsto> d')\<rparr> \<and>
        dl_loop_post c (slab m) d (unat n) [] ret x il d' (slab m'))"
proof (cases "dl_complete d")
  case True
  then show ?thesis using run d by (auto simp: downlink_get_data_def downlink_is_complete_def)
next
  case False
  obtain ret1 x1 il1 d' s' where eq: "downlink_get_data c p n m =
       Some (ret1, of_nat (length x1), x1, il1, m\<lparr>slab := s', ctxs := (ctxs m)(p \<mapsto> d')\<rparr>)"
    and post: "dl_loop_post c (slab m) d (unat n) [] ret1 x1 il1 d' s'"
    using downlink_get_data_eq [OF inv d False] by blast
  obtain freed where "dl_owned d = freed @ dl_owned d'" "s' = slab m |` (- set freed)"
    using post by (auto simp: dl_loop_post_def Let_def split: prod.splits)
  with False eq post run show ?thesis by (intro disjI2) auto
qed

lemma dl_op_abort_close:
  assumes inv: "dl_inv c m" and d: "ctxs m p = Some d"
    and run: "downlink_abort (Some p) m = Some m' \<or> downlink_close (Some p) m = Some m'"
  shows "m' = m\<lparr>slab := slab m |` (- set (dl_owned d)), ctxs := (ctxs m)(p := None)\<rparr> \<or>
    \<not> dl_complete d \<and> m' = m\<lparr>ctxs := (ctxs m)(p \<mapsto> d\<lparr>dl_aborted := True\<rparr>)\<rparr>"
  using run downlink_close_eq [OF inv d] downlink_abort_eq [OF inv d] by (auto split: if_splits)

text \<open>Every operation keeps the invariant and the frame.\<close>

lemma dl_op_inv:
  assumes inv: "dl_inv c m" and op: "dl_op c p m m'"
  shows "dl_inv c m'"
  using op
proof cases
  case (op_open arg r)
  then show ?thesis using downlink_open_inv [OF inv, of p arg] by simp
next
  case (op_block slot bytes l st w)
  then obtain d where "ctxs m p = Some d"
    by (cases "ctxs m p") (auto simp: downlink_block_cb_def)
  then show ?thesis using downlink_block_cb_inv [OF inv _ op_block(1,2), of p d l] op_block by auto
next
  case (op_end st w)
  then obtain d where "ctxs m p = Some d" by blast
  then show ?thesis using downlink_end_cb_inv [OF inv, of p d st] op_end by auto
next
  case (op_pull n ret len out il)
  then obtain d where d: "ctxs m p = Some d"
    by (cases "ctxs m p") (auto simp: downlink_get_data_def)
  show ?thesis
  proof (cases "dl_complete d")
    case True
    then show ?thesis using dl_op_pull [OF inv d op_pull] inv by blast
  next
    case False
    then show ?thesis using downlink_get_data_eq [OF inv d False, of n] op_pull by auto
  qed
next
  case op_abort
  then obtain d where "ctxs m p = Some d"
    by (cases "ctxs m p") (auto simp: downlink_abort_def)
  then show ?thesis using downlink_abort_inv [OF inv] op_abort by fastforce
next
  case op_close
  then obtain d where "ctxs m p = Some d"
    by (cases "ctxs m p") (auto simp: downlink_close_def)
  then show ?thesis using downlink_close_inv [OF inv] op_close by fastforce
qed

lemma dl_op_frame:
  assumes inv: "dl_inv c m" and op: "dl_op c p m m'"
  shows "dl_frame p m m'"
  using op
proof cases
  case (op_open arg r)
  then show ?thesis by (auto simp: downlink_open_def intro: dl_frame_ctx)
next
  case (op_block slot bytes l st w)
  then obtain d where d: "ctxs m p = Some d"
    by (cases "ctxs m p") (auto simp: downlink_block_cb_def)
  show ?thesis using dl_op_block [OF inv d op_block] dl_frame_extend [OF inv] by auto
next
  case (op_end st w)
  then obtain d where d: "ctxs m p = Some d" by blast
  show ?thesis
    using dl_op_end [OF inv d op_end(1)] dl_frame_drop [OF inv d, of "dl_owned d"] by (auto intro: dl_frame_ctx)
next
  case (op_pull n ret len out il)
  then obtain d where d: "ctxs m p = Some d"
    by (cases "ctxs m p") (auto simp: downlink_get_data_def)
  show ?thesis using dl_op_pull [OF inv d op_pull] dl_frame_drop [OF inv d] by auto
next
  case op_abort
  then obtain d where d: "ctxs m p = Some d"
    by (cases "ctxs m p") (auto simp: downlink_abort_def)
  show ?thesis
    using dl_op_abort_close [OF inv d, of m'] op_abort dl_frame_drop [OF inv d, of "dl_owned d"]
    by (auto intro: dl_frame_ctx)
next
  case op_close
  then obtain d where d: "ctxs m p = Some d"
    by (cases "ctxs m p") (auto simp: downlink_close_def)
  show ?thesis
    using dl_op_abort_close [OF inv d, of m'] op_close dl_frame_drop [OF inv d, of "dl_owned d"]
    by (auto intro: dl_frame_ctx)
qed

section \<open>The life of a context\<close>

text \<open>\<open>dl_session c p acc dlv fin m\<close>: in memory \<open>m\<close>, context \<open>p\<close> has been opened and
  is still live; the cloud callback has accepted the bytes \<open>acc\<close> for it and \<open>get_data\<close>
  has delivered \<open>dlv\<close>; \<open>fin\<close> says that the cloud has ended the stream, with a block
  marked last or with an error. The SDK's only obligation is in rule \<open>accepted\<close>: it pushes
  no block once it has ended the stream.\<close>

inductive dl_session :: "config \<Rightarrow> addr \<Rightarrow> cell list \<Rightarrow> cell list \<Rightarrow> bool \<Rightarrow> dl_mem \<Rightarrow> bool" for c p where
  opened: "dl_inv c m \<Longrightarrow> ctxs m p = None \<Longrightarrow> downlink_open (Some p) arg m = (r, m') \<Longrightarrow>
     dl_session c p [] [] False m'"
| accepted: "dl_session c p acc dlv False m \<Longrightarrow> slab_slot_ok c (slab m) slot \<Longrightarrow>
     length bytes \<le> unat (block_max c) \<Longrightarrow>
     downlink_block_cb c p slot bytes l m = Some (GOLIOTH_OK, w, m') \<Longrightarrow>
     dl_session c p (acc @ map Some bytes) dlv l m'"
| refused: "dl_session c p acc dlv fin m \<Longrightarrow> slab_slot_ok c (slab m) slot \<Longrightarrow>
     length bytes \<le> unat (block_max c) \<Longrightarrow>
     downlink_block_cb c p slot bytes l m = Some (st, w, m') \<Longrightarrow> st \<noteq> GOLIOTH_OK \<Longrightarrow>
     dl_session c p acc dlv fin m'"
| ended: "dl_session c p acc dlv fin m \<Longrightarrow> downlink_end_cb st p m = Some (w, m') \<Longrightarrow>
     ctxs m' p \<noteq> None \<Longrightarrow> dl_session c p acc dlv (fin \<or> st \<noteq> GOLIOTH_OK) m'"
| pulled: "dl_session c p acc dlv fin m \<Longrightarrow> downlink_get_data c p n m = Some (ret, len, x, il, m') \<Longrightarrow>
     dl_session c p acc (dlv @ x) fin m'"
| aborted: "dl_session c p acc dlv fin m \<Longrightarrow> downlink_abort (Some p) m = Some m' \<Longrightarrow>
     ctxs m' p \<noteq> None \<Longrightarrow> dl_session c p acc dlv fin m'"
| other: "dl_session c p acc dlv fin m \<Longrightarrow> dl_op c q m m' \<Longrightarrow> q \<noteq> p \<Longrightarrow> dl_session c p acc dlv fin m'"

text \<open>The marks on the segments: only the final one can be marked last.\<close>

definition segs_marked :: "segs \<Rightarrow> bool" where
  "segs_marked ss \<longleftrightarrow> ss \<noteq> [] \<and> snd (last ss)"

definition segs_plain :: "segs \<Rightarrow> bool" where
  "segs_plain ss \<longleftrightarrow> list_all (\<lambda>x. \<not> snd x) ss"

lemma seg_read_plain: "seg_read n ss = (x, e, r) \<Longrightarrow> segs_plain ss \<Longrightarrow> \<not> e \<and> segs_plain r"
  by (induction n ss arbitrary: x e r rule: seg_read.induct)
     (auto simp: segs_plain_def split: if_splits prod.splits)

lemma seg_read_butlast:
  "seg_read n ss = (x, e, r) \<Longrightarrow> segs_plain (butlast ss) \<Longrightarrow>
   segs_plain (butlast r) \<and> (e \<longrightarrow> r = []) \<and> (\<not> e \<longrightarrow> segs_marked ss \<longrightarrow> segs_marked r)"
proof (induction n ss arbitrary: x e r rule: seg_read.induct)
  case (1 n)
  then show ?case by (simp add: segs_marked_def)
next
  case (2 n cs l ss)
  show ?case
  proof (cases "n \<noteq> 0 \<and> length cs \<le> n \<and> \<not> l")
    case True
    then obtain y where y: "seg_read (n - length cs) ss = (y, e, r)"
      using "2.prems" by (auto split: prod.splits)
    have "segs_plain (butlast ss)" "segs_marked ((cs, l) # ss) \<longrightarrow> segs_marked ss"
      using "2.prems"(2) True by (auto simp: segs_plain_def segs_marked_def split: if_splits)
    with "2.IH" y True show ?thesis by blast
  next
    case False
    then show ?thesis using "2.prems"
      by (auto simp: segs_plain_def segs_marked_def split: if_splits)
  qed
qed

lemma segs_plain_appends:
  "segs_plain ss \<Longrightarrow> segs_plain (butlast (ss @ [x]))" "segs_marked (ss @ [x]) = snd x"
  "segs_plain (ss @ [x]) \<longleftrightarrow> segs_plain ss \<and> \<not> snd x" "segs_plain ss \<Longrightarrow> segs_plain (butlast ss)"
  by (auto simp: segs_plain_def segs_marked_def list_all_iff dest: in_set_butlastD)

text \<open>The invariant of a session.\<close>

definition dl_sess_ctx :: "slab \<Rightarrow> cell list \<Rightarrow> cell list \<Rightarrow> bool \<Rightarrow> dl_ctx \<Rightarrow> bool" where
  "dl_sess_ctx s acc dlv fin d \<longleftrightarrow>
     acc = dlv @ dl_stream s d \<and> segs_plain (butlast (dl_segs s d)) \<and>
     (\<not> fin \<longrightarrow> segs_plain (dl_segs s d) \<and> \<not> dl_coap_error d \<and> \<not> dl_complete d) \<and>
     (dl_complete d \<longrightarrow> dl_segs s d = []) \<and>
     (fin \<longrightarrow> \<not> dl_complete d \<longrightarrow> dl_coap_error d \<or> segs_marked (dl_segs s d))"

definition dl_sess_inv :: "config \<Rightarrow> addr \<Rightarrow> cell list \<Rightarrow> cell list \<Rightarrow> bool \<Rightarrow> dl_mem \<Rightarrow> bool" where
  "dl_sess_inv c p acc dlv fin m \<longleftrightarrow>
     dl_inv c m \<and> (\<exists>d. ctxs m p = Some d \<and> dl_sess_ctx (slab m) acc dlv fin d)"

lemma dl_sess_ctx_open: "dl_sess_ctx s [] [] False (dl_ctx_init arg)"
  by (simp add: dl_sess_ctx_def dl_stream_def segs_plain_def)

lemma dl_sess_ctx_accept:
  assumes "dl_sess_ctx s acc dlv False d" and "dl_ok c s d" and "s a = None" and "block_ok c b"
    and "block_cells b = map Some bytes" and "block_is_last b = l"
  shows "dl_sess_ctx (s(a \<mapsto> b)) (acc @ map Some bytes) dlv l (d\<lparr>dl_queue := dl_queue d @ [a], dl_waiting := False\<rparr>)"
proof -
  note segs = dl_ctx_append(4) [OF assms(2-4), unfolded dl_segs_flags]
  show ?thesis
    using assms(1,5,6)
    by (simp add: dl_sess_ctx_def dl_stream_def segs segs_plain_appends)
qed

lemma dl_sess_ctx_pull:
  assumes inv: "dl_sess_ctx s acc dlv fin d" and nc: "\<not> dl_complete d"
    and post: "dl_loop_post c s d n [] ret x il d' s'"
  shows "dl_sess_ctx s' acc (dlv @ x) fin d'"
proof -
  obtain y e r where rd: "seg_read n (dl_segs s d) = (y, e, r)"
    by (cases "seg_read n (dl_segs s d)") auto
  note P = post [unfolded dl_loop_post_def rd, simplified Let_def prod.case append_Nil]
  note B = seg_read_butlast [OF rd] and S = seg_read_stream [OF rd] and R = seg_read_short [OF rd]
  have il: "il = (e \<or> (\<not> e \<and> length y < n) \<and> dl_coap_error d)" using P by blast
  have r: "il \<longrightarrow> r = []" using il B R inv by (auto simp: dl_sess_ctx_def)
  have segs: "dl_segs s' d' = r" "x = y" "dl_complete d' = il" "dl_coap_error d' = dl_coap_error d"
    using P nc by auto
  show ?thesis
  proof (cases fin)
    case True
    have "\<not> il \<longrightarrow> dl_coap_error d \<or> segs_marked r"
      using inv nc True B il by (auto simp: dl_sess_ctx_def)
    then show ?thesis
      using inv S B r True by (simp add: dl_sess_ctx_def dl_stream_def segs)
  next
    case False
    then have "\<not> il" "segs_plain r"
      using inv il seg_read_plain [OF rd] by (auto simp: dl_sess_ctx_def)
    then show ?thesis
      using inv S B False by (simp add: dl_sess_ctx_def dl_stream_def segs)
  qed
qed

lemma dl_session_inv:
  assumes "dl_session c p acc dlv fin m"
  shows "dl_sess_inv c p acc dlv fin m"
  using assms
proof (induction rule: dl_session.induct)
  case (opened m arg r m')
  then show ?case
    using dl_inv_new [of c m p "dl_ctx_init arg"] dl_sess_ctx_open [of "slab m" arg]
    by (auto simp: dl_sess_inv_def downlink_open_def)
next
  case (accepted acc dlv m slot bytes l w m')
  then obtain d where inv: "dl_inv c m" and d: "ctxs m p = Some d" and ctx: "dl_sess_ctx (slab m) acc dlv False d"
    by (auto simp: dl_sess_inv_def)
  obtain a b where a: "slab m a = None" and b: "block_ok c b" "block_cells b = map Some bytes" "block_is_last b = l"
    and m': "m' = m\<lparr>slab := (slab m)(a \<mapsto> b),
               ctxs := (ctxs m)(p \<mapsto> d\<lparr>dl_queue := dl_queue d @ [a], dl_waiting := False\<rparr>)\<rparr>"
    using dl_op_block [OF inv d accepted.hyps(2,3,4)] by blast
  have "dl_inv c m'" using dl_op_inv [OF inv op_block [OF accepted.hyps(2-4)]] .
  with dl_sess_ctx_accept [OF ctx dl_invD(1) [OF inv d] a b] m' show ?case
    by (simp add: dl_sess_inv_def)
next
  case (refused acc dlv fin m slot bytes l st w m')
  then obtain d where "dl_inv c m" "ctxs m p = Some d" by (auto simp: dl_sess_inv_def)
  from dl_op_block [OF this refused.hyps(2,3,4)] refused show ?case by auto
next
  case (ended acc dlv fin m st w m')
  then obtain d where inv: "dl_inv c m" and d: "ctxs m p = Some d" and ctx: "dl_sess_ctx (slab m) acc dlv fin d"
    by (auto simp: dl_sess_inv_def)
  have "dl_inv c m'" using dl_op_inv [OF inv op_end [OF ended.hyps(2)]] d by simp
  moreover have "dl_sess_ctx (slab m) acc dlv True (d\<lparr>dl_coap_error := True, dl_waiting := False\<rparr>)"
    using ctx by (auto simp: dl_sess_ctx_def dl_stream_def)
  ultimately show ?case
    using dl_op_end [OF inv d ended.hyps(2)] ended.hyps(3) ctx d by (auto simp: dl_sess_inv_def)
next
  case (pulled acc dlv fin m n ret len x il m')
  then obtain d where inv: "dl_inv c m" and d: "ctxs m p = Some d" and ctx: "dl_sess_ctx (slab m) acc dlv fin d"
    by (auto simp: dl_sess_inv_def)
  have "dl_inv c m'" using dl_op_inv [OF inv op_pull [OF pulled.hyps(2)]] .
  with dl_op_pull [OF inv d pulled.hyps(2)] dl_sess_ctx_pull [OF ctx, of c "unat n"] ctx d
  show ?case by (auto simp: dl_sess_inv_def)
next
  case (aborted acc dlv fin m m')
  then obtain d where inv: "dl_inv c m" and d: "ctxs m p = Some d" and ctx: "dl_sess_ctx (slab m) acc dlv fin d"
    by (auto simp: dl_sess_inv_def)
  have "dl_inv c m'" using dl_op_inv [OF inv op_abort [OF aborted.hyps(2)]] .
  moreover have "dl_sess_ctx (slab m) acc dlv fin (d\<lparr>dl_aborted := True\<rparr>)"
    using ctx by (auto simp: dl_sess_ctx_def dl_stream_def)
  ultimately show ?case
    using dl_op_abort_close [OF inv d, of m'] aborted.hyps by (auto simp: dl_sess_inv_def)
next
  case (other acc dlv fin m q m')
  then obtain d where inv: "dl_inv c m" and d: "ctxs m p = Some d" and ctx: "dl_sess_ctx (slab m) acc dlv fin d"
    by (auto simp: dl_sess_inv_def)
  have "dl_inv c m'" using dl_op_inv [OF inv other.hyps(2)] .
  moreover have "ctxs m' p = Some d" "dl_segs (slab m') d = dl_segs (slab m) d"
    using dl_frame_segs [OF dl_op_frame [OF inv other.hyps(2)] _ d] other.hyps(3) by simp_all
  ultimately show ?case using ctx by (simp add: dl_sess_inv_def dl_sess_ctx_def dl_stream_def)
qed

section \<open>A downlink is a byte source\<close>

lemma dl_sess_pull:
  assumes inv: "dl_sess_inv c p acc dlv fin m" and d: "ctxs m p = Some d"
  shows "\<exists>ret k x il m' d'. downlink_get_data c p n m = Some (ret, k, x, il, m') \<and> ctxs m' p = Some d' \<and>
     dl_sess_inv c p acc (dlv @ x) fin m' \<and> dl_stream (slab m) d = x @ dl_stream (slab m') d' \<and>
     length x \<le> unat n \<and> (il \<longrightarrow> dl_stream (slab m') d' = []) \<and> (ret = 0 \<longrightarrow> k = of_nat (length x))"
proof (cases "dl_complete d")
  case True
  then show ?thesis using inv d
    by (auto simp: downlink_get_data_def downlink_is_complete_def errno_defs)
next
  case False
  have I: "dl_inv c m" and ctx: "dl_sess_ctx (slab m) acc dlv fin d" using inv d by (auto simp: dl_sess_inv_def)
  obtain ret x il d' s' where run: "downlink_get_data c p n m =
       Some (ret, of_nat (length x), x, il, m\<lparr>slab := s', ctxs := (ctxs m)(p \<mapsto> d')\<rparr>)"
    and post: "dl_loop_post c (slab m) d (unat n) [] ret x il d' s'"
    and I': "dl_inv c (m\<lparr>slab := s', ctxs := (ctxs m)(p \<mapsto> d')\<rparr>)"
    using downlink_get_data_eq [OF I d False] by blast
  have ctx': "dl_sess_ctx s' acc (dlv @ x) fin d'" by (rule dl_sess_ctx_pull [OF ctx False post])
  have "length x \<le> unat n" "il \<longrightarrow> dl_complete d'"
    using post seg_read_length by (fastforce simp: dl_loop_post_def Let_def split: prod.splits)+
  then show ?thesis using run I' ctx ctx'
    by (fastforce simp: dl_sess_inv_def dl_sess_ctx_def dl_stream_def)
qed

interpretation dls: byte_source "\<lambda>m n. downlink_get_data c p n m" "\<lambda>m. dl_stream (slab m) (the (ctxs m p))"
  "\<lambda>m. \<exists>acc dlv fin. dl_sess_inv c p acc dlv fin m" for c p
proof unfold_locales
  fix m :: dl_mem and n :: size_t
  assume "\<exists>acc dlv fin. dl_sess_inv c p acc dlv fin m"
  then obtain acc dlv fin d where inv: "dl_sess_inv c p acc dlv fin m" and d: "ctxs m p = Some d"
    by (auto simp: dl_sess_inv_def)
  from dl_sess_pull [OF inv d, of n] d
  show "\<exists>ret k xs last m'. downlink_get_data c p n m = Some (ret, k, xs, last, m') \<and>
      (\<exists>acc dlv fin. dl_sess_inv c p acc dlv fin m') \<and>
      dl_stream (slab m) (the (ctxs m p)) = xs @ dl_stream (slab m') (the (ctxs m' p)) \<and> length xs \<le> unat n \<and>
      (last \<longrightarrow> dl_stream (slab m') (the (ctxs m' p)) = []) \<and> (ret = 0 \<longrightarrow> k = of_nat (length xs))"
    by fastforce
qed

section \<open>Quiet executions after an abort\<close>

text \<open>What can still reach an aborted context once the transport has dropped its pointer:
  callbacks of the cloud client that report no error, and operations on other contexts.\<close>

inductive dl_quiet :: "config \<Rightarrow> addr \<Rightarrow> dl_mem \<Rightarrow> dl_mem \<Rightarrow> bool" for c p where
  quiet_refl: "dl_quiet c p m m"
| quiet_end: "dl_quiet c p m m1 \<Longrightarrow> downlink_end_cb GOLIOTH_OK p m1 = Some (w, m2) \<Longrightarrow> dl_quiet c p m m2"
| quiet_block: "dl_quiet c p m m1 \<Longrightarrow> slab_slot_ok c (slab m1) slot \<Longrightarrow> length bytes \<le> unat (block_max c) \<Longrightarrow>
     downlink_block_cb c p slot bytes l m1 = Some (st, w, m2) \<Longrightarrow> dl_quiet c p m m2"
| quiet_other: "dl_quiet c p m m1 \<Longrightarrow> dl_op c q m1 m2 \<Longrightarrow> q \<noteq> p \<Longrightarrow> dl_quiet c p m m2"

lemma dl_quiet_keeps:
  assumes "dl_quiet c p m m'" and "dl_inv c m" and "ctxs m p = Some d" and "dl_aborted d"
  shows "dl_inv c m' \<and> ctxs m' p = Some d"
  using assms
proof (induction rule: dl_quiet.induct)
  case (quiet_refl m)
  then show ?case by simp
next
  case (quiet_end m m1 w m2)
  then show ?case by (simp add: downlink_end_cb_def)
next
  case (quiet_block m m1 slot bytes l st w m2)
  then show ?case by (auto simp: downlink_block_cb_def)
next
  case (quiet_other m m1 q m2)
  then have "dl_inv c m1" "ctxs m1 p = Some d" by auto
  with dl_op_inv [OF _ quiet_other.hyps(2)] dl_frame_segs(1) [OF dl_op_frame [OF _ quiet_other.hyps(2)], of p d]
    quiet_other.hyps(3)
  show ?case by simp
qed

section \<open>A concrete run\<close>

text \<open>A small configuration and a run of it, for the witnesses: one context at address 0 is
  opened and given one block, marked last, in slot 5.\<close>

definition dl_ex_cfg :: config where
  "dl_ex_cfg = kconfig_default 4"

definition dl_ex0 :: dl_mem where
  "dl_ex0 = snd (downlink_open (Some 0) 1 \<lparr>slab = Map.empty, ctxs = Map.empty\<rparr>)"

definition dl_ex1 :: dl_mem where
  "dl_ex1 = snd (snd (the (downlink_block_cb dl_ex_cfg 0 (Some 5) [7, 9] True dl_ex0)))"

lemma dl_ex0_inv: "dl_inv dl_ex_cfg dl_ex0"
  unfolding dl_ex0_def by (rule downlink_open_inv) (simp_all add: dl_inv_empty)

lemma dl_ex0_ctx: "ctxs dl_ex0 0 = Some (dl_ctx_init 1)" "slab dl_ex0 = Map.empty"
  by (simp_all add: dl_ex0_def downlink_open_def)

lemma dl_ex_slot: "slab_slot_ok dl_ex_cfg (slab dl_ex0) (Some 5)"
  by (simp add: slab_slot_ok_def dl_ex0_ctx dl_ex_cfg_def kconfig_default_def)

lemma dl_ex1_run: "downlink_block_cb dl_ex_cfg 0 (Some 5) [7, 9] True dl_ex0 = Some (GOLIOTH_OK, True, dl_ex1)"
  by (simp add: dl_ex1_def downlink_block_cb_def dl_ex0_ctx block_alloc_def block_append_def memcpy_to_def
      dl_ctx_init_def dl_ex_cfg_def kconfig_default_def Let_def)

lemma dl_ex_session:
  "dl_session dl_ex_cfg 0 [] [] False dl_ex0" "dl_session dl_ex_cfg 0 [Some 7, Some 9] [] True dl_ex1"
proof -
  show 0: "dl_session dl_ex_cfg 0 [] [] False dl_ex0"
    by (rule dl_session.opened [OF dl_inv_empty, of _ 1 "Some 0"])
       (simp_all add: dl_ex0_def downlink_open_def)
  show "dl_session dl_ex_cfg 0 [Some 7, Some 9] [] True dl_ex1"
    using dl_session.accepted [OF 0 dl_ex_slot _ dl_ex1_run] by (simp add: dl_ex_cfg_def kconfig_default_def)
qed

lemma dl_ex1_inv: "dl_inv dl_ex_cfg dl_ex1"
  using dl_session_inv [OF dl_ex_session(2)] by (simp add: dl_sess_inv_def)

lemma dl_ex1_ctx: "ctxs dl_ex1 0 = Some ((dl_ctx_init 1)\<lparr>dl_queue := [5], dl_waiting := False\<rparr>)"
  by (simp add: dl_ex1_def downlink_block_cb_def dl_ex0_ctx block_alloc_def block_append_def memcpy_to_def
      dl_ctx_init_def dl_ex_cfg_def kconfig_default_def Let_def fifo_put_def)

lemma dl_ex1_segs:
  "dl_segs (slab dl_ex1) ((dl_ctx_init 1)\<lparr>dl_queue := [5], dl_waiting := False\<rparr>) = [([Some 7, Some 9], True)]"
  by (simp add: dl_ex1_def downlink_block_cb_def dl_ex0_ctx block_alloc_def block_append_def memcpy_to_def
      dl_ctx_init_def dl_ex_cfg_def kconfig_default_def Let_def dl_segs_def blk_seg_def block_cells_def
      block_mark_last_def block_is_last_def)

section \<open>Properties\<close>

text \<open>What a read returns and leaves in the flags, from the abstract reader.\<close>

lemma downlink_get_data_flags:
  assumes inv: "dl_inv c m" and d: "ctxs m p = Some d" and nc: "\<not> dl_complete d"
    and rd: "seg_read (unat n) (dl_segs (slab m) d) = (x, e, r)"
  shows "\<exists>m' d'. ctxs m' p = Some d' \<and>
     (let short = (\<not> e \<and> length x < unat n) in
      downlink_get_data c p n m =
        Some (if short \<and> \<not> dl_coap_error d then - EAGAIN else 0, of_nat (length x), x,
              e \<or> short \<and> dl_coap_error d, m') \<and>
      dl_complete d' = (e \<or> short \<and> dl_coap_error d) \<and>
      dl_waiting d' = (dl_waiting d \<or> short \<and> \<not> dl_coap_error d \<and> x = []))"
proof -
  obtain ret x1 il d' s' where run: "downlink_get_data c p n m =
       Some (ret, of_nat (length x1), x1, il, m\<lparr>slab := s', ctxs := (ctxs m)(p \<mapsto> d')\<rparr>)"
    and post: "dl_loop_post c (slab m) d (unat n) [] ret x1 il d' s'"
    using downlink_get_data_eq [OF inv d nc] by blast
  note P = post [unfolded dl_loop_post_def rd, simplified Let_def prod.case append_Nil]
  then show ?thesis
    using run nc
    by (intro exI [of _ "m\<lparr>slab := s', ctxs := (ctxs m)(p \<mapsto> d')\<rparr>"] exI [of _ d']) (simp add: Let_def)
qed

text \<open>Memory safety of the downlink: on a live context of a well-formed memory every
  operation returns (none uses a freed object, frees twice or copies out of bounds), and
  leaves a well-formed memory, where the slab holds exactly the blocks of live contexts.\<close>

theorem downlink_memory_safe:
  assumes inv: "dl_inv c m" and d: "ctxs m p = Some d"
    and slot: "slab_slot_ok c (slab m) slot" and len: "length bytes \<le> unat (block_max c)"
  shows "(\<exists>st w m'. downlink_block_cb c p slot bytes l m = Some (st, w, m') \<and> dl_inv c m') \<and>
    (\<exists>w m'. downlink_end_cb st p m = Some (w, m') \<and> dl_inv c m') \<and>
    (\<exists>ret k x il m'. downlink_get_data c p n m = Some (ret, k, x, il, m') \<and> dl_inv c m' \<and> None \<notin> set x) \<and>
    (\<exists>m'. downlink_abort (Some p) m = Some m' \<and> dl_inv c m') \<and>
    (\<exists>m'. downlink_close (Some p) m = Some m' \<and> dl_inv c m' \<and> ctxs m' p = None)"
proof -
  have written: "None \<notin> set (dl_stream (slab m) d)"
    using dl_invD(1) [OF inv d]
    by (auto simp: dl_stream_def segs_stream_def dl_segs_def dl_ok_def dl_owned_def blk_seg_def list_all_iff
        block_ok_def dest: in_set_dropD split: option.splits)
  have pull: "\<exists>ret k x il m'. downlink_get_data c p n m = Some (ret, k, x, il, m') \<and> dl_inv c m' \<and> None \<notin> set x"
  proof (cases "dl_complete d")
    case True
    then show ?thesis using d inv by (auto simp: downlink_get_data_def downlink_is_complete_def)
  next
    case False
    obtain ret x il d' s' where run: "downlink_get_data c p n m =
         Some (ret, of_nat (length x), x, il, m\<lparr>slab := s', ctxs := (ctxs m)(p \<mapsto> d')\<rparr>)"
      and post: "dl_loop_post c (slab m) d (unat n) [] ret x il d' s'"
      and inv': "dl_inv c (m\<lparr>slab := s', ctxs := (ctxs m)(p \<mapsto> d')\<rparr>)"
      using downlink_get_data_eq [OF inv d False] by blast
    have "set x \<subseteq> set (dl_stream (slab m) d)"
      using post seg_read_stream by (fastforce simp: dl_loop_post_def dl_stream_def Let_def split: prod.splits)
    with run inv' written show ?thesis by blast
  qed
  show ?thesis
    using downlink_block_cb_inv [OF inv d slot len] downlink_end_cb_inv [OF inv d] pull
      downlink_abort_inv [OF inv d] downlink_close_inv [OF inv d] by fastforce
qed

theorem downlink_memory_safe_witness:
  "\<exists>m'. downlink_close (Some 0) dl_ex0 = Some m' \<and> dl_inv dl_ex_cfg m' \<and> ctxs m' 0 = None"
  using downlink_memory_safe [OF dl_ex0_inv dl_ex0_ctx(1) dl_ex_slot, of "[7, 9]"]
  by (simp add: dl_ex_cfg_def kconfig_default_def)

text \<open>C13. \<open>pouch_gateway_downlink_get_data\<close> refines the abstract reader: it returns the
  cells \<open>seg_read\<close> returns, frees exactly the blocks it exhausted, and reports success,
  end of data, \<open>EAGAIN\<close> and the wait for a wake-up exactly as the abstract outcome says.\<close>

theorem downlink_get_data_refines:
  assumes inv: "dl_inv c m" and d: "ctxs m p = Some d" and nc: "\<not> dl_complete d"
    and rd: "seg_read (unat n) (dl_segs (slab m) d) = (x, e, r)"
  shows "\<exists>m' d' freed. ctxs m' p = Some d' \<and> dl_segs (slab m') d' = r \<and>
     dl_owned d = freed @ dl_owned d' \<and> slab m' = slab m |` (- set freed) \<and>
     (let short = (\<not> e \<and> length x < unat n) in
      downlink_get_data c p n m =
        Some (if short \<and> \<not> dl_coap_error d then - EAGAIN else 0, of_nat (length x), x,
              e \<or> short \<and> dl_coap_error d, m') \<and>
      dl_complete d' = (e \<or> short \<and> dl_coap_error d) \<and>
      dl_waiting d' = (dl_waiting d \<or> short \<and> \<not> dl_coap_error d \<and> x = []))"
proof -
  obtain ret x1 il d' s' where run: "downlink_get_data c p n m =
       Some (ret, of_nat (length x1), x1, il, m\<lparr>slab := s', ctxs := (ctxs m)(p \<mapsto> d')\<rparr>)"
    and post: "dl_loop_post c (slab m) d (unat n) [] ret x1 il d' s'"
    using downlink_get_data_eq [OF inv d nc] by blast
  note P = post [unfolded dl_loop_post_def rd, simplified Let_def prod.case append_Nil]
  then obtain freed where "dl_owned d = freed @ dl_owned d'" "s' = slab m |` (- set freed)" by blast
  then show ?thesis
    using P run nc
    by (intro exI [of _ "m\<lparr>slab := s', ctxs := (ctxs m)(p \<mapsto> d')\<rparr>"] exI [of _ d'] exI [of _ freed])
       (simp add: Let_def)
qed

theorem downlink_get_data_refines_witness:
  "\<exists>m'. downlink_get_data dl_ex_cfg 0 8 dl_ex1 = Some (0, 2, [Some 7, Some 9], True, m')"
proof -
  have rd: "seg_read (unat (8 :: size_t)) (dl_segs (slab dl_ex1) ((dl_ctx_init 1)\<lparr>dl_queue := [5], dl_waiting := False\<rparr>))
      = ([Some 7, Some 9], True, [])"
    by (simp only: dl_ex1_segs) simp
  from downlink_get_data_refines [OF dl_ex1_inv dl_ex1_ctx _ rd] show ?thesis by (auto simp: Let_def)
qed

text \<open>C4. In order, exactly once: in every session, however its cloud callbacks, reads and
  the operations of other contexts are interleaved, what the transport got followed by what
  the context still holds is what the cloud callback accepted; and once the context is
  complete, the transport has got all of it.\<close>

theorem downlink_delivers_in_order:
  assumes "dl_session c p acc dlv fin m"
  shows "\<exists>d. ctxs m p = Some d \<and> acc = dlv @ dl_stream (slab m) d \<and>
     (if dl_complete d then dlv = acc \<and> fin else True)"
  using dl_session_inv [OF assms]
  by (auto simp: dl_sess_inv_def dl_sess_ctx_def dl_stream_def)

theorem downlink_delivers_in_order_witness:
  "\<exists>d. ctxs dl_ex1 0 = Some d \<and> [Some 7, Some 9] = dl_stream (slab dl_ex1) d"
  using downlink_delivers_in_order [OF dl_ex_session(2)] by auto

text \<open>The end is reached: once the cloud has ended the stream, one read that asks for more
  than the context holds returns all of it, reports the end and completes the context.\<close>

theorem downlink_finishes:
  assumes sess: "dl_session c p acc dlv True m" and d: "ctxs m p = Some d" and nc: "\<not> dl_complete d"
    and n: "length (dl_stream (slab m) d) < unat n"
  shows "\<exists>m' d'. downlink_get_data c p n m
      = Some (0, of_nat (length (dl_stream (slab m) d)), dl_stream (slab m) d, True, m') \<and>
     ctxs m' p = Some d' \<and> dl_complete d' \<and> acc = dlv @ dl_stream (slab m) d"
proof -
  have inv: "dl_inv c m" and ctx: "dl_sess_ctx (slab m) acc dlv True d"
    using dl_session_inv [OF sess] d by (auto simp: dl_sess_inv_def)
  obtain x e r where rd: "seg_read (unat n) (dl_segs (slab m) d) = (x, e, r)"
    by (cases "seg_read (unat n) (dl_segs (slab m) d)") auto
  note S = seg_read_stream [OF rd, folded dl_stream_def]
  have "length x < unat n" using S n by simp
  then have "e \<or> r = []" by (rule seg_read_short [OF rd])
  moreover have B: "e \<longrightarrow> r = []" "\<not> e \<longrightarrow> segs_marked (dl_segs (slab m) d) \<longrightarrow> segs_marked r"
    using seg_read_butlast [OF rd] ctx by (auto simp: dl_sess_ctx_def)
  ultimately have r: "r = []" by blast
  then have x: "x = dl_stream (slab m) d" using S by simp
  have "e \<or> dl_coap_error d"
    using ctx nc B r by (auto simp: dl_sess_ctx_def segs_marked_def)
  with downlink_get_data_flags [OF inv d nc rd] x n ctx show ?thesis
    by (fastforce simp: Let_def dl_sess_ctx_def)
qed

theorem downlink_finishes_witness:
  "\<exists>m' d'. downlink_get_data dl_ex_cfg 0 8 dl_ex1
      = Some (0, of_nat (length [Some 7 :: cell, Some 9]), [Some 7, Some 9], True, m') \<and>
     ctxs m' 0 = Some d' \<and> dl_complete d'"
proof -
  have st: "dl_stream (slab dl_ex1) ((dl_ctx_init 1)\<lparr>dl_queue := [5], dl_waiting := False\<rparr>) = [Some 7, Some 9]"
    using dl_session_inv [OF dl_ex_session(2)] dl_ex1_ctx by (simp add: dl_sess_inv_def dl_sess_ctx_def)
  have "length (dl_stream (slab dl_ex1) ((dl_ctx_init 1)\<lparr>dl_queue := [5], dl_waiting := False\<rparr>)) < unat (8 :: size_t)"
    unfolding st by simp
  from downlink_finishes [OF dl_ex_session(2) dl_ex1_ctx _ this] show ?thesis
    unfolding st by auto
qed

text \<open>No lost wake-up: after a read that returned \<open>EAGAIN\<close> without a byte, the next
  block the context accepts, or the next error of the cloud on a context that is not
  aborted, calls \<open>data_available\<close>.\<close>

theorem downlink_no_lost_wakeup:
  assumes inv: "dl_inv c m"
    and read: "downlink_get_data c p n m = Some (- EAGAIN, len, [], il, m1)"
    and other: "dl_frame q m1 m2" "q \<noteq> p" "dl_inv c m2"
    and slot: "slab_slot_ok c (slab m2) slot" "length bytes \<le> unat (block_max c)"
  shows "(case downlink_block_cb c p slot bytes l m2 of
            Some (st, w, m3) \<Rightarrow> if st = GOLIOTH_OK then w else True | None \<Rightarrow> False) \<and>
         (case downlink_end_cb st p m2 of
            Some (w, m3) \<Rightarrow> if st \<noteq> GOLIOTH_OK \<and> ctxs m3 p \<noteq> None then w else True | None \<Rightarrow> False)"
proof -
  obtain d where d: "ctxs m p = Some d"
    using read by (cases "ctxs m p") (auto simp: downlink_get_data_def)
  have nc: "\<not> dl_complete d"
    using read d by (auto simp: downlink_get_data_def downlink_is_complete_def errno_defs)
  obtain x e r where rd: "seg_read (unat n) (dl_segs (slab m) d) = (x, e, r)"
    by (cases "seg_read (unat n) (dl_segs (slab m) d)") auto
  obtain d1 where d1: "ctxs m1 p = Some d1" "dl_waiting d1"
    using downlink_get_data_flags [OF inv d nc rd] read
    by (auto simp: Let_def errno_defs split: if_splits)
  have d2: "ctxs m2 p = Some d1" using dl_frame_segs(1) [OF other(1) _ d1(1)] other(2) by simp
  obtain st1 w1 m3 where b: "downlink_block_cb c p slot bytes l m2 = Some (st1, w1, m3)"
    using downlink_block_cb_inv [OF other(3) d2 slot] by blast
  obtain w2 m4 where e: "downlink_end_cb st p m2 = Some (w2, m4)"
    using downlink_end_cb_inv [OF other(3) d2] by blast
  show ?thesis
    using dl_op_block [OF other(3) d2 slot b] dl_op_end [OF other(3) d2 e] b e d1(2) by auto
qed

theorem downlink_no_lost_wakeup_witness:
  "\<exists>m1. downlink_get_data dl_ex_cfg 0 8 dl_ex0 = Some (- EAGAIN, 0, [], False, m1) \<and>
     (case downlink_block_cb dl_ex_cfg 0 (Some 5) [7, 9] True m1 of
            Some (st, w, m3) \<Rightarrow> if st = GOLIOTH_OK then w else True | None \<Rightarrow> False)"
proof -
  have run: "downlink_get_data dl_ex_cfg 0 8 dl_ex0 = Some (- EAGAIN, 0, [], False, dl_ex0)"
    by (simp add: downlink_get_data_def dl_ex0_ctx downlink_is_complete_def dl_ctx_init_def dl_get_loop.simps Let_def)
       (simp add: dl_ex0_def downlink_open_def dl_ctx_init_def)
  have len: "length [7, 9 :: byte] \<le> unat (block_max dl_ex_cfg)"
    by (simp add: dl_ex_cfg_def kconfig_default_def)
  from downlink_no_lost_wakeup [OF dl_ex0_inv run dl_frame_refl [of 1] _ dl_ex0_inv dl_ex_slot len,
      of True GOLIOTH_ERR_NACK] run
  show ?thesis by (intro exI [of _ dl_ex0] conjI) (simp, blast)
qed

text \<open>C32. A leak: an aborted context that is not complete is freed only by an error callback.
  Where the cloud has already ended the download without an error (so that no further
  callback is due) the context and all the slab blocks it holds stay allocated, whatever
  else the gateway does.\<close>

theorem downlink_abort_leaks:
  assumes inv: "dl_inv c m" and d: "ctxs m p = Some d" and nc: "\<not> dl_complete d"
    and abort: "downlink_abort (Some p) m = Some m1" and quiet: "dl_quiet c p m1 m2"
  shows "ctxs m2 p \<noteq> None \<and> set (dl_owned d) \<subseteq> dom (slab m2)"
proof -
  have m1: "m1 = m\<lparr>ctxs := (ctxs m)(p \<mapsto> d\<lparr>dl_aborted := True\<rparr>)\<rparr>"
    using downlink_abort_eq [OF inv d] abort nc by simp
  have "dl_inv c m1" using downlink_abort_inv [OF inv d] abort by simp
  then have "dl_inv c m2 \<and> ctxs m2 p = Some (d\<lparr>dl_aborted := True\<rparr>)"
    using dl_quiet_keeps [OF quiet] m1 by simp
  then show ?thesis using dl_slab_owner by fastforce
qed

theorem downlink_abort_leaks_witness:
  "\<exists>m1. downlink_abort (Some 0) dl_ex1 = Some m1 \<and> 5 \<in> dom (slab m1)"
proof -
  obtain m1 where m1: "downlink_abort (Some 0) dl_ex1 = Some m1"
    using downlink_abort_inv [OF dl_ex1_inv dl_ex1_ctx] by blast
  from downlink_abort_leaks [OF dl_ex1_inv dl_ex1_ctx _ m1 quiet_refl] m1 show ?thesis
    by (auto simp: dl_owned_def dl_ctx_init_def)
qed

text \<open>A transfer that reports its last byte is whole: whatever sizes the transport pulls,
  if one of the pulls reports the end, the bytes pulled so far and these together are
  everything the cloud callback accepted.\<close>

theorem downlink_transfer_whole:
  assumes sess: "dl_session c p acc dlv fin m"
    and run: "pull_all (\<lambda>m n. downlink_get_data c p n m) ns m = Some (xs, True, m')"
  shows "acc = dlv @ xs"
proof -
  have inv: "dl_sess_inv c p acc dlv fin m" by (rule dl_session_inv [OF sess])
  then obtain d where d: "ctxs m p = Some d" "acc = dlv @ dl_stream (slab m) d"
    by (auto simp: dl_sess_inv_def dl_sess_ctx_def dl_stream_def)
  have "xs = dl_stream (slab m) (the (ctxs m p))"
    by (rule dls.transfer_complete [OF _ run]) (use inv in blast)
  then show ?thesis using d by simp
qed

theorem downlink_transfer_whole_witness:
  "\<exists>m'. pull_all (\<lambda>m n. downlink_get_data dl_ex_cfg 0 n m) [8] dl_ex1 = Some ([Some 7, Some 9], True, m')"
proof -
  have rd: "seg_read (unat (8 :: size_t)) (dl_segs (slab dl_ex1) ((dl_ctx_init 1)\<lparr>dl_queue := [5], dl_waiting := False\<rparr>))
      = ([Some 7, Some 9], True, [])"
    by (simp only: dl_ex1_segs) simp
  obtain m' where "downlink_get_data dl_ex_cfg 0 8 dl_ex1 = Some (0, 2, [Some 7, Some 9], True, m')"
    using downlink_get_data_flags [OF dl_ex1_inv dl_ex1_ctx _ rd] by (auto simp: Let_def)
  then have run: "pull_all (\<lambda>m n. downlink_get_data dl_ex_cfg 0 n m) [8] dl_ex1 = Some ([Some 7, Some 9], True, m')" by simp
  with downlink_transfer_whole [OF dl_ex_session(2) run] show ?thesis by blast
qed

end
