(* ===== verification/Downlink_Threads.thy ===== *)
theory Downlink_Threads
  imports Downlink_Session
begin

text \<open>
  The two threads of a downlink. The cloud client's thread runs
  \<open>pouch_gateway_downlink_block_cb\<close> and \<open>pouch_gateway_downlink_end_cb\<close>, the
  transport's thread \<open>pouch_gateway_downlink_get_data\<close>, \<open>pouch_gateway_downlink_abort\<close>
  and \<open>pouch_gateway_downlink_close\<close>, and no lock is held. Here each function is cut at
  every access to what the threads share (the flags, \<open>current_block\<close>, the FIFO, the
  context itself), a program counter says where a thread stands, and \<open>dlt_step\<close> lets the
  threads move in any order. Run without the other thread, the pieces are the functions of
  \<open>Downlink\<close>. The results: in every interleaving the bytes arrive in order and exactly
  once; the context is used after it was freed only in two windows; and a wake-up is lost
  only when the cloud's thread tests the waiting flag while the transport's thread stands
  between the empty FIFO and the setting of the flag.
\<close>

section \<open>The pieces of the functions\<close>

text \<open>Where the cloud's thread stands: \<open>CStore\<close> behind the test of the abort flag in
  \<open>block_cb\<close>; \<open>CFail\<close> and \<open>CClose\<close> behind the one in \<open>end_cb\<close>; \<open>CPosted\<close> with
  the block in the FIFO or the error flag set; \<open>CEmpty\<close> when \<open>current_block\<close> was read
  as \<open>NULL\<close>.\<close>

datatype cloud_pc = CIdle | CStore "byte list" bool | CFail | CClose | CPosted | CEmpty

definition block_cb_enter :: "addr \<Rightarrow> byte list \<Rightarrow> bool \<Rightarrow> dl_mem \<Rightarrow> cloud_pc option" where
  "block_cb_enter p bytes is_last m = do {
     d \<leftarrow> ctxs m p;
     Some (if dl_aborted d then CIdle else CStore bytes is_last) }"

definition end_cb_enter :: "addr \<Rightarrow> dl_mem \<Rightarrow> cloud_pc option" where
  "end_cb_enter p m = do {
     d \<leftarrow> ctxs m p;
     Some (if dl_aborted d then CClose else CFail) }"

definition put_ctx :: "addr \<Rightarrow> dl_ctx \<Rightarrow> dl_mem \<Rightarrow> dl_mem" where
  "put_ctx p d m = m\<lparr>ctxs := (ctxs m)(p \<mapsto> d)\<rparr>"

fun cloud_step :: "config \<Rightarrow> addr \<Rightarrow> ptr \<Rightarrow> cloud_pc \<Rightarrow> dl_mem \<Rightarrow> (cloud_pc \<times> bool \<times> dl_mem) option" where
  "cloud_step c p slot (CStore bytes is_last) m =
     (case block_alloc c (slab m) slot None of
        (None, s) \<Rightarrow> Some (CIdle, False, m)
      | (Some a, s) \<Rightarrow> do {
          b \<leftarrow> s a;
          b1 \<leftarrow> block_append b bytes;
          let b2 = (if is_last then block_mark_last b1 else b1);
          d \<leftarrow> ctxs m p;
          Some (CPosted, False,
                put_ctx p (d\<lparr>dl_queue := fifo_put (dl_queue d) a\<rparr>) (m\<lparr>slab := s(a \<mapsto> b2)\<rparr>)) })"
| "cloud_step c p slot CFail m = do {
     d \<leftarrow> ctxs m p;
     Some (CPosted, False, put_ctx p (d\<lparr>dl_coap_error := True\<rparr>) m) }"
| "cloud_step c p slot CClose m = do { m' \<leftarrow> downlink_close (Some p) m; Some (CIdle, False, m') }"
| "cloud_step c p slot CPosted m = do {
     d \<leftarrow> ctxs m p;
     Some (if dl_current d = None then CEmpty else CIdle, False, m) }"
| "cloud_step c p slot CEmpty m = do {
     d \<leftarrow> ctxs m p;
     Some (CIdle, dl_waiting d, put_ctx p (d\<lparr>dl_waiting := False\<rparr>) m) }"
| "cloud_step c p slot CIdle m = Some (CIdle, False, m)"

text \<open>Where the transport's thread stands: \<open>RLoop\<close> at the head of the loop; \<open>RGot\<close> with
  a block taken from the FIFO that is not yet \<open>current_block\<close>; \<open>RNext\<close> with the
  exhausted block freed and \<open>current_block\<close> dangling; \<open>RAssign\<close> with the next block
  taken and not yet stored; \<open>REmpty\<close> when the FIFO was found empty; \<open>RShort\<close> when then
  the error flag was read as clear; \<open>RDone\<close> after a read, with what it returned;
  \<open>RAborting\<close> between the setting of the abort flag and the test of the complete flag.\<close>

datatype reader_pc =
  RIdle
| RLoop size_t bool "cell list"
| RGot addr size_t bool "cell list"
| RNext bool size_t "cell list"
| RAssign ptr bool size_t "cell list"
| REmpty bool "cell list"
| RShort bool
| RDone int "cell list" bool
| RAborting
| RClosed

definition get_data_enter :: "addr \<Rightarrow> size_t \<Rightarrow> dl_mem \<Rightarrow> reader_pc option" where
  "get_data_enter p n m = do {
     d \<leftarrow> ctxs m p;
     Some (if downlink_is_complete d then RDone (- ENODATA) [] False else RLoop n False []) }"

definition abort_enter :: "addr \<Rightarrow> dl_mem \<Rightarrow> (reader_pc \<times> dl_mem) option" where
  "abort_enter p m = do {
     d \<leftarrow> ctxs m p;
     Some (RAborting, put_ctx p (d\<lparr>dl_aborted := True\<rparr>) m) }"

definition abort_rest :: "addr \<Rightarrow> dl_mem \<Rightarrow> (reader_pc \<times> dl_mem) option" where
  "abort_rest p m = do {
     d \<leftarrow> ctxs m p;
     if downlink_is_complete d then do { m' \<leftarrow> downlink_close (Some p) m; Some (RClosed, m') }
     else Some (RClosed, m) }"

fun reader_step :: "config \<Rightarrow> addr \<Rightarrow> reader_pc \<Rightarrow> dl_mem \<Rightarrow> (reader_pc \<times> dl_mem) option" where
  "reader_step c p (RLoop n il out) m =
     (if n = 0 then Some (RDone 0 out il, m)
      else do {
        d \<leftarrow> ctxs m p;
        (case dl_current d of
           None \<Rightarrow> (case fifo_get (dl_queue d) of
               (None, q) \<Rightarrow> Some (REmpty il out, m)
             | (Some a, q) \<Rightarrow> Some (RGot a n il out, put_ctx p (d\<lparr>dl_queue := q\<rparr>) m))
         | Some a \<Rightarrow> do {
             b \<leftarrow> slab m a;
             let k = min n (block_length b - dl_offset d);
             (err, cs) \<leftarrow> block_get c b (dl_offset d) k;
             let out1 = out @ (if err = 0 then cs else replicate (unat k) None);
             if block_length b = dl_offset d + k
             then do {
               s \<leftarrow> block_free (slab m) a;
               Some (RNext (block_is_last b) (n - k) out1, put_ctx p (d\<lparr>dl_offset := 0\<rparr>) (m\<lparr>slab := s\<rparr>)) }
             else Some (RLoop (n - k) il out1, put_ctx p (d\<lparr>dl_offset := dl_offset d + k\<rparr>) m) }) })"
| "reader_step c p (RGot a n il out) m = do {
     d \<leftarrow> ctxs m p;
     Some (RLoop n il out, put_ctx p (d\<lparr>dl_current := Some a\<rparr>) m) }"
| "reader_step c p (RNext l n out) m = do {
     d \<leftarrow> ctxs m p;
     let (cur, q) = fifo_get (dl_queue d);
     Some (RAssign cur l n out, put_ctx p (d\<lparr>dl_queue := q\<rparr>) m) }"
| "reader_step c p (RAssign cur l n out) m = do {
     d \<leftarrow> ctxs m p;
     if l then Some (RDone 0 out True, put_ctx p (d\<lparr>dl_current := cur, dl_complete := True\<rparr>) m)
     else Some (RLoop n False out, put_ctx p (d\<lparr>dl_current := cur\<rparr>) m) }"
| "reader_step c p (REmpty il out) m = do {
     d \<leftarrow> ctxs m p;
     if dl_coap_error d then Some (RDone 0 out True, put_ctx p (d\<lparr>dl_complete := True\<rparr>) m)
     else if out = [] then Some (RShort il, m)
     else Some (RDone (- EAGAIN) out il, m) }"
| "reader_step c p (RShort il) m = do {
     d \<leftarrow> ctxs m p;
     Some (RDone (- EAGAIN) [] il, put_ctx p (d\<lparr>dl_waiting := True\<rparr>) m) }"
| "reader_step c p RAborting m = abort_rest p m"
| "reader_step c p pc m = Some (pc, m)"

section \<open>The pieces in sequence\<close>

text \<open>A thread that runs alone: \<open>n\<close> steps of it.\<close>

fun reader_run :: "config \<Rightarrow> addr \<Rightarrow> nat \<Rightarrow> reader_pc \<Rightarrow> dl_mem \<Rightarrow> (reader_pc \<times> dl_mem) option" where
  "reader_run c p 0 pc m = Some (pc, m)"
| "reader_run c p (Suc k) pc m = do { (pc', m') \<leftarrow> reader_step c p pc m; reader_run c p k pc' m' }"

fun cloud_run :: "config \<Rightarrow> addr \<Rightarrow> ptr \<Rightarrow> nat \<Rightarrow> cloud_pc \<Rightarrow> bool \<Rightarrow> dl_mem \<Rightarrow> (cloud_pc \<times> bool \<times> dl_mem) option" where
  "cloud_run c p slot 0 pc w m = Some (pc, w, m)"
| "cloud_run c p slot (Suc k) pc w m =
     do { (pc', w', m') \<leftarrow> cloud_step c p slot pc m; cloud_run c p slot k pc' (w \<or> w') m' }"

lemma put_ctx_simps [simp]:
  "ctxs (put_ctx p d m) = (ctxs m)(p \<mapsto> d)" "slab (put_ctx p d m) = slab m"
  "put_ctx p d' (put_ctx p d m) = put_ctx p d' m"
  by (simp_all add: put_ctx_def)

lemma put_ctx_same: "ctxs m p = Some d \<Longrightarrow> put_ctx p d m = m"
  by (cases m) (simp add: put_ctx_def fun_upd_idem)

lemma put_ctx_slab: "put_ctx p d m\<lparr>slab := s\<rparr> = put_ctx p d (m\<lparr>slab := s\<rparr>)"
  by (simp add: put_ctx_def)

lemma put_ctx_slab2 [simp]: "put_ctx p d' ((put_ctx p d m)\<lparr>slab := s\<rparr>) = put_ctx p d' (m\<lparr>slab := s\<rparr>)"
  by (simp add: put_ctx_def)

lemma reader_runI:
  "reader_step c p pc m = Some (pc1, m1) \<Longrightarrow> \<exists>k. reader_run c p k pc1 m1 = Some r \<Longrightarrow>
   \<exists>k. reader_run c p k pc m = Some r"
  by (metis bind.simps(2) prod.case reader_run.simps(2))

lemma reader_run_done: "\<exists>k. reader_run c p k pc m = Some (pc, m)"
  by (rule exI [of _ 0]) simp

text \<open>The loop of \<open>get_data\<close>, one iteration on a block that is there.\<close>

lemma dl_get_loop_copy:
  assumes "n \<noteq> 0" and "dl_current d = Some a"
  shows "dl_get_loop c s d n il out = do {
     b \<leftarrow> s a;
     let k = min n (block_length b - dl_offset d);
     (err, cs) \<leftarrow> block_get c b (dl_offset d) k;
     let out1 = out @ (if err = 0 then cs else replicate (unat k) None);
     if block_length b = dl_offset d + k then do {
       s1 \<leftarrow> block_free s a;
       let (cur, q1) = fifo_get (dl_queue d);
       let d2 = d\<lparr>dl_offset := 0, dl_current := cur, dl_queue := q1\<rparr>;
       if block_is_last b then Some (0, out1, True, d2\<lparr>dl_complete := True\<rparr>, s1)
       else dl_get_loop c s1 d2 (n - k) False out1 }
     else dl_get_loop c s (d\<lparr>dl_offset := dl_offset d + k\<rparr>) (n - k) il out1 }"
  using assms by (cases d, subst dl_get_loop.simps) (simp add: Let_def split: option.split prod.split)

lemma dl_get_loop_fetch:
  assumes "n \<noteq> 0" and "dl_current d = None" and "dl_queue d = a # q"
  shows "dl_get_loop c s d n il out = dl_get_loop c s (d\<lparr>dl_current := Some a, dl_queue := q\<rparr>) n il out"
  using assms by (subst (1 2) dl_get_loop.simps) (simp add: Let_def split: option.split prod.split)

lemma dl_get_loop_empty:
  assumes "n \<noteq> 0" and "dl_current d = None" and "dl_queue d = []"
  shows "dl_get_loop c s d n il out =
     (if dl_coap_error d then Some (0, out, True, d\<lparr>dl_complete := True\<rparr>, s)
      else if out = [] then Some (- EAGAIN, out, il, d\<lparr>dl_waiting := True\<rparr>, s)
      else Some (- EAGAIN, out, il, d, s))"
proof -
  have "d\<lparr>dl_current := None, dl_queue := []\<rparr> = d" using assms by simp
  then show ?thesis
    using assms by (subst dl_get_loop.simps) (simp add: Let_def del: if_split)
qed

text \<open>The steps of the transport's thread, when the context is there.\<close>

lemma reader_copy:
  assumes "n \<noteq> 0" and "dl_current d = Some a" and "s a = Some b"
    and "k = min n (block_length b - dl_offset d)" and "block_get c b (dl_offset d) k = Some (err, cs)"
  shows "reader_step c p (RLoop n il out) (put_ctx p d (m\<lparr>slab := s\<rparr>)) =
     (let out1 = out @ (if err = 0 then cs else replicate (unat k) None) in
      if block_length b = dl_offset d + k
      then Some (RNext (block_is_last b) (n - k) out1, put_ctx p (d\<lparr>dl_offset := 0\<rparr>) (m\<lparr>slab := s(a := None)\<rparr>))
      else Some (RLoop (n - k) il out1, put_ctx p (d\<lparr>dl_offset := dl_offset d + k\<rparr>) (m\<lparr>slab := s\<rparr>)))"
  using assms by (simp add: Let_def block_free_def)

lemma dl_upd_commute:
  "d\<lparr>dl_queue := q, dl_current := x\<rparr> = d\<lparr>dl_current := x, dl_queue := q\<rparr>"
  by simp

lemma reader_run1:
  "reader_step c p pc m = Some r \<Longrightarrow> \<exists>k. reader_run c p k pc m = Some r"
  by (cases r) (auto intro: exI [of _ "Suc 0"])

lemma reader_loop_alone:
  "dl_get_loop c s d n il out = Some (ret, out', il', d', s') \<Longrightarrow>
   \<exists>k. reader_run c p k (RLoop n il out) (put_ctx p d (m\<lparr>slab := s\<rparr>)) =
       Some (RDone ret out' il', put_ctx p d' (m\<lparr>slab := s'\<rparr>))"
proof (induction c s d n il out arbitrary: ret out' il' d' s' rule: dl_get_loop.induct)
  case (1 c s d n il out)
  let ?goal = "\<lambda>pc d s. \<exists>k. reader_run c p k pc (put_ctx p d (m\<lparr>slab := s\<rparr>)) =
       Some (RDone ret out' il', put_ctx p d' (m\<lparr>slab := s'\<rparr>))"
  show ?case
  proof (cases "n = 0")
    case True
    then show ?thesis using "1.prems" by (intro reader_run1) (simp add: dl_get_loop_0)
  next
    case n: False
    have body: "?goal (RLoop n il out) (d\<lparr>dl_current := Some a, dl_queue := q\<rparr>) s"
      if nxt: "(case dl_current d of Some a \<Rightarrow> (Some a, dl_queue d) | None \<Rightarrow> fifo_get (dl_queue d)) = (Some a, q)"
        and run: "dl_get_loop c s (d\<lparr>dl_current := Some a, dl_queue := q\<rparr>) n il out = Some (ret, out', il', d', s')"
      for a q
    proof -
      define d1 where "d1 = d\<lparr>dl_current := Some a, dl_queue := q\<rparr>"
      have d1: "dl_current d1 = Some a" "dl_queue d1 = q" "dl_offset d1 = dl_offset d" by (simp_all add: d1_def)
      note run1 = run [folded d1_def, unfolded dl_get_loop_copy [OF n d1(1)] d1(2,3) Let_def]
      obtain b where b: "s a = Some b" using run1 by (cases "s a") auto
      define k where "k = min n (block_length b - dl_offset d)"
      obtain err cs where get: "block_get c b (dl_offset d) k = Some (err, cs)"
        using run1 b by (cases "block_get c b (dl_offset d) k") (auto simp: k_def)
      define out1 where "out1 = out @ (if err = 0 then cs else replicate (unat k) None)"
      note step = reader_copy [where s = s and d = d1 and m = m and p = p and il = il and out = out,
          OF n d1(1) b k_def [folded d1(3)] get [folded d1(3)], folded out1_def, unfolded Let_def d1(3), folded out1_def]
      note IH = "1.IH" [OF n nxt [symmetric] refl b refl get [unfolded k_def] refl refl refl,
          folded d1_def k_def, folded out1_def]
      show ?thesis
      proof (cases "block_length b = dl_offset d + k")
        case False
        with run1 b get have "dl_get_loop c s (d1\<lparr>dl_offset := dl_offset d + k\<rparr>) (n - k) il out1
            = Some (ret, out', il', d', s')"
          unfolding k_def out1_def by simp
        then have "?goal (RLoop (n - k) il out1) (d1\<lparr>dl_offset := dl_offset d + k\<rparr>) s"
          by (intro IH(2)) (use False in \<open>simp_all\<close>)
        then show ?thesis using step False by (elim reader_runI [rotated]) (auto simp: d1_def)
      next
        case True
        obtain cur q1 where f: "fifo_get q = (cur, q1)" by (cases "fifo_get q")
        define d2 where "d2 = d1\<lparr>dl_offset := 0, dl_current := cur, dl_queue := q1\<rparr>"
        define s1 where "s1 = s(a := None)"
        have free: "block_free s a = Some (s1)" using b by (simp add: block_free_def s1_def)
        have cont: "?goal (RAssign cur (block_is_last b) (n - k) out1)
            (d1\<lparr>dl_offset := 0, dl_queue := q1\<rparr>) (s1)"
        proof (cases "block_is_last b")
          case last: True
          with run1 b get True f free have "ret = 0" "out1 = out'" "il'" "d2\<lparr>dl_complete := True\<rparr> = d'" "s1 = s'"
            unfolding k_def out1_def d2_def by simp_all
          with last show ?thesis
            by (intro reader_run1) (auto simp: d2_def d1_def dl_upd_commute)
        next
          case more: False
          with run1 b get True f free have "dl_get_loop c (s1) d2 (n - k) False out1 = Some (ret, out', il', d', s')"
            unfolding k_def out1_def d2_def by simp
          then have "?goal (RLoop (n - k) False out1) d2 (s1)"
            using IH(1) [OF _ free refl f [symmetric] refl more] True by (simp add: d2_def)
          with more show ?thesis by (elim reader_runI [rotated]) (auto simp: d1_def d2_def dl_upd_commute)
        qed
        have "?goal (RNext (block_is_last b) (n - k) out1) (d1\<lparr>dl_offset := 0\<rparr>) (s1)"
          using cont f by (elim reader_runI [rotated]) (auto simp: d1_def)
        then show ?thesis using step [folded s1_def] True by (elim reader_runI [rotated]) (auto simp: d1_def)
      qed
    qed
    show ?thesis
    proof (cases "dl_current d")
      case (Some a)
      have same: "d\<lparr>dl_current := Some a, dl_queue := dl_queue d\<rparr> = d" using Some by (cases d) simp
      have "?goal (RLoop n il out) (d\<lparr>dl_current := Some a, dl_queue := dl_queue d\<rparr>) s"
        by (rule body) (unfold same, insert Some "1.prems", simp_all)
      then show ?thesis unfolding same .
    next
      case None
      show ?thesis
      proof (cases "dl_queue d")
        case Nil
        note run = "1.prems" [unfolded dl_get_loop_empty [OF n None Nil]]
        have "?goal (REmpty il out) d s"
        proof (cases "dl_coap_error d \<or> out \<noteq> []")
          case True
          then show ?thesis using run by (intro reader_run1) (auto split: if_splits)
        next
          case False
          then have "?goal (RShort il) d s" using run by (intro reader_run1) auto
          then show ?thesis using False by (elim reader_runI [rotated]) auto
        qed
        then show ?thesis using None Nil n by (elim reader_runI [rotated]) auto
      next
        case (Cons a q)
        have "?goal (RLoop n il out) (d\<lparr>dl_current := Some a, dl_queue := q\<rparr>) s"
          using None Cons "1.prems" dl_get_loop_fetch [OF n None Cons, of c s il out] by (intro body) simp_all
        then have "?goal (RGot a n il out) (d\<lparr>dl_queue := q\<rparr>) s"
          by (elim reader_runI [rotated]) (auto simp: dl_upd_commute)
        then show ?thesis using None Cons n by (elim reader_runI [rotated]) auto
      qed
    qed
  qed
qed

lemma reader_alone:
  assumes d: "ctxs m p = Some d" and run: "downlink_get_data c p n m = Some (ret, len, out, il, m1)"
  shows "\<exists>pc k. get_data_enter p n m = Some pc \<and> reader_run c p k pc m = Some (RDone ret out il, m1)"
proof (cases "dl_complete d")
  case True
  then show ?thesis using assms reader_run_done
    by (auto simp: get_data_enter_def downlink_get_data_def downlink_is_complete_def)
next
  case False
  then obtain d' s' where loop: "dl_get_loop c (slab m) d n False [] = Some (ret, out, il, d', s')"
    and m1: "m1 = put_ctx p d' (m\<lparr>slab := s'\<rparr>)"
    using assms by (auto simp: downlink_get_data_def downlink_is_complete_def put_ctx_def split: bind_splits)
  from reader_loop_alone [OF loop, of p m] d False show ?thesis
    by (simp add: get_data_enter_def downlink_is_complete_def m1 put_ctx_same)
qed

lemma abort_alone:
  assumes d: "ctxs m p = Some d" and run: "downlink_abort (Some p) m = Some m'"
  shows "\<exists>pc m1. abort_enter p m = Some (pc, m1) \<and> reader_run c p 1 pc m1 = Some (RClosed, m')"
  using assms by (auto simp: abort_enter_def abort_rest_def downlink_abort_def put_ctx_def Let_def split: if_splits)

lemma block_cb_alone:
  assumes d: "ctxs m p = Some d" and run: "downlink_block_cb c p slot bytes l m = Some (st, w, m')"
  shows "\<exists>pc k. block_cb_enter p bytes l m = Some pc \<and> cloud_run c p slot k pc False m = Some (CIdle, w, m')"
proof (cases "dl_aborted d \<or> slot = None")
  case True
  then show ?thesis using assms
    by (cases "dl_aborted d") (auto simp: block_cb_enter_def downlink_block_cb_def
        intro: exI [of _ 0] exI [of _ 1])
next
  case False
  then obtain a where a: "slot = Some a" "\<not> dl_aborted d" by auto
  note defs = block_cb_enter_def downlink_block_cb_def block_alloc_def Let_def numeral_eq_Suc put_ctx_def
  show ?thesis
  proof (cases "dl_current d = None")
    case True
    then show ?thesis using assms a
      by (auto simp: defs split: bind_splits intro!: exI [of _ 3])
  next
    case False
    then show ?thesis using assms a
      by (auto simp: defs split: bind_splits intro!: exI [of _ 2])
  qed
qed

lemma end_cb_alone:
  assumes d: "ctxs m p = Some d" and run: "downlink_end_cb st p m = Some (w, m')" and st: "st \<noteq> GOLIOTH_OK"
  shows "\<exists>pc k. end_cb_enter p m = Some pc \<and> cloud_run c p slot k pc False m = Some (CIdle, w, m')"
proof (cases "dl_aborted d")
  case True
  then show ?thesis using assms
    by (auto simp: end_cb_enter_def downlink_end_cb_def split: bind_splits intro!: exI [of _ 1])
next
  case False
  note defs = end_cb_enter_def downlink_end_cb_def Let_def numeral_eq_Suc put_ctx_def
  show ?thesis
  proof (cases "dl_current d = None")
    case True
    then show ?thesis using assms False by (auto simp: defs intro!: exI [of _ 3])
  next
    case cur: False
    then show ?thesis using assms False by (auto simp: defs intro!: exI [of _ 2])
  qed
qed

section \<open>Two threads\<close>

text \<open>The state: the memory, where the two threads stand, and ghosts. \<open>dt_fin\<close>: the cloud
  has ended the stream, by a block marked last that was accepted or by an error; it calls
  nothing but \<open>end_cb\<close> with \<open>GOLIOTH_OK\<close>, which does not touch the context, from then
  on. \<open>dt_acc\<close>: the bytes accepted; \<open>dt_dlv\<close>: the bytes of the reads before the present one.
  \<open>dt_woken\<close>: \<open>data_available\<close> was called since the last read began. \<open>dt_tested\<close>: since
  then the cloud's thread found the waiting flag clear while the transport's thread stood
  between the empty FIFO and the setting of the flag.\<close>

record dl_threads =
  dt_mem :: dl_mem
  dt_cloud :: cloud_pc
  dt_reader :: reader_pc
  dt_fin :: bool
  dt_acc :: "cell list"
  dt_dlv :: "cell list"
  dt_woken :: bool
  dt_tested :: bool

fun reader_out :: "reader_pc \<Rightarrow> cell list" where
  "reader_out (RLoop n il out) = out"
| "reader_out (RGot a n il out) = out"
| "reader_out (RNext l n out) = out"
| "reader_out (RAssign cur l n out) = out"
| "reader_out (REmpty il out) = out"
| "reader_out (RDone ret out il) = out"
| "reader_out _ = []"

text \<open>The transport's thread is in no function; it was told to wait, by \<open>open\<close> or by a
  read without a byte; it stands in the window behind the empty FIFO.\<close>

fun reader_idle :: "reader_pc \<Rightarrow> bool" where
  "reader_idle RIdle = True"
| "reader_idle (RDone ret out il) = True"
| "reader_idle _ = False"

fun reader_awaits :: "reader_pc \<Rightarrow> bool" where
  "reader_awaits RIdle = True"
| "reader_awaits (RDone ret out il) = (ret = - EAGAIN \<and> out = [])"
| "reader_awaits _ = False"

fun reader_window :: "reader_pc \<Rightarrow> bool" where
  "reader_window (REmpty il out) = (out = [])"
| "reader_window (RShort il) = True"
| "reader_window _ = False"

text \<open>The blocks of the context: the present block is the one the transport's thread has
  taken and not yet stored, or none while \<open>current_block\<close> dangles.\<close>

fun dl_eff :: "reader_pc \<Rightarrow> dl_ctx \<Rightarrow> dl_ctx" where
  "dl_eff (RGot a n il out) d = d\<lparr>dl_current := Some a\<rparr>"
| "dl_eff (RNext l n out) d = d\<lparr>dl_current := None\<rparr>"
| "dl_eff (RAssign cur l n out) d = d\<lparr>dl_current := cur\<rparr>"
| "dl_eff _ d = d"

definition dlt_owned :: "addr \<Rightarrow> dl_threads \<Rightarrow> addr set" where
  "dlt_owned p s = (case ctxs (dt_mem s) p of None \<Rightarrow> {} | Some d \<Rightarrow> set (dl_owned (dl_eff (dt_reader s) d)))"

definition dlt_stream :: "addr \<Rightarrow> dl_threads \<Rightarrow> cell list" where
  "dlt_stream p s = (case ctxs (dt_mem s) p of None \<Rightarrow> []
     | Some d \<Rightarrow> dl_stream (slab (dt_mem s)) (dl_eff (dt_reader s) d))"

definition dlt_start :: "dl_mem \<Rightarrow> dl_threads" where
  "dlt_start m = \<lparr>dt_mem = m, dt_cloud = CIdle, dt_reader = RIdle, dt_fin = False, dt_acc = [], dt_dlv = [],
     dt_woken = False, dt_tested = False\<rparr>"

text \<open>One piece of the cloud's thread, with its effect on the ghosts.\<close>

definition dlt_cloud :: "config \<Rightarrow> addr \<Rightarrow> ptr \<Rightarrow> dl_threads \<Rightarrow> dl_threads option" where
  "dlt_cloud c p slot s = do {
     (pc, w, m) \<leftarrow> cloud_step c p slot (dt_cloud s) (dt_mem s);
     let s1 = s\<lparr>dt_mem := m, dt_cloud := pc, dt_woken := dt_woken s \<or> w\<rparr>;
     (case dt_cloud s of
        CStore bytes l \<Rightarrow>
          if pc = CPosted then Some (s1\<lparr>dt_acc := dt_acc s @ map Some bytes, dt_fin := l\<rparr>) else Some s1
      | CEmpty \<Rightarrow> Some (s1\<lparr>dt_tested := dt_tested s \<or> \<not> w \<and> reader_window (dt_reader s)\<rparr>)
      | _ \<Rightarrow> Some s1) }"

definition dlt_reader :: "config \<Rightarrow> addr \<Rightarrow> dl_threads \<Rightarrow> dl_threads option" where
  "dlt_reader c p s = do {
     (pc, m) \<leftarrow> reader_step c p (dt_reader s) (dt_mem s);
     Some (s\<lparr>dt_mem := m, dt_reader := pc\<rparr>) }"

text \<open>The steps by name: the calls of \<open>block_cb\<close> and \<open>end_cb\<close>, the next piece of the
  cloud's thread (with the slot the slab has for it), the calls of the transport and its next
  piece. The transport reads when no read is running, closes a context that is complete, and
  closes or aborts it once.\<close>

datatype dlt_act = ABlock "byte list" bool | AError | ACloud ptr | ARead size_t | AReader | AAbort | AClose

fun dlt_can :: "config \<Rightarrow> addr \<Rightarrow> dl_threads \<Rightarrow> dlt_act \<Rightarrow> bool" where
  "dlt_can c p s (ABlock bytes l) = (dt_cloud s = CIdle \<and> \<not> dt_fin s \<and> length bytes \<le> unat (block_max c))"
| "dlt_can c p s AError = (dt_cloud s = CIdle \<and> \<not> dt_fin s)"
| "dlt_can c p s (ACloud slot) = (dt_cloud s \<noteq> CIdle \<and> slab_slot_ok c (slab (dt_mem s)) slot)"
| "dlt_can c p s (ARead n) = reader_idle (dt_reader s)"
| "dlt_can c p s AReader = (\<not> reader_idle (dt_reader s) \<and> dt_reader s \<noteq> RClosed)"
| "dlt_can c p s AAbort = reader_idle (dt_reader s)"
| "dlt_can c p s AClose =
     (reader_idle (dt_reader s) \<and> (case ctxs (dt_mem s) p of None \<Rightarrow> False | Some d \<Rightarrow> dl_complete d))"

fun dlt_do :: "config \<Rightarrow> addr \<Rightarrow> dl_threads \<Rightarrow> dlt_act \<Rightarrow> dl_threads option" where
  "dlt_do c p s (ABlock bytes l) = do { pc \<leftarrow> block_cb_enter p bytes l (dt_mem s); Some (s\<lparr>dt_cloud := pc\<rparr>) }"
| "dlt_do c p s AError = do { pc \<leftarrow> end_cb_enter p (dt_mem s); Some (s\<lparr>dt_cloud := pc, dt_fin := True\<rparr>) }"
| "dlt_do c p s (ACloud slot) = dlt_cloud c p slot s"
| "dlt_do c p s (ARead n) = do {
     pc \<leftarrow> get_data_enter p n (dt_mem s);
     Some (s\<lparr>dt_reader := pc, dt_dlv := dt_dlv s @ reader_out (dt_reader s),
             dt_woken := False, dt_tested := False\<rparr>) }"
| "dlt_do c p s AReader = dlt_reader c p s"
| "dlt_do c p s AAbort = do {
     (pc, m) \<leftarrow> abort_enter p (dt_mem s);
     Some (s\<lparr>dt_reader := pc, dt_mem := m, dt_dlv := dt_dlv s @ reader_out (dt_reader s)\<rparr>) }"
| "dlt_do c p s AClose = do {
     m \<leftarrow> downlink_close (Some p) (dt_mem s);
     Some (s\<lparr>dt_reader := RClosed, dt_mem := m, dt_dlv := dt_dlv s @ reader_out (dt_reader s)\<rparr>) }"

text \<open>A step of either thread, or of another part of the program, which leaves this context
  and its blocks alone. The result is \<open>None\<close> when the step is undefined.\<close>

inductive dlt_step :: "config \<Rightarrow> addr \<Rightarrow> dl_threads \<Rightarrow> dl_threads option \<Rightarrow> bool" for c p s where
  thread: "dlt_can c p s a \<Longrightarrow> dlt_step c p s (dlt_do c p s a)"
| others: "ctxs m p = ctxs (dt_mem s) p \<Longrightarrow> (\<forall>a\<in>dlt_owned p s. slab m a = slab (dt_mem s) a) \<Longrightarrow>
     dlt_step c p s (Some (s\<lparr>dt_mem := m\<rparr>))"

inductive dlt_reach :: "config \<Rightarrow> addr \<Rightarrow> dl_threads \<Rightarrow> bool" for c p where
  opened: "dl_inv c m \<Longrightarrow> ctxs m p = None \<Longrightarrow> downlink_open (Some p) arg m = (r, m') \<Longrightarrow> dlt_reach c p (dlt_start m')"
| moved: "dlt_reach c p s \<Longrightarrow> dlt_step c p s (Some s') \<Longrightarrow> dlt_reach c p s'"

section \<open>The invariant of the threads\<close>

text \<open>What a context holds is what was accepted and not yet delivered; only its last segment
  can be marked last; a read is finished by the end of the stream only behind it.\<close>

fun reader_at_last :: "reader_pc \<Rightarrow> bool" where
  "reader_at_last (RNext l n out) = l"
| "reader_at_last (RAssign cur l n out) = l"
| "reader_at_last _ = False"

fun reader_gone :: "reader_pc \<Rightarrow> bool" where
  "reader_gone RAborting = True"
| "reader_gone RClosed = True"
| "reader_gone _ = False"

definition dlt_data_ok :: "config \<Rightarrow> dl_threads \<Rightarrow> dl_ctx \<Rightarrow> bool" where
  "dlt_data_ok c s d \<longleftrightarrow>
     dl_ok c (slab (dt_mem s)) (dl_eff (dt_reader s) d) \<and>
     dt_acc s = dt_dlv s @ reader_out (dt_reader s) @ dl_stream (slab (dt_mem s)) (dl_eff (dt_reader s) d) \<and>
     segs_plain (butlast (dl_segs (slab (dt_mem s)) (dl_eff (dt_reader s) d))) \<and>
     (dt_fin s \<or> segs_plain (dl_segs (slab (dt_mem s)) (dl_eff (dt_reader s) d)) \<and> \<not> dl_coap_error d) \<and>
     (dl_complete d \<or> reader_at_last (dt_reader s) \<longrightarrow>
        dt_fin s \<and> (dl_coap_error d \<or> dl_segs (slab (dt_mem s)) (dl_eff (dt_reader s) d) = []))"

text \<open>Where the threads stand fits the context.\<close>

fun reader_fits :: "reader_pc \<Rightarrow> dl_ctx \<Rightarrow> bool" where
  "reader_fits (RGot a n il out) d = (dl_current d = None)"
| "reader_fits (REmpty il out) d = (dl_current d = None)"
| "reader_fits (RShort il) d = (dl_current d = None)"
| "reader_fits pc d = True"

fun cloud_fits :: "config \<Rightarrow> cloud_pc \<Rightarrow> bool \<Rightarrow> dl_ctx \<Rightarrow> bool" where
  "cloud_fits c (CStore bytes l) fin d = (\<not> fin \<and> length bytes \<le> unat (block_max c))"
| "cloud_fits c CFail fin d = fin"
| "cloud_fits c CClose fin d = (fin \<and> dl_aborted d)"
| "cloud_fits c pc fin d = True"

text \<open>Nothing is there to be read that the transport was not told of: behind the empty FIFO,
  and while it waits.\<close>

fun cloud_quiet :: "cloud_pc \<Rightarrow> bool" where
  "cloud_quiet CPosted = False"
| "cloud_quiet CEmpty = False"
| "cloud_quiet pc = True"

fun reader_at_empty :: "reader_pc \<Rightarrow> bool" where
  "reader_at_empty (REmpty il out) = True"
| "reader_at_empty pc = False"

definition dlt_told :: "dl_threads \<Rightarrow> dl_ctx \<Rightarrow> bool" where
  "dlt_told s d \<longleftrightarrow>
     (reader_window (dt_reader s) \<or> reader_awaits (dt_reader s)) \<and> \<not> dt_woken s \<and> \<not> dt_tested s \<longrightarrow>
       dl_current d = None \<and> (cloud_quiet (dt_cloud s) \<longrightarrow> dl_queue d = []) \<and>
       (cloud_quiet (dt_cloud s) \<and> \<not> reader_at_empty (dt_reader s) \<longrightarrow> \<not> dl_coap_error d) \<and>
       (reader_awaits (dt_reader s) \<longrightarrow> dl_waiting d)"

definition dlt_ok :: "config \<Rightarrow> addr \<Rightarrow> dl_threads \<Rightarrow> bool" where
  "dlt_ok c p s \<longleftrightarrow>
     (case ctxs (dt_mem s) p of
        None \<Rightarrow> dt_fin s \<and> reader_gone (dt_reader s)
      | Some d \<Rightarrow> dlt_data_ok c s d \<and> reader_fits (dt_reader s) d \<and> cloud_fits c (dt_cloud s) (dt_fin s) d \<and>
          (dl_aborted d \<longrightarrow> reader_gone (dt_reader s)) \<and>
          (dl_complete d \<longrightarrow> reader_idle (dt_reader s) \<or> reader_gone (dt_reader s)) \<and>
          dlt_told s d)"

section \<open>Every step keeps it\<close>

lemma dl_eff_simps [simp]:
  "dl_queue (dl_eff pc d) = dl_queue d" "dl_offset (dl_eff pc d) = dl_offset d"
  "dl_eff pc (d\<lparr>dl_waiting := x\<rparr>) = (dl_eff pc d)\<lparr>dl_waiting := x\<rparr>"
  "dl_eff pc (d\<lparr>dl_coap_error := x\<rparr>) = (dl_eff pc d)\<lparr>dl_coap_error := x\<rparr>"
  "dl_eff pc (d\<lparr>dl_queue := q\<rparr>) = (dl_eff pc d)\<lparr>dl_queue := q\<rparr>"
  by (cases pc; simp)+

lemma dl_eff_idle [simp]: "reader_idle pc \<Longrightarrow> dl_eff pc d = d" "reader_gone pc \<Longrightarrow> dl_eff pc d = d"
  by (cases pc; simp)+

lemma reader_gone_out [simp]: "reader_gone pc \<Longrightarrow> reader_out pc = []"
  by (cases pc) simp_all

lemma reader_not_last [simp]:
  "reader_idle pc \<Longrightarrow> \<not> reader_at_last pc" "reader_gone pc \<Longrightarrow> \<not> reader_at_last pc"
  "reader_idle pc \<Longrightarrow> \<not> reader_gone pc" "reader_gone pc \<Longrightarrow> \<not> reader_awaits pc" "reader_gone pc \<Longrightarrow> \<not> reader_window pc"
  "reader_idle pc \<Longrightarrow> \<not> reader_window pc" "reader_idle pc \<Longrightarrow> reader_fits pc d" "reader_gone pc \<Longrightarrow> reader_fits pc d"
  by (cases pc; simp)+

lemma reader_fits_flags [simp]:
  "reader_fits pc (d\<lparr>dl_waiting := x\<rparr>) = reader_fits pc d"
  "reader_fits pc (d\<lparr>dl_coap_error := x\<rparr>) = reader_fits pc d"
  "reader_fits pc (d\<lparr>dl_queue := q\<rparr>) = reader_fits pc d"
  by (cases pc; simp)+

lemma cloud_fits_upd [simp]:
  "cloud_fits c pc fin (d\<lparr>dl_current := x\<rparr>) = cloud_fits c pc fin d"
  "cloud_fits c pc fin (d\<lparr>dl_queue := q\<rparr>) = cloud_fits c pc fin d"
  "cloud_fits c pc fin (d\<lparr>dl_offset := n\<rparr>) = cloud_fits c pc fin d"
  "cloud_fits c pc fin (d\<lparr>dl_complete := y\<rparr>) = cloud_fits c pc fin d"
  "cloud_fits c pc fin (d\<lparr>dl_waiting := y\<rparr>) = cloud_fits c pc fin d"
  by (cases pc; simp)+

lemma cloud_fits_abort [simp]: "cloud_fits c pc fin d \<Longrightarrow> cloud_fits c pc fin (d\<lparr>dl_aborted := True\<rparr>)"
  by (cases pc) simp_all

lemma dl_stream_flags [simp]:
  "dl_stream s (d\<lparr>dl_complete := x\<rparr>) = dl_stream s d" "dl_stream s (d\<lparr>dl_aborted := x\<rparr>) = dl_stream s d"
  "dl_stream s (d\<lparr>dl_waiting := x\<rparr>) = dl_stream s d" "dl_stream s (d\<lparr>dl_coap_error := x\<rparr>) = dl_stream s d"
  by (simp_all add: dl_stream_def)

lemma dlt_okI:
  assumes "ctxs (dt_mem s) p = Some d" and "dlt_data_ok c s d" and "reader_fits (dt_reader s) d"
    and "cloud_fits c (dt_cloud s) (dt_fin s) d" and "dl_aborted d \<longrightarrow> reader_gone (dt_reader s)"
    and "dl_complete d \<longrightarrow> reader_idle (dt_reader s) \<or> reader_gone (dt_reader s)" and "dlt_told s d"
  shows "dlt_ok c p s"
  using assms by (simp add: dlt_ok_def)

lemma dlt_okD:
  assumes "dlt_ok c p s" and "ctxs (dt_mem s) p = Some d"
  shows "dlt_data_ok c s d" "reader_fits (dt_reader s) d" "cloud_fits c (dt_cloud s) (dt_fin s) d"
    "dl_aborted d \<longrightarrow> reader_gone (dt_reader s)"
    "dl_complete d \<longrightarrow> reader_idle (dt_reader s) \<or> reader_gone (dt_reader s)" "dlt_told s d"
  using assms by (simp_all add: dlt_ok_def)

text \<open>The cloud's thread.\<close>

definition dlt_post :: "config \<Rightarrow> addr \<Rightarrow> dl_threads \<Rightarrow> dl_threads option \<Rightarrow> bool" where
  "dlt_post c p s r \<longleftrightarrow>
     (case r of
        None \<Rightarrow> ctxs (dt_mem s) p = None \<and> (dt_cloud s \<noteq> CIdle \<or> dt_reader s = RAborting)
      | Some s' \<Rightarrow> dlt_ok c p s')"

lemma dlt_post_simps [simp]:
  "dlt_post c p s (Some s') = dlt_ok c p s'"
  "dlt_post c p s None \<longleftrightarrow> ctxs (dt_mem s) p = None \<and> (dt_cloud s \<noteq> CIdle \<or> dt_reader s = RAborting)"
  by (simp_all add: dlt_post_def)

lemma dlt_gone_cloud:
  assumes ok: "dlt_ok c p s" and d: "ctxs (dt_mem s) p = None" and busy: "dt_cloud s \<noteq> CIdle"
  shows "dlt_post c p s (dlt_cloud c p slot s)"
proof (cases "dt_cloud s")
  case (CStore bytes l)
  then show ?thesis using ok d
    by (cases slot; cases "block_append \<lparr>user_data = None, last_flag = False, blk_len = 0,
              blk_data = replicate (unat (block_max c)) None\<rparr> bytes")
       (simp_all add: dlt_cloud_def dlt_ok_def block_alloc_def)
qed (use d busy in \<open>simp_all add: dlt_cloud_def downlink_close_def\<close>)

lemma cloud_store_ok:
  assumes ok: "dlt_ok c p s" and d: "ctxs (dt_mem s) p = Some d" and pc: "dt_cloud s = CStore bytes l"
    and slot: "slab_slot_ok c (slab (dt_mem s)) slot"
  shows "dlt_post c p s (dlt_cloud c p slot s)"
proof (cases slot)
  case None
  then have "dlt_cloud c p slot s = Some (s\<lparr>dt_cloud := CIdle\<rparr>)" using pc by (simp add: dlt_cloud_def)
  then show ?thesis using dlt_okD [OF ok d] d pc
    by (simp add: dlt_ok_def dlt_data_ok_def dlt_told_def)
next
  case (Some a)
  then have a: "slab (dt_mem s) a = None" using slot by (simp add: slab_slot_ok_def)
  note D = dlt_okD [OF ok d]
  define e where "e = dl_eff (dt_reader s) d"
  have fin: "\<not> dt_fin s" and len: "length bytes \<le> unat (block_max c)" using D(3) pc by simp_all
  obtain b where b: "block_ok c b" "block_cells b = map Some bytes" "block_is_last b = l"
    and step: "cloud_step c p (Some a) (CStore bytes l) (dt_mem s) = Some (CPosted, False,
        put_ctx p (d\<lparr>dl_queue := dl_queue d @ [a]\<rparr>) ((dt_mem s)\<lparr>slab := (slab (dt_mem s))(a \<mapsto> b)\<rparr>))"
  proof -
    obtain b1 where b1: "block_append \<lparr>user_data = None, last_flag = False, blk_len = 0,
        blk_data = replicate (unat (block_max c)) None\<rparr> bytes = Some b1"
      and ok: "block_ok c (if l then block_mark_last b1 else b1)"
        "block_cells (if l then block_mark_last b1 else b1) = map Some bytes"
        "block_is_last (if l then block_mark_last b1 else b1) = l"
      using block_filled [OF len, of l] by blast
    show thesis by (rule that [OF ok]) (use b1 d in \<open>simp add: block_alloc_def fifo_put_def Let_def\<close>)
  qed
  have e: "dl_ok c (slab (dt_mem s)) e" using D(1) by (simp add: dlt_data_ok_def e_def)
  have eq: "dl_queue e = dl_queue d" by (simp add: e_def)
  note A = dl_ctx_append [OF e a b(1), simplified eq, simplified]
  have "dlt_cloud c p (Some a) s = Some (s\<lparr>dt_mem := put_ctx p (d\<lparr>dl_queue := dl_queue d @ [a]\<rparr>)
        ((dt_mem s)\<lparr>slab := (slab (dt_mem s))(a \<mapsto> b)\<rparr>), dt_cloud := CPosted,
        dt_acc := dt_acc s @ map Some bytes, dt_fin := l\<rparr>)"
    using step pc by (simp add: dlt_cloud_def)
  then show ?thesis using d D fin A b(2,3) Some
    by (simp add: dlt_ok_def dlt_data_ok_def dlt_told_def dl_stream_def segs_plain_appends flip: e_def)
qed

lemma dlt_cloud_ok:
  assumes ok: "dlt_ok c p s" and busy: "dt_cloud s \<noteq> CIdle" and slot: "slab_slot_ok c (slab (dt_mem s)) slot"
  shows "dlt_post c p s (dlt_cloud c p slot s)"
proof (cases "ctxs (dt_mem s) p")
  case None
  then show ?thesis using dlt_gone_cloud assms by blast
next
  case (Some d)
  note D = dlt_okD [OF ok Some]
  show ?thesis
  proof (cases "dt_cloud s")
    case (CStore bytes l)
    then show ?thesis using cloud_store_ok [OF ok Some _ slot] by simp
  next
    case CFail
    then have "dlt_cloud c p slot s = Some (s\<lparr>dt_mem := put_ctx p (d\<lparr>dl_coap_error := True\<rparr>) (dt_mem s), dt_cloud := CPosted\<rparr>)"
      using Some by (simp add: dlt_cloud_def)
    then show ?thesis using Some D CFail
      by (simp add: dlt_ok_def dlt_data_ok_def dlt_told_def)
  next
    case CClose
    have "dl_ok c (slab (dt_mem s)) d" using D CClose by (simp add: dlt_data_ok_def)
    then show ?thesis using D Some CClose by (simp add: dlt_cloud_def dlt_ok_def downlink_close_ok)
  next
    case CPosted
    then have "dlt_cloud c p slot s = Some (s\<lparr>dt_cloud := (if dl_current d = None then CEmpty else CIdle)\<rparr>)"
      using Some by (simp add: dlt_cloud_def)
    then show ?thesis using Some D CPosted
      by (simp add: dlt_ok_def dlt_data_ok_def dlt_told_def)
  next
    case CEmpty
    then have "dlt_cloud c p slot s = Some (s\<lparr>dt_mem := put_ctx p (d\<lparr>dl_waiting := False\<rparr>) (dt_mem s), dt_cloud := CIdle,
        dt_woken := dt_woken s \<or> dl_waiting d, dt_tested := dt_tested s \<or> \<not> dl_waiting d \<and> reader_window (dt_reader s)\<rparr>)"
      using Some by (simp add: dlt_cloud_def)
    then show ?thesis using Some D CEmpty
      by (simp add: dlt_ok_def dlt_data_ok_def dlt_told_def) blast
  qed (use busy in simp)
qed

text \<open>The transport's thread.\<close>

lemma dl_shift:
  assumes ok: "dl_ok c s d" and cur: "dl_current d = None" and f: "fifo_get (dl_queue d) = (cur, q)"
  shows "dl_ok c s (d\<lparr>dl_current := cur, dl_queue := q\<rparr>)"
    and "dl_segs s (d\<lparr>dl_current := cur, dl_queue := q\<rparr>) = dl_segs s d"
proof -
  have off: "dl_offset d = 0" using ok cur by (simp add: dl_ok_def)
  show "dl_segs s (d\<lparr>dl_current := cur, dl_queue := q\<rparr>) = dl_segs s d"
    using cur f off by (cases "dl_queue d") (auto simp: dl_segs_def)
  show "dl_ok c s (d\<lparr>dl_current := cur, dl_queue := q\<rparr>)"
    using ok cur f off by (cases "dl_queue d") (auto simp: dl_ok_def dl_owned_def split: option.splits)
qed

lemma reader_copy_ok:
  assumes ok: "dlt_ok c p s" and d: "ctxs (dt_mem s) p = Some d"
    and pc: "dt_reader s = RLoop n il out" and cur: "dl_current d = Some a" and n: "n \<noteq> 0"
  shows "dlt_post c p s (dlt_reader c p s)"
proof -
  note D = dlt_okD [OF ok d]
  let ?sl = "slab (dt_mem s)"
  have e: "dl_ok c ?sl d" using D(1) pc by (simp add: dlt_data_ok_def)
  obtain b where b: "?sl a = Some b" "block_ok c b" "dl_offset d \<le> block_length b"
    and q: "a \<notin> set (dl_queue d)" "distinct (dl_queue d)"
    and segs: "dl_segs ?sl d = (drop (unat (dl_offset d)) (block_cells b), block_is_last b) # map (blk_seg ?sl) (dl_queue d)"
    and rest: "list_all (\<lambda>a. case ?sl a of None \<Rightarrow> False | Some b \<Rightarrow> block_ok c b) (dl_queue d)"
    using dl_focus [OF e, of a "dl_queue d"] cur by auto
  define cs where "cs = drop (unat (dl_offset d)) (block_cells b)"
  define k where "k = min n (block_length b - dl_offset d)"
  note K = copy_cells [OF b(2,3) cs_def k_def]
  have step: "dlt_reader c p s = Some
     (if length cs \<le> unat n
      then s\<lparr>dt_mem := put_ctx p (d\<lparr>dl_offset := 0\<rparr>) ((dt_mem s)\<lparr>slab := ?sl(a := None)\<rparr>),
             dt_reader := RNext (block_is_last b) (n - k) (out @ take (unat k) cs)\<rparr>
      else s\<lparr>dt_mem := put_ctx p (d\<lparr>dl_offset := dl_offset d + k\<rparr>) (dt_mem s),
             dt_reader := RLoop (n - k) il (out @ take (unat k) cs)\<rparr>)"
    using n cur b(1) K d pc by (simp add: dlt_reader_def Let_def block_free_def flip: k_def)
  show ?thesis
  proof (cases "length cs \<le> unat n")
    case True
    define e where "e = d\<lparr>dl_offset := 0, dl_current := None\<rparr>"
    have "dl_ok c (?sl(a := None)) e"
      using dl_rest_ok [OF rest q(1)] q(2) by (simp add: e_def dl_ok_def dl_owned_def)
    moreover have "dl_segs (?sl(a := None)) e = map (blk_seg ?sl) (dl_queue d)"
      using q(1) by (simp add: e_def dl_segs_def map_blk_seg_upd)
    moreover have "take (unat k) cs = cs" using True K(1) by simp
    ultimately show ?thesis
      using D d pc segs True unfolding step
      by (auto simp: dlt_ok_def dlt_data_ok_def dlt_told_def dl_stream_def segs_plain_def
          simp flip: e_def cs_def split: if_splits)
  next
    case False
    define e where "e = d\<lparr>dl_offset := dl_offset d + n\<rparr>"
    have "k = n" using False K(1) by (simp add: word_unat_eq_iff)
    have own: "dl_owned d = a # dl_queue d" using cur by (simp add: dl_owned_def)
    have "d\<lparr>dl_current := Some a, dl_queue := dl_queue d, dl_offset := dl_offset d + n\<rparr> = e"
      using cur by (cases d) (simp add: e_def)
    then have "dl_loop_post c ?sl d (unat n) out 0 (out @ take (unat n) cs) False e ?sl"
      using dl_loop_post_part [OF e own q b cs_def segs [folded cs_def] n False, of out] by simp
    then have "dl_ok c ?sl e" "dl_segs ?sl e = (drop (unat n) cs, block_is_last b) # map (blk_seg ?sl) (dl_queue d)"
      using segs False n word_neq_0_unat [OF n] by (simp_all add: dl_loop_post_def flip: cs_def)
    moreover have "dl_coap_error e = dl_coap_error d" "dl_complete e = dl_complete d" "dl_aborted e = dl_aborted d"
      "cloud_fits c pc' fin e = cloud_fits c pc' fin d" for pc' fin
      by (simp_all add: e_def)
    ultimately show ?thesis
      using D d pc segs False \<open>k = n\<close> unfolding step
      by (auto simp: dlt_ok_def dlt_data_ok_def dlt_told_def dl_stream_def segs_plain_def
          simp flip: e_def cs_def split: if_splits)
  qed
qed

lemma dlt_reader_ok:
  assumes ok: "dlt_ok c p s" and d: "ctxs (dt_mem s) p = Some d"
    and busy: "\<not> reader_idle (dt_reader s)" "dt_reader s \<noteq> RClosed"
  shows "dlt_post c p s (dlt_reader c p s)"
proof -
  note D = dlt_okD [OF ok d]
  note simps = dlt_reader_def dlt_ok_def dlt_data_ok_def dlt_told_def errno_defs
  show ?thesis
  proof (cases "dt_reader s")
    case (RLoop n il out)
    show ?thesis
    proof (cases "dl_current d")
      case cur: None
      obtain p' q where f: "fifo_get (dl_queue d) = (p', q)" by (cases "fifo_get (dl_queue d)")
      have e: "dl_ok c (slab (dt_mem s)) d" using D(1) RLoop by (simp add: dlt_data_ok_def)
      note E = dl_shift [OF e cur f]
      show ?thesis
      proof (cases "dl_queue d")
        case Nil
        then show ?thesis using D d RLoop cur by (simp add: simps)
      next
        case (Cons a q')
        then have "p' = Some a" "q' = q" using f by simp_all
        then show ?thesis using D d RLoop cur E Cons by (simp add: simps dl_stream_def dl_upd_commute)
      qed
    next
      case (Some a)
      show ?thesis
      proof (cases "n = 0")
        case True
        then show ?thesis using D d RLoop by (simp add: simps)
      next
        case False
        then show ?thesis by (rule reader_copy_ok [OF ok d RLoop Some])
      qed
    qed
  next
    case (RGot a n il out)
    then have "dl_stream sl (d\<lparr>dl_current := Some a\<rparr>) = dl_stream sl (dl_eff (dt_reader s) d)" for sl by simp
    show ?thesis using D d RGot by (simp add: simps)
  next
    case (RNext l n out)
    obtain cur q where f: "fifo_get (dl_queue d) = (cur, q)" by (cases "fifo_get (dl_queue d)")
    have e: "dl_ok c (slab (dt_mem s)) (d\<lparr>dl_current := None\<rparr>)" using D(1) RNext by (simp add: dlt_data_ok_def)
    note E = dl_shift [OF e _ , of cur q, simplified, OF f]
    show ?thesis using D d RNext f E by (simp add: simps dl_stream_def dl_upd_commute)
  next
    case (RAssign cur l n out)
    show ?thesis using D d RAssign by (auto simp: simps)
  next
    case (REmpty il out)
    show ?thesis using D d REmpty by (auto simp: simps)
  next
    case (RShort il)
    then show ?thesis using D d by (simp add: simps)
  next
    case RAborting
    have "dl_ok c (slab (dt_mem s)) d" using D(1) RAborting by (simp add: dlt_data_ok_def)
    then show ?thesis using D d RAborting by (simp add: simps abort_rest_def downlink_close_ok downlink_is_complete_def)
  qed (use busy in simp_all)
qed

text \<open>Entering a function, closing, and the rest of the program.\<close>

lemma dlt_others_stream:
  assumes "ctxs m p = ctxs (dt_mem s) p" "\<forall>a\<in>dlt_owned p s. slab m a = slab (dt_mem s) a"
  shows "dlt_stream p (s\<lparr>dt_mem := m\<rparr>) = dlt_stream p s"
proof (cases "ctxs (dt_mem s) p")
  case None
  then show ?thesis using assms by (simp add: dlt_stream_def)
next
  case (Some d)
  then have "dl_segs (slab m) (dl_eff (dt_reader s) d) = dl_segs (slab (dt_mem s)) (dl_eff (dt_reader s) d)"
    using assms(2) by (auto simp: dlt_owned_def dl_segs_def dl_owned_def blk_seg_def split: option.splits)
  then show ?thesis using Some assms(1) by (simp add: dlt_stream_def dl_stream_def)
qed

lemma dlt_others_ok:
  assumes ok: "dlt_ok c p s" and same: "ctxs m p = ctxs (dt_mem s) p" "\<forall>a\<in>dlt_owned p s. slab m a = slab (dt_mem s) a"
  shows "dlt_ok c p (s\<lparr>dt_mem := m\<rparr>)"
proof (cases "ctxs (dt_mem s) p")
  case None
  then show ?thesis using ok same by (simp add: dlt_ok_def)
next
  case (Some d)
  define e where "e = dl_eff (dt_reader s) d"
  have own: "slab m a = slab (dt_mem s) a" if "a \<in> set (dl_owned e)" for a
    using same(2) Some that by (simp add: dlt_owned_def e_def)
  have "dl_segs (slab m) e = dl_segs (slab (dt_mem s)) e"
    using own by (auto simp: dl_segs_def dl_owned_def blk_seg_def split: option.splits)
  moreover have "dl_ok c (slab (dt_mem s)) e \<Longrightarrow> dl_ok c (slab m) e" using dl_ok_cong own by blast
  ultimately show ?thesis
    using ok Some same(1) by (simp add: dlt_ok_def dlt_data_ok_def dlt_told_def dl_stream_def flip: e_def)
qed

lemma dlt_start_ok:
  assumes "ctxs m p = None" and "downlink_open (Some p) arg m = (r, m')"
  shows "dlt_ok c p (dlt_start m')"
proof -
  have "m' = m\<lparr>ctxs := (ctxs m)(p \<mapsto> dl_ctx_init arg)\<rparr>" using assms by (auto simp: downlink_open_def)
  then show ?thesis
    by (simp add: dlt_start_def dlt_ok_def dlt_data_ok_def dlt_told_def dl_stream_def segs_plain_def)
       (simp add: dl_ctx_init_def)
qed

lemma dlt_live:
  assumes "dlt_ok c p s" and "\<not> dt_fin s \<or> \<not> reader_gone (dt_reader s)"
  obtains d where "ctxs (dt_mem s) p = Some d"
  using assms by (cases "ctxs (dt_mem s) p") (auto simp: dlt_ok_def)

lemma dlt_do_ok:
  assumes ok: "dlt_ok c p s" and can: "dlt_can c p s a"
  shows "dlt_post c p s (dlt_do c p s a)"
proof (cases a)
  case (ABlock bytes l)
  then obtain d where "ctxs (dt_mem s) p = Some d" using dlt_live [OF ok] can by auto
  then show ?thesis using ok can ABlock
    by (auto simp: block_cb_enter_def dlt_ok_def dlt_data_ok_def dlt_told_def)
next
  case AError
  then obtain d where "ctxs (dt_mem s) p = Some d" using dlt_live [OF ok] can by auto
  then show ?thesis using ok can AError
    by (auto simp: end_cb_enter_def dlt_ok_def dlt_data_ok_def dlt_told_def)
next
  case (ACloud slot)
  then show ?thesis using dlt_cloud_ok [OF ok] can by simp
next
  case (ARead n)
  then obtain d where "ctxs (dt_mem s) p = Some d" using dlt_live [OF ok] can by auto
  then show ?thesis using ok can ARead
    by (auto simp: get_data_enter_def downlink_is_complete_def dlt_ok_def dlt_data_ok_def dlt_told_def errno_defs)
next
  case AReader
  show ?thesis
  proof (cases "ctxs (dt_mem s) p")
    case None
    then have "dt_reader s = RAborting" using ok can AReader by (cases "dt_reader s") (auto simp: dlt_ok_def)
    then show ?thesis using None AReader by (simp add: dlt_reader_def abort_rest_def)
  next
    case (Some d)
    then show ?thesis using dlt_reader_ok [OF ok Some] can AReader by simp
  qed
next
  case AAbort
  then obtain d where "ctxs (dt_mem s) p = Some d" using dlt_live [OF ok] can by auto
  then show ?thesis using ok can AAbort
    by (auto simp: abort_enter_def dlt_ok_def dlt_data_ok_def dlt_told_def)
next
  case AClose
  then obtain d where d: "ctxs (dt_mem s) p = Some d" "dl_complete d"
    using can by (auto split: option.splits)
  then have "dl_ok c (slab (dt_mem s)) d" using ok can AClose by (simp add: dlt_ok_def dlt_data_ok_def)
  then show ?thesis using ok d can AClose by (simp add: downlink_close_ok dlt_ok_def dlt_data_ok_def)
qed

lemma dlt_step_ok: "dlt_ok c p s \<Longrightarrow> dlt_step c p s r \<Longrightarrow> dlt_post c p s r"
  by (erule dlt_step.cases) (simp_all add: dlt_do_ok dlt_others_ok)

lemma dlt_reach_ok: "dlt_reach c p s \<Longrightarrow> dlt_ok c p s"
proof (induction rule: dlt_reach.induct)
  case (opened m arg r m')
  then show ?case by (intro dlt_start_ok)
next
  case (moved s s')
  then show ?case using dlt_step_ok by fastforce
qed

text \<open>A schedule is followed where its steps are possible.\<close>

fun dlt_go :: "config \<Rightarrow> addr \<Rightarrow> dlt_act list \<Rightarrow> dl_threads \<Rightarrow> dl_threads option" where
  "dlt_go c p [] s = Some s"
| "dlt_go c p (a # as) s = (if dlt_can c p s a then do { s' \<leftarrow> dlt_do c p s a; dlt_go c p as s' } else None)"

lemma dlt_go_reach: "dlt_reach c p s \<Longrightarrow> dlt_go c p as s = Some s' \<Longrightarrow> dlt_reach c p s'"
proof (induction as arbitrary: s)
  case (Cons a as)
  then obtain s1 where s1: "dlt_can c p s a" "dlt_do c p s a = Some s1" "dlt_go c p as s1 = Some s'"
    by (auto split: if_splits bind_splits)
  have "dlt_step c p s (Some s1)" using dlt_step.thread [OF s1(1)] s1(2) by simp
  then show ?case using Cons s1(3) dlt_reach.moved by blast
qed simp

lemma dl_ex0_reach: "dlt_reach dl_ex_cfg 0 (dlt_start dl_ex0)"
  by (rule dlt_reach.opened [of _ "\<lparr>slab = Map.empty, ctxs = Map.empty\<rparr>" _ 1 "Some 0"])
     (simp_all add: dl_inv_empty dl_ex0_def downlink_open_def)

text \<open>The example: a first block is read to its end; the next read finds the FIFO empty.\<close>

definition dlt_ex_window :: "dlt_act list" where
  "dlt_ex_window = [ABlock [7] False, ACloud (Some 5), ACloud None, ACloud None,
     ARead 8, AReader, AReader, AReader, AReader, AReader, AReader, AReader,
     ARead 8, AReader, AReader]"

text \<open>The bundle of what an example schedule evaluates.\<close>

lemmas dlt_ex_defs = downlink_open_def dl_ex_cfg_def kconfig_default_def dl_ctx_init_def block_cb_enter_def dlt_cloud_def
  block_alloc_def slab_slot_ok_def block_append_def memcpy_to_def Let_def get_data_enter_def downlink_is_complete_def
  dlt_reader_def put_ctx_def fifo_put_def block_length_def block_get_def memcpy_from_def block_free_def
  block_is_last_def block_mark_last_def dlt_start_def dl_ex0_def downlink_close_def

lemma dlt_ex_window_run:
  "\<exists>s d. dlt_go dl_ex_cfg 0 dlt_ex_window (dlt_start dl_ex0) = Some s \<and> dt_reader s = RShort False \<and>
     dt_cloud s = CIdle \<and> \<not> dt_fin s \<and> \<not> dt_woken s \<and> \<not> dt_tested s \<and>
     ctxs (dt_mem s) 0 = Some d \<and> \<not> dl_waiting d \<and> slab (dt_mem s) = Map.empty"
  unfolding dlt_ex_window_def by (simp add: dlt_ex_defs)

text \<open>And one in which the last block is read, and the context closed, before the callback
  that brought it has looked at \<open>current_block\<close>.\<close>

definition dlt_ex_freed :: "dlt_act list" where
  "dlt_ex_freed = [ARead 8, ABlock [7] True, ACloud (Some 5), AReader, AReader, AReader, AReader, AReader, AClose]"

lemma dlt_ex_freed_run:
  "\<exists>s. dlt_go dl_ex_cfg 0 dlt_ex_freed (dlt_start dl_ex0) = Some s \<and> dt_cloud s = CPosted \<and> ctxs (dt_mem s) 0 = None"
  unfolding dlt_ex_freed_def by (simp add: dlt_ex_defs)

text \<open>What can happen while the transport does nothing but wait.\<close>

inductive dlt_waits :: "config \<Rightarrow> addr \<Rightarrow> dl_threads \<Rightarrow> dl_threads \<Rightarrow> bool" for c p s where
  now: "dlt_waits c p s s"
| later: "dlt_waits c p s s1 \<Longrightarrow> dlt_step c p s1 (Some s2) \<Longrightarrow> dt_reader s2 = dt_reader s1 \<Longrightarrow> dlt_waits c p s s2"

lemma dlt_waits_quiet:
  assumes "dlt_waits c p s s'" and "dt_fin s" and "dt_cloud s = CIdle" and "reader_awaits (dt_reader s)"
  shows "dt_fin s' \<and> dt_cloud s' = CIdle \<and> dt_reader s' = dt_reader s \<and> dt_woken s' = dt_woken s \<and>
     dlt_stream p s' = dlt_stream p s"
  using assms(1)
proof induction
  case now
  then show ?case using assms by simp
next
  case (later s1 s2)
  from later.hyps(2) show ?case
  proof cases
    case (thread a)
    then show ?thesis using later assms(4)
      by (cases a; cases "dt_reader s")
         (auto simp: get_data_enter_def abort_enter_def errno_defs split: bind_splits if_splits)
  next
    case (others m)
    then show ?thesis using later dlt_others_stream [OF others(2,3)] by simp
  qed
qed

section \<open>Properties\<close>

text \<open>C14. However the two threads are interleaved, the bytes that were accepted are those
  delivered so far followed by those the context holds, and a context that is complete
  without an error has delivered them all. A step is undefined only where the context is
  already freed: the transport closes the complete context while the callback that brought the
  last block, or the error, has not yet looked at \<open>current_block\<close> and the waiting flag, or
  \<open>end_cb\<close> closes it between the two statements of \<open>abort\<close>. The witness reaches the first.\<close>

theorem downlink_threads_safe:
  assumes "dlt_reach c p s" and "dlt_step c p s r"
  shows "case r of
      None \<Rightarrow> ctxs (dt_mem s) p = None \<and> (dt_cloud s \<noteq> CIdle \<or> dt_reader s = RAborting)
    | Some s' \<Rightarrow> (case ctxs (dt_mem s') p of
          None \<Rightarrow> dt_fin s'
        | Some d \<Rightarrow> dt_acc s' = dt_dlv s' @ reader_out (dt_reader s') @ dlt_stream p s' \<and>
            (if dl_complete d \<and> \<not> dl_coap_error d then dt_fin s' \<and> dlt_stream p s' = [] else True))"
proof -
  have post: "dlt_post c p s r" using dlt_step_ok [OF dlt_reach_ok [OF assms(1)] assms(2)] .
  show ?thesis
  proof (cases r)
    case None
    then show ?thesis using post by simp
  next
    case (Some s')
    then show ?thesis using post
      by (cases "ctxs (dt_mem s') p") (auto simp: dlt_ok_def dlt_data_ok_def dlt_stream_def dl_stream_def)
  qed
qed

text \<open>C15. When the transport has been told to wait, the cloud's thread is in no callback and
  \<open>data_available\<close> was not called since, then, unless the cloud's thread tested the waiting
  flag between the empty FIFO and the setting of the flag, nothing is there to be read, and
  the next block or error of the cloud calls \<open>data_available\<close>.\<close>

theorem downlink_threads_wakeup:
  assumes "dlt_reach c p s" and "reader_awaits (dt_reader s)" and "dt_cloud s = CIdle"
    and "\<not> dt_woken s" and "\<not> dt_tested s"
    and slot: "slab (dt_mem s) a = None" and len: "length bytes \<le> unat (block_max c)"
  shows "\<exists>d m1 m2. ctxs (dt_mem s) p = Some d \<and> dl_current d = None \<and> dl_queue d = [] \<and> \<not> dl_coap_error d \<and>
     cloud_run c p (Some a) 3 (CStore bytes l) False (dt_mem s) = Some (CIdle, True, m1) \<and>
     cloud_run c p None 3 CFail False (dt_mem s) = Some (CIdle, True, m2)"
proof -
  have ok: "dlt_ok c p s" using dlt_reach_ok [OF assms(1)] .
  then obtain d where d: "ctxs (dt_mem s) p = Some d"
    using assms(2) by (cases "ctxs (dt_mem s) p") (auto simp: dlt_ok_def)
  have "\<not> reader_at_empty (dt_reader s)" using assms(2) by (cases "dt_reader s") simp_all
  with ok d assms have w: "dl_waiting d" "dl_current d = None" "dl_queue d = []" "\<not> dl_coap_error d"
    by (simp_all add: dlt_ok_def dlt_told_def)
  obtain b where "block_append \<lparr>user_data = None, last_flag = False, blk_len = 0,
      blk_data = replicate (unat (block_max c)) None\<rparr> bytes = Some b"
    using block_filled [OF len] by blast
  with d w show ?thesis
    by (simp add: numeral_eq_Suc block_alloc_def Let_def)
qed

text \<open>C16. The exception is real and final: where the last block comes while the transport's
  thread has found the FIFO empty and the error flag clear and has not yet set the waiting
  flag, its read tells it to wait, \<open>data_available\<close> was not called, and as long as it waits
  nothing calls it, while the block lies in the FIFO.\<close>

theorem downlink_wakeup_lost:
  assumes reach: "dlt_reach c p s" and pc: "dt_reader s = RShort il" "dt_cloud s = CIdle"
    and open_: "\<not> dt_fin s" "\<not> dt_woken s" "\<not> dt_tested s"
    and d: "ctxs (dt_mem s) p = Some d" "\<not> dl_waiting d"
    and slot: "slab_slot_ok c (slab (dt_mem s)) (Some a)" and len: "length bytes \<le> unat (block_max c)"
  shows "\<exists>s'. dlt_go c p [ABlock bytes True, ACloud (Some a), ACloud None, ACloud None, AReader] s = Some s' \<and>
     dt_reader s' = RDone (- EAGAIN) [] il \<and>
     (\<forall>s''. dlt_waits c p s' s'' \<longrightarrow> \<not> dt_woken s'' \<and> dlt_stream p s'' = map Some bytes)"
proof -
  have ok: "dlt_ok c p s" using dlt_reach_ok [OF reach] .
  have w: "dl_current d = None" "dl_queue d = []" "\<not> dl_aborted d"
    using ok pc open_ d by (auto simp: dlt_ok_def dlt_told_def)
  obtain b where b: "block_append \<lparr>user_data = None, last_flag = False, blk_len = 0,
      blk_data = replicate (unat (block_max c)) None\<rparr> bytes = Some b"
    using block_filled [OF len] by blast
  have "\<exists>s'. dlt_go c p [ABlock bytes True, ACloud (Some a), ACloud None, ACloud None, AReader] s = Some s' \<and>
      dt_reader s' = RDone (- EAGAIN) [] il \<and> dt_cloud s' = CIdle \<and> dt_fin s' \<and> \<not> dt_woken s' \<and>
      dt_acc s' = dt_acc s @ map Some bytes \<and> dt_dlv s' = dt_dlv s \<and> ctxs (dt_mem s') p \<noteq> None"
    using pc open_ d w slot len b
    by (simp add: block_cb_enter_def dlt_cloud_def block_alloc_def dlt_reader_def Let_def slab_slot_ok_def)
  then obtain s' where go: "dlt_go c p [ABlock bytes True, ACloud (Some a), ACloud None, ACloud None, AReader] s = Some s'"
    and s': "dt_reader s' = RDone (- EAGAIN) [] il" "dt_cloud s' = CIdle" "dt_fin s'" "\<not> dt_woken s'"
      "dt_acc s' = dt_acc s @ map Some bytes" "dt_dlv s' = dt_dlv s" "ctxs (dt_mem s') p \<noteq> None"
    by blast
  have "dt_acc s = dt_dlv s"
    using ok d w pc by (simp add: dlt_ok_def dlt_data_ok_def dl_stream_def dl_segs_def)
  moreover have ok': "dlt_ok c p s'" using dlt_reach_ok [OF dlt_go_reach [OF reach go]] .
  ultimately have str: "dlt_stream p s' = map Some bytes"
    using s' by (auto simp: dlt_ok_def dlt_data_ok_def dlt_stream_def)
  have "\<not> dt_woken s'' \<and> dlt_stream p s'' = map Some bytes" if "dlt_waits c p s' s''" for s''
    using dlt_waits_quiet [OF that s'(3,2)] s' str by simp
  with go s' show ?thesis by blast
qed

theorem downlink_wakeup_lost_witness:
  "\<exists>s s'. dlt_reach dl_ex_cfg 0 s \<and>
     dlt_go dl_ex_cfg 0 [ABlock [9] True, ACloud (Some 5), ACloud None, ACloud None, AReader] s = Some s' \<and>
     (\<forall>s''. dlt_waits dl_ex_cfg 0 s' s'' \<longrightarrow> \<not> dt_woken s'' \<and> dlt_stream 0 s'' = [Some 9])"
proof -
  obtain s d where go: "dlt_go dl_ex_cfg 0 dlt_ex_window (dlt_start dl_ex0) = Some s"
    and s: "dt_reader s = RShort False" "dt_cloud s = CIdle" "\<not> dt_fin s" "\<not> dt_woken s" "\<not> dt_tested s"
      "ctxs (dt_mem s) 0 = Some d" "\<not> dl_waiting d" "slab (dt_mem s) = Map.empty"
    using dlt_ex_window_run by blast
  have reach: "dlt_reach dl_ex_cfg 0 s" by (rule dlt_go_reach [OF dl_ex0_reach go])
  have slot: "slab_slot_ok dl_ex_cfg (slab (dt_mem s)) (Some 5)" and len: "length [9 :: byte] \<le> unat (block_max dl_ex_cfg)"
    using s by (simp_all add: slab_slot_ok_def dl_ex_cfg_def kconfig_default_def)
  from downlink_wakeup_lost [OF reach s(1-7) slot len] reach show ?thesis
    by (auto simp del: dlt_go.simps)
qed

theorem downlink_threads_safe_witness:
  "\<exists>s. dlt_reach dl_ex_cfg 0 s \<and> dlt_step dl_ex_cfg 0 s None \<and> ctxs (dt_mem s) 0 = None \<and> dt_cloud s = CPosted"
proof -
  obtain s where go: "dlt_go dl_ex_cfg 0 dlt_ex_freed (dlt_start dl_ex0) = Some s"
    and s: "dt_cloud s = CPosted" "ctxs (dt_mem s) 0 = None"
    using dlt_ex_freed_run by blast
  have reach: "dlt_reach dl_ex_cfg 0 s" by (rule dlt_go_reach [OF dl_ex0_reach go])
  have step: "dlt_step dl_ex_cfg 0 s None"
    using dlt_step.thread [of dl_ex_cfg 0 s "ACloud None"] s by (simp add: slab_slot_ok_def dlt_cloud_def)
  from downlink_threads_safe [OF reach step] reach step s show ?thesis by auto
qed

theorem downlink_threads_wakeup_witness:
  "\<exists>m1 m2. cloud_run dl_ex_cfg 0 (Some 5) 3 (CStore [7] True) False dl_ex0 = Some (CIdle, True, m1) \<and>
     cloud_run dl_ex_cfg 0 None 3 CFail False dl_ex0 = Some (CIdle, True, m2)"
proof -
  have "length [7 :: byte] \<le> unat (block_max dl_ex_cfg)" by (simp add: dl_ex_cfg_def kconfig_default_def)
  from downlink_threads_wakeup [OF dl_ex0_reach _ _ _ _ _ this, of 5 True] show ?thesis
    by (auto simp: dlt_start_def dl_ex0_ctx)
qed



end
