(* ===== verification/Uplink.thy ===== *)
theory Uplink
  imports Downlink
begin

text \<open>
  The uplink of \<open>lib/uplink.c\<close>: the Bluetooth transport writes bytes into an uplink, which
  packs them into blocks and sends one block at a time to the cloud; the upload callback of
  the cloud client acknowledges a block and starts the next one. An uplink owns a block being
  written, a queue of blocks and the block being sent, all of them malloc'ed.

  What the cloud client and the callback of the owner are asked to do is the list of events
  an operation returns. What they answer is an argument: the session
  \<open>golioth_gateway_uplink_start\<close> gives, the status \<open>golioth_gateway_uplink_block\<close>
  returns, and the address \<open>malloc\<close> returns (a function \<open>mal\<close> of the store, so that it
  may fail at any call; \<open>malloc_ok\<close> states that it never returns memory in use).
\<close>

section \<open>Data\<close>

datatype uplink_result =
  POUCH_GATEWAY_UPLINK_SUCCESS
| POUCH_GATEWAY_UPLINK_ERROR_LOCAL
| POUCH_GATEWAY_UPLINK_ERROR_CLOUD

datatype up_event =
  UplinkStart ptr
| UplinkBlock ptr "32 word" "cell list" bool
| UplinkFinish ptr
| UplinkEnd nat uplink_result

record pouch_block =
  pb_len :: size_t
  pb_data :: "cell list"

record uplink =
  up_session :: ptr
  up_block_idx :: "32 word"
  up_closed :: bool
  up_sending :: bool
  up_wblock :: ptr
  up_rblock :: ptr
  up_queue :: "addr list"
  up_cb_arg :: nat

record up_mem =
  blocks :: "pouch_block store"
  ups :: "uplink store"

definition malloc_ok :: "('o store \<Rightarrow> ptr) \<Rightarrow> bool" where
  "malloc_ok mal \<longleftrightarrow> (\<forall>h a. mal h = Some a \<longrightarrow> h a = None)"

section \<open>Operations\<close>

fun free_blocks :: "pouch_block store \<Rightarrow> addr list \<Rightarrow> pouch_block store option" where
  "free_blocks bs [] = Some bs"
| "free_blocks bs (a # q) = do { bs' \<leftarrow> heap_free bs (Some a); free_blocks bs' q }"

definition cleanup_uplink :: "config \<Rightarrow> addr \<Rightarrow> up_mem \<Rightarrow> (up_event list \<times> up_mem) option" where
  "cleanup_uplink c p m = do {
     u \<leftarrow> ups m p;
     bs1 \<leftarrow> free_blocks (blocks m) (up_queue u);
     bs2 \<leftarrow> heap_free bs1 (up_wblock u);
     bs3 \<leftarrow> heap_free bs2 (up_rblock u);
     us \<leftarrow> heap_free (ups m) (Some p);
     Some (if cloud c then [UplinkFinish (up_session u)] else [], m\<lparr>blocks := bs3, ups := us\<rparr>) }"

text \<open>\<open>end_cb\<close> followed by \<open>cleanup_uplink\<close>, as the three exits of the file do.\<close>

definition end_uplink ::
  "config \<Rightarrow> uplink_result \<Rightarrow> addr \<Rightarrow> up_mem \<Rightarrow> (up_event list \<times> up_mem) option" where
  "end_uplink c res p m = do {
     u \<leftarrow> ups m p;
     (ev, m') \<leftarrow> cleanup_uplink c p m;
     Some (UplinkEnd (up_cb_arg u) res # ev, m') }"

text \<open>\<open>process_uplink\<close>; \<open>st\<close> is what \<open>golioth_gateway_uplink_block\<close> returns if it is
  called.\<close>

definition process_uplink ::
  "config \<Rightarrow> golioth_status \<Rightarrow> addr \<Rightarrow> up_mem \<Rightarrow> (up_event list \<times> up_mem) option" where
  "process_uplink c st p m = do {
     u \<leftarrow> ups m p;
     if up_sending u then Some ([], m)
     else do {
       let u1 = u\<lparr>up_sending := True\<rparr>;
       let closed = up_closed u1;
       (case fifo_get (up_queue u1) of
          (None, q) \<Rightarrow>
            if closed then end_uplink c POUCH_GATEWAY_UPLINK_SUCCESS p (m\<lparr>ups := (ups m)(p \<mapsto> u1)\<rparr>)
            else Some ([], m\<lparr>ups := (ups m)(p \<mapsto> u1\<lparr>up_sending := False\<rparr>)\<rparr>)
        | (Some a, q) \<Rightarrow> do {
            let u2 = u1\<lparr>up_queue := q, up_rblock := Some a\<rparr>;
            b \<leftarrow> blocks m a;
            if \<not> cloud c \<or> pb_len b = 0 then do {
              bs \<leftarrow> heap_free (blocks m) (up_rblock u2);
              Some ([], m\<lparr>blocks := bs, ups := (ups m)(p \<mapsto> u2\<lparr>up_rblock := None, up_sending := False\<rparr>)\<rparr>) }
            else do {
              payload \<leftarrow> memcpy_from (pb_data b) 0 (unat (pb_len b));
              let ev = UplinkBlock (up_session u2) (up_block_idx u2) payload (q = [] \<and> closed);
              let m' = m\<lparr>ups := (ups m)(p \<mapsto> u2\<lparr>up_block_idx := up_block_idx u2 + 1\<rparr>)\<rparr>;
              if st \<noteq> GOLIOTH_OK then do {
                (evs, m'') \<leftarrow> end_uplink c POUCH_GATEWAY_UPLINK_ERROR_LOCAL p m';
                Some (ev # evs, m'') }
              else Some ([ev], m') } }) } }"

text \<open>\<open>block_upload_callback\<close> in its two parts: the atomic test of the sending flag, and
  the rest. \<open>status\<close> is the callback's own argument, \<open>st\<close> the answer to the next block.\<close>

definition upload_cb_clear :: "addr \<Rightarrow> up_mem \<Rightarrow> (bool \<times> up_mem) option" where
  "upload_cb_clear p m = do {
     u \<leftarrow> ups m p;
     Some (up_sending u, m\<lparr>ups := (ups m)(p \<mapsto> u\<lparr>up_sending := False\<rparr>)\<rparr>) }"

definition upload_cb_rest ::
  "config \<Rightarrow> golioth_status \<Rightarrow> golioth_status \<Rightarrow> addr \<Rightarrow> up_mem \<Rightarrow> (up_event list \<times> up_mem) option" where
  "upload_cb_rest c status st p m = do {
     u \<leftarrow> ups m p;
     bs \<leftarrow> heap_free (blocks m) (up_rblock u);
     let m' = m\<lparr>blocks := bs, ups := (ups m)(p \<mapsto> u\<lparr>up_rblock := None\<rparr>)\<rparr>;
     if status \<noteq> GOLIOTH_OK then end_uplink c POUCH_GATEWAY_UPLINK_ERROR_CLOUD p m'
     else process_uplink c st p m' }"

definition block_upload_callback ::
  "config \<Rightarrow> golioth_status \<Rightarrow> golioth_status \<Rightarrow> addr \<Rightarrow> up_mem \<Rightarrow> (up_event list \<times> up_mem) option" where
  "block_upload_callback c status st p m = do {
     (was_sending, m1) \<leftarrow> upload_cb_clear p m;
     if \<not> was_sending then Some ([], m1) else upload_cb_rest c status st p m1 }"

definition uplink_block_alloc ::
  "config \<Rightarrow> (pouch_block store \<Rightarrow> ptr) \<Rightarrow> pouch_block store \<Rightarrow> ptr \<times> pouch_block store" where
  "uplink_block_alloc c mal bs =
     (case mal bs of
        None \<Rightarrow> (None, bs)
      | Some a \<Rightarrow> (Some a, bs(a \<mapsto> \<lparr>pb_len = 0, pb_data = replicate (unat (block_max c)) None\<rparr>)))"

definition submit_block :: "uplink \<Rightarrow> uplink option" where
  "submit_block u = do {
     w \<leftarrow> up_wblock u;
     Some (u\<lparr>up_queue := fifo_put (up_queue u) w, up_wblock := None\<rparr>) }"

text \<open>The first two steps of the write loop: submit a full block, then make sure there is
  a block to write to.\<close>

definition submit_if_full :: "config \<Rightarrow> uplink \<Rightarrow> pouch_block store \<Rightarrow> uplink option" where
  "submit_if_full c u bs =
     (case up_wblock u of
        None \<Rightarrow> Some u
      | Some w \<Rightarrow> do { b \<leftarrow> bs w; if pb_len b = block_max c then submit_block u else Some u })"

definition ensure_wblock ::
  "config \<Rightarrow> (pouch_block store \<Rightarrow> ptr) \<Rightarrow> uplink \<Rightarrow> pouch_block store \<Rightarrow> ptr \<times> pouch_block store" where
  "ensure_wblock c mal u bs =
     (case up_wblock u of None \<Rightarrow> uplink_block_alloc c mal bs | Some w \<Rightarrow> (Some w, bs))"

text \<open>The loop. It does not end when blocks have no room at all (\<open>block_max c = 0\<close>), so
  it is a partial function; \<open>None\<close> is undefined behaviour or no result.\<close>

partial_function (option) up_write_loop ::
  "config \<Rightarrow> (pouch_block store \<Rightarrow> ptr) \<Rightarrow> byte list \<Rightarrow> size_t \<Rightarrow> uplink \<Rightarrow> pouch_block store \<Rightarrow>
   (int \<times> uplink \<times> pouch_block store) option" where
  "up_write_loop c mal payload len u bs =
     (if len = 0 then Some (0, u, bs)
      else do {
        u1 \<leftarrow> submit_if_full c u bs;
        (case ensure_wblock c mal u1 bs of
           (None, bs1) \<Rightarrow> Some (- ENOMEM, u1, bs1)
         | (Some a, bs1) \<Rightarrow> do {
             b \<leftarrow> bs1 a;
             let k = min len (block_max c - pb_len b);
             chunk \<leftarrow> memcpy_from payload 0 (unat k);
             d \<leftarrow> memcpy_to (pb_data b) (unat (pb_len b)) (map Some chunk);
             up_write_loop c mal (drop (unat k) payload) (len - k) (u1\<lparr>up_wblock := Some a\<rparr>)
               (bs1(a \<mapsto> b\<lparr>pb_len := pb_len b + k, pb_data := d\<rparr>)) }) })"

text \<open>One iteration of the loop, by itself; the first result is \<open>None\<close> when there is no
  memory.\<close>

definition write_piece ::
  "config \<Rightarrow> (pouch_block store \<Rightarrow> ptr) \<Rightarrow> byte list \<Rightarrow> size_t \<Rightarrow> uplink \<Rightarrow> pouch_block store \<Rightarrow>
   ((byte list \<times> size_t) option \<times> uplink \<times> pouch_block store) option" where
  "write_piece c mal payload len u bs = do {
     u1 \<leftarrow> submit_if_full c u bs;
     (case ensure_wblock c mal u1 bs of
        (None, bs1) \<Rightarrow> Some (None, u1, bs1)
      | (Some a, bs1) \<Rightarrow> do {
          b \<leftarrow> bs1 a;
          let k = min len (block_max c - pb_len b);
          chunk \<leftarrow> memcpy_from payload 0 (unat k);
          d \<leftarrow> memcpy_to (pb_data b) (unat (pb_len b)) (map Some chunk);
          Some (Some (drop (unat k) payload, len - k), u1\<lparr>up_wblock := Some a\<rparr>,
                bs1(a \<mapsto> b\<lparr>pb_len := pb_len b + k, pb_data := d\<rparr>)) }) }"

lemma up_write_loop_pieces:
  "up_write_loop c mal payload len u bs =
     (if len = 0 then Some (0, u, bs)
      else do {
        (rest, u', bs') \<leftarrow> write_piece c mal payload len u bs;
        case rest of
          None \<Rightarrow> Some (- ENOMEM, u', bs')
        | Some (payload', len') \<Rightarrow> up_write_loop c mal payload' len' u' bs' })"
  by (subst up_write_loop.simps) (simp add: write_piece_def Let_def split: option.splits prod.splits bind_splits)

definition uplink_write ::
  "config \<Rightarrow> (pouch_block store \<Rightarrow> ptr) \<Rightarrow> golioth_status \<Rightarrow> addr \<Rightarrow> byte list \<Rightarrow> size_t \<Rightarrow> up_mem \<Rightarrow>
   (int \<times> up_event list \<times> up_mem) option" where
  "uplink_write c mal st p payload len m = do {
     u \<leftarrow> ups m p;
     (ret, u', bs) \<leftarrow> up_write_loop c mal payload len u (blocks m);
     let m' = m\<lparr>blocks := bs, ups := (ups m)(p \<mapsto> u')\<rparr>;
     if ret \<noteq> 0 then Some (ret, [], m')
     else do { (ev, m'') \<leftarrow> process_uplink c st p m'; Some (0, ev, m'') } }"

text \<open>\<open>pouch_gateway_uplink_open\<close>; \<open>p\<close> is what the first \<open>malloc\<close> returns,
  \<open>session\<close> what the cloud client returns.\<close>

definition uplink_open ::
  "config \<Rightarrow> ptr \<Rightarrow> (pouch_block store \<Rightarrow> ptr) \<Rightarrow> ptr \<Rightarrow> ptr \<Rightarrow> nat \<Rightarrow> up_mem \<Rightarrow>
   (ptr \<times> up_event list \<times> up_mem) option" where
  "uplink_open c p mal session downlink arg m =
     (case p of
        None \<Rightarrow> Some (None, [], m)
      | Some a \<Rightarrow>
          (case uplink_block_alloc c mal (blocks m) of
             (None, bs) \<Rightarrow> Some (None, [], m)
           | (Some w, bs) \<Rightarrow>
               let ev = (if cloud c then [UplinkStart downlink] else []) in
               if cloud c \<and> session = None then do {
                 bs' \<leftarrow> heap_free bs (Some w);
                 Some (None, ev, m\<lparr>blocks := bs'\<rparr>) }
               else Some (Some a, ev, m\<lparr>blocks := bs, ups := (ups m)(a \<mapsto>
                 \<lparr>up_session = (if cloud c then session else None), up_block_idx = 0, up_closed = False,
                  up_sending = False, up_wblock = Some w, up_rblock = None, up_queue = [],
                  up_cb_arg = arg\<rparr>)\<rparr>)))"

definition uplink_close ::
  "config \<Rightarrow> golioth_status \<Rightarrow> addr \<Rightarrow> up_mem \<Rightarrow> (up_event list \<times> up_mem) option" where
  "uplink_close c st p m = do {
     u \<leftarrow> ups m p;
     let closed = up_closed u;
     let u1 = u\<lparr>up_closed := True\<rparr>;
     u2 \<leftarrow> (if \<not> closed \<and> up_wblock u1 \<noteq> None then submit_block u1 else Some u1);
     process_uplink c st p (m\<lparr>ups := (ups m)(p \<mapsto> u2)\<rparr>) }"

section \<open>Invariant\<close>

definition pb_cells :: "pouch_block \<Rightarrow> cell list" where
  "pb_cells b = take (unat (pb_len b)) (pb_data b)"

definition pb_ok :: "config \<Rightarrow> pouch_block \<Rightarrow> bool" where
  "pb_ok c b \<longleftrightarrow> length (pb_data b) = unat (block_max c) \<and> pb_len b \<le> block_max c"

definition up_owned :: "uplink \<Rightarrow> addr list" where
  "up_owned u = ptr_list (up_wblock u) @ ptr_list (up_rblock u) @ up_queue u"

text \<open>An uplink is well-formed when its blocks are distinct, live and well-formed, and a
  block is being sent exactly when the sending flag is set; a closed uplink has no block to
  write to.\<close>

definition up_good :: "config \<Rightarrow> pouch_block store \<Rightarrow> uplink \<Rightarrow> bool" where
  "up_good c bs u \<longleftrightarrow> distinct (up_owned u) \<and>
     list_all (\<lambda>a. case bs a of None \<Rightarrow> False | Some b \<Rightarrow> pb_ok c b) (up_owned u) \<and>
     (up_sending u \<longleftrightarrow> up_rblock u \<noteq> None)"

definition up_inv :: "config \<Rightarrow> up_mem \<Rightarrow> bool" where
  "up_inv c m \<longleftrightarrow> own_inv up_owned (up_good c) (blocks m) (ups m)"

interpretation upo: ownership up_owned "up_good c" for c
  by unfold_locales (auto simp: up_good_def list_all_iff split: option.splits)

lemma length_pb_cells: "pb_ok c b \<Longrightarrow> length (pb_cells b) = unat (pb_len b)"
  by (simp add: pb_ok_def pb_cells_def word_le_nat_alt)

lemma up_invD: "up_inv c m \<Longrightarrow> ups m p = Some u \<Longrightarrow> up_good c (blocks m) u"
  unfolding up_inv_def by (rule own_inv_good)

lemma up_inv_live: "up_inv c m \<Longrightarrow> ups m p = Some u \<Longrightarrow> set (up_owned u) \<subseteq> dom (blocks m)"
  unfolding up_inv_def using own_inv_live by fastforce

lemma up_good_block:
  "up_good c bs u \<Longrightarrow> a \<in> set (up_owned u) \<Longrightarrow> \<exists>b. bs a = Some b \<and> pb_ok c b"
  by (auto simp: up_good_def list_all_iff split: option.splits)

lemma up_good_rblock: "up_good c bs u \<Longrightarrow> \<not> up_sending u \<Longrightarrow> up_rblock u = None"
  by (simp add: up_good_def)

lemma free_blocks_eq:
  "distinct q \<Longrightarrow> set q \<subseteq> dom bs \<Longrightarrow> free_blocks bs q = Some (bs |` (- set q))"
proof (induction q arbitrary: bs)
  case Nil
  then show ?case by simp
next
  case (Cons a q)
  then have "free_blocks (bs(a := None)) q = Some ((bs(a := None)) |` (- set q))"
    by (intro Cons.IH) auto
  moreover obtain b where "bs a = Some b" using Cons by auto
  moreover have "(bs(a := None)) |` (- set q) = bs |` (- set (a # q))"
    by (auto simp: restrict_map_def fun_eq_iff)
  ultimately show ?case by simp
qed

section \<open>What each operation does\<close>

text \<open>The memory after an uplink is gone, and the events of its end.\<close>

definition up_removed :: "addr \<Rightarrow> uplink \<Rightarrow> up_mem \<Rightarrow> up_mem" where
  "up_removed p u m = m\<lparr>blocks := blocks m |` (- set (up_owned u)), ups := (ups m)(p := None)\<rparr>"

definition end_events :: "config \<Rightarrow> uplink_result \<Rightarrow> uplink \<Rightarrow> up_event list" where
  "end_events c res u =
     UplinkEnd (up_cb_arg u) res # (if cloud c then [UplinkFinish (up_session u)] else [])"

lemma end_uplink_eq:
  assumes u: "ups m p = Some u" and dist: "distinct (up_owned u)" and live: "set (up_owned u) \<subseteq> dom (blocks m)"
  shows "end_uplink c res p m = Some (end_events c res u, up_removed p u m)"
proof -
  have 1: "free_blocks (blocks m) (up_queue u) = Some (blocks m |` (- set (up_queue u)))"
    using dist live by (intro free_blocks_eq) (auto simp: up_owned_def)
  have 2: "heap_free (blocks m |` (- set (up_queue u))) (up_wblock u)
      = Some (blocks m |` (- (set (up_queue u) \<union> set (ptr_list (up_wblock u)))))"
    using dist live by (subst heap_free_ptr_list) (auto simp: up_owned_def restrict_map_def)
  have 3: "heap_free (blocks m |` (- (set (up_queue u) \<union> set (ptr_list (up_wblock u))))) (up_rblock u)
      = Some (blocks m |` (- (set (up_queue u) \<union> set (ptr_list (up_wblock u)) \<union> set (ptr_list (up_rblock u)))))"
    using dist live by (subst heap_free_ptr_list) (auto simp: up_owned_def restrict_map_def)
  have "set (up_queue u) \<union> set (ptr_list (up_wblock u)) \<union> set (ptr_list (up_rblock u)) = set (up_owned u)"
    by (auto simp: up_owned_def)
  with 1 2 3 u show ?thesis
    by (simp add: end_uplink_def cleanup_uplink_def end_events_def up_removed_def)
qed

lemma up_removed_inv:
  "up_inv c m \<Longrightarrow> ups m p = Some u \<Longrightarrow> up_inv c (up_removed p u m)"
  unfolding up_inv_def up_removed_def using upo.remove_keeps(1) by fastforce

text \<open>The uplink after a block was handed to the cloud client, and after one was dropped.\<close>

definition up_sent :: "uplink \<Rightarrow> addr \<Rightarrow> addr list \<Rightarrow> uplink" where
  "up_sent u a q = u\<lparr>up_sending := True, up_queue := q, up_rblock := Some a, up_block_idx := up_block_idx u + 1\<rparr>"

lemma up_sent_simps [simp]:
  "up_queue (up_sent u a q) = q" "up_rblock (up_sent u a q) = Some a" "up_sending (up_sent u a q)"
  "up_wblock (up_sent u a q) = up_wblock u" "up_closed (up_sent u a q) = up_closed u"
  "up_block_idx (up_sent u a q) = up_block_idx u + 1" "up_cb_arg (up_sent u a q) = up_cb_arg u"
  "up_session (up_sent u a q) = up_session u"
  by (simp_all add: up_sent_def)

lemma up_owned_sent:
  "up_rblock u = None \<Longrightarrow> up_queue u = a # q \<Longrightarrow> up_owned (up_sent u a q) = up_owned u"
  by (simp add: up_owned_def)

lemma process_uplink_sending: "ups m p = Some u \<Longrightarrow> up_sending u \<Longrightarrow> process_uplink c st p m = Some ([], m)"
  by (simp add: process_uplink_def)

lemma process_uplink_idle:
  assumes inv: "up_inv c m" and u: "ups m p = Some u" "\<not> up_sending u" and q: "up_queue u = []"
  shows "process_uplink c st p m =
     (if up_closed u then Some (end_events c POUCH_GATEWAY_UPLINK_SUCCESS u, up_removed p u m) else Some ([], m))"
proof -
  have same: "u\<lparr>up_sending := False\<rparr> = u" using u(2) by (cases u) simp
  have own: "up_owned (u\<lparr>up_sending := True\<rparr>) = up_owned u" by (simp add: up_owned_def)
  have "end_uplink c res p (m\<lparr>ups := (ups m)(p \<mapsto> u\<lparr>up_sending := True\<rparr>)\<rparr>) =
      Some (end_events c res u, up_removed p u m)" for res
    using up_invD [OF inv u(1)] up_inv_live [OF inv u(1)]
    by (subst end_uplink_eq [of _ _ "u\<lparr>up_sending := True\<rparr>"])
       (simp_all add: own up_good_def up_removed_def end_events_def)
  moreover have "(ups m)(p \<mapsto> u) = ups m" using u(1) by auto
  ultimately show ?thesis using u q by (simp add: process_uplink_def same)
qed

lemma process_uplink_drop:
  assumes inv: "up_inv c m" and u: "ups m p = Some u" "\<not> up_sending u" and q: "up_queue u = a # q"
    and b: "blocks m a = Some b" and drop: "\<not> cloud c \<or> pb_len b = 0"
  shows "process_uplink c st p m =
     Some ([], m\<lparr>blocks := blocks m |` (- {a}), ups := (ups m)(p \<mapsto> u\<lparr>up_queue := q\<rparr>)\<rparr>)"
proof -
  have "u\<lparr>up_queue := q, up_rblock := None, up_sending := False\<rparr> = u\<lparr>up_queue := q\<rparr>"
    using u(2) up_good_rblock [OF up_invD [OF inv u(1)]] by (cases u) simp
  then show ?thesis using u q b drop
    by (simp add: process_uplink_def upd_None_restrict)
qed

lemma process_uplink_send:
  assumes inv: "up_inv c m" and u: "ups m p = Some u" "\<not> up_sending u" and q: "up_queue u = a # q"
    and b: "blocks m a = Some b" and send: "cloud c" "pb_len b \<noteq> 0"
  shows "process_uplink c st p m =
     (let ev = UplinkBlock (up_session u) (up_block_idx u) (pb_cells b) (q = [] \<and> up_closed u) in
      if st = GOLIOTH_OK then Some ([ev], m\<lparr>ups := (ups m)(p \<mapsto> up_sent u a q)\<rparr>)
      else Some (ev # end_events c POUCH_GATEWAY_UPLINK_ERROR_LOCAL u, up_removed p u m))"
proof -
  have good: "up_good c (blocks m) u" using up_invD [OF inv u(1)] .
  have r: "up_rblock u = None" using up_good_rblock [OF good u(2)] .
  have "pb_ok c b" using up_good_block [OF good, of a] q b by (auto simp: up_owned_def)
  then have get: "memcpy_from (pb_data b) 0 (unat (pb_len b)) = Some (pb_cells b)"
    by (simp add: pb_ok_def pb_cells_def word_le_nat_alt)
  have own: "up_owned (up_sent u a q) = up_owned u" by (rule up_owned_sent [OF r q])
  have "end_uplink c res p (m\<lparr>ups := (ups m)(p \<mapsto> up_sent u a q)\<rparr>) =
      Some (end_events c res u, up_removed p u m)" for res
    using good up_inv_live [OF inv u(1)]
    by (subst end_uplink_eq [of _ _ "up_sent u a q"])
       (simp_all add: own up_good_def up_removed_def end_events_def)
  then show ?thesis using u q b send get
    by (simp add: process_uplink_def Let_def up_sent_def)
qed

section \<open>Writing\<close>

text \<open>What an uplink holds that is not yet handed to the cloud client: the queued chunks
  and the one being written.\<close>

definition pb_chunk :: "pouch_block store \<Rightarrow> addr \<Rightarrow> cell list" where
  "pb_chunk bs a = (case bs a of None \<Rightarrow> [] | Some b \<Rightarrow> pb_cells b)"

lemma map_pb_chunk_upd: "a \<notin> set q \<Longrightarrow> map (pb_chunk (bs(a := v))) q = map (pb_chunk bs) q"
  by (induction q) (auto simp: pb_chunk_def)

definition up_queued :: "pouch_block store \<Rightarrow> uplink \<Rightarrow> cell list list" where
  "up_queued bs u = map (pb_chunk bs) (up_queue u)"

definition up_open_chunk :: "pouch_block store \<Rightarrow> uplink \<Rightarrow> cell list" where
  "up_open_chunk bs u = concat (map (pb_chunk bs) (ptr_list (up_wblock u)))"

definition up_held :: "pouch_block store \<Rightarrow> uplink \<Rightarrow> cell list" where
  "up_held bs u = concat (up_queued bs u) @ up_open_chunk bs u"

definition up_put :: "addr \<Rightarrow> pouch_block store \<Rightarrow> uplink \<Rightarrow> up_mem \<Rightarrow> up_mem" where
  "up_put p bs u m = m\<lparr>blocks := bs, ups := (ups m)(p \<mapsto> u)\<rparr>"

lemma up_put_simps [simp]:
  "blocks (up_put p bs u m) = bs" "ups (up_put p bs u m) = (ups m)(p \<mapsto> u)"
  "up_put p bs' u' (up_put p bs u m) = up_put p bs' u' m"
  by (simp_all add: up_put_def)

text \<open>The bytes \<open>xs\<close> were added: full chunks went to the queue, nothing else of the uplink
  changed.\<close>

definition up_wrote ::
  "config \<Rightarrow> pouch_block store \<Rightarrow> uplink \<Rightarrow> cell list \<Rightarrow> pouch_block store \<Rightarrow> uplink \<Rightarrow> bool" where
  "up_wrote c bs u xs bs' u' \<longleftrightarrow>
     (\<exists>new. up_queued bs' u' = up_queued bs u @ new \<and> (\<forall>x \<in> set new. length x = unat (block_max c))) \<and>
     up_held bs' u' = up_held bs u @ xs \<and>
     u' = u\<lparr>up_wblock := up_wblock u', up_queue := up_queue u'\<rparr>"

lemma up_wrote_refl: "up_wrote c bs u [] bs u"
  by (simp add: up_wrote_def)

lemma up_wrote_trans:
  assumes "up_wrote c bs u xs bs1 u1" and "up_wrote c bs1 u1 ys bs2 u2"
  shows "up_wrote c bs u (xs @ ys) bs2 u2"
proof -
  have "u2 = u\<lparr>up_wblock := up_wblock u2, up_queue := up_queue u2\<rparr>"
    using assms unfolding up_wrote_def by (cases u; cases u1; cases u2) simp
  moreover obtain new where "up_queued bs1 u1 = up_queued bs u @ new"
    "\<forall>x \<in> set new. length x = unat (block_max c)"
    using assms(1) by (auto simp: up_wrote_def)
  moreover obtain new1 where "up_queued bs2 u2 = up_queued bs1 u1 @ new1"
    "\<forall>x \<in> set new1. length x = unat (block_max c)"
    using assms(2) by (auto simp: up_wrote_def)
  moreover have "up_held bs2 u2 = up_held bs u @ xs @ ys" using assms by (simp add: up_wrote_def)
  ultimately show ?thesis
    unfolding up_wrote_def by (intro conjI exI [of _ "new @ new1"]) auto
qed

text \<open>The three parts of an iteration.\<close>

lemma submit_if_full_ok:
  assumes inv: "up_inv c (up_put p bs u m)"
  shows "\<exists>u1. submit_if_full c u bs = Some u1 \<and> up_inv c (up_put p bs u1 m) \<and> up_wrote c bs u [] bs u1 \<and>
     (\<forall>w b. up_wblock u1 = Some w \<longrightarrow> bs w = Some b \<longrightarrow> pb_len b < block_max c)"
proof (cases "\<exists>w b. up_wblock u = Some w \<and> bs w = Some b \<and> pb_len b = block_max c")
  case False
  have good: "up_good c bs u" using up_invD [OF inv, of p u] by simp
  have lt: "pb_len b < block_max c" if "up_wblock u = Some w" "bs w = Some b" for w b
    using up_good_block [OF good, of w] that False by (auto simp: up_owned_def pb_ok_def)
  have "submit_if_full c u bs = Some u"
  proof (cases "up_wblock u")
    case (Some w)
    then show ?thesis using up_good_block [OF good, of w] False
      by (auto simp: submit_if_full_def up_owned_def)
  qed (simp add: submit_if_full_def)
  then show ?thesis using inv lt by (auto simp: up_wrote_refl)
next
  case True
  then obtain w b where w: "up_wblock u = Some w" "bs w = Some b" "pb_len b = block_max c" by blast
  define u1 where "u1 = u\<lparr>up_queue := up_queue u @ [w], up_wblock := None\<rparr>"
  have good: "up_good c bs u" using up_invD [OF inv, of p u] by simp
  have own: "set (up_owned u1) = set (up_owned u)" using w by (auto simp: up_owned_def u1_def)
  have "up_good c bs u1" using good w by (auto simp: up_good_def u1_def up_owned_def)
  then have "up_inv c (up_put p bs u1 m)"
    using upo.same_keeps [OF inv [unfolded up_inv_def], of p u u1] own by (simp add: up_inv_def)
  moreover have "length (pb_cells b) = unat (block_max c)"
    using up_good_block [OF good, of w] w by (simp add: up_owned_def length_pb_cells)
  then have "up_wrote c bs u [] bs u1"
    using w by (auto simp: up_wrote_def up_queued_def up_held_def up_open_chunk_def u1_def pb_chunk_def)
  moreover have "submit_if_full c u bs = Some u1"
    using w by (simp add: submit_if_full_def submit_block_def fifo_put_def u1_def)
  ultimately show ?thesis by (auto simp: u1_def)
qed

lemma ensure_wblock_ok:
  assumes inv: "up_inv c (up_put p bs u m)" and mal: "malloc_ok mal" and max: "block_max c \<noteq> 0"
    and room: "\<forall>w b. up_wblock u = Some w \<longrightarrow> bs w = Some b \<longrightarrow> pb_len b < block_max c"
  shows "ensure_wblock c mal u bs = (None, bs) \<and> up_wblock u = None \<or>
    (\<exists>a bs1 b. ensure_wblock c mal u bs = (Some a, bs1) \<and> bs1 a = Some b \<and> pb_ok c b \<and> pb_len b < block_max c \<and>
       up_inv c (up_put p bs1 (u\<lparr>up_wblock := Some a\<rparr>) m) \<and>
       up_wrote c bs u [] bs1 (u\<lparr>up_wblock := Some a\<rparr>) \<and>
       own_frame up_owned p bs (ups m) bs1 (ups m))"
proof (cases "up_wblock u")
  case (Some w)
  have same: "u\<lparr>up_wblock := Some w\<rparr> = u" using Some by (cases u) simp
  obtain b where "bs w = Some b" "pb_ok c b"
    using up_good_block [OF up_invD [OF inv, of p u], of w] Some by (auto simp: up_owned_def)
  then show ?thesis
    using inv Some room
    by (intro disjI2 exI [of _ w] exI [of _ bs] exI [of _ b]) (simp add: ensure_wblock_def up_wrote_refl same)
next
  case None
  show ?thesis
  proof (cases "mal bs")
    case alloc: (Some a)
    define b where "b = \<lparr>pb_len = 0, pb_data = replicate (unat (block_max c)) (None :: cell)\<rparr>"
    define u1 where "u1 = u\<lparr>up_wblock := Some a\<rparr>"
    have a: "bs a = None" using mal alloc by (simp add: malloc_ok_def)
    have good: "up_good c bs u" using up_invD [OF inv, of p u] by simp
    have fresh: "a \<notin> set (up_owned u)" using up_good_block [OF good, of a] a by auto
    have b: "pb_ok c b" "pb_cells b = []" "pb_len b < block_max c"
      using max by (simp_all add: b_def pb_ok_def pb_cells_def word_gt_0)
    have own: "up_owned u1 = a # up_owned u" using None by (simp add: u1_def up_owned_def)
    have "up_good c (bs(a \<mapsto> b)) u1"
      using good fresh b own by (auto simp: up_good_def u1_def list_all_iff split: option.splits)
    then have "up_inv c (up_put p (bs(a \<mapsto> b)) u1 m)" "own_frame up_owned p bs (ups m) (bs(a \<mapsto> b)) (ups m)"
      using upo.extend_keeps [OF inv [unfolded up_inv_def], of p u a u1 b] a own
      by (simp_all add: up_inv_def own_frame_def)
    moreover have "up_queued (bs(a \<mapsto> b)) u1 = up_queued bs u"
      using fresh by (simp add: up_queued_def u1_def up_owned_def map_pb_chunk_upd)
    then have "up_wrote c bs u [] (bs(a \<mapsto> b)) u1"
      using None b by (simp add: up_wrote_def up_held_def up_open_chunk_def u1_def pb_chunk_def)
    moreover have "ensure_wblock c mal u bs = (Some a, bs(a \<mapsto> b))"
      using None alloc by (simp add: ensure_wblock_def uplink_block_alloc_def b_def)
    ultimately show ?thesis using b by (intro disjI2) (auto simp: u1_def)
  qed (use None in \<open>simp add: ensure_wblock_def uplink_block_alloc_def\<close>)
qed

lemma fill_wblock_ok:
  assumes inv: "up_inv c (up_put p bs u m)" and w: "up_wblock u = Some a" "bs a = Some b"
    and k: "unat k = length chunk" "unat (pb_len b) + length chunk \<le> unat (block_max c)"
  shows "\<exists>d. memcpy_to (pb_data b) (unat (pb_len b)) (map Some chunk) = Some d \<and>
     (let bs' = bs(a \<mapsto> b\<lparr>pb_len := pb_len b + k, pb_data := d\<rparr>) in
        up_inv c (up_put p bs' u m) \<and> up_wrote c bs u (map Some chunk) bs' u \<and>
        own_frame up_owned p bs (ups m) bs' (ups m) \<and>
        up_open_chunk bs' u = up_open_chunk bs u @ map Some chunk)"
proof -
  have good: "up_good c bs u" using up_invD [OF inv, of p u] by simp
  have own: "a \<in> set (up_owned u)" using w by (simp add: up_owned_def)
  have ok: "pb_ok c b" using up_good_block [OF good own] w by simp
  obtain d where d: "memcpy_to (pb_data b) (unat (pb_len b)) (map Some chunk) = Some d"
    using ok k by (simp add: pb_ok_def)
  define b' where "b' = b\<lparr>pb_len := pb_len b + k, pb_data := d\<rparr>"
  have len: "unat (pb_len b + k) = unat (pb_len b) + length chunk"
    using k by (subst unat_plus_le_size [of _ _ "block_max c"]) simp_all
  have ok': "pb_ok c b'" and cells: "pb_cells b' = pb_cells b @ map Some chunk"
    using ok k len memcpy_to_length [OF d] memcpy_to_take [OF d]
    by (simp_all add: pb_ok_def b'_def pb_cells_def word_le_nat_alt)
  have "up_good c (bs(a \<mapsto> b')) u"
    using good ok' by (auto simp: up_good_def list_all_iff split: option.splits)
  then have "up_inv c (up_put p (bs(a \<mapsto> b')) u m)" "own_frame up_owned p bs (ups m) (bs(a \<mapsto> b')) (ups m)"
    using upo.write_keeps [OF inv [unfolded up_inv_def], of p u a u b'] own
    by (simp_all add: up_inv_def own_frame_def)
  moreover have "a \<notin> set (up_queue u)" using good w by (auto simp: up_good_def up_owned_def)
  then have "up_queued (bs(a \<mapsto> b')) u = up_queued bs u" by (auto simp: up_queued_def pb_chunk_def)
  moreover have "up_open_chunk (bs(a \<mapsto> b')) u = up_open_chunk bs u @ map Some chunk"
    using w cells by (simp add: up_open_chunk_def pb_chunk_def)
  ultimately show ?thesis using d by (simp add: up_wrote_def up_held_def b'_def)
qed

text \<open>The iteration.\<close>

lemma write_piece_ok:
  assumes inv: "up_inv c (up_put p bs u m)" and mal: "malloc_ok mal" and max: "block_max c \<noteq> 0"
    and len: "len \<noteq> 0" "unat len \<le> length payload"
  obtains (fail) u' where "write_piece c mal payload len u bs = Some (None, u', bs)"
      "up_inv c (up_put p bs u' m)" "up_wrote c bs u [] bs u'" "up_wblock u' = None"
    | (step) k u' bs' where "0 < k" "k \<le> unat len"
      "write_piece c mal payload len u bs = Some (Some (drop k payload, len - of_nat k), u', bs')"
      "up_inv c (up_put p bs' u' m)" "up_wrote c bs u (map Some (take k payload)) bs' u'"
      "own_frame up_owned p bs (ups m) bs' (ups m)" "up_open_chunk bs' u' \<noteq> []"
      "\<forall>a. up_rblock u = Some a \<longrightarrow> bs' a = bs a"
proof -
  obtain u1 where u1: "submit_if_full c u bs = Some u1" "up_inv c (up_put p bs u1 m)" "up_wrote c bs u [] bs u1"
    and room: "\<forall>w b. up_wblock u1 = Some w \<longrightarrow> bs w = Some b \<longrightarrow> pb_len b < block_max c"
    using submit_if_full_ok [OF inv] by blast
  have r1: "up_rblock u1 = up_rblock u" using u1(3) unfolding up_wrote_def by (cases u; cases u1) simp
  consider (fail) "ensure_wblock c mal u1 bs = (None, bs)" "up_wblock u1 = None"
    | (ok) a bs1 b where "ensure_wblock c mal u1 bs = (Some a, bs1)" "bs1 a = Some b" "pb_ok c b"
        "pb_len b < block_max c" "up_inv c (up_put p bs1 (u1\<lparr>up_wblock := Some a\<rparr>) m)"
        "up_wrote c bs u1 [] bs1 (u1\<lparr>up_wblock := Some a\<rparr>)" "own_frame up_owned p bs (ups m) bs1 (ups m)"
    using ensure_wblock_ok [OF u1(2) mal max room] by (elim disjE exE conjE) simp_all
  then show thesis
  proof cases
    case fail
    then show thesis using u1 by (intro that(1) [of u1]) (simp_all add: write_piece_def)
  next
    case ok
    define k where "k = min len (block_max c - pb_len b)"
    define u2 where "u2 = u1\<lparr>up_wblock := Some a\<rparr>"
    have k: "unat k = min (unat len) (unat (block_max c) - unat (pb_len b))"
      using ok(4) by (simp add: k_def unat_min_word unat_diff_word)
    then have kpos: "0 < unat k" "unat k \<le> unat len" "unat (pb_len b) + unat k \<le> unat (block_max c)"
      using len ok(4) word_neq_0_unat [OF len(1)] by (simp_all add: word_less_nat_alt)
    have chunk: "memcpy_from payload 0 (unat k) = Some (take (unat k) payload)"
      using kpos len by simp
    have clen: "unat k = length (take (unat k) payload)" using kpos len by simp
    obtain d where d: "memcpy_to (pb_data b) (unat (pb_len b)) (map Some (take (unat k) payload)) = Some d"
      and post: "up_inv c (up_put p (bs1(a \<mapsto> b\<lparr>pb_len := pb_len b + k, pb_data := d\<rparr>)) u2 m)"
        "up_wrote c bs1 u2 (map Some (take (unat k) payload)) (bs1(a \<mapsto> b\<lparr>pb_len := pb_len b + k, pb_data := d\<rparr>)) u2"
        "own_frame up_owned p bs1 (ups m) (bs1(a \<mapsto> b\<lparr>pb_len := pb_len b + k, pb_data := d\<rparr>)) (ups m)"
        "up_open_chunk (bs1(a \<mapsto> b\<lparr>pb_len := pb_len b + k, pb_data := d\<rparr>)) u2
           = up_open_chunk bs1 u2 @ map Some (take (unat k) payload)"
      using fill_wblock_ok [OF ok(5) [folded u2_def] _ ok(2) clen] kpos clen by (auto simp: u2_def Let_def)
    let ?bs = "bs1(a \<mapsto> b\<lparr>pb_len := pb_len b + k, pb_data := d\<rparr>)"
    show thesis
    proof (rule that(2) [of "unat k" u2 ?bs])
      show "write_piece c mal payload len u bs = Some (Some (drop (unat k) payload, len - of_nat (unat k)), u2, ?bs)"
        using u1(1) ok(1,2) chunk d by (simp add: write_piece_def k_def [symmetric] u2_def del: memcpy_from_ok)
      show "up_wrote c bs u (map Some (take (unat k) payload)) ?bs u2"
        using up_wrote_trans [OF up_wrote_trans [OF u1(3) ok(6)] post(2) [unfolded u2_def]] by (simp add: u2_def)
      show "up_open_chunk ?bs u2 \<noteq> []" using post(4) kpos clen by auto
      show "\<forall>x. up_rblock u = Some x \<longrightarrow> ?bs x = bs x"
      proof (intro allI impI)
        fix x assume x: "up_rblock u = Some x"
        have "up_good c bs u1" using up_invD [OF u1(2), of p] by simp
        then have live: "bs x \<noteq> None" using up_good_block [of c bs u1 x] x r1 by (auto simp: up_owned_def)
        have "up_good c bs1 u2" using up_invD [OF ok(5), of p] by (simp add: u2_def)
        then have "x \<noteq> a" using x r1 by (auto simp: up_good_def up_owned_def u2_def)
        moreover have "mal bs \<noteq> Some x" using mal [unfolded malloc_ok_def, rule_format, of bs x] live by auto
        then have "bs1 x = bs x"
          using ok(1) by (auto simp: ensure_wblock_def uplink_block_alloc_def split: option.splits)
        ultimately show "?bs x = bs x" by simp
      qed
    qed (use kpos post(1) own_frame_trans [OF ok(7) post(3)] in simp_all)
  qed
qed

text \<open>The loop: it returns, whatever \<open>malloc\<close> does, and adds a prefix of the payload;
  all of it if it returns 0, and less if it runs out of memory.\<close>

definition up_write_post ::
  "config \<Rightarrow> addr \<Rightarrow> up_mem \<Rightarrow> pouch_block store \<Rightarrow> uplink \<Rightarrow> byte list \<Rightarrow> nat \<Rightarrow>
   int \<Rightarrow> uplink \<Rightarrow> pouch_block store \<Rightarrow> bool" where
  "up_write_post c p m bs u payload len ret u' bs' \<longleftrightarrow>
     up_inv c (up_put p bs' u' m) \<and> own_frame up_owned p bs (ups m) bs' (ups m) \<and>
     (\<exists>k \<le> len. up_wrote c bs u (map Some (take k payload)) bs' u' \<and>
        (if ret = 0 then k = len \<and> (0 < len \<longrightarrow> up_open_chunk bs' u' \<noteq> []) \<and> (len = 0 \<longrightarrow> u' = u \<and> bs' = bs)
         else ret = - ENOMEM \<and> k < len \<and> up_wblock u' = None))"

lemma up_write_iter:
  assumes inv: "up_inv c (up_put p bs u m)" and mal: "malloc_ok mal" and max: "block_max c \<noteq> 0"
    and len: "len \<noteq> 0" "unat len \<le> length payload"
  shows "(\<exists>u1. up_write_loop c mal payload len u bs = Some (- ENOMEM, u1, bs) \<and>
            up_inv c (up_put p bs u1 m) \<and> up_wrote c bs u [] bs u1 \<and> up_wblock u1 = None) \<or>
    (\<exists>k u1 bs1. 0 < k \<and> k \<le> unat len \<and>
       up_write_loop c mal payload len u bs = up_write_loop c mal (drop k payload) (len - of_nat k) u1 bs1 \<and>
       up_inv c (up_put p bs1 u1 m) \<and> up_wrote c bs u (map Some (take k payload)) bs1 u1 \<and>
       own_frame up_owned p bs (ups m) bs1 (ups m) \<and> up_open_chunk bs1 u1 \<noteq> [])"
proof -
  from inv mal max len show ?thesis
  proof (cases rule: write_piece_ok)
    case (fail u1)
    then show ?thesis using len(1)
      by (intro disjI1 exI [of _ u1]) (simp add: up_write_loop_pieces [of c mal payload len u bs])
  next
    case (step k u1 bs1)
    then show ?thesis using len(1)
      by (intro disjI2 exI [of _ k] exI [of _ u1] exI [of _ bs1])
         (simp add: up_write_loop_pieces [of c mal payload len u bs])
  qed
qed

lemma up_write_loop_correct:
  assumes "up_inv c (up_put p bs u m)" and mal: "malloc_ok mal" and max: "block_max c \<noteq> 0"
    and "unat len \<le> length payload"
  shows "\<exists>ret u' bs'. up_write_loop c mal payload len u bs = Some (ret, u', bs') \<and>
     up_write_post c p m bs u payload (unat len) ret u' bs'"
  using assms(1,4)
proof (induction "unat len" arbitrary: len payload u bs rule: less_induct)
  case less
  show ?case
  proof (cases "len = 0")
    case True
    then show ?thesis using less.prems
      by (intro exI [of _ 0] exI [of _ u] exI [of _ bs])
         (simp add: up_write_loop.simps up_write_post_def up_wrote_refl)
  next
    case len: False
    consider (fail) u1 where "up_write_loop c mal payload len u bs = Some (- ENOMEM, u1, bs)"
        "up_inv c (up_put p bs u1 m)" "up_wrote c bs u [] bs u1" "up_wblock u1 = None"
      | (step) k u1 bs1 where "0 < k" "k \<le> unat len"
        "up_write_loop c mal payload len u bs = up_write_loop c mal (drop k payload) (len - of_nat k) u1 bs1"
        "up_inv c (up_put p bs1 u1 m)" "up_wrote c bs u (map Some (take k payload)) bs1 u1"
        "own_frame up_owned p bs (ups m) bs1 (ups m)" "up_open_chunk bs1 u1 \<noteq> []"
      using up_write_iter [OF less.prems(1) mal max len less.prems(2)] by blast
    then show ?thesis
    proof cases
      case fail
      then show ?thesis using word_neq_0_unat [OF len]
        by (intro exI [of _ "- ENOMEM"] exI [of _ u1] exI [of _ bs])
           (auto simp: up_write_post_def errno_defs intro!: exI [of _ 0])
    next
      case step
      have rem: "unat (len - of_nat k) = unat len - k"
        using step(2) unat_size_bound [of len]
        by (subst unat_diff_word) (simp_all add: word_le_nat_alt unat_of_nat_size)
      obtain ret u' bs' where run: "up_write_loop c mal (drop k payload) (len - of_nat k) u1 bs1 = Some (ret, u', bs')"
        and post: "up_write_post c p m bs1 u1 (drop k payload) (unat len - k) ret u' bs'"
        using less.hyps [of "len - of_nat k" bs1 u1 "drop k payload"] step(1,2,4) less.prems(2) rem
        by (auto simp: diff_le_mono)
      obtain j where j: "j \<le> unat len - k" "up_wrote c bs1 u1 (map Some (take j (drop k payload))) bs' u'"
        and r: "if ret = 0 then j = unat len - k \<and> (0 < unat len - k \<longrightarrow> up_open_chunk bs' u' \<noteq> []) \<and>
              (unat len - k = 0 \<longrightarrow> u' = u1 \<and> bs' = bs1)
           else ret = - ENOMEM \<and> j < unat len - k \<and> up_wblock u' = None"
        using post by (auto simp: up_write_post_def)
      have "take k payload @ take j (drop k payload) = take (k + j) payload" by (simp add: take_add)
      then have "up_wrote c bs u (map Some (take (k + j) payload)) bs' u'"
        using up_wrote_trans [OF step(5) j(2)] by (simp flip: map_append)
      moreover have "up_open_chunk bs' u' \<noteq> []" if "ret = 0"
        using r that step(7) by (cases "unat len - k = 0") auto
      moreover have "k + j \<le> unat len" "if ret = 0 then k + j = unat len else ret = - ENOMEM \<and> k + j < unat len \<and> up_wblock u' = None"
        using r j(1) step(2) by (auto split: if_splits)
      moreover have "up_inv c (up_put p bs' u' m)" "own_frame up_owned p bs (ups m) bs' (ups m)"
        using post own_frame_trans [OF step(6)] by (auto simp: up_write_post_def)
      ultimately have "up_write_post c p m bs u payload (unat len) ret u' bs'"
        unfolding up_write_post_def using word_neq_0_unat [OF len]
        by (intro conjI exI [of _ "k + j"]) (simp_all split: if_splits)
      with run step(3) show ?thesis by auto
    qed
  qed
qed

end
