(* ===== verification/Uplink_Session.thy ===== *)
theory Uplink_Session
  imports Uplink "HOL-Library.Multiset"
begin

text \<open>
  Uplinks as a state machine. First each operation is reduced to what it does to one uplink
  of a well-formed memory; then \<open>uplink_session\<close> follows one uplink among others with ghost
  variables: the bytes the writer got in, the blocks handed to the cloud client with their
  index and last-block flag, whether a write ran out of memory, and the result \<open>end_cb\<close>
  reported. Operations are atomic here; \<open>Uplink_Threads\<close> interleaves their pieces.
\<close>

section \<open>Operations on a well-formed memory\<close>

definition up_frame :: "addr \<Rightarrow> up_mem \<Rightarrow> up_mem \<Rightarrow> bool" where
  "up_frame p m m' \<longleftrightarrow> own_frame up_owned p (blocks m) (ups m) (blocks m') (ups m')"

lemma up_frame_refl [simp]: "up_frame p m m"
  by (simp add: up_frame_def)

lemma up_frame_trans: "up_frame p m m1 \<Longrightarrow> up_frame p m1 m2 \<Longrightarrow> up_frame p m m2"
  unfolding up_frame_def by (rule own_frame_trans)

lemma up_put_same [simp]: "ups m p = Some u \<Longrightarrow> up_put p (blocks m) u m = m"
  by (simp add: up_put_def fun_upd_idem)

text \<open>\<open>process_uplink\<close> in its six cases.\<close>

lemma process_uplink_cases:
  assumes inv: "up_inv c m" and u: "ups m p = Some u"
  obtains
    (sending) "up_sending u" "process_uplink c st p m = Some ([], m)"
  | (idle) "\<not> up_sending u" "up_queue u = []" "\<not> up_closed u" "process_uplink c st p m = Some ([], m)"
  | (finished) "\<not> up_sending u" "up_queue u = []" "up_closed u"
      "process_uplink c st p m = Some (end_events c POUCH_GATEWAY_UPLINK_SUCCESS u, up_removed p u m)"
  | (dropped) a q b where "\<not> up_sending u" "up_queue u = a # q" "blocks m a = Some b" "pb_ok c b"
      "\<not> cloud c \<or> pb_cells b = []"
      "process_uplink c st p m = Some ([], up_put p (blocks m |` (- {a})) (u\<lparr>up_queue := q\<rparr>) m)"
  | (sent) a q b where "\<not> up_sending u" "up_queue u = a # q" "blocks m a = Some b" "pb_ok c b"
      "cloud c" "pb_cells b \<noteq> []" "st = GOLIOTH_OK"
      "process_uplink c st p m =
        Some ([UplinkBlock (up_session u) (up_block_idx u) (pb_cells b) (q = [] \<and> up_closed u)],
              up_put p (blocks m) (up_sent u a q) m)"
  | (failed) a q b where "\<not> up_sending u" "up_queue u = a # q" "blocks m a = Some b" "pb_ok c b"
      "cloud c" "pb_cells b \<noteq> []" "st \<noteq> GOLIOTH_OK"
      "process_uplink c st p m =
        Some (UplinkBlock (up_session u) (up_block_idx u) (pb_cells b) (q = [] \<and> up_closed u)
                # end_events c POUCH_GATEWAY_UPLINK_ERROR_LOCAL u, up_removed p u m)"
proof (cases "up_sending u")
  case True
  then show ?thesis using process_uplink_sending [OF u] that(1) by blast
next
  case s: False
  show ?thesis
  proof (cases "up_queue u")
    case Nil
    then show ?thesis using process_uplink_idle [OF inv u s Nil] that(2,3) s by (auto split: if_splits)
  next
    case (Cons a q)
    obtain b where b: "blocks m a = Some b" "pb_ok c b"
      using up_good_block [OF up_invD [OF inv u], of a] Cons by (auto simp: up_owned_def)
    have len: "pb_len b = 0 \<longleftrightarrow> pb_cells b = []"
      using length_pb_cells [OF b(2)] by (auto simp: unat_eq_zero)
    show ?thesis
    proof (cases "\<not> cloud c \<or> pb_len b = 0")
      case True
      then show ?thesis
        using process_uplink_drop [OF inv u s Cons b(1) True, of st] that(4) [OF s Cons b] len
        by (auto simp: up_put_def)
    next
      case False
      then show ?thesis
        using process_uplink_send [OF inv u s Cons b(1), of st] that(5,6) [OF s Cons b] len
        by (auto simp: up_put_def Let_def split: if_splits)
    qed
  qed
qed

lemma up_good_upd:
  assumes "up_good c bs u" and "mset (up_owned u') = mset (up_owned u)"
    and "up_sending u' \<longleftrightarrow> up_rblock u' \<noteq> None"
  shows "up_good c bs u'" and "set (up_owned u') = set (up_owned u)"
proof -
  show s: "set (up_owned u') = set (up_owned u)" by (rule mset_eq_setD [OF assms(2)])
  have "distinct (up_owned u')" using assms(1,2) mset_eq_imp_distinct_iff by (auto simp: up_good_def)
  then show "up_good c bs u'" using assms(1,3) s by (simp add: up_good_def list_all_iff)
qed

text \<open>A change that only moves blocks around inside one uplink.\<close>

lemma up_inv_move:
  assumes inv: "up_inv c m" and u: "ups m p = Some u" and own: "mset (up_owned u') = mset (up_owned u)"
    and r: "up_sending u' \<longleftrightarrow> up_rblock u' \<noteq> None"
  shows "up_inv c (up_put p (blocks m) u' m)" and "up_frame p m (up_put p (blocks m) u' m)"
  using upo.same_keeps [OF inv [unfolded up_inv_def] u] up_good_upd [OF up_invD [OF inv u] own r]
  by (simp_all add: up_inv_def up_frame_def own_frame_upd)

lemma up_inv_drop:
  assumes inv: "up_inv c m" and u: "ups m p = Some u" and own: "mset (up_owned u) = mset (a # up_owned u')"
    and r: "up_sending u' \<longleftrightarrow> up_rblock u' \<noteq> None"
  shows "up_inv c (up_put p (blocks m |` (- {a})) u' m)" and "up_frame p m (up_put p (blocks m |` (- {a})) u' m)"
proof -
  have good: "up_good c (blocks m) u" using up_invD [OF inv u] .
  have s: "set (up_owned u) = insert a (set (up_owned u'))" using mset_eq_setD [OF own] by simp
  have d: "a \<notin> set (up_owned u')" "distinct (up_owned u')"
    using good mset_eq_imp_distinct_iff [OF own] by (auto simp: up_good_def)
  have "up_good c (blocks m |` (- {a})) u'"
    using good s d r by (auto simp: up_good_def list_all_iff restrict_map_def)
  with upo.drop_keeps [OF inv [unfolded up_inv_def] u, of "{a}" u'] s d
  show "up_inv c (up_put p (blocks m |` (- {a})) u' m)" and "up_frame p m (up_put p (blocks m |` (- {a})) u' m)"
    by (simp_all add: up_inv_def up_frame_def)
qed

lemma up_removed_keeps:
  assumes "up_inv c m" and "ups m p = Some u"
  shows "up_inv c (up_removed p u m)" and "up_frame p m (up_removed p u m)"
  using up_removed_inv [OF assms] upo.remove_keeps(2) [OF assms(1) [unfolded up_inv_def] assms(2)]
  by (simp_all add: up_removed_def up_frame_def)

lemma process_uplink_inv:
  assumes inv: "up_inv c m" and u: "ups m p = Some u"
  shows "\<exists>ev m'. process_uplink c st p m = Some (ev, m') \<and> up_inv c m' \<and> up_frame p m m'"
  using inv u
proof (cases rule: process_uplink_cases [where st = st])
  case (dropped a q b)
  have r: "up_rblock u = None" using up_good_rblock [OF up_invD [OF inv u] dropped(1)] .
  then have "mset (up_owned u) = mset (a # up_owned (u\<lparr>up_queue := q\<rparr>))"
    using dropped by (simp add: up_owned_def)
  from up_inv_drop [OF inv u this] dropped r show ?thesis by simp
next
  case (sent a q b)
  have r: "up_rblock u = None" using up_good_rblock [OF up_invD [OF inv u] sent(1)] .
  then have "up_owned (up_sent u a q) = up_owned u" using sent by (intro up_owned_sent) simp_all
  with up_inv_move [OF inv u, of "up_sent u a q"] sent show ?thesis by simp
qed (use inv up_removed_keeps [OF inv u] in auto)

text \<open>The upload callback: it does nothing unless a block is being sent; otherwise it
  frees that block and either ends the uplink or processes the next block.\<close>

definition up_acked :: "uplink \<Rightarrow> uplink" where
  "up_acked u = u\<lparr>up_sending := False, up_rblock := None\<rparr>"

lemma up_acked_simps [simp]:
  "up_queue (up_acked u) = up_queue u" "up_wblock (up_acked u) = up_wblock u"
  "up_closed (up_acked u) = up_closed u" "up_block_idx (up_acked u) = up_block_idx u"
  "up_rblock (up_acked u) = None" "\<not> up_sending (up_acked u)" "up_cb_arg (up_acked u) = up_cb_arg u"
  "up_session (up_acked u) = up_session u"
  by (simp_all add: up_acked_def)

lemma up_removed_acked:
  assumes "up_rblock u = Some r"
  shows "up_removed p (up_acked u) (up_put p (blocks m |` (- {r})) (up_acked u) m) = up_removed p u m"
proof -
  have "set (up_owned u) = {r} \<union> set (up_owned (up_acked u))" using assms by (auto simp: up_owned_def)
  then show ?thesis by (simp add: up_removed_def up_put_def flip: Compl_Un)
qed

lemma block_upload_callback_idle:
  assumes "ups m p = Some u" and "\<not> up_sending u"
  shows "block_upload_callback c status st p m = Some ([], m)"
proof -
  have "u\<lparr>up_sending := False\<rparr> = u" using assms(2) by (cases u) simp
  then show ?thesis using assms by (simp add: block_upload_callback_def upload_cb_clear_def fun_upd_idem)
qed

lemma block_upload_callback_eq:
  assumes inv: "up_inv c m" and u: "ups m p = Some u" "up_rblock u = Some r"
  defines "m1 \<equiv> up_put p (blocks m |` (- {r})) (up_acked u) m"
  shows "block_upload_callback c status st p m =
      (if status = GOLIOTH_OK then process_uplink c st p m1
       else Some (end_events c POUCH_GATEWAY_UPLINK_ERROR_CLOUD u, up_removed p u m))"
    and "up_inv c m1" and "up_frame p m m1" and "up_sending u"
proof -
  have good: "up_good c (blocks m) u" using up_invD [OF inv u(1)] .
  show s: "up_sending u" using good u by (simp add: up_good_def)
  have own: "mset (up_owned u) = mset (r # up_owned (up_acked u))" using u by (simp add: up_owned_def)
  show inv1: "up_inv c m1" and "up_frame p m m1"
    unfolding m1_def by (rule up_inv_drop [OF inv u(1) own], simp)+
  have "r \<in> dom (blocks m)" using up_inv_live [OF inv u(1)] u by (auto simp: up_owned_def)
  then have free: "heap_free (blocks m) (Some r) = Some (blocks m |` (- {r}))"
    by (auto simp: heap_free_def upd_None_restrict)
  have m1: "m1 = m\<lparr>blocks := blocks m |` (- {r}), ups := (ups m)(p \<mapsto> up_acked u)\<rparr>"
    by (simp add: m1_def up_put_def)
  have "up_removed p (up_acked u) m1 = up_removed p u m" unfolding m1_def by (rule up_removed_acked [OF u(2)])
  then have "end_uplink c res p m1 = Some (end_events c res u, up_removed p u m)" for res
    using up_invD [OF inv1, of p "up_acked u"] up_inv_live [OF inv1, of p "up_acked u"]
    by (subst end_uplink_eq [of _ _ "up_acked u"]) (simp_all add: m1 up_good_def end_events_def)
  then show "block_upload_callback c status st p m =
      (if status = GOLIOTH_OK then process_uplink c st p m1
       else Some (end_events c POUCH_GATEWAY_UPLINK_ERROR_CLOUD u, up_removed p u m))"
    using u s free by (simp add: block_upload_callback_def upload_cb_clear_def upload_cb_rest_def m1 up_acked_def)
qed

lemma block_upload_callback_inv:
  assumes inv: "up_inv c m" and u: "ups m p = Some u"
  shows "\<exists>ev m'. block_upload_callback c status st p m = Some (ev, m') \<and> up_inv c m' \<and> up_frame p m m'"
proof (cases "up_rblock u")
  case None
  then have "\<not> up_sending u" using up_invD [OF inv u] by (simp add: up_good_def)
  then show ?thesis using block_upload_callback_idle [OF u] inv by simp
next
  case (Some r)
  note E = block_upload_callback_eq [OF inv u Some]
  show ?thesis
    using process_uplink_inv [OF E(2), of p "up_acked u" st] E(1) up_removed_keeps [OF inv u] up_frame_trans [OF E(3)]
    by (cases "status = GOLIOTH_OK") auto
qed

text \<open>Closing puts the block being written at the end of the queue.\<close>

definition up_closing :: "uplink \<Rightarrow> uplink" where
  "up_closing u = (if up_closed u then u
     else u\<lparr>up_closed := True, up_queue := up_queue u @ ptr_list (up_wblock u), up_wblock := None\<rparr>)"

lemma uplink_close_eq:
  assumes inv: "up_inv c m" and u: "ups m p = Some u"
  shows "uplink_close c st p m = process_uplink c st p (up_put p (blocks m) (up_closing u) m)"
    and "up_inv c (up_put p (blocks m) (up_closing u) m)" and "up_frame p m (up_put p (blocks m) (up_closing u) m)"
proof -
  have "mset (up_owned (up_closing u)) = mset (up_owned u)"
    by (cases "up_wblock u") (simp_all add: up_closing_def up_owned_def)
  moreover have "up_sending (up_closing u) \<longleftrightarrow> up_rblock (up_closing u) \<noteq> None"
    using up_invD [OF inv u] by (simp add: up_closing_def up_good_def)
  ultimately show "up_inv c (up_put p (blocks m) (up_closing u) m)" "up_frame p m (up_put p (blocks m) (up_closing u) m)"
    using up_inv_move [OF inv u] by simp_all
  have "(if \<not> up_closed u \<and> up_wblock (u\<lparr>up_closed := True\<rparr>) \<noteq> None then submit_block (u\<lparr>up_closed := True\<rparr>)
      else Some (u\<lparr>up_closed := True\<rparr>)) = Some (up_closing u)"
    by (cases u; cases "up_wblock u") (auto simp: up_closing_def submit_block_def fifo_put_def)
  then show "uplink_close c st p m = process_uplink c st p (up_put p (blocks m) (up_closing u) m)"
    using u by (simp add: uplink_close_def up_put_def del: not_None_eq)
qed

lemma uplink_write_eq:
  assumes inv: "up_inv c m" and u: "ups m p = Some u" and mal: "malloc_ok mal" and max: "block_max c \<noteq> 0"
    and len: "unat len \<le> length payload"
  obtains ret u' bs' where "up_write_post c p m (blocks m) u payload (unat len) ret u' bs'"
    "uplink_write c mal st p payload len m =
      (if ret = 0 then map_option (\<lambda>(ev, m'). (0, ev, m')) (process_uplink c st p (up_put p bs' u' m))
       else Some (ret, [], up_put p bs' u' m))"
proof -
  obtain ret u' bs' where run: "up_write_loop c mal payload len u (blocks m) = Some (ret, u', bs')"
    and post: "up_write_post c p m (blocks m) u payload (unat len) ret u' bs'"
    using up_write_loop_correct [OF _ mal max len, of p "blocks m" u m] inv u by auto
  have "uplink_write c mal st p payload len m =
      (if ret = 0 then map_option (\<lambda>(ev, m'). (0, ev, m')) (process_uplink c st p (up_put p bs' u' m))
       else Some (ret, [], up_put p bs' u' m))"
    using u run by (cases "process_uplink c st p (up_put p bs' u' m)")
      (auto simp: uplink_write_def up_put_def)
  with post that show ?thesis by blast
qed

section \<open>One operation\<close>

inductive up_op :: "config \<Rightarrow> addr \<Rightarrow> up_mem \<Rightarrow> up_mem \<Rightarrow> bool" for c p where
  upop_open: "ups m p = None \<Longrightarrow> malloc_ok mal \<Longrightarrow>
     uplink_open c (Some p) mal session dl arg m = Some (r, ev, m') \<Longrightarrow> up_op c p m m'"
| upop_write: "ups m p \<noteq> None \<Longrightarrow> malloc_ok mal \<Longrightarrow> unat len \<le> length payload \<Longrightarrow>
     uplink_write c mal st p payload len m = Some (ret, ev, m') \<Longrightarrow> up_op c p m m'"
| upop_close: "uplink_close c st p m = Some (ev, m') \<Longrightarrow> up_op c p m m'"
| upop_ack: "block_upload_callback c status st p m = Some (ev, m') \<Longrightarrow> up_op c p m m'"

inductive_cases up_opE: "up_op c p m m'"

lemma uplink_open_cases:
  assumes fresh: "ups m p = None" and mal: "malloc_ok mal"
  obtains (failed) ev where "uplink_open c (Some p) mal session dl arg m = Some (None, ev, m)"
  | (opened) w b where "blocks m w = None" "pb_ok c b" "pb_cells b = []" "cloud c \<longrightarrow> session \<noteq> None"
      "uplink_open c (Some p) mal session dl arg m = Some (Some p, if cloud c then [UplinkStart dl] else [],
         up_put p ((blocks m)(w \<mapsto> b)) \<lparr>up_session = (if cloud c then session else None), up_block_idx = 0,
           up_closed = False, up_sending = False, up_wblock = Some w, up_rblock = None, up_queue = [],
           up_cb_arg = arg\<rparr> m)"
proof (cases "mal (blocks m)")
  case None
  then show ?thesis using that(1) by (auto simp: uplink_open_def uplink_block_alloc_def)
next
  case (Some w)
  define b where "b = \<lparr>pb_len = 0, pb_data = replicate (unat (block_max c)) (None :: cell)\<rparr>"
  have w: "blocks m w = None" using mal Some by (simp add: malloc_ok_def)
  have b: "pb_ok c b" "pb_cells b = []" by (simp_all add: b_def pb_ok_def pb_cells_def)
  show ?thesis
  proof (cases "cloud c \<and> session = None")
    case True
    have "(blocks m)(w := None) = blocks m" using w by auto
    then show ?thesis using that(1) True Some w
      by (auto simp: uplink_open_def uplink_block_alloc_def)
  next
    case False
    then show ?thesis using that(2) [OF w b] Some
      by (auto simp: uplink_open_def uplink_block_alloc_def b_def up_put_def)
  qed
qed

lemma up_op_inv:
  assumes inv: "up_inv c m" and max: "block_max c \<noteq> 0" and op: "up_op c p m m'"
  shows "up_inv c m' \<and> up_frame p m m'"
  using op
proof (cases rule: up_op.cases)
  case (upop_open mal session dl arg r ev)
  from upop_open(1,2) show ?thesis
  proof (cases rule: uplink_open_cases [where c = c and session = session and dl = dl and arg = arg])
    case (failed ev')
    then show ?thesis using inv upop_open by simp
  next
    case (opened w b)
    define u where "u = \<lparr>up_session = (if cloud c then session else None), up_block_idx = 0,
           up_closed = False, up_sending = False, up_wblock = Some w, up_rblock = None, up_queue = [],
           up_cb_arg = arg\<rparr>"
    have "up_good c ((blocks m)(w \<mapsto> b)) u" "up_owned u = [w]"
      using opened by (simp_all add: up_good_def up_owned_def u_def)
    with upo.new_with_keeps [OF inv [unfolded up_inv_def] upop_open(1) opened(1), of u b] opened upop_open
    show ?thesis by (auto simp: up_inv_def up_frame_def u_def)
  qed
next
  case (upop_write mal len payload st ret ev)
  then obtain u where u: "ups m p = Some u" by auto
  obtain ret' u' bs' where post: "up_write_post c p m (blocks m) u payload (unat len) ret' u' bs'" and
    eq: "uplink_write c mal st p payload len m =
      (if ret' = 0 then map_option (\<lambda>(ev, m'). (0, ev, m')) (process_uplink c st p (up_put p bs' u' m))
       else Some (ret', [], up_put p bs' u' m))"
    using uplink_write_eq [OF inv u upop_write(2) max upop_write(3)] by blast
  have inv': "up_inv c (up_put p bs' u' m)" "up_frame p m (up_put p bs' u' m)"
    using post own_frame_trans [OF _ own_frame_upd] by (auto simp: up_write_post_def up_frame_def)
  then show ?thesis
    using process_uplink_inv [OF inv'(1), of p u' st] eq upop_write up_frame_trans [OF inv'(2)]
    by (auto split: if_splits)
next
  case (upop_close st ev)
  then obtain u where u: "ups m p = Some u" by (cases "ups m p") (auto simp: uplink_close_def)
  note E = uplink_close_eq [OF inv u]
  show ?thesis using process_uplink_inv [OF E(2), of p "up_closing u" st] E(1) upop_close up_frame_trans [OF E(3)] by auto
next
  case (upop_ack status st ev)
  then obtain u where u: "ups m p = Some u"
    by (cases "ups m p") (auto simp: block_upload_callback_def upload_cb_clear_def)
  then show ?thesis using block_upload_callback_inv [OF inv u, of status st] upop_ack by auto
qed

section \<open>The chunks of a byte stream\<close>

text \<open>The specification of the packing: the stream cut into blocks of \<open>n\<close> bytes, the last
  one shorter.\<close>

function chunks :: "nat \<Rightarrow> 'a list \<Rightarrow> 'a list list" where
  "chunks n xs = (if n = 0 \<or> xs = [] then [] else take n xs # chunks n (drop n xs))"
  by pat_completeness auto
termination chunks by (relation "measure (\<lambda>(n, xs). length xs)") auto

declare chunks.simps [simp del]

lemma chunks_Nil [simp]: "chunks n [] = []"
  by (simp add: chunks.simps)

lemma chunks_concat:
  assumes "n \<noteq> 0" and "\<forall>x \<in> set (butlast P). length x = n" and "\<forall>x \<in> set P. x \<noteq> [] \<and> length x \<le> n"
  shows "chunks n (concat P) = P"
  using assms(2,3)
proof (induction P)
  case Nil
  then show ?case by simp
next
  case (Cons x P)
  show ?case
  proof (cases P)
    case Nil
    then show ?thesis using Cons.prems assms(1) by (simp add: chunks.simps [of n x])
  next
    case P: (Cons y Q)
    then have "length x = n" "chunks n (concat P) = P" using Cons by (auto split: if_splits)
    then show ?thesis using Cons.prems assms(1) by (simp add: chunks.simps [of n "x @ concat P"])
  qed
qed

lemma concat_chunks: "n \<noteq> 0 \<Longrightarrow> concat (chunks n xs) = xs"
  by (induction n xs rule: chunks.induct) (simp add: chunks.simps)

lemma chunks_append:
  assumes "n \<noteq> 0" and "\<forall>x \<in> set P. length x = n"
  shows "chunks n (concat P @ ys) = P @ chunks n ys"
  using assms(2)
proof (induction P)
  case Nil
  then show ?case by simp
next
  case (Cons x P)
  then have "x \<noteq> []" using assms(1) by auto
  then show ?case using Cons assms(1) by (simp add: chunks.simps [of n "x @ concat P @ ys"])
qed

section \<open>Sessions\<close>

fun sent_of :: "up_event list \<Rightarrow> (32 word \<times> cell list \<times> bool) list" where
  "sent_of [] = []"
| "sent_of (UplinkBlock s i x l # ev) = (i, x, l) # sent_of ev"
| "sent_of (_ # ev) = sent_of ev"

fun end_of :: "up_event list \<Rightarrow> uplink_result option" where
  "end_of [] = None"
| "end_of (UplinkEnd arg res # ev) = Some res"
| "end_of (_ # ev) = end_of ev"

lemma end_events_simps [simp]:
  "sent_of (end_events c res u) = []" "end_of (end_events c res u) = Some res"
  by (simp_all add: end_events_def)

text \<open>The life of the uplink at \<open>p\<close>: \<open>acc\<close> are the bytes the writes took, \<open>sent\<close> the
  blocks handed to the cloud client, \<open>oom\<close> says that a write failed for want of memory
  (having taken a part of its payload), \<open>res\<close> is what \<open>end_cb\<close> reported. Nothing is
  written after the close.\<close>

inductive uplink_session ::
  "config \<Rightarrow> addr \<Rightarrow> cell list \<Rightarrow> (32 word \<times> cell list \<times> bool) list \<Rightarrow> bool \<Rightarrow>
   uplink_result option \<Rightarrow> up_mem \<Rightarrow> bool" for c p where
  up_opened: "up_inv c m \<Longrightarrow> ups m p = None \<Longrightarrow> malloc_ok mal \<Longrightarrow>
     uplink_open c (Some p) mal session dl arg m = Some (Some p, ev, m') \<Longrightarrow>
     uplink_session c p [] [] False None m'"
| up_written: "uplink_session c p acc sent oom None m \<Longrightarrow> ups m p = Some u \<Longrightarrow> \<not> up_closed u \<Longrightarrow>
     malloc_ok mal \<Longrightarrow> unat len \<le> length payload \<Longrightarrow>
     uplink_write c mal st p payload len m = Some (0, ev, m') \<Longrightarrow>
     uplink_session c p (acc @ map Some (take (unat len) payload)) (sent @ sent_of ev) oom (end_of ev) m'"
| up_write_failed: "uplink_session c p acc sent oom None m \<Longrightarrow> ups m p = Some u \<Longrightarrow> \<not> up_closed u \<Longrightarrow>
     malloc_ok mal \<Longrightarrow> unat len \<le> length payload \<Longrightarrow>
     uplink_write c mal st p payload len m = Some (ret, ev, m') \<Longrightarrow> ret \<noteq> 0 \<Longrightarrow> ups m' p = Some u' \<Longrightarrow>
     k = length (up_held (blocks m') u') - length (up_held (blocks m) u) \<Longrightarrow>
     uplink_session c p (acc @ map Some (take k payload)) sent True None m'"
| up_close: "uplink_session c p acc sent oom None m \<Longrightarrow> uplink_close c st p m = Some (ev, m') \<Longrightarrow>
     uplink_session c p acc (sent @ sent_of ev) oom (end_of ev) m'"
| up_ack: "uplink_session c p acc sent oom None m \<Longrightarrow> block_upload_callback c status st p m = Some (ev, m') \<Longrightarrow>
     uplink_session c p acc (sent @ sent_of ev) oom (end_of ev) m'"
| up_other: "uplink_session c p acc sent oom res m \<Longrightarrow> up_op c q m m' \<Longrightarrow> q \<noteq> p \<Longrightarrow>
     uplink_session c p acc sent oom res m'"

text \<open>What holds of a live uplink: the packing and numbering of what was sent and what is
  queued (\<open>qd\<close>) or being written (\<open>w\<close>), and where the last-block flag is. The first
  part is for an open uplink, the second for a closed one.\<close>

definition idxs :: "(32 word \<times> cell list \<times> bool) list \<Rightarrow> 32 word list" where
  "idxs sent = map fst sent"

definition payloads :: "(32 word \<times> cell list \<times> bool) list \<Rightarrow> cell list list" where
  "payloads sent = map (\<lambda>(i, x, l). x) sent"

definition lasts :: "(32 word \<times> cell list \<times> bool) list \<Rightarrow> bool list" where
  "lasts sent = map (\<lambda>(i, x, l). l) sent"

lemma sent_simps [simp]:
  "idxs [] = []" "payloads [] = []" "lasts [] = []"
  "idxs (s @ t) = idxs s @ idxs t" "payloads (s @ t) = payloads s @ payloads t" "lasts (s @ t) = lasts s @ lasts t"
  "idxs [(i, x, l)] = [i]" "payloads [(i, x, l)] = [x]" "lasts [(i, x, l)] = [l]"
  "payloads s = [] \<longleftrightarrow> s = []" "lasts s = [] \<longleftrightarrow> s = []"
  by (simp_all add: idxs_def payloads_def lasts_def)

definition flow_open ::
  "nat \<Rightarrow> cell list list \<Rightarrow> bool list \<Rightarrow> cell list list \<Rightarrow> cell list option \<Rightarrow> bool \<Rightarrow> bool" where
  "flow_open n xs ls qd w oom \<longleftrightarrow>
     (\<forall>x \<in> set (xs @ qd). length x = n) \<and> True \<notin> set ls \<and>
     (case w of None \<Rightarrow> oom | Some x \<Rightarrow> length x \<le> n \<and> (x = [] \<longrightarrow> xs @ qd = []))"

definition flow_closed ::
  "nat \<Rightarrow> cell list list \<Rightarrow> bool list \<Rightarrow> cell list list \<Rightarrow> cell list option \<Rightarrow> bool \<Rightarrow> bool" where
  "flow_closed n xs ls qd w oom \<longleftrightarrow>
     w = None \<and> (\<forall>x \<in> set (butlast (xs @ qd)). length x = n) \<and> (\<forall>x \<in> set (xs @ qd). length x \<le> n) \<and>
     ([] \<in> set qd \<longrightarrow> xs = [] \<and> qd = [[]]) \<and>
     (if qd = [] then True \<notin> set (butlast ls) \<and> (\<not> oom \<and> ls \<noteq> [] \<longrightarrow> last ls)
      else True \<notin> set ls)"

definition up_flow ::
  "nat \<Rightarrow> cell list \<Rightarrow> (32 word \<times> cell list \<times> bool) list \<Rightarrow> cell list list \<Rightarrow> cell list option \<Rightarrow>
   32 word \<Rightarrow> bool \<Rightarrow> bool \<Rightarrow> bool" where
  "up_flow n acc sent qd w idx closed oom \<longleftrightarrow>
     acc = concat (payloads sent @ qd @ (case w of None \<Rightarrow> [] | Some x \<Rightarrow> [x])) \<and>
     idxs sent = map of_nat [0..<length sent] \<and> idx = of_nat (length sent) \<and> [] \<notin> set (payloads sent) \<and>
     (if closed then flow_closed else flow_open) n (payloads sent) (lasts sent) qd w oom"

definition up_ctx ::
  "config \<Rightarrow> pouch_block store \<Rightarrow> cell list \<Rightarrow> (32 word \<times> cell list \<times> bool) list \<Rightarrow> bool \<Rightarrow> uplink \<Rightarrow> bool" where
  "up_ctx c bs acc sent oom u \<longleftrightarrow>
     up_flow (unat (block_max c)) acc sent (up_queued bs u) (map_option (pb_chunk bs) (up_wblock u))
       (up_block_idx u) (up_closed u) oom"

text \<open>After \<open>process_uplink\<close> a closed uplink is sending, or nothing was ever written.\<close>

definition up_settled :: "cell list \<Rightarrow> uplink \<Rightarrow> bool" where
  "up_settled acc u \<longleftrightarrow> (up_closed u \<longrightarrow> up_sending u \<or> acc = [])"

text \<open>What holds of an uplink that has ended.\<close>

definition up_ended ::
  "config \<Rightarrow> cell list \<Rightarrow> (32 word \<times> cell list \<times> bool) list \<Rightarrow> bool \<Rightarrow> uplink_result \<Rightarrow> bool" where
  "up_ended c acc sent oom res \<longleftrightarrow>
     idxs sent = map of_nat [0..<length sent] \<and> True \<notin> set (butlast (lasts sent)) \<and>
     (\<exists>rest. chunks (unat (block_max c)) acc = payloads sent @ rest \<and>
        (res = POUCH_GATEWAY_UPLINK_SUCCESS \<longrightarrow> rest = [] \<and> (\<not> oom \<and> sent \<noteq> [] \<longrightarrow> last (lasts sent))))"

definition up_sess_inv ::
  "config \<Rightarrow> addr \<Rightarrow> cell list \<Rightarrow> (32 word \<times> cell list \<times> bool) list \<Rightarrow> bool \<Rightarrow>
   uplink_result option \<Rightarrow> up_mem \<Rightarrow> bool" where
  "up_sess_inv c p acc sent oom res m \<longleftrightarrow> up_inv c m \<and>
     (case res of
        None \<Rightarrow> \<exists>u. ups m p = Some u \<and> up_ctx c (blocks m) acc sent oom u \<and> up_settled acc u
      | Some r \<Rightarrow> up_ended c acc sent oom r)"

section \<open>The invariant of a session\<close>

lemma up_flow_prefix:
  assumes flow: "up_flow n acc sent qd w idx closed oom" and n: "n \<noteq> 0"
  shows "\<exists>rest. chunks n acc = payloads sent @ rest \<and> (qd = [] \<and> closed \<longrightarrow> rest = [])"
proof (cases closed)
  case False
  then have "chunks n acc = (payloads sent @ qd) @ chunks n (concat (case w of None \<Rightarrow> [] | Some x \<Rightarrow> [x]))"
    using flow chunks_append [OF n, of "payloads sent @ qd"] by (simp add: up_flow_def flow_open_def)
  then show ?thesis using False by simp
next
  case True
  then have C: "flow_closed n (payloads sent) (lasts sent) qd w oom" "[] \<notin> set (payloads sent)"
    and acc: "acc = concat (payloads sent @ qd)"
    using flow by (auto simp: up_flow_def flow_closed_def)
  show ?thesis
  proof (cases "[] \<in> set qd")
    case True
    then show ?thesis using C acc by (simp add: flow_closed_def)
  next
    case False
    then have "chunks n acc = payloads sent @ qd"
      unfolding acc using C by (intro chunks_concat [OF n]) (auto simp: flow_closed_def)
    then show ?thesis by simp
  qed
qed

lemma up_flow_lasts: "up_flow n acc sent qd w idx closed oom \<Longrightarrow> True \<notin> set (butlast (lasts sent))"
  by (auto simp: up_flow_def flow_closed_def flow_open_def split: if_splits dest: in_set_butlastD)

lemma up_ctx_ended:
  assumes ctx: "up_ctx c bs acc sent oom u" and max: "block_max c \<noteq> 0"
    and res: "res = POUCH_GATEWAY_UPLINK_SUCCESS \<longrightarrow> up_closed u \<and> up_queue u = []"
  shows "up_ended c acc sent oom res"
proof -
  note F = ctx [unfolded up_ctx_def]
  have "unat (block_max c) \<noteq> 0" using max by (simp add: unat_eq_zero)
  then obtain rest where "chunks (unat (block_max c)) acc = payloads sent @ rest"
    "up_queued bs u = [] \<and> up_closed u \<longrightarrow> rest = []"
    using up_flow_prefix [OF F] by blast
  moreover have "up_queued bs u = [] \<longleftrightarrow> up_queue u = []" by (simp add: up_queued_def)
  ultimately show ?thesis
    using F up_flow_lasts [OF F] res by (auto simp: up_ended_def up_flow_def flow_closed_def)
qed

lemma up_flow_send:
  assumes "up_flow n acc sent (x # qd) w idx closed oom" and "x \<noteq> []"
  shows "up_flow n acc (sent @ [(idx, x, qd = [] \<and> closed)]) qd w (idx + 1) closed oom"
  using assms by (cases w) (auto simp: up_flow_def flow_closed_def flow_open_def split: if_splits)

lemma up_flow_close:
  assumes "up_flow n acc sent qd w idx False oom" and "n \<noteq> 0"
  shows "up_flow n acc sent (qd @ (case w of None \<Rightarrow> [] | Some x \<Rightarrow> [x])) None idx True oom"
  using assms
  by (auto simp: up_flow_def flow_closed_def flow_open_def butlast_append split: option.splits if_splits
      dest: in_set_butlastD)

lemma up_flow_write:
  assumes "up_flow n acc sent qd w idx False oom" and n: "n \<noteq> 0" and new: "\<forall>x \<in> set new. length x = n"
    and held: "concat (qd @ new @ (case w' of None \<Rightarrow> [] | Some x \<Rightarrow> [x]))
        = concat (qd @ (case w of None \<Rightarrow> [] | Some x \<Rightarrow> [x])) @ ys"
    and w': "case w' of None \<Rightarrow> oom' | Some x \<Rightarrow> length x \<le> n \<and> x \<noteq> []"
  shows "up_flow n (acc @ ys) sent (qd @ new) w' idx False oom'"
  using assms by (auto simp: up_flow_def flow_open_def split: option.splits)

lemma up_flow_skip:
  assumes "up_flow n acc sent ([] # qd) w idx closed oom" and "n \<noteq> 0"
  shows "acc = [] \<and> up_flow n acc sent qd w idx closed oom"
  using assms by (auto simp: up_flow_def flow_closed_def flow_open_def split: if_splits)

text \<open>The same for the uplink itself.\<close>

lemma up_ctx_ack:
  assumes "up_ctx c bs acc sent oom u" and "r \<notin> set (up_queue u)" "up_wblock u \<noteq> Some r"
  shows "up_ctx c (bs |` (- {r})) acc sent oom (up_acked u)"
proof -
  have "up_queued (bs |` (- {r})) (up_acked u) = up_queued bs u"
    "map_option (pb_chunk (bs |` (- {r}))) (up_wblock u) = map_option (pb_chunk bs) (up_wblock u)"
    using assms(2,3) by (auto simp: up_queued_def pb_chunk_def restrict_map_def intro: option.map_cong0)
  with assms(1) show ?thesis by (simp add: up_ctx_def)
qed

lemma up_ctx_close:
  assumes "up_ctx c bs acc sent oom u" and "block_max c \<noteq> 0"
  shows "up_ctx c bs acc sent oom (up_closing u)"
proof (cases "up_closed u")
  case True
  then show ?thesis using assms by (simp add: up_closing_def)
next
  case False
  define w where "w = map_option (pb_chunk bs) (up_wblock u)"
  have queued: "up_queued bs (up_closing u) = up_queued bs u @ (case w of None \<Rightarrow> [] | Some x \<Rightarrow> [x])"
    using False by (cases "up_wblock u") (simp_all add: up_queued_def up_closing_def w_def)
  have "up_wblock (up_closing u) = None" "up_closed (up_closing u)" "up_block_idx (up_closing u) = up_block_idx u"
    using False by (simp_all add: up_closing_def)
  then show ?thesis
    using False assms up_flow_close [of "unat (block_max c)" acc sent "up_queued bs u" w "up_block_idx u" oom]
    unfolding up_ctx_def queued by (simp add: w_def [symmetric] unat_eq_zero)
qed

lemma up_sess_process:
  assumes inv: "up_inv c m" and u: "ups m p = Some u" and ctx: "up_ctx c (blocks m) acc sent oom u"
    and max: "block_max c \<noteq> 0" and cloud: "cloud c"
    and run: "process_uplink c st p m = Some (ev, m')"
  shows "up_sess_inv c p acc (sent @ sent_of ev) oom (end_of ev) m'"
proof -
  have n: "unat (block_max c) \<noteq> 0" using max by (simp add: unat_eq_zero)
  have inv': "up_inv c m'" using process_uplink_inv [OF inv u, of st] run by auto
  have good: "up_good c (blocks m) u" using up_invD [OF inv u] .
  have sentI: "up_ctx c (blocks m) acc (sent @ [(up_block_idx u, pb_cells b, q = [] \<and> up_closed u)]) oom (up_sent u a q)"
    if "up_queue u = a # q" "blocks m a = Some b" "pb_cells b \<noteq> []" for a q b
    using ctx up_flow_send [of "unat (block_max c)" acc sent "pb_cells b" "map (pb_chunk (blocks m)) q"] that
    by (simp add: up_ctx_def up_queued_def) (simp add: pb_chunk_def)
  from inv u show ?thesis
  proof (cases rule: process_uplink_cases [where st = st])
    case (dropped a q b)
    have "a \<notin> set q" "up_wblock u \<noteq> Some a" using good dropped by (auto simp: up_good_def up_owned_def)
    then have same: "up_queued (blocks m |` (- {a})) (u\<lparr>up_queue := q\<rparr>) = map (pb_chunk (blocks m)) q"
      "map_option (pb_chunk (blocks m |` (- {a}))) (up_wblock u) = map_option (pb_chunk (blocks m)) (up_wblock u)"
      by (auto simp: up_queued_def pb_chunk_def restrict_map_def intro: option.map_cong0)
    have "pb_chunk (blocks m) a = []" using dropped cloud by (simp add: pb_chunk_def)
    then have "acc = [] \<and> up_flow (unat (block_max c)) acc sent (map (pb_chunk (blocks m)) q)
        (map_option (pb_chunk (blocks m)) (up_wblock u)) (up_block_idx u) (up_closed u) oom"
      using ctx dropped by (intro up_flow_skip [OF _ n]) (simp add: up_ctx_def up_queued_def)
    moreover have "ev = []" "m' = up_put p (blocks m |` (- {a})) (u\<lparr>up_queue := q\<rparr>) m"
      using run dropped by simp_all
    ultimately show ?thesis using inv' same
      by (auto simp: up_sess_inv_def up_ctx_def up_settled_def)
  next
    case (finished)
    then show ?thesis using run inv' up_ctx_ended [OF ctx max] by (simp add: up_sess_inv_def)
  next
    case (sent a q b)
    then show ?thesis using run inv' sentI [of a q b] by (auto simp: up_sess_inv_def up_settled_def)
  next
    case (failed a q b)
    then show ?thesis using run inv' up_ctx_ended [OF sentI [of a q b] max] by (auto simp: up_sess_inv_def)
  qed (use run inv' ctx u in \<open>auto simp: up_sess_inv_def up_settled_def\<close>)
qed

lemma up_sess_opened:
  assumes inv: "up_inv c m" and fresh: "ups m p = None" "malloc_ok mal" and max: "block_max c \<noteq> 0"
    and run: "uplink_open c (Some p) mal session dl arg m = Some (Some p, ev, m')"
  shows "up_sess_inv c p [] [] False None m'"
proof -
  have "up_op c p m m'" using upop_open [OF fresh run] .
  then have "up_inv c m'" using up_op_inv [OF inv max] by blast
  moreover from fresh have "\<exists>u. ups m' p = Some u \<and> up_ctx c (blocks m') [] [] False u \<and> up_settled [] u"
  proof (cases rule: uplink_open_cases [where c = c and session = session and dl = dl and arg = arg])
    case (failed ev)
    then show ?thesis using run by simp
  next
    case (opened w b)
    then show ?thesis using run
      by (auto simp: up_ctx_def up_settled_def up_flow_def flow_open_def up_queued_def pb_chunk_def)
  qed
  ultimately show ?thesis by (simp add: up_sess_inv_def)
qed

lemma up_sess_write:
  assumes inv: "up_inv c m" and u: "ups m p = Some u" "\<not> up_closed u" and ctx: "up_ctx c (blocks m) acc sent oom u"
    and max: "block_max c \<noteq> 0"
    and post: "up_write_post c p m (blocks m) u payload len ret u' bs'"
  shows "up_ctx c bs' (acc @ map Some (take (length (up_held bs' u') - length (up_held (blocks m) u)) payload))
      sent (oom \<or> ret \<noteq> 0) u'" "\<not> up_closed u'"
    and "ret = 0 \<longrightarrow> length (up_held bs' u') - length (up_held (blocks m) u) = min len (length payload)"
proof -
  obtain k new where k: "k \<le> len" and held: "up_held bs' u' = up_held (blocks m) u @ map Some (take k payload)"
    and new: "up_queued bs' u' = up_queued (blocks m) u @ new" "\<forall>x \<in> set new. length x = unat (block_max c)"
    and u': "u' = u\<lparr>up_wblock := up_wblock u', up_queue := up_queue u'\<rparr>"
    and r: "if ret = 0 then k = len \<and> (0 < len \<longrightarrow> up_open_chunk bs' u' \<noteq> []) \<and> (len = 0 \<longrightarrow> u' = u \<and> bs' = blocks m)
         else ret = - ENOMEM \<and> k < len \<and> up_wblock u' = None"
    using post by (auto simp: up_write_post_def up_wrote_def)
  define w where "w = map_option (pb_chunk (blocks m)) (up_wblock u)"
  define w' where "w' = map_option (pb_chunk bs') (up_wblock u')"
  have fields: "up_closed u' = up_closed u" "up_block_idx u' = up_block_idx u"
    by (subst u', simp)+
  then show "\<not> up_closed u'" using u by simp
  have diff: "length (up_held bs' u') - length (up_held (blocks m) u) = min k (length payload)"
    by (simp add: held)
  then show "ret = 0 \<longrightarrow> length (up_held bs' u') - length (up_held (blocks m) u) = min len (length payload)"
    using r by auto
  have take: "take (length (up_held bs' u') - length (up_held (blocks m) u)) payload = take k payload"
    unfolding diff by (metis min.commute take_all_iff take_take nle_le)
  have n: "unat (block_max c) \<noteq> 0" using max by (simp add: unat_eq_zero)
  show "up_ctx c bs' (acc @ map Some (take (length (up_held bs' u') - length (up_held (blocks m) u)) payload))
      sent (oom \<or> ret \<noteq> 0) u'"
  proof (cases "len = 0 \<and> ret = 0")
    case True
    then show ?thesis using r ctx take by simp
  next
    case False
    have good: "up_good c bs' u'"
      using up_invD [of c "up_put p bs' u' m" p u'] post by (simp add: up_write_post_def)
    have openw: "up_open_chunk bs u = concat (case map_option (pb_chunk bs) (up_wblock u) of None \<Rightarrow> [] | Some x \<Rightarrow> [x])" for bs u
      by (cases "up_wblock u") (simp_all add: up_open_chunk_def)
    have "case w' of None \<Rightarrow> oom \<or> ret \<noteq> 0 | Some x \<Rightarrow> length x \<le> unat (block_max c) \<and> x \<noteq> []"
    proof (cases "up_wblock u'")
      case None
      then show ?thesis using r False by (auto simp: w'_def up_open_chunk_def split: if_splits)
    next
      case (Some a)
      then obtain b where b: "bs' a = Some b" "pb_ok c b"
        using up_good_block [OF good, of a] by (auto simp: up_owned_def)
      then have "length (pb_chunk bs' a) \<le> unat (block_max c)"
        using length_pb_cells [OF b(2)] by (simp add: pb_chunk_def pb_ok_def word_le_nat_alt)
      then show ?thesis using Some r False by (auto simp: w'_def up_open_chunk_def split: if_splits)
    qed
    then have "up_flow (unat (block_max c)) (acc @ map Some (take k payload)) sent (up_queued bs' u')
        w' (up_block_idx u') False (oom \<or> ret \<noteq> 0)"
      unfolding new(1) fields using ctx u(2) new n held
      by (intro up_flow_write [where w = w and oom = oom])
         (simp_all add: up_ctx_def w_def w'_def up_held_def openw)
    then show ?thesis using u(2) fields by (simp add: up_ctx_def w'_def take)
  qed
qed

lemma up_frame_ctx:
  assumes frame: "up_frame q m m'" and q: "q \<noteq> p" and u: "ups m p = Some u"
  shows "ups m' p = Some u" and "up_ctx c (blocks m') acc sent oom u = up_ctx c (blocks m) acc sent oom u"
proof -
  show "ups m' p = Some u" using own_frameD(1) [OF frame [unfolded up_frame_def], of p] q u by simp
  have "blocks m' a = blocks m a" if "a \<in> set (up_owned u)" for a
    using own_frameD(2) [OF frame [unfolded up_frame_def] _ u that] q by simp
  then have "up_queued (blocks m') u = up_queued (blocks m) u"
    "map_option (pb_chunk (blocks m')) (up_wblock u) = map_option (pb_chunk (blocks m)) (up_wblock u)"
    by (auto simp: up_queued_def pb_chunk_def up_owned_def intro!: option.map_cong0)
  then show "up_ctx c (blocks m') acc sent oom u = up_ctx c (blocks m) acc sent oom u"
    by (simp add: up_ctx_def)
qed

lemma up_sess_step:
  assumes inv: "up_sess_inv c p acc sent oom None m" and max: "block_max c \<noteq> 0" and cloud: "cloud c"
  shows "uplink_close c st p m = Some (ev, m') \<Longrightarrow> up_sess_inv c p acc (sent @ sent_of ev) oom (end_of ev) m'"
    and "block_upload_callback c status st p m = Some (ev, m') \<Longrightarrow>
      up_sess_inv c p acc (sent @ sent_of ev) oom (end_of ev) m'"
proof -
  obtain u where u: "ups m p = Some u" and ctx: "up_ctx c (blocks m) acc sent oom u" and set: "up_settled acc u"
    and inv': "up_inv c m"
    using inv by (auto simp: up_sess_inv_def)
  show "up_sess_inv c p acc (sent @ sent_of ev) oom (end_of ev) m'"
    if "uplink_close c st p m = Some (ev, m')"
    using up_sess_process [OF uplink_close_eq(2) [OF inv' u], of p "up_closing u" acc sent oom st ev m']
      up_ctx_close [OF ctx max] uplink_close_eq(1) [OF inv' u, of st] that max cloud by simp
  show "up_sess_inv c p acc (sent @ sent_of ev) oom (end_of ev) m'"
    if "block_upload_callback c status st p m = Some (ev, m')"
  proof (cases "up_rblock u")
    case None
    then have "\<not> up_sending u" using up_invD [OF inv' u] by (simp add: up_good_def)
    then show ?thesis using block_upload_callback_idle [OF u] that inv by auto
  next
    case (Some r)
    note E = block_upload_callback_eq [OF inv' u Some]
    have "r \<notin> set (up_queue u)" "up_wblock u \<noteq> Some r"
      using up_invD [OF inv' u] Some by (auto simp: up_good_def up_owned_def)
    then have ctx1: "up_ctx c (blocks m |` (- {r})) acc sent oom (up_acked u)" by (rule up_ctx_ack [OF ctx])
    show ?thesis
    proof (cases "status = GOLIOTH_OK")
      case True
      then show ?thesis using up_sess_process [OF E(2), of p "up_acked u" acc sent oom st ev m'] ctx1 E(1) that max cloud
        by simp
    next
      case False
      then have "ev = end_events c POUCH_GATEWAY_UPLINK_ERROR_CLOUD u" "m' = up_removed p u m"
        using E(1) [of status st] that by simp_all
      then show ?thesis using up_ctx_ended [OF ctx max] up_removed_keeps [OF inv' u] by (auto simp: up_sess_inv_def)
    qed
  qed
qed

lemma uplink_session_inv:
  assumes "uplink_session c p acc sent oom res m" and max: "block_max c \<noteq> 0" and cloud: "cloud c"
  shows "up_sess_inv c p acc sent oom res m"
  using assms(1)
proof (induction rule: uplink_session.induct)
  case (up_opened m mal session dl arg ev m')
  then show ?case using up_sess_opened [OF _ _ _ max] by blast
next
  case (up_written acc sent oom m u mal len payload st ev m')
  then have inv: "up_inv c m" and ctx: "up_ctx c (blocks m) acc sent oom u"
    by (auto simp: up_sess_inv_def)
  obtain ret u' bs' where post: "up_write_post c p m (blocks m) u payload (unat len) ret u' bs'" and
    eq: "uplink_write c mal st p payload len m =
      (if ret = 0 then map_option (\<lambda>(ev, m'). (0, ev, m')) (process_uplink c st p (up_put p bs' u' m))
       else Some (ret, [], up_put p bs' u' m))"
    using uplink_write_eq [OF inv up_written.hyps(2,4) max up_written.hyps(5)] by blast
  have ret: "ret = 0" and run: "process_uplink c st p (up_put p bs' u' m) = Some (ev, m')"
    using eq up_written.hyps(6) by (cases "process_uplink c st p (up_put p bs' u' m)"; auto split: if_splits)+
  note W = up_sess_write [OF inv up_written.hyps(2,3) ctx max post]
  have "up_ctx c bs' (acc @ map Some (take (unat len) payload)) sent oom u'"
    using W(1,3) ret up_written.hyps(5) by (simp add: min_absorb1)
  with up_sess_process [of c "up_put p bs' u' m" p u' _ sent oom st ev m'] post run max cloud show ?case
    by (simp add: up_write_post_def)
next
  case (up_write_failed acc sent oom m u mal len payload st ret ev m' u' k)
  then have inv: "up_inv c m" and ctx: "up_ctx c (blocks m) acc sent oom u"
    by (auto simp: up_sess_inv_def)
  obtain ret' u1 bs' where post: "up_write_post c p m (blocks m) u payload (unat len) ret' u1 bs'" and
    eq: "uplink_write c mal st p payload len m =
      (if ret' = 0 then map_option (\<lambda>(ev, m'). (0, ev, m')) (process_uplink c st p (up_put p bs' u1 m))
       else Some (ret', [], up_put p bs' u1 m))"
    using uplink_write_eq [OF inv up_write_failed.hyps(2,4) max up_write_failed.hyps(5)] by blast
  have ret: "ret' \<noteq> 0" and m': "m' = up_put p bs' u1 m" "u' = u1"
    using eq up_write_failed.hyps(6-8) by (cases "process_uplink c st p (up_put p bs' u1 m)"; auto split: if_splits)+
  note W = up_sess_write [OF inv up_write_failed.hyps(2,3) ctx max post]
  have "up_ctx c bs' (acc @ map Some (take k payload)) sent True u1"
    using W(1) ret up_write_failed.hyps(9) m' by simp
  then show ?case using post m' W(2) by (simp add: up_sess_inv_def up_write_post_def up_settled_def)
next
  case (up_close acc sent oom m st ev m')
  show ?case using up_sess_step(1) [OF up_close.IH max cloud up_close.hyps(2)] .
next
  case (up_ack acc sent oom m status st ev m')
  show ?case using up_sess_step(2) [OF up_ack.IH max cloud up_ack.hyps(2)] .
next
  case (up_other acc sent oom res m q m')
  have inv: "up_inv c m" using up_other.IH by (simp add: up_sess_inv_def)
  have op: "up_inv c m'" "up_frame q m m'" using up_op_inv [OF inv max up_other.hyps(2)] by auto
  show ?case
    using up_other.IH op up_frame_ctx [OF op(2) up_other.hyps(3)]
    by (fastforce simp: up_sess_inv_def split: option.splits)
qed

section \<open>Acknowledging everything\<close>

text \<open>The cloud accepts every block: \<open>n\<close> upload callbacks that report success.\<close>

fun upload_acks :: "config \<Rightarrow> nat \<Rightarrow> addr \<Rightarrow> up_mem \<Rightarrow> (up_event list \<times> up_mem) option" where
  "upload_acks c 0 p m = Some ([], m)"
| "upload_acks c (Suc n) p m = do {
     (ev, m1) \<leftarrow> block_upload_callback c GOLIOTH_OK GOLIOTH_OK p m;
     (evs, m2) \<leftarrow> upload_acks c n p m1;
     Some (ev @ evs, m2) }"

lemma sent_of_append [simp]: "sent_of (e @ e') = sent_of e @ sent_of e'"
  by (induction e rule: sent_of.induct) auto

lemma end_of_append [simp]: "end_of (e @ e') = (case end_of e of None \<Rightarrow> end_of e' | Some r \<Rightarrow> Some r)"
  by (induction e rule: end_of.induct) auto

lemma upload_acks_finish:
  assumes "uplink_session c p acc sent oom None m" and max: "block_max c \<noteq> 0" and cloud: "cloud c"
    and "ups m p = Some u" and "up_closed u" and "acc \<noteq> []"
  shows "\<exists>ev m'. upload_acks c (Suc (length (up_queue u))) p m = Some (ev, m') \<and>
     uplink_session c p acc (sent @ sent_of ev) oom (end_of ev) m' \<and>
     end_of ev = Some POUCH_GATEWAY_UPLINK_SUCCESS \<and> ups m' p = None"
  using assms(1,4-6)
proof (induction "length (up_queue u)" arbitrary: u m sent)
  case 0
  have S: "up_sess_inv c p acc sent oom None m" by (rule uplink_session_inv [OF 0(2) max cloud])
  then have inv: "up_inv c m" and send: "up_sending u" using 0 by (auto simp: up_sess_inv_def up_settled_def)
  obtain r where r: "up_rblock u = Some r" using up_invD [OF inv 0(3)] send by (auto simp: up_good_def)
  note E = block_upload_callback_eq [OF inv 0(3) r]
  define m1 where "m1 = up_put p (blocks m |` (- {r})) (up_acked u) m"
  have "block_upload_callback c GOLIOTH_OK GOLIOTH_OK p m
      = Some (end_events c POUCH_GATEWAY_UPLINK_SUCCESS (up_acked u), up_removed p (up_acked u) m1)"
    using E(1) process_uplink_idle [OF E(2), of p "up_acked u" GOLIOTH_OK] 0 by (simp add: m1_def)
  then show ?case using up_ack [OF 0(2), of GOLIOTH_OK GOLIOTH_OK] 0(1)
    by (simp flip: 0(1)) (auto simp: up_removed_def)
next
  case (Suc n)
  have S: "up_sess_inv c p acc sent oom None m" by (rule uplink_session_inv [OF Suc(3) max cloud])
  then have inv: "up_inv c m" and send: "up_sending u" and ctx: "up_ctx c (blocks m) acc sent oom u"
    using Suc by (auto simp: up_sess_inv_def up_settled_def)
  obtain r where r: "up_rblock u = Some r" using up_invD [OF inv Suc(4)] send by (auto simp: up_good_def)
  obtain a q where q: "up_queue u = a # q" using Suc(2) by (cases "up_queue u") auto
  note E = block_upload_callback_eq [OF inv Suc(4) r]
  define m1 where "m1 = up_put p (blocks m |` (- {r})) (up_acked u) m"
  obtain b where b: "blocks m1 a = Some b" "pb_ok c b"
    using up_good_block [OF up_invD [OF E(2), of p "up_acked u"], of a] q by (auto simp: up_owned_def m1_def)
  have "pb_cells b \<noteq> []"
  proof
    assume "pb_cells b = []"
    moreover have "blocks m a = Some b" using b by (auto simp: m1_def restrict_map_def split: if_splits)
    ultimately have "up_queued (blocks m) u = [] # map (pb_chunk (blocks m)) q"
      using q by (simp add: up_queued_def pb_chunk_def)
    then show False using ctx up_flow_skip [of "unat (block_max c)" acc sent] max Suc.prems(4)
      by (auto simp: up_ctx_def unat_eq_zero)
  qed
  then have len: "pb_len b \<noteq> 0" using length_pb_cells [OF b(2)] by auto
  define m2 where "m2 = m1\<lparr>ups := (ups m1)(p \<mapsto> up_sent (up_acked u) a q)\<rparr>"
  define ev where "ev = [UplinkBlock (up_session u) (up_block_idx u) (pb_cells b) (q = [] \<and> up_closed u)]"
  have run: "block_upload_callback c GOLIOTH_OK GOLIOTH_OK p m = Some (ev, m2)"
    using E(1) process_uplink_send [OF E(2), of p "up_acked u" a q b GOLIOTH_OK] q b len cloud
    by (simp add: m1_def m2_def ev_def)
  have "uplink_session c p acc (sent @ sent_of ev) oom None m2"
    using up_ack [OF Suc(3) run] by (simp add: ev_def)
  moreover have "ups m2 p = Some (up_sent (up_acked u) a q)" by (simp add: m2_def)
  ultimately obtain ev' m' where acks: "upload_acks c (Suc (length q)) p m2 = Some (ev', m')"
    and res: "uplink_session c p acc ((sent @ sent_of ev) @ sent_of ev') oom (end_of ev') m'"
     "end_of ev' = Some POUCH_GATEWAY_UPLINK_SUCCESS" "ups m' p = None"
    using Suc.hyps(1) [of "up_sent (up_acked u) a q" "sent @ sent_of ev" m2] Suc.prems(3,4) Suc.hyps(2) q by auto
  have "upload_acks c (Suc (Suc (length q))) p m = Some (ev @ ev', m')"
    unfolding upload_acks.simps(2) [of c "Suc (length q)"] run using acks by (simp del: upload_acks.simps)
  moreover have "end_of ev = None" by (simp add: ev_def)
  ultimately show ?case using res q by (intro exI [of _ "ev @ ev'"] exI [of _ m']) (simp del: upload_acks.simps)
qed

end
