(* ===== verification/Uplink_Properties.thy ===== *)
theory Uplink_Properties
  imports Uplink_Session
begin

text \<open>
  The properties of the uplink, with a concrete run for their witnesses: an uplink at
  address 0 with blocks of four bytes, six bytes written, the first block in flight.
\<close>

section \<open>A concrete run\<close>

definition up_ex_cfg :: config where
  "up_ex_cfg = kconfig_default 4"

definition up_ex_mal :: "'o store \<Rightarrow> ptr" where
  "up_ex_mal h = (if h 0 = None then Some 0 else if h 1 = None then Some 1 else None)"

definition up_ex_none :: up_mem where
  "up_ex_none = \<lparr>blocks = Map.empty, ups = Map.empty\<rparr>"

definition up_ex_open :: up_mem where
  "up_ex_open = snd (snd (the (uplink_open up_ex_cfg (Some 0) up_ex_mal (Some 3) None 7 up_ex_none)))"

definition up_ex_written :: up_mem where
  "up_ex_written = snd (snd (the (uplink_write up_ex_cfg up_ex_mal GOLIOTH_OK 0 [1, 2, 3, 4, 5, 6] 6 up_ex_open)))"

definition up_ex_closed :: up_mem where
  "up_ex_closed = snd (the (uplink_close up_ex_cfg GOLIOTH_OK 0 up_ex_written))"

lemma up_ex_mal_ok: "malloc_ok up_ex_mal"
  by (auto simp: malloc_ok_def up_ex_mal_def split: if_splits)

lemma up_ex_cfg_simps [simp]:
  "block_max up_ex_cfg = 4" "cloud up_ex_cfg"
  by (simp_all add: up_ex_cfg_def kconfig_default_def)

lemma up_ex_none_inv: "up_inv up_ex_cfg up_ex_none"
  by (simp add: up_inv_def up_ex_none_def own_inv_empty)

lemma replicate_4: "replicate 4 x = [x, x, x, x]"
  by (simp add: numeral_eq_Suc)

lemma up_ex_open_eq:
  "uplink_open up_ex_cfg (Some 0) up_ex_mal (Some 3) None 7 up_ex_none = Some (Some 0, [UplinkStart None], up_ex_open)"
  "blocks up_ex_open = [0 \<mapsto> \<lparr>pb_len = 0, pb_data = [None, None, None, None]\<rparr>]"
  "ups up_ex_open = [0 \<mapsto> \<lparr>up_session = Some 3, up_block_idx = 0, up_closed = False, up_sending = False,
     up_wblock = Some 0, up_rblock = None, up_queue = [], up_cb_arg = 7\<rparr>]"
  by (simp_all add: up_ex_open_def uplink_open_def uplink_block_alloc_def up_ex_mal_def up_ex_none_def replicate_4)

lemma up_ex_loop:
  "up_write_loop up_ex_cfg up_ex_mal [1, 2, 3, 4, 5, 6] 6
     \<lparr>up_session = Some 3, up_block_idx = 0, up_closed = False, up_sending = False,
       up_wblock = Some 0, up_rblock = None, up_queue = [], up_cb_arg = 7\<rparr>
     [0 \<mapsto> \<lparr>pb_len = 0, pb_data = [None, None, None, None]\<rparr>] =
   Some (0, \<lparr>up_session = Some 3, up_block_idx = 0, up_closed = False, up_sending = False,
       up_wblock = Some 1, up_rblock = None, up_queue = [0], up_cb_arg = 7\<rparr>,
     [0 \<mapsto> \<lparr>pb_len = 4, pb_data = [Some 1, Some 2, Some 3, Some 4]\<rparr>,
      1 \<mapsto> \<lparr>pb_len = 2, pb_data = [Some 5, Some 6, None, None]\<rparr>])"
  apply (subst up_write_loop.simps)
  apply (simp add: submit_if_full_def ensure_wblock_def memcpy_to_def memcpy_from_def min_def)
  apply (subst up_write_loop.simps)
  apply (simp add: submit_if_full_def submit_block_def fifo_put_def ensure_wblock_def uplink_block_alloc_def
      up_ex_mal_def memcpy_to_def memcpy_from_def min_def replicate_4)
  apply (subst up_write_loop.simps)
  apply simp
  done

lemma up_ex_written_eq:
  "uplink_write up_ex_cfg up_ex_mal GOLIOTH_OK 0 [1, 2, 3, 4, 5, 6] 6 up_ex_open
     = Some (0, [UplinkBlock (Some 3) 0 [Some 1, Some 2, Some 3, Some 4] False], up_ex_written)"
  "blocks up_ex_written = [0 \<mapsto> \<lparr>pb_len = 4, pb_data = [Some 1, Some 2, Some 3, Some 4]\<rparr>,
     1 \<mapsto> \<lparr>pb_len = 2, pb_data = [Some 5, Some 6, None, None]\<rparr>]"
  "ups up_ex_written = [0 \<mapsto> \<lparr>up_session = Some 3, up_block_idx = 1, up_closed = False, up_sending = True,
     up_wblock = Some 1, up_rblock = Some 0, up_queue = [], up_cb_arg = 7\<rparr>]"
proof -
  have "\<exists>m'. uplink_write up_ex_cfg up_ex_mal GOLIOTH_OK 0 [1, 2, 3, 4, 5, 6] 6 up_ex_open
     = Some (0, [UplinkBlock (Some 3) 0 [Some 1, Some 2, Some 3, Some 4] False], m') \<and>
     blocks m' = [0 \<mapsto> \<lparr>pb_len = 4, pb_data = [Some 1, Some 2, Some 3, Some 4]\<rparr>,
     1 \<mapsto> \<lparr>pb_len = 2, pb_data = [Some 5, Some 6, None, None]\<rparr>] \<and>
     ups m' = [0 \<mapsto> \<lparr>up_session = Some 3, up_block_idx = 1, up_closed = False, up_sending = True,
     up_wblock = Some 1, up_rblock = Some 0, up_queue = [], up_cb_arg = 7\<rparr>]"
    by (simp add: uplink_write_def up_ex_open_eq(2,3) up_ex_loop process_uplink_def memcpy_from_def)
  then show "uplink_write up_ex_cfg up_ex_mal GOLIOTH_OK 0 [1, 2, 3, 4, 5, 6] 6 up_ex_open
     = Some (0, [UplinkBlock (Some 3) 0 [Some 1, Some 2, Some 3, Some 4] False], up_ex_written)"
  "blocks up_ex_written = [0 \<mapsto> \<lparr>pb_len = 4, pb_data = [Some 1, Some 2, Some 3, Some 4]\<rparr>,
     1 \<mapsto> \<lparr>pb_len = 2, pb_data = [Some 5, Some 6, None, None]\<rparr>]"
  "ups up_ex_written = [0 \<mapsto> \<lparr>up_session = Some 3, up_block_idx = 1, up_closed = False, up_sending = True,
     up_wblock = Some 1, up_rblock = Some 0, up_queue = [], up_cb_arg = 7\<rparr>]"
    by (auto simp: up_ex_written_def)
qed

definition up_ex_u :: uplink where
  "up_ex_u = \<lparr>up_session = Some 3, up_block_idx = 1, up_closed = True, up_sending = True,
     up_wblock = None, up_rblock = Some 0, up_queue = [1], up_cb_arg = 7\<rparr>"

lemma up_ex_u_simps [simp]:
  "up_session up_ex_u = Some 3" "up_block_idx up_ex_u = 1" "up_closed up_ex_u" "up_rblock up_ex_u = Some 0"
  "up_queue up_ex_u = [1]" "up_cb_arg up_ex_u = 7"
  by (simp_all add: up_ex_u_def)

lemma up_ex_closed_eq:
  "uplink_close up_ex_cfg GOLIOTH_OK 0 up_ex_written = Some ([], up_ex_closed)"
  "ups up_ex_closed 0 = Some up_ex_u" "blocks up_ex_closed = blocks up_ex_written"
  by (simp_all add: up_ex_closed_def up_ex_u_def uplink_close_def up_ex_written_eq submit_block_def fifo_put_def
      process_uplink_def)

lemma up_ex_session:
  "uplink_session up_ex_cfg 0 [] [] False None up_ex_open"
  "uplink_session up_ex_cfg 0 (map Some [1, 2, 3, 4, 5, 6])
     [(0, [Some 1, Some 2, Some 3, Some 4], False)] False None up_ex_written"
  "uplink_session up_ex_cfg 0 (map Some [1, 2, 3, 4, 5, 6])
     [(0, [Some 1, Some 2, Some 3, Some 4], False)] False None up_ex_closed"
proof -
  show o: "uplink_session up_ex_cfg 0 [] [] False None up_ex_open"
    using up_opened [OF up_ex_none_inv _ up_ex_mal_ok up_ex_open_eq(1)] by (simp add: up_ex_none_def)
  show w: "uplink_session up_ex_cfg 0 (map Some [1, 2, 3, 4, 5, 6])
     [(0, [Some 1, Some 2, Some 3, Some 4], False)] False None up_ex_written"
    using up_written [OF o _ _ up_ex_mal_ok _ up_ex_written_eq(1)] by (simp add: up_ex_open_eq)
  show "uplink_session up_ex_cfg 0 (map Some [1, 2, 3, 4, 5, 6])
     [(0, [Some 1, Some 2, Some 3, Some 4], False)] False None up_ex_closed"
    using up_close [OF w up_ex_closed_eq(1)] by simp
qed

lemma up_ex_inv: "up_inv up_ex_cfg up_ex_open" "up_inv up_ex_cfg up_ex_written" "up_inv up_ex_cfg up_ex_closed"
  using up_ex_session [THEN uplink_session_inv] by (simp_all add: up_sess_inv_def)

section \<open>Properties\<close>

text \<open>Memory safety of the uplink: on a live uplink of a well-formed memory a write, the
  close and the upload callback return, whatever \<open>malloc\<close> and the cloud client answer (no
  use after free, no double free, no copy out of bounds, no endless loop), leave a
  well-formed memory, in which no block is leaked or shared, and do not touch other uplinks.\<close>

theorem uplink_memory_safe:
  assumes inv: "up_inv c m" and u: "ups m p = Some u" and mal: "malloc_ok mal" and max: "block_max c \<noteq> 0"
    and len: "unat len \<le> length payload"
  shows "(\<exists>ret ev m'. uplink_write c mal st p payload len m = Some (ret, ev, m') \<and> up_inv c m' \<and> up_frame p m m') \<and>
    (\<exists>ev m'. uplink_close c st p m = Some (ev, m') \<and> up_inv c m' \<and> up_frame p m m') \<and>
    (\<exists>ev m'. block_upload_callback c status st p m = Some (ev, m') \<and> up_inv c m' \<and> up_frame p m m')"
proof -
  obtain ret u' bs' where post: "up_write_post c p m (blocks m) u payload (unat len) ret u' bs'" and
    eq: "uplink_write c mal st p payload len m =
      (if ret = 0 then map_option (\<lambda>(ev, m'). (0, ev, m')) (process_uplink c st p (up_put p bs' u' m))
       else Some (ret, [], up_put p bs' u' m))"
    using uplink_write_eq [OF inv u mal max len] by blast
  have "up_inv c (up_put p bs' u' m)" using post by (simp add: up_write_post_def)
  then obtain ev m' where "process_uplink c st p (up_put p bs' u' m) = Some (ev, m')"
    using process_uplink_inv by fastforce
  then obtain ret ev m' where w: "uplink_write c mal st p payload len m = Some (ret, ev, m')"
    using eq by (cases "ret = 0") auto
  have "up_op c p m m'" using upop_write [OF _ mal len w] u by simp
  then have 1: "\<exists>ret ev m'. uplink_write c mal st p payload len m = Some (ret, ev, m') \<and> up_inv c m' \<and> up_frame p m m'"
    using up_op_inv [OF inv max] w by blast
  note E = uplink_close_eq [OF inv u]
  have 2: "\<exists>ev m'. uplink_close c st p m = Some (ev, m') \<and> up_inv c m' \<and> up_frame p m m'"
    using process_uplink_inv [OF E(2), of p "up_closing u" st] E(1) up_frame_trans [OF E(3)] by auto
  show ?thesis using 1 2 block_upload_callback_inv [OF inv u] by blast
qed

theorem uplink_memory_safe_witness:
  "\<exists>ev m'. uplink_close up_ex_cfg GOLIOTH_OK 0 up_ex_open = Some (ev, m') \<and> up_inv up_ex_cfg m' \<and> up_frame 0 up_ex_open m'"
proof -
  have "ups up_ex_open 0 = Some \<lparr>up_session = Some 3, up_block_idx = 0, up_closed = False, up_sending = False,
     up_wblock = Some 0, up_rblock = None, up_queue = [], up_cb_arg = 7\<rparr>" by (simp add: up_ex_open_eq)
  from uplink_memory_safe [OF up_ex_inv(1) this up_ex_mal_ok, of 0 "[]" GOLIOTH_OK] show ?thesis by simp
qed

text \<open>A write either takes its whole payload and returns 0, or runs out of memory and
  returns \<open>ENOMEM\<close>; in both cases what the uplink holds grows by a prefix of the payload
  before anything is processed.\<close>

theorem uplink_write_outcome:
  assumes inv: "up_inv c m" and u: "ups m p = Some u" and mal: "malloc_ok mal" and max: "block_max c \<noteq> 0"
    and len: "unat len \<le> length payload"
  shows "\<exists>ret u' bs' k. up_write_loop c mal payload len u (blocks m) = Some (ret, u', bs') \<and>
     up_held bs' u' = up_held (blocks m) u @ map Some (take k payload) \<and>
     (if ret = 0 then k = unat len else ret = - ENOMEM \<and> k < unat len) \<and>
     (case uplink_write c mal st p payload len m of None \<Rightarrow> False | Some (r, ev, m') \<Rightarrow> r = ret)"
proof -
  obtain ret u' bs' where run: "up_write_loop c mal payload len u (blocks m) = Some (ret, u', bs')"
    and post: "up_write_post c p m (blocks m) u payload (unat len) ret u' bs'"
    using up_write_loop_correct [OF _ mal max len, of p "blocks m" u m] inv u by auto
  have "up_inv c (up_put p bs' u' m)" using post by (simp add: up_write_post_def)
  then obtain ev m' where "process_uplink c st p (up_put p bs' u' m) = Some (ev, m')"
    using process_uplink_inv by fastforce
  then have "case uplink_write c mal st p payload len m of None \<Rightarrow> False | Some (r, ev, m') \<Rightarrow> r = ret"
    using u run by (simp add: uplink_write_def up_put_def Let_def)
  then show ?thesis using run post
    by (fastforce simp: up_write_post_def up_wrote_def split: if_splits)
qed

theorem uplink_write_outcome_witness:
  "\<exists>k u' bs'. up_write_loop up_ex_cfg (\<lambda>h. None) [1, 2, 3, 4, 5, 6] 6 (the (ups up_ex_open 0)) (blocks up_ex_open)
     = Some (- ENOMEM, u', bs') \<and> k < unat (6 :: size_t) \<and> up_held bs' u' = map Some (take k [1, 2, 3, 4, 5, 6])"
proof -
  have u: "ups up_ex_open 0 = Some \<lparr>up_session = Some 3, up_block_idx = 0, up_closed = False, up_sending = False,
     up_wblock = Some 0, up_rblock = None, up_queue = [], up_cb_arg = 7\<rparr>" by (simp add: up_ex_open_eq)
  have mal: "malloc_ok (\<lambda>h :: pouch_block store. None)" by (simp add: malloc_ok_def)
  have "\<exists>u' bs'. up_write_loop up_ex_cfg (\<lambda>h. None) [1, 2, 3, 4, 5, 6] 6 (the (ups up_ex_open 0)) (blocks up_ex_open)
     = Some (- ENOMEM, u', bs')"
    apply (simp add: up_ex_open_eq)
    apply (subst up_write_loop.simps)
    apply (simp add: submit_if_full_def ensure_wblock_def memcpy_to_def memcpy_from_def min_def)
    apply (subst up_write_loop.simps)
    apply (simp add: submit_if_full_def submit_block_def fifo_put_def ensure_wblock_def uplink_block_alloc_def)
    done
  with uplink_write_outcome [OF up_ex_inv(1) u mal, of 6 "[1, 2, 3, 4, 5, 6]" GOLIOTH_OK] u show ?thesis
    by (fastforce simp: up_held_def up_queued_def up_open_chunk_def pb_chunk_def pb_cells_def up_ex_open_eq errno_defs
        split: if_splits)
qed

lemma session_packs:
  assumes sess: "uplink_session c p acc sent oom res m" and max: "block_max c \<noteq> 0" and cloud: "cloud c"
  shows "\<exists>rest. chunks (unat (block_max c)) acc = payloads sent @ rest \<and>
     idxs sent = map of_nat [0..<length sent] \<and> True \<notin> set (butlast (lasts sent))"
proof (cases res)
  case (Some r)
  then show ?thesis using uplink_session_inv [OF sess max cloud] by (auto simp: up_sess_inv_def up_ended_def)
next
  case None
  then obtain u where "up_ctx c (blocks m) acc sent oom u"
    using uplink_session_inv [OF sess max cloud] by (auto simp: up_sess_inv_def)
  then have F: "up_flow (unat (block_max c)) acc sent (up_queued (blocks m) u)
      (map_option (pb_chunk (blocks m)) (up_wblock u)) (up_block_idx u) (up_closed u) oom"
    by (simp add: up_ctx_def)
  have "idxs sent = map of_nat [0..<length sent]" using F by (simp add: up_flow_def)
  then show ?thesis using up_flow_prefix [OF F] up_flow_lasts [OF F] max by (auto simp: unat_eq_zero)
qed

text \<open>C3. Packing: at every point of every session the blocks handed to the cloud client are
  the first blocks of the byte stream the writes took, cut into pieces of the maximum block
  size, numbered 0, 1, 2 and so on; and no block but the last one sent is marked last.\<close>

theorem uplink_packs_stream:
  assumes sess: "uplink_session c p acc sent oom res m" and max: "block_max c \<noteq> 0" and cloud: "cloud c"
  shows "\<exists>rest. chunks (unat (block_max c)) acc = payloads sent @ rest \<and>
     idxs sent = map of_nat [0..<length sent] \<and> True \<notin> set (butlast (lasts sent))"
  using session_packs [OF assms] .

theorem uplink_packs_stream_witness:
  "\<exists>rest. chunks 4 (map Some [1, 2, 3, 4, 5, 6 :: byte]) = [[Some 1, Some 2, Some 3, Some 4]] @ rest"
  using uplink_packs_stream [OF up_ex_session(2)] by (auto simp: payloads_def)

text \<open>C7. A reported success is one: when \<open>end_cb\<close> gets \<open>SUCCESS\<close>, every block of the
  stream was handed to the cloud client, and, unless a write had run out of memory, the last
  block and no other carried the last-block flag.\<close>

theorem uplink_success_complete:
  assumes sess: "uplink_session c p acc sent oom (Some POUCH_GATEWAY_UPLINK_SUCCESS) m"
    and max: "block_max c \<noteq> 0" and cloud: "cloud c"
  shows "payloads sent = chunks (unat (block_max c)) acc \<and>
     (if oom \<or> sent = [] then True \<notin> set (butlast (lasts sent))
      else lasts sent = replicate (length sent - 1) False @ [True])"
proof -
  have E: "up_ended c acc sent oom POUCH_GATEWAY_UPLINK_SUCCESS"
    using uplink_session_inv [OF sess max cloud] by (simp add: up_sess_inv_def)
  have "butlast (lasts sent) = replicate (length sent - 1) False"
    using E by (auto simp: up_ended_def lasts_def intro!: replicate_eqI)
  then have "lasts sent = replicate (length sent - 1) False @ [last (lasts sent)]" if "sent \<noteq> []"
    using that by (metis append_butlast_last_id sent_simps(11))
  then show ?thesis using E by (auto simp: up_ended_def)
qed

lemma up_ex_finish:
  "\<exists>ev m'. uplink_session up_ex_cfg 0 (map Some [1, 2, 3, 4, 5, 6])
     ([(0, [Some 1, Some 2, Some 3, Some 4], False)] @ sent_of ev) False (Some POUCH_GATEWAY_UPLINK_SUCCESS) m'"
proof -
  obtain ev m' where "uplink_session up_ex_cfg 0 (map Some [1, 2, 3, 4, 5, 6])
     ([(0, [Some 1, Some 2, Some 3, Some 4], False)] @ sent_of ev) False (end_of ev) m'"
    "end_of ev = Some POUCH_GATEWAY_UPLINK_SUCCESS"
    using upload_acks_finish [OF up_ex_session(3) _ _ up_ex_closed_eq(2)] by auto
  then show ?thesis by auto
qed

theorem uplink_success_complete_witness:
  "\<exists>ev. payloads ([(0, [Some 1, Some 2, Some 3, Some 4], False)] @ sent_of ev)
     = chunks 4 (map Some [1, 2, 3, 4, 5, 6 :: byte])"
proof -
  obtain ev m' where "uplink_session up_ex_cfg 0 (map Some [1, 2, 3, 4, 5, 6])
       ([(0, [Some 1, Some 2, Some 3, Some 4], False)] @ sent_of ev) False (Some POUCH_GATEWAY_UPLINK_SUCCESS) m'"
    using up_ex_finish by blast
  from uplink_success_complete [OF this] show ?thesis by auto
qed

text \<open>C8. A closed uplink completes: once it is closed, if anything was written, one
  successful upload callback for the block in flight and one for every queued block make it
  report success, after which it is freed.\<close>

theorem uplink_close_completes:
  assumes sess: "uplink_session c p acc sent oom None m" and max: "block_max c \<noteq> 0" and cloud: "cloud c"
    and u: "ups m p = Some u" "up_closed u" and acc: "acc \<noteq> []"
  shows "\<exists>ev m'. upload_acks c (length (up_queue u) + 1) p m = Some (ev, m') \<and>
     end_of ev = Some POUCH_GATEWAY_UPLINK_SUCCESS \<and> ups m' p = None \<and>
     payloads (sent @ sent_of ev) = chunks (unat (block_max c)) acc"
proof -
  obtain ev m' where run: "upload_acks c (Suc (length (up_queue u))) p m = Some (ev, m')"
    and s: "uplink_session c p acc (sent @ sent_of ev) oom (end_of ev) m'"
    and e: "end_of ev = Some POUCH_GATEWAY_UPLINK_SUCCESS" "ups m' p = None"
    using upload_acks_finish [OF sess max cloud u acc] by blast
  have "up_ended c acc (sent @ sent_of ev) oom POUCH_GATEWAY_UPLINK_SUCCESS"
    using uplink_session_inv [OF s max cloud] e by (simp add: up_sess_inv_def)
  then show ?thesis using run e by (simp add: up_ended_def del: upload_acks.simps)
qed

theorem uplink_close_completes_witness:
  "\<exists>ev m'. upload_acks up_ex_cfg (length [1 :: addr] + 1) 0 up_ex_closed = Some (ev, m') \<and>
     end_of ev = Some POUCH_GATEWAY_UPLINK_SUCCESS \<and> ups m' 0 = None"
proof -
  note W = uplink_close_completes [OF up_ex_session(3) _ _ up_ex_closed_eq(2), unfolded up_ex_u_simps]
  show ?thesis using W by (simp del: upload_acks.simps) blast
qed

text \<open>Errors end the uplink at once: a failed upload callback, or a block the cloud client
  refuses, reports the error to the owner, finishes the session and frees the uplink with
  all its blocks.\<close>

theorem uplink_error_ends:
  assumes inv: "up_inv c m" and u: "ups m p = Some u" "up_rblock u = Some r" and cloud: "cloud c"
    and b: "up_queue u = a # q" "blocks m a = Some b" "pb_len b \<noteq> 0" and bad: "status \<noteq> GOLIOTH_OK"
  shows "block_upload_callback c status st p m =
       Some ([UplinkEnd (up_cb_arg u) POUCH_GATEWAY_UPLINK_ERROR_CLOUD, UplinkFinish (up_session u)], up_removed p u m) \<and>
     block_upload_callback c GOLIOTH_OK status p m =
       Some ([UplinkBlock (up_session u) (up_block_idx u) (pb_cells b) (q = [] \<and> up_closed u),
              UplinkEnd (up_cb_arg u) POUCH_GATEWAY_UPLINK_ERROR_LOCAL, UplinkFinish (up_session u)], up_removed p u m)"
proof -
  note E = block_upload_callback_eq [OF inv u]
  define m1 where "m1 = up_put p (blocks m |` (- {r})) (up_acked u) m"
  have "r \<noteq> a" using up_invD [OF inv u(1)] u(2) b(1) by (auto simp: up_good_def up_owned_def)
  then have "blocks m1 a = Some b" using b(2) by (simp add: m1_def)
  then have "process_uplink c status p m1 =
      Some ([UplinkBlock (up_session u) (up_block_idx u) (pb_cells b) (q = [] \<and> up_closed u),
              UplinkEnd (up_cb_arg u) POUCH_GATEWAY_UPLINK_ERROR_LOCAL, UplinkFinish (up_session u)],
            up_removed p (up_acked u) m1)"
    using process_uplink_send [OF E(2), of p "up_acked u" a q b status] b cloud bad
    by (simp add: m1_def end_events_def)
  moreover have "up_removed p (up_acked u) m1 = up_removed p u m"
    unfolding m1_def by (rule up_removed_acked [OF u(2)])
  ultimately show ?thesis
    unfolding E(1) m1_def [symmetric] using bad cloud by (simp add: end_events_def)
qed

theorem uplink_error_ends_witness:
  "\<exists>m'. block_upload_callback up_ex_cfg GOLIOTH_ERR_NACK GOLIOTH_OK 0 up_ex_closed =
     Some ([UplinkEnd 7 POUCH_GATEWAY_UPLINK_ERROR_CLOUD, UplinkFinish (Some 3)], m')"
proof -
  have b: "blocks up_ex_closed 1 = Some \<lparr>pb_len = 2, pb_data = [Some 5, Some 6, None, None]\<rparr>"
    by (simp add: up_ex_closed_eq(3) up_ex_written_eq)
  show ?thesis
    using uplink_error_ends [OF up_ex_inv(3) up_ex_closed_eq(2) _ _ _ b, of 0 "[]" GOLIOTH_ERR_NACK GOLIOTH_OK]
    by simp
qed

lemma process_uplink_ok:
  assumes inv: "up_inv c m" and u: "ups m p = Some u"
    and run: "process_uplink c GOLIOTH_OK p m = Some (ev, m')"
  shows "(end_of ev = None \<and> (\<exists>u'. ups m' p = Some u' \<and> up_closed u' = up_closed u)) \<or>
     (end_of ev = Some POUCH_GATEWAY_UPLINK_SUCCESS \<and> ups m' p = None)"
  using inv u
  by (cases rule: process_uplink_cases [where st = GOLIOTH_OK]) (use run u in \<open>auto simp: up_removed_def\<close>)

text \<open>C30. Truncation is reported as success: after a write that failed with \<open>ENOMEM\<close> having
  taken only a part of its payload, the close the transport answers with, and the
  acknowledgements of the cloud, end the uplink with \<open>SUCCESS\<close>, although the cloud has got
  the shortened stream.\<close>

theorem uplink_truncation_succeeds:
  assumes sess: "uplink_session c p acc sent False None m" and max: "block_max c \<noteq> 0" and cloud: "cloud c"
    and u: "ups m p = Some u" "\<not> up_closed u" and acc: "acc \<noteq> []"
    and mal: "malloc_ok mal" and len: "unat len \<le> length payload"
    and fail: "uplink_write c mal GOLIOTH_OK p payload len m = Some (- ENOMEM, ev, m1)"
  shows "\<exists>k ev2 m2 n ev3 m3. k < unat len \<and> uplink_close c GOLIOTH_OK p m1 = Some (ev2, m2) \<and>
     upload_acks c n p m2 = Some (ev3, m3) \<and> end_of (ev2 @ ev3) = Some POUCH_GATEWAY_UPLINK_SUCCESS \<and>
     concat (payloads (sent @ sent_of (ev2 @ ev3))) = acc @ map Some (take k payload) \<and> ups m3 p = None"
proof -
  have inv: "up_inv c m" using uplink_session_inv [OF sess max cloud] by (simp add: up_sess_inv_def)
  obtain ret u' bs' where post: "up_write_post c p m (blocks m) u payload (unat len) ret u' bs'" and
    eq: "uplink_write c mal GOLIOTH_OK p payload len m =
      (if ret = 0 then map_option (\<lambda>(ev, m'). (0, ev, m')) (process_uplink c GOLIOTH_OK p (up_put p bs' u' m))
       else Some (ret, [], up_put p bs' u' m))"
    using uplink_write_eq [OF inv u(1) mal max len] by blast
  have ret: "ret \<noteq> 0" and m1: "m1 = up_put p bs' u' m"
    using eq fail by (cases "process_uplink c GOLIOTH_OK p (up_put p bs' u' m)"; auto simp: errno_defs split: if_splits)+
  define k where "k = length (up_held bs' u') - length (up_held (blocks m) u)"
  have k: "k < unat len" using post ret len by (auto simp: up_write_post_def up_wrote_def k_def)
  have s1: "uplink_session c p (acc @ map Some (take k payload)) sent True None m1"
    using up_write_failed [OF sess u mal len fail, of u' k] by (simp add: m1 k_def errno_defs)
  have inv1: "up_inv c m1" and u1: "ups m1 p = Some u'"
    using post by (simp_all add: m1 up_write_post_def)
  note E = uplink_close_eq [OF inv1 u1]
  obtain ev2 m2 where c2: "uplink_close c GOLIOTH_OK p m1 = Some (ev2, m2)"
    using process_uplink_inv [OF E(2), of p "up_closing u'" GOLIOTH_OK] E(1) [of GOLIOTH_OK] by auto
  have s2: "uplink_session c p (acc @ map Some (take k payload)) (sent @ sent_of ev2) True (end_of ev2) m2"
    using up_close [OF s1 c2] .
  have "up_closed (up_closing u')" by (simp add: up_closing_def)
  with process_uplink_ok [OF E(2), of p "up_closing u'" ev2 m2] E(1) [of GOLIOTH_OK] c2
  consider (go) u2 where "end_of ev2 = None" "ups m2 p = Some u2" "up_closed u2"
    | (fin) "end_of ev2 = Some POUCH_GATEWAY_UPLINK_SUCCESS" "ups m2 p = None"
    by auto
  then obtain n ev3 m3 where acks: "upload_acks c n p m2 = Some (ev3, m3)" "ups m3 p = None"
    and e: "end_of (ev2 @ ev3) = Some POUCH_GATEWAY_UPLINK_SUCCESS"
    and s3: "uplink_session c p (acc @ map Some (take k payload)) (sent @ sent_of (ev2 @ ev3)) True (end_of (ev2 @ ev3)) m3"
  proof cases
    case go
    then show ?thesis
      using upload_acks_finish [OF s2 [unfolded go(1)] max cloud go(2,3)] acc that
      by (auto simp del: upload_acks.simps)
  next
    case fin
    then show ?thesis using s2 that [of 0 "[]" m2] by simp
  qed
  have "payloads (sent @ sent_of (ev2 @ ev3)) = chunks (unat (block_max c)) (acc @ map Some (take k payload))"
    using uplink_session_inv [OF s3 max cloud] e by (simp add: up_sess_inv_def up_ended_def)
  then have "concat (payloads (sent @ sent_of (ev2 @ ev3))) = acc @ map Some (take k payload)"
    using max by (simp add: concat_chunks unat_eq_zero)
  then show ?thesis using k c2 acks e by blast
qed

lemma up_ex_write_fails:
  "\<exists>m1. uplink_write up_ex_cfg (\<lambda>h. None) GOLIOTH_OK 0 [7, 8, 9] 3 up_ex_written = Some (- ENOMEM, [], m1)"
  apply (simp add: uplink_write_def up_ex_written_eq)
  apply (subst up_write_loop.simps)
  apply (simp add: submit_if_full_def ensure_wblock_def memcpy_to_def memcpy_from_def min_def)
  apply (subst up_write_loop.simps)
  apply (simp add: submit_if_full_def submit_block_def fifo_put_def ensure_wblock_def uplink_block_alloc_def errno_defs)
  done

theorem uplink_truncation_succeeds_witness:
  "\<exists>m1 k ev2 m2. uplink_write up_ex_cfg (\<lambda>h. None) GOLIOTH_OK 0 [7, 8, 9] 3 up_ex_written = Some (- ENOMEM, [], m1) \<and>
     k < unat (3 :: size_t) \<and> uplink_close up_ex_cfg GOLIOTH_OK 0 m1 = Some (ev2, m2)"
proof -
  obtain m1 where w: "uplink_write up_ex_cfg (\<lambda>h. None) GOLIOTH_OK 0 [7, 8, 9] 3 up_ex_written = Some (- ENOMEM, [], m1)"
    using up_ex_write_fails by blast
  have mal: "malloc_ok (\<lambda>h :: pouch_block store. None)" by (simp add: malloc_ok_def)
  have u: "ups up_ex_written 0 = Some \<lparr>up_session = Some 3, up_block_idx = 1, up_closed = False, up_sending = True,
     up_wblock = Some 1, up_rblock = Some 0, up_queue = [], up_cb_arg = 7\<rparr>" by (simp add: up_ex_written_eq)
  show ?thesis
    using uplink_truncation_succeeds [OF up_ex_session(2) _ _ u _ _ mal _ w] w by simp blast
qed

text \<open>C31. A close that never ends: where nothing was written to an open uplink, or the
  gateway is built without the cloud, the close drops the block, reports nothing and leaves
  the uplink allocated and idle; no upload callback is due, and one would change nothing.\<close>

theorem uplink_close_leak:
  assumes inv: "up_inv c m" and u: "ups m p = Some u" "\<not> up_closed u" "\<not> up_sending u" "up_queue u = []"
    and w: "up_wblock u = Some w" and none: "\<not> cloud c \<or> pb_chunk (blocks m) w = []"
    and close: "uplink_close c st p m = Some (ev, m1)"
  shows "ev = [] \<and> (\<exists>u1. ups m1 p = Some u1 \<and> up_closed u1 \<and> up_owned u1 = []) \<and>
     block_upload_callback c status st' p m1 = Some ([], m1)"
proof -
  note E = uplink_close_eq [OF inv u(1)]
  have u1: "up_closing u = u\<lparr>up_closed := True, up_queue := [w], up_wblock := None\<rparr>"
    using u w by (simp add: up_closing_def)
  obtain b where b: "blocks m w = Some b" "pb_ok c b"
    using up_good_block [OF up_invD [OF inv u(1)], of w] w by (auto simp: up_owned_def)
  have "\<not> cloud c \<or> pb_len b = 0"
    using none b length_pb_cells [OF b(2)] by (auto simp: pb_chunk_def unat_eq_zero)
  then have "process_uplink c st p (up_put p (blocks m) (up_closing u) m) =
     Some ([], up_put p (blocks m |` (- {w})) (up_closing u\<lparr>up_queue := []\<rparr>) m)"
    using process_uplink_drop [OF E(2), of p "up_closing u" w "[]" b st] u b u1 by (simp add: up_put_def)
  then have run: "ev = []" "m1 = up_put p (blocks m |` (- {w})) (up_closing u\<lparr>up_queue := []\<rparr>) m"
    using E(1) close by simp_all
  have "up_rblock u = None" using up_good_rblock [OF up_invD [OF inv u(1)] u(3)] .
  then have "ups m1 p = Some (up_closing u\<lparr>up_queue := []\<rparr>)" "up_owned (up_closing u\<lparr>up_queue := []\<rparr>) = []"
    by (simp_all add: run u1 up_owned_def)
  moreover have "block_upload_callback c status st' p m1 = Some ([], m1)"
    by (rule block_upload_callback_idle [OF calculation(1)]) (simp add: u1 u(3))
  ultimately show ?thesis using run u1 by simp
qed

theorem uplink_close_leak_witness:
  "\<exists>m1. uplink_close up_ex_cfg GOLIOTH_OK 0 up_ex_open = Some ([], m1) \<and> ups m1 0 \<noteq> None"
proof -
  have u: "ups up_ex_open 0 = Some \<lparr>up_session = Some 3, up_block_idx = 0, up_closed = False, up_sending = False,
     up_wblock = Some 0, up_rblock = None, up_queue = [], up_cb_arg = 7\<rparr>" by (simp add: up_ex_open_eq)
  have none: "pb_chunk (blocks up_ex_open) 0 = []" by (simp add: up_ex_open_eq pb_chunk_def pb_cells_def)
  obtain ev m1 where run: "uplink_close up_ex_cfg GOLIOTH_OK 0 up_ex_open = Some (ev, m1)"
    using uplink_close_eq [OF up_ex_inv(1) u] process_uplink_inv [OF uplink_close_eq(2) [OF up_ex_inv(1) u], of 0]
    by fastforce
  from uplink_close_leak [OF up_ex_inv(1) u _ _ _ _ _ run, of 0 GOLIOTH_OK GOLIOTH_OK] none run
  show ?thesis by auto
qed

section \<open>The upload callback preempted\<close>

text \<open>The upload callback clears the sending flag before it frees the acknowledged block.
  Where a write or a close on another thread runs \<open>process_uplink\<close> between the two, the
  callback frees the block that was just handed to the cloud client, while it is being sent,
  and loses the acknowledged one: it stays allocated and no uplink owns it.\<close>

theorem upload_callback_race:
  assumes inv: "up_inv c m" and u: "ups m p = Some u" "up_rblock u = Some r" and q: "up_queue u = a # q"
    and b: "blocks m a = Some b" "pb_len b \<noteq> 0" and cloud: "cloud c"
    and first: "upload_cb_clear p m = Some (was, m1)"
    and other: "process_uplink c GOLIOTH_OK p m1 = Some (ev, m2)"
    and rest: "upload_cb_rest c GOLIOTH_OK st p m2 = Some (ev', m3)"
  shows "was \<and> ev = [UplinkBlock (up_session u) (up_block_idx u) (pb_cells b) (q = [] \<and> up_closed u)] \<and>
     blocks m3 a = None \<and> blocks m3 r \<noteq> None \<and>
     (\<exists>u3. ups m3 p = Some u3 \<and> up_sending u3 \<and> up_rblock u3 = None \<and> r \<notin> set (up_owned u3))"
proof -
  have good: "up_good c (blocks m) u" using up_invD [OF inv u(1)] .
  have send: "up_sending u" using good u(2) by (simp add: up_good_def)
  have "pb_ok c b" using up_good_block [OF good, of a] q b by (simp add: up_owned_def)
  then have get: "memcpy_from (pb_data b) 0 (unat (pb_len b)) = Some (pb_cells b)"
    by (simp add: pb_ok_def pb_cells_def word_le_nat_alt)
  have ra: "r \<noteq> a" "r \<notin> set q" "up_wblock u \<noteq> Some r"
    using good u(2) q by (auto simp: up_good_def up_owned_def)
  obtain br where br: "blocks m r = Some br"
    using up_good_block [OF good, of r] u(2) by (auto simp: up_owned_def)
  have 1: "was = True" "m1 = m\<lparr>ups := (ups m)(p \<mapsto> u\<lparr>up_sending := False\<rparr>)\<rparr>"
    using first u send by (simp_all add: upload_cb_clear_def)
  have 2: "ev = [UplinkBlock (up_session u) (up_block_idx u) (pb_cells b) (q = [] \<and> up_closed u)]"
    "m2 = m\<lparr>ups := (ups m)(p \<mapsto> up_sent u a q)\<rparr>"
    using other q b cloud get by (simp_all add: 1 process_uplink_def up_sent_def)
  have m3: "m3 = m\<lparr>blocks := (blocks m)(a := None), ups := (ups m)(p \<mapsto> up_sent u a q\<lparr>up_rblock := None\<rparr>)\<rparr>"
    using rest b by (simp add: 2 upload_cb_rest_def process_uplink_def)
  show ?thesis using 1 2 br ra by (cases "up_wblock u") (auto simp: m3 up_owned_def)
qed

theorem upload_callback_race_witness:
  "\<exists>m1 ev m2 ev' m3. upload_cb_clear 0 up_ex_closed = Some (True, m1) \<and>
     process_uplink up_ex_cfg GOLIOTH_OK 0 m1 = Some (ev, m2) \<and>
     upload_cb_rest up_ex_cfg GOLIOTH_OK GOLIOTH_OK 0 m2 = Some (ev', m3) \<and>
     ev = [UplinkBlock (Some 3) 1 [Some 5, Some 6] True] \<and> blocks m3 1 = None"
proof -
  have b: "blocks up_ex_closed 1 = Some \<lparr>pb_len = 2, pb_data = [Some 5, Some 6, None, None]\<rparr>"
    by (simp add: up_ex_closed_eq(3) up_ex_written_eq)
  obtain m1 where 1: "upload_cb_clear 0 up_ex_closed = Some (True, m1)" and m1: "blocks m1 = blocks up_ex_closed"
      "ups m1 0 = Some (up_ex_u\<lparr>up_sending := False\<rparr>)"
    by (simp add: upload_cb_clear_def up_ex_closed_eq(2)) (simp add: up_ex_u_def)
  obtain ev m2 where 2: "process_uplink up_ex_cfg GOLIOTH_OK 0 m1 = Some (ev, m2)" and
    m2: "blocks m2 = blocks up_ex_closed" "\<exists>u. ups m2 0 = Some u \<and> up_rblock u = Some 1 \<and> up_sending u"
    using m1 b by (simp add: process_uplink_def memcpy_from_def)
  obtain ev' m3 where 3: "upload_cb_rest up_ex_cfg GOLIOTH_OK GOLIOTH_OK 0 m2 = Some (ev', m3)"
    using m2 b by (auto simp: upload_cb_rest_def process_uplink_def)
  from upload_callback_race [OF up_ex_inv(3) up_ex_closed_eq(2) _ _ b _ _ 1 2 3, of 0 "[]"] 1 2 3 show ?thesis
    by (auto simp: pb_cells_def)
qed

end
