(* ===== verification/Uplink_Pieces.thy ===== *)
theory Uplink_Pieces
  imports Uplink_Properties
begin

text \<open>
  The functions of \<open>lib/uplink.c\<close>, cut at every access to what its two threads share: the
  two flags, \<open>rblock\<close>, the queue and the uplink itself. The transport's thread writes and
  closes, the cloud client's thread runs \<open>block_upload_callback\<close>; both run
  \<open>process_uplink\<close>. A program counter says where a thread stands, a step function what it
  does next. Run without the other thread, the pieces are the functions of \<open>Uplink\<close>.
\<close>

section \<open>The pieces of the functions\<close>

text \<open>\<open>process_uplink\<close>: before the sending flag is tested and set (\<open>PSet\<close>), before the closed
  flag is read (\<open>PClosed\<close>), before a block is taken from the queue (\<open>PGet\<close>, with the closed
  flag as it was read), with the block taken and \<open>rblock\<close> not yet set (\<open>PTake\<close>), with
  \<open>rblock\<close> set (\<open>PBlock\<close>), before the sending flag is cleared (\<open>PClear\<close>), before
  \<open>end_cb\<close> and \<open>cleanup_uplink\<close> (\<open>PEnd\<close>), and at its end.\<close>

datatype proc_pc =
  PSet | PClosed | PGet bool | PTake addr bool | PBlock bool | PClear | PEnd uplink_result | PExit

definition put_up :: "addr \<Rightarrow> uplink \<Rightarrow> up_mem \<Rightarrow> up_mem" where
  "put_up p u m = m\<lparr>ups := (ups m)(p \<mapsto> u)\<rparr>"

fun proc_step ::
  "config \<Rightarrow> golioth_status \<Rightarrow> addr \<Rightarrow> proc_pc \<Rightarrow> up_mem \<Rightarrow> (proc_pc \<times> up_event list \<times> up_mem) option" where
  "proc_step c st p PSet m = do {
     u \<leftarrow> ups m p;
     if up_sending u then Some (PExit, [], m) else Some (PClosed, [], put_up p (u\<lparr>up_sending := True\<rparr>) m) }"
| "proc_step c st p PClosed m = do { u \<leftarrow> ups m p; Some (PGet (up_closed u), [], m) }"
| "proc_step c st p (PGet closed) m = do {
     u \<leftarrow> ups m p;
     (case fifo_get (up_queue u) of
        (None, q) \<Rightarrow> Some (if closed then PEnd POUCH_GATEWAY_UPLINK_SUCCESS else PClear, [], m)
      | (Some a, q) \<Rightarrow> Some (PTake a closed, [], put_up p (u\<lparr>up_queue := q\<rparr>) m)) }"
| "proc_step c st p (PTake a closed) m = do {
     u \<leftarrow> ups m p;
     Some (PBlock closed, [], put_up p (u\<lparr>up_rblock := Some a\<rparr>) m) }"
| "proc_step c st p (PBlock closed) m = do {
     u \<leftarrow> ups m p;
     b \<leftarrow> deref (blocks m) (up_rblock u);
     if \<not> cloud c \<or> pb_len b = 0 then do {
       bs \<leftarrow> heap_free (blocks m) (up_rblock u);
       Some (PClear, [], put_up p (u\<lparr>up_rblock := None\<rparr>) (m\<lparr>blocks := bs\<rparr>)) }
     else do {
       payload \<leftarrow> memcpy_from (pb_data b) 0 (unat (pb_len b));
       Some (if st = GOLIOTH_OK then PExit else PEnd POUCH_GATEWAY_UPLINK_ERROR_LOCAL,
             [UplinkBlock (up_session u) (up_block_idx u) payload (up_queue u = [] \<and> closed)],
             put_up p (u\<lparr>up_block_idx := up_block_idx u + 1\<rparr>) m) } }"
| "proc_step c st p PClear m = do {
     u \<leftarrow> ups m p;
     Some (PExit, [], put_up p (u\<lparr>up_sending := False\<rparr>) m) }"
| "proc_step c st p (PEnd res) m = do { (ev, m') \<leftarrow> end_uplink c res p m; Some (PExit, ev, m') }"
| "proc_step c st p PExit m = Some (PExit, [], m)"

text \<open>\<open>block_upload_callback\<close>: called (\<open>CbBegun\<close>); the sending flag was set and is cleared
  (\<open>CbFree\<close>); \<open>rblock\<close> is freed and dangles (\<open>CbNull\<close>); before the end with an error
  (\<open>CbEnd\<close>); in \<open>process_uplink\<close>.\<close>

datatype cb_pc = CbIdle | CbBegun golioth_status | CbFree golioth_status | CbNull golioth_status | CbEnd | CbProc proc_pc

fun cb_step ::
  "config \<Rightarrow> golioth_status \<Rightarrow> addr \<Rightarrow> cb_pc \<Rightarrow> up_mem \<Rightarrow> (cb_pc \<times> up_event list \<times> up_mem) option" where
  "cb_step c st p (CbBegun status) m = do {
     u \<leftarrow> ups m p;
     Some (if up_sending u then CbFree status else CbIdle, [], put_up p (u\<lparr>up_sending := False\<rparr>) m) }"
| "cb_step c st p (CbFree status) m = do {
     u \<leftarrow> ups m p;
     bs \<leftarrow> heap_free (blocks m) (up_rblock u);
     Some (CbNull status, [], m\<lparr>blocks := bs\<rparr>) }"
| "cb_step c st p (CbNull status) m = do {
     u \<leftarrow> ups m p;
     Some (if status \<noteq> GOLIOTH_OK then CbEnd else CbProc PSet, [], put_up p (u\<lparr>up_rblock := None\<rparr>) m) }"
| "cb_step c st p CbEnd m = do {
     (ev, m') \<leftarrow> end_uplink c POUCH_GATEWAY_UPLINK_ERROR_CLOUD p m;
     Some (CbIdle, ev, m') }"
| "cb_step c st p (CbProc pc) m = do {
     (pc', ev, m') \<leftarrow> proc_step c st p pc m;
     Some (if pc' = PExit then CbIdle else CbProc pc', ev, m') }"
| "cb_step c st p CbIdle m = Some (CbIdle, [], m)"

text \<open>\<open>pouch_gateway_uplink_write\<close> and \<open>pouch_gateway_uplink_close\<close>: at the head of the loop
  (\<open>WLoop\<close>), behind the test and setting of the closed flag (\<open>WSubmit\<close>, with its old value),
  in \<open>process_uplink\<close>.\<close>

datatype wr_pc = WIdle | WLoop "byte list" size_t | WSubmit bool | WProc proc_pc

definition close_enter :: "addr \<Rightarrow> up_mem \<Rightarrow> (wr_pc \<times> up_mem) option" where
  "close_enter p m = do { u \<leftarrow> ups m p; Some (WSubmit (up_closed u), put_up p (u\<lparr>up_closed := True\<rparr>) m) }"

fun wr_step ::
  "config \<Rightarrow> (pouch_block store \<Rightarrow> ptr) \<Rightarrow> golioth_status \<Rightarrow> addr \<Rightarrow> wr_pc \<Rightarrow> up_mem \<Rightarrow>
   (wr_pc \<times> up_event list \<times> up_mem) option" where
  "wr_step c mal st p (WLoop payload len) m =
     (if len = 0 then Some (WProc PSet, [], m)
      else do {
        u \<leftarrow> ups m p;
        (more, u', bs) \<leftarrow> write_piece c mal payload len u (blocks m);
        Some (case more of None \<Rightarrow> WIdle | Some (payload', len') \<Rightarrow> WLoop payload' len', [], up_put p bs u' m) })"
| "wr_step c mal st p (WSubmit closed) m = do {
     u \<leftarrow> ups m p;
     u' \<leftarrow> (if \<not> closed \<and> up_wblock u \<noteq> None then submit_block u else Some u);
     Some (WProc PSet, [], put_up p u' m) }"
| "wr_step c mal st p (WProc pc) m = do {
     (pc', ev, m') \<leftarrow> proc_step c st p pc m;
     Some (if pc' = PExit then WIdle else WProc pc', ev, m') }"
| "wr_step c mal st p WIdle m = Some (WIdle, [], m)"

text \<open>A thread that runs alone: \<open>n\<close> steps of it.\<close>

fun cb_run ::
  "config \<Rightarrow> golioth_status \<Rightarrow> addr \<Rightarrow> nat \<Rightarrow> cb_pc \<Rightarrow> up_mem \<Rightarrow> (cb_pc \<times> up_event list \<times> up_mem) option" where
  "cb_run c st p 0 pc m = Some (pc, [], m)"
| "cb_run c st p (Suc k) pc m = do {
     (pc1, ev, m1) \<leftarrow> cb_step c st p pc m;
     (pc2, ev', m2) \<leftarrow> cb_run c st p k pc1 m1;
     Some (pc2, ev @ ev', m2) }"

fun wr_run ::
  "config \<Rightarrow> (pouch_block store \<Rightarrow> ptr) \<Rightarrow> golioth_status \<Rightarrow> addr \<Rightarrow> nat \<Rightarrow> wr_pc \<Rightarrow> up_mem \<Rightarrow>
   (wr_pc \<times> up_event list \<times> up_mem) option" where
  "wr_run c mal st p 0 pc m = Some (pc, [], m)"
| "wr_run c mal st p (Suc k) pc m = do {
     (pc1, ev, m1) \<leftarrow> wr_step c mal st p pc m;
     (pc2, ev', m2) \<leftarrow> wr_run c mal st p k pc1 m1;
     Some (pc2, ev @ ev', m2) }"

lemma put_up_simps [simp]:
  "ups (put_up p u m) = (ups m)(p \<mapsto> u)" "blocks (put_up p u m) = blocks m"
  "put_up p u' (put_up p u m) = put_up p u' m" "put_up p u' (m\<lparr>blocks := bs\<rparr>) = up_put p bs u' m"
  by (simp_all add: put_up_def up_put_def)

lemma up_put_blocks [simp]: "up_put p bs u (m\<lparr>blocks := bs'\<rparr>) = up_put p bs u m"
  by (simp add: up_put_def)

lemma put_up_eq: "put_up p u m = up_put p (blocks m) u m"
  by (simp add: put_up_def up_put_def)

section \<open>The pieces run alone\<close>

fun proc_run ::
  "config \<Rightarrow> golioth_status \<Rightarrow> addr \<Rightarrow> nat \<Rightarrow> proc_pc \<Rightarrow> up_mem \<Rightarrow> (proc_pc \<times> up_event list \<times> up_mem) option" where
  "proc_run c st p 0 pc m = Some (pc, [], m)"
| "proc_run c st p (Suc k) pc m = do {
     (pc1, ev, m1) \<leftarrow> proc_step c st p pc m;
     (pc2, ev', m2) \<leftarrow> proc_run c st p k pc1 m1;
     Some (pc2, ev @ ev', m2) }"

lemma cb_run_idle [simp]: "cb_run c st p n CbIdle m = Some (CbIdle, [], m)"
  by (induction n) simp_all

lemma wr_run_idle [simp]: "wr_run c mal st p n WIdle m = Some (WIdle, [], m)"
  by (induction n) simp_all

lemma proc_run_exit [simp]: "proc_run c st p n PExit m = Some (PExit, [], m)"
  by (induction n) simp_all

lemma proc_run_threads:
  assumes "proc_run c st p n pc m = Some (PExit, ev, m')" and "pc \<noteq> PExit"
  shows "cb_run c st p n (CbProc pc) m = Some (CbIdle, ev, m')"
    and "wr_run c mal st p n (WProc pc) m = Some (WIdle, ev, m')"
  using assms
proof (induction n arbitrary: pc m ev)
  case (Suc n)
  {
    case 1
    then obtain pc1 e1 m1 e2 where 1: "proc_step c st p pc m = Some (pc1, e1, m1)"
      "proc_run c st p n pc1 m1 = Some (PExit, e2, m')" "ev = e1 @ e2" by (auto split: bind_splits)
    then show ?case using Suc.IH(1) [OF 1(2)] by (cases "pc1 = PExit") auto
  next
    case 2
    then obtain pc1 e1 m1 e2 where 2: "proc_step c st p pc m = Some (pc1, e1, m1)"
      "proc_run c st p n pc1 m1 = Some (PExit, e2, m')" "ev = e1 @ e2" by (auto split: bind_splits)
    then show ?case using Suc.IH(2) [OF 2(2)] by (cases "pc1 = PExit") auto
  }
qed simp_all

lemma process_uplink_run:
  assumes "process_uplink c st p m = Some (ev, m')"
  shows "proc_run c st p 6 PSet m = Some (PExit, ev, m')"
proof -
  obtain u where u: "ups m p = Some u" using assms by (auto simp: process_uplink_def split: bind_splits)
  note defs = process_uplink_def numeral_eq_Suc Let_def put_up_def up_put_def
  show ?thesis
  proof (cases "up_sending u")
    case True
    then show ?thesis using assms u by (simp add: defs)
  next
    case s: False
    show ?thesis
    proof (cases "up_queue u")
      case Nil
      then show ?thesis using assms u s by (auto simp: defs split: if_splits bind_splits)
    next
      case (Cons a q)
      obtain b where b: "blocks m a = Some b" using assms u s Cons by (cases "blocks m a") (auto simp: process_uplink_def)
      show ?thesis
      proof (cases "\<not> cloud c \<or> pb_len b = 0")
        case True
        then show ?thesis using assms u s Cons b by (auto simp: defs)
      next
        case False
        then show ?thesis using assms u s Cons b by (auto simp: defs split: if_splits bind_splits)
      qed
    qed
  qed
qed

lemma wr_runI:
  "wr_step c mal st p pc m = Some (pc1, [], m1) \<Longrightarrow> \<exists>k. wr_run c mal st p k pc1 m1 = Some r \<Longrightarrow>
   \<exists>k. wr_run c mal st p k pc m = Some r"
  by (cases r) (auto intro: exI [of _ "Suc _"])

lemma cb_runI:
  "cb_step c st p pc m = Some (pc1, [], m1) \<Longrightarrow> \<exists>k. cb_run c st p k pc1 m1 = Some r \<Longrightarrow>
   \<exists>k. cb_run c st p k pc m = Some r"
  by (cases r) (auto intro: exI [of _ "Suc _"])

lemma process_alone:
  assumes "process_uplink c st p m = Some (ev, m')"
  shows "\<exists>k. cb_run c st p k (CbProc PSet) m = Some (CbIdle, ev, m')"
    and "\<exists>k. wr_run c mal st p k (WProc PSet) m = Some (WIdle, ev, m')"
  using proc_run_threads [OF process_uplink_run [OF assms]] by blast+

lemma write_alone:
  assumes "up_inv c (up_put p bs u m)" and mal: "malloc_ok mal" and max: "block_max c \<noteq> 0"
    and "unat len \<le> length payload" and "up_write_loop c mal payload len u bs = Some (ret, u', bs')"
    and "if ret = 0 then process_uplink c st p (up_put p bs' u' m) = Some (ev, m') else ev = [] \<and> m' = up_put p bs' u' m"
  shows "\<exists>k. wr_run c mal st p k (WLoop payload len) (up_put p bs u m) = Some (WIdle, ev, m')"
  using assms(1,4-)
proof (induction "unat len" arbitrary: len payload u bs rule: less_induct)
  case less
  show ?case
  proof (cases "len = 0")
    case True
    then have "ret = 0" "u' = u" "bs' = bs" using less.prems(3) by (simp_all add: up_write_loop_pieces [of c mal payload 0 u bs])
    with less.prems(4) have "process_uplink c st p (up_put p bs u m) = Some (ev, m')" by simp
    from process_alone(2) [OF this] show ?thesis
      using True by - (rule wr_runI [of _ _ _ _ _ _ "WProc PSet" "up_put p bs u m"]; simp)
  next
    case len: False
    from less.prems(1) mal max len less.prems(2) show ?thesis
    proof (cases rule: write_piece_ok)
      case (fail e)
      then have "ret = - ENOMEM" "u' = e" "bs' = bs"
        using less.prems(3) len by (simp_all add: up_write_loop_pieces [of c mal payload len u bs])
      then show ?thesis using fail(1) len less.prems(4)
        by (intro exI [of _ "Suc 0"]) (simp add: errno_defs)
    next
      case (step k e bs1)
      have rem: "unat (len - of_nat k) = unat len - k"
        using step(2) unat_size_bound [of len]
        by (subst unat_diff_word) (simp_all add: word_le_nat_alt unat_of_nat_size)
      have "up_write_loop c mal (drop k payload) (len - of_nat k) e bs1 = Some (ret, u', bs')"
        using less.prems(3) step(3) len by (simp add: up_write_loop_pieces [of c mal payload len u bs])
      then have "\<exists>j. wr_run c mal st p j (WLoop (drop k payload) (len - of_nat k)) (up_put p bs1 e m) = Some (WIdle, ev, m')"
        using step(1,2,4) rem less.prems(2,4) by (intro less.hyps) simp_all
      then show ?thesis using step(3) len
        by - (rule wr_runI [of _ _ _ _ _ _ "WLoop (drop k payload) (len - of_nat k)" "up_put p bs1 e m"]; simp)
    qed
  qed
qed

section \<open>Properties\<close>



end
