(* ===== verification/Uplink_Stages.thy ===== *)
theory Uplink_Stages
  imports Uplink_Pieces
begin

text \<open>
  The life of a block of an uplink whose functions are run in pieces. At every moment at most
  one block is in process; its stage says where it is, \<open>up_core\<close> what then holds of the
  uplink, the bytes written and the blocks sent. Each lemma \<open>core_...\<close> says what one piece
  makes of it, whichever thread runs it.
\<close>

section \<open>The life of a block\<close>

text \<open>Where the one block that may be in process stands: nowhere, with the thread in
  \<open>process_uplink\<close> that holds the sending flag, with the cloud client (or its callback,
  which has not yet cleared the flag), or in the callback behind that: acknowledged, freed,
  failed.\<close>

datatype up_stage = KIdle | KProc proc_pc | KClient | KAcked | KNull | KFail

fun stage_block :: "up_stage \<Rightarrow> ptr \<Rightarrow> ptr" where
  "stage_block (KProc (PTake a closed)) r = Some a"
| "stage_block (KProc (PBlock closed)) r = r"
| "stage_block (KProc (PEnd res)) r = r"
| "stage_block KClient r = r"
| "stage_block KAcked r = r"
| "stage_block _ r = None"

fun stage_fits :: "up_stage \<Rightarrow> ptr \<Rightarrow> bool" where
  "stage_fits (KProc PSet) r = False"
| "stage_fits (KProc PExit) r = False"
| "stage_fits (KProc (PBlock closed)) r = (r \<noteq> None)"
| "stage_fits (KProc (PEnd res)) r = (res \<noteq> POUCH_GATEWAY_UPLINK_ERROR_CLOUD \<and>
     (r \<noteq> None \<longleftrightarrow> res = POUCH_GATEWAY_UPLINK_ERROR_LOCAL))"
| "stage_fits KClient r = (r \<noteq> None)"
| "stage_fits KAcked r = (r \<noteq> None)"
| "stage_fits KNull r = True"
| "stage_fits _ r = (r = None)"

fun stage_locked :: "up_stage \<Rightarrow> bool" where
  "stage_locked (KProc pc) = True"
| "stage_locked KClient = True"
| "stage_locked _ = False"

fun stage_unsent :: "up_stage \<Rightarrow> bool" where
  "stage_unsent (KProc (PTake a closed)) = True"
| "stage_unsent (KProc (PBlock closed)) = True"
| "stage_unsent _ = False"

text \<open>The uplink as it is between two calls: \<open>rblock\<close> is the block in process, and the
  sending flag says that there is one.\<close>

definition stage_up :: "up_stage \<Rightarrow> uplink \<Rightarrow> uplink" where
  "stage_up k u = (let r = stage_block k (up_rblock u) in u\<lparr>up_rblock := r, up_sending := (r \<noteq> None)\<rparr>)"

text \<open>What the thread in \<open>process_uplink\<close> has read is still so; \<open>sub\<close> says that the uplink
  is closed and its last block in the queue.\<close>

fun stage_reads :: "up_stage \<Rightarrow> bool \<Rightarrow> bool \<Rightarrow> addr list \<Rightarrow> bool" where
  "stage_reads (KProc (PGet closed)) sub failed q =
     (if closed then sub else sub \<longrightarrow> q \<noteq> [] \<and> (failed \<or> tl q \<noteq> []))"
| "stage_reads (KProc (PTake a closed)) sub failed q = (if closed then sub else sub \<longrightarrow> failed \<or> q \<noteq> [])"
| "stage_reads (KProc (PBlock closed)) sub failed q = (if closed then sub else sub \<longrightarrow> failed \<or> q \<noteq> [])"
| "stage_reads (KProc (PEnd res)) sub failed q = (res = POUCH_GATEWAY_UPLINK_SUCCESS \<longrightarrow> sub \<and> q = [])"
| "stage_reads _ sub failed q = True"

definition sent_bytes :: "(32 word \<times> cell list \<times> bool) list \<Rightarrow> cell list" where
  "sent_bytes bs = concat (payloads bs)"

definition stage_bytes :: "up_stage \<Rightarrow> pouch_block store \<Rightarrow> uplink \<Rightarrow> cell list" where
  "stage_bytes k bs u = (if stage_unsent k
     then concat (map (pb_chunk bs) (ptr_list (stage_block k (up_rblock u)))) else [])"

text \<open>The bytes written are those sent, those of the block in process and those held; the
  blocks are numbered from 0.\<close>

definition stage_data ::
  "up_stage \<Rightarrow> cell list \<Rightarrow> (32 word \<times> cell list \<times> bool) list \<Rightarrow> pouch_block store \<Rightarrow> uplink \<Rightarrow> bool" where
  "stage_data k wtn snt bs u \<longleftrightarrow> wtn = sent_bytes snt @ stage_bytes k bs u @ up_held bs u \<and>
     up_block_idx u = of_nat (length snt) \<and> idxs snt = map of_nat [0..<length snt]"

text \<open>Only an uplink to which nothing was written has empty blocks, and it submits one only
  when it is closed.\<close>

definition stage_solid :: "up_stage \<Rightarrow> bool \<Rightarrow> cell list \<Rightarrow> pouch_block store \<Rightarrow> uplink \<Rightarrow> bool" where
  "stage_solid k sub wtn bs u \<longleftrightarrow>
     (sub \<and> wtn = [] \<or> [] \<notin> set (up_queued bs u) \<and> (stage_unsent k \<longrightarrow> stage_bytes k bs u \<noteq> [])) \<and>
     (wtn = [] \<or> up_wblock u = None \<or> up_open_chunk bs u \<noteq> [])"

text \<open>The last block sent is marked, and no other.\<close>

definition stage_last ::
  "up_stage \<Rightarrow> bool \<Rightarrow> cell list \<Rightarrow> (32 word \<times> cell list \<times> bool) list \<Rightarrow> bool \<Rightarrow> addr list \<Rightarrow> bool" where
  "stage_last k sub wtn snt failed q \<longleftrightarrow>
     True \<notin> set (butlast (lasts snt)) \<and>
     (True \<in> set (lasts snt) \<longrightarrow> sub \<and> q = [] \<and> \<not> stage_unsent k) \<and>
     (sub \<and> q = [] \<and> \<not> stage_unsent k \<and> wtn \<noteq> [] \<and> \<not> failed \<longrightarrow> True \<in> set (lasts snt))"

text \<open>Before that it has a block to write to, unless a write ran out of memory.\<close>

definition sub_ok :: "bool \<Rightarrow> bool \<Rightarrow> bool \<Rightarrow> ptr \<Rightarrow> bool" where
  "sub_ok sub failed closed w = (if sub then closed \<and> w = None else failed \<or> w \<noteq> None)"

definition up_core ::
  "config \<Rightarrow> addr \<Rightarrow> up_stage \<Rightarrow> bool \<Rightarrow> cell list \<Rightarrow> (32 word \<times> cell list \<times> bool) list \<Rightarrow> bool \<Rightarrow>
   uplink \<Rightarrow> up_mem \<Rightarrow> bool" where
  "up_core c p k sub wtn snt failed u m \<longleftrightarrow> ups m p = Some u \<and>
     up_inv c (up_put p (blocks m) (stage_up k u) m) \<and>
     stage_fits k (up_rblock u) \<and> (up_sending u \<longleftrightarrow> stage_locked k) \<and>
     sub_ok sub failed (up_closed u) (up_wblock u) \<and>
     stage_data k wtn snt (blocks m) u \<and> stage_solid k sub wtn (blocks m) u \<and>
     stage_reads k sub failed (up_queue u) \<and> stage_last k sub wtn snt failed (up_queue u)"

lemma up_coreI:
  assumes "ups m p = Some u" and "up_inv c (up_put p (blocks m) (stage_up k u) m)"
    and "stage_fits k (up_rblock u)" and "up_sending u \<longleftrightarrow> stage_locked k"
    and "sub_ok sub failed (up_closed u) (up_wblock u)"
    and "stage_data k wtn snt (blocks m) u" and "stage_solid k sub wtn (blocks m) u"
    and "stage_reads k sub failed (up_queue u)" and "stage_last k sub wtn snt failed (up_queue u)"
  shows "up_core c p k sub wtn snt failed u m"
  using assms by (simp add: up_core_def)

lemma up_coreD:
  assumes "up_core c p k sub wtn snt failed u m"
  shows "ups m p = Some u" and "up_inv c (up_put p (blocks m) (stage_up k u) m)"
    and "stage_fits k (up_rblock u)" and "up_sending u \<longleftrightarrow> stage_locked k"
    and "sub_ok sub failed (up_closed u) (up_wblock u)"
    and "stage_data k wtn snt (blocks m) u" and "stage_solid k sub wtn (blocks m) u"
    and "stage_reads k sub failed (up_queue u)" and "stage_last k sub wtn snt failed (up_queue u)"
  using assms unfolding up_core_def by blast+

lemma up_put_move:
  assumes "up_inv c (up_put p bs u m)" and "mset (up_owned u') = mset (up_owned u)"
    and "up_sending u' \<longleftrightarrow> up_rblock u' \<noteq> None"
  shows "up_inv c (up_put p bs u' m)"
  using up_inv_move(1) [OF assms(1), of p u u'] assms(2,3) by simp

lemma up_put_drop:
  assumes "up_inv c (up_put p bs u m)" and "mset (up_owned u) = mset (a # up_owned u')"
    and "up_sending u' \<longleftrightarrow> up_rblock u' \<noteq> None"
  shows "up_inv c (up_put p (bs |` (- {a})) u' m)"
  using up_inv_drop(1) [OF assms(1), of p u a u'] assms(2,3) by simp

lemma up_put_end:
  assumes inv: "up_inv c (up_put p (blocks m) e m)" and u: "ups m p = Some u" and own: "up_owned e = up_owned u"
  shows "end_uplink c res p m = Some (end_events c res u, up_removed p u m)"
  using up_invD [OF inv, of p e] up_inv_live [OF inv, of p e] own
  by (intro end_uplink_eq [OF u]) (auto simp: up_good_def)

lemma stage_up_simps [simp]:
  "up_queue (stage_up k u) = up_queue u" "up_wblock (stage_up k u) = up_wblock u"
  "up_rblock (stage_up k u) = stage_block k (up_rblock u)" "up_sending (stage_up k u) = (stage_block k (up_rblock u) \<noteq> None)"
  by (simp_all add: stage_up_def Let_def)

lemma pb_chunk_freed: "x \<noteq> a \<Longrightarrow> pb_chunk (bs |` (- {a})) x = pb_chunk bs x"
  by (simp add: pb_chunk_def)

lemma up_owned_stage: "up_owned (stage_up k u) = ptr_list (up_wblock u) @ ptr_list (stage_block k (up_rblock u)) @ up_queue u"
  by (simp add: up_owned_def)

text \<open>The piece of \<open>process_uplink\<close> that takes a block from the queue.\<close>

lemma core_get:
  assumes core: "up_core c p (KProc (PGet closed)) sub wtn snt failed u m" and q: "up_queue u = a # q"
  shows "up_core c p (KProc (PTake a closed)) sub wtn snt failed (u\<lparr>up_queue := q\<rparr>) (put_up p (u\<lparr>up_queue := q\<rparr>) m)"
proof (rule up_coreI)
  note D = up_coreD [OF core]
  let ?u = "u\<lparr>up_queue := q\<rparr>" and ?k = "KProc (PTake a closed)"
  have own: "mset (up_owned (stage_up ?k ?u)) = mset (up_owned (stage_up (KProc (PGet closed)) u))"
    using q by (simp add: up_owned_stage)
  show "up_inv c (up_put p (blocks (put_up p ?u m)) (stage_up ?k ?u) (put_up p ?u m))"
    using up_put_move [OF D(2) own] by (simp add: put_up_eq)
  show "stage_data ?k wtn snt (blocks (put_up p ?u m)) ?u"
    using D(6) q by (simp add: stage_data_def stage_bytes_def up_held_def up_queued_def up_open_chunk_def)
  show "stage_solid ?k sub wtn (blocks (put_up p ?u m)) ?u"
    using D(7) q by (auto simp: stage_solid_def stage_bytes_def up_queued_def up_open_chunk_def)
  show "stage_last ?k sub wtn snt failed (up_queue ?u)"
    using D(9) q by (auto simp: stage_last_def)
qed (use up_coreD [OF core] q in \<open>auto split: if_splits\<close>)

text \<open>A block that is not the uplink's any more is freed.\<close>

lemma stage_freed:
  assumes inv: "up_inv c (up_put p (blocks m) (stage_up k u) m)" and a: "stage_block k (up_rblock u) = Some a"
  shows "up_queued (blocks m |` (- {a})) u = up_queued (blocks m) u"
    and "up_open_chunk (blocks m |` (- {a})) u = up_open_chunk (blocks m) u"
proof -
  have "up_good c (blocks m) (stage_up k u)" using up_invD [OF inv, of p] by simp
  then have out: "a \<notin> set (up_queue u)" "up_wblock u \<noteq> Some a"
    using a by (auto simp: up_good_def up_owned_stage)
  then show "up_queued (blocks m |` (- {a})) u = up_queued (blocks m) u"
    by (auto simp: up_queued_def intro!: pb_chunk_freed)
  show "up_open_chunk (blocks m |` (- {a})) u = up_open_chunk (blocks m) u"
    using out by (cases "up_wblock u") (simp_all add: up_open_chunk_def pb_chunk_freed)
qed

text \<open>The piece that drops an empty block and the one that hands a block over.\<close>

lemma core_block:
  assumes core: "up_core c p (KProc (PBlock closed)) sub wtn snt failed u m" and cloud: "cloud c"
  obtains (drop) a where "up_rblock u = Some a" "wtn = []"
      "\<And>st. proc_step c st p (PBlock closed) m =
        Some (PClear, [], up_put p (blocks m |` (- {a})) (u\<lparr>up_rblock := None\<rparr>) m)"
      "up_core c p (KProc PClear) sub wtn snt failed (u\<lparr>up_rblock := None\<rparr>)
        (up_put p (blocks m |` (- {a})) (u\<lparr>up_rblock := None\<rparr>) m)"
    | (send) cs where
      "\<And>st. proc_step c st p (PBlock closed) m =
        Some (if st = GOLIOTH_OK then PExit else PEnd POUCH_GATEWAY_UPLINK_ERROR_LOCAL,
          [UplinkBlock (up_session u) (up_block_idx u) cs (up_queue u = [] \<and> closed)],
          put_up p (u\<lparr>up_block_idx := up_block_idx u + 1\<rparr>) m)"
      "\<And>k. k = KClient \<or> k = KProc (PEnd POUCH_GATEWAY_UPLINK_ERROR_LOCAL) \<Longrightarrow>
        up_core c p k sub wtn (snt @ [(up_block_idx u, cs, up_queue u = [] \<and> closed)]) failed
          (u\<lparr>up_block_idx := up_block_idx u + 1\<rparr>) (put_up p (u\<lparr>up_block_idx := up_block_idx u + 1\<rparr>) m)"
proof -
  note D = up_coreD [OF core]
  let ?k = "KProc (PBlock closed)"
  obtain a where a: "up_rblock u = Some a" using D(3) by auto
  have good: "up_good c (blocks m) (stage_up ?k u)" using up_invD [OF D(2), of p] by simp
  obtain b where b: "blocks m a = Some b" "pb_ok c b"
    using up_good_block [OF good, of a] a by (auto simp: up_owned_stage)
  have bytes: "stage_bytes ?k (blocks m) u = pb_cells b" using a b by (simp add: stage_bytes_def pb_chunk_def)
  show thesis
  proof (cases "pb_len b = 0")
    case True
    let ?u = "u\<lparr>up_rblock := None\<rparr>" and ?bs = "blocks m |` (- {a})"
    have nil: "pb_cells b = []" using True by (simp add: pb_cells_def)
    have wtn: "sub" "wtn = []" using D(7) nil bytes by (simp_all add: stage_solid_def)
    have sb: "stage_block ?k (up_rblock u) = Some a" using a by simp
    have ch: "up_queued ?bs ?u = up_queued (blocks m) u" "up_open_chunk ?bs ?u = up_open_chunk (blocks m) u"
      using stage_freed [OF D(2) sb] by (simp_all add: up_queued_def up_open_chunk_def)
    have none: "stage_bytes (KProc PClear) ?bs ?u = []" by (simp add: stage_bytes_def)
    have core': "up_core c p (KProc PClear) sub wtn snt failed ?u (up_put p ?bs ?u m)"
    proof (rule up_coreI)
      have own: "mset (up_owned (stage_up ?k u)) = mset (a # up_owned (stage_up (KProc PClear) ?u))"
        using a by (simp add: up_owned_stage)
      show "up_inv c (up_put p (blocks (up_put p ?bs ?u m)) (stage_up (KProc PClear) ?u) (up_put p ?bs ?u m))"
        using up_put_drop [OF D(2) own] by simp
      show "stage_data (KProc PClear) wtn snt (blocks (up_put p ?bs ?u m)) ?u"
        using D(6) bytes nil ch none by (simp add: stage_data_def up_held_def)
      show "stage_last (KProc PClear) sub wtn snt failed (up_queue ?u)"
        using D(9) wtn by (auto simp: stage_last_def)
    qed (use D wtn in \<open>auto simp: stage_solid_def split: if_splits\<close>)
    show thesis
      using D(1) a wtn b True core' by (intro drop [of a]) (simp_all add: upd_None_restrict)
  next
    case False
    then have ne: "pb_cells b \<noteq> []" using length_pb_cells [OF b(2)] by (auto simp: unat_eq_zero)
    have get: "memcpy_from (pb_data b) 0 (unat (pb_len b)) = Some (pb_cells b)"
      using b(2) by (simp add: pb_ok_def pb_cells_def word_le_nat_alt)
    let ?u = "u\<lparr>up_block_idx := up_block_idx u + 1\<rparr>"
    let ?snt = "snt @ [(up_block_idx u, pb_cells b, up_queue u = [] \<and> closed)]"
    have core': "up_core c p k sub wtn ?snt failed ?u (put_up p ?u m)"
      if k: "k = KClient \<or> k = KProc (PEnd POUCH_GATEWAY_UPLINK_ERROR_LOCAL)" for k
    proof (rule up_coreI)
      have own: "mset (up_owned (stage_up k ?u)) = mset (up_owned (stage_up ?k u))"
        using k by (auto simp: up_owned_stage)
      show "up_inv c (up_put p (blocks (put_up p ?u m)) (stage_up k ?u) (put_up p ?u m))"
        using up_put_move [OF D(2) own] by (simp add: put_up_eq)
      show "stage_data k wtn ?snt (blocks (put_up p ?u m)) ?u"
        using D(6) bytes k
        by (auto simp: stage_data_def stage_bytes_def up_held_def up_queued_def up_open_chunk_def sent_bytes_def)
      show "stage_solid k sub wtn (blocks (put_up p ?u m)) ?u"
        using D(7) k by (auto simp: stage_solid_def up_queued_def up_open_chunk_def)
      have "True \<notin> set (lasts snt)" using D(9) by (auto simp: stage_last_def)
      then show "stage_last k sub wtn ?snt failed (up_queue ?u)"
        using D(8,9) k by (auto simp: stage_last_def butlast_append split: if_splits)
    qed (use D k in \<open>auto split: if_splits\<close>)
    show thesis
      using D(1) a b False cloud get core' by (intro send [of "pb_cells b"]) simp_all
  qed
qed

text \<open>The other pieces of \<open>process_uplink\<close>.\<close>

lemma stage_last_unsent:
  "stage_unsent k' = stage_unsent k \<Longrightarrow> stage_last k' sub wtn snt failed q \<longleftrightarrow> stage_last k sub wtn snt failed q"
  by (simp only: stage_last_def)

lemma core_move:
  assumes core: "up_core c p k sub wtn snt failed u m" and u': "u' = u\<lparr>up_rblock := r, up_sending := b\<rparr>"
    and same: "stage_block k' r = stage_block k (up_rblock u)" "stage_unsent k' = stage_unsent k"
    and fits: "stage_fits k' r" "b = stage_locked k'" "stage_reads k' sub failed (up_queue u)"
  shows "up_core c p k' sub wtn snt failed u' (put_up p u' m)"
proof (rule up_coreI)
  note D = up_coreD [OF core]
  have "stage_up k' u' = stage_up k u" using same u' by (simp add: stage_up_def)
  then show "up_inv c (up_put p (blocks (put_up p u' m)) (stage_up k' u') (put_up p u' m))"
    using D(2) by (simp add: put_up_eq)
  have "stage_bytes k' (blocks m) u' = stage_bytes k (blocks m) u" using same u' by (simp add: stage_bytes_def)
  moreover have "up_queued (blocks m) u' = up_queued (blocks m) u" "up_open_chunk (blocks m) u' = up_open_chunk (blocks m) u"
    using u' by (simp_all add: up_queued_def up_open_chunk_def)
  ultimately have "stage_data k' wtn snt (blocks m) u' \<longleftrightarrow> stage_data k wtn snt (blocks m) u"
    "stage_solid k' sub wtn (blocks m) u' \<longleftrightarrow> stage_solid k sub wtn (blocks m) u"
    using same u' by (simp_all add: stage_data_def stage_solid_def up_held_def)
  then show "stage_data k' wtn snt (blocks (put_up p u' m)) u'" "stage_solid k' sub wtn (blocks (put_up p u' m)) u'"
    using D(6,7) by simp_all
  show "stage_last k' sub wtn snt failed (up_queue u')" using D(9) u' stage_last_unsent [OF same(2)] by simp
  show "sub_ok sub failed (up_closed u') (up_wblock u')" using D(5) u' by simp
qed (use fits u' in simp_all)

lemma core_stay:
  assumes core: "up_core c p k sub wtn snt failed u m"
    and same: "stage_block k' (up_rblock u) = stage_block k (up_rblock u)" "stage_unsent k' = stage_unsent k"
    and fits: "stage_fits k' (up_rblock u)" "stage_locked k = stage_locked k'" "stage_reads k' sub failed (up_queue u)"
  shows "up_core c p k' sub wtn snt failed u m"
proof -
  note D = up_coreD [OF core]
  have u: "u = u\<lparr>up_rblock := up_rblock u, up_sending := up_sending u\<rparr>" by simp
  have "put_up p u m = m" using D(1) by (cases m) (simp add: put_up_def fun_upd_idem)
  with core_move [OF core u same fits(1) _ fits(3)] D(4) fits(2) show ?thesis by simp
qed

lemma core_end:
  assumes core: "up_core c p k sub wtn snt failed u m" and k: "k = KFail \<or> (\<exists>res. k = KProc (PEnd res))"
  shows "end_uplink c res p m = Some (end_events c res u, up_removed p u m)"
proof -
  note D = up_coreD [OF core]
  have "up_owned (stage_up k u) = up_owned u"
    using D(3) k by (auto simp: up_owned_stage up_owned_def)
  then show ?thesis using up_put_end [OF D(2,1)] by simp
qed

fun proc_next :: "proc_pc \<Rightarrow> proc_pc \<Rightarrow> up_stage" where
  "proc_next (PBlock closed) PExit = KClient"
| "proc_next pc PExit = KIdle"
| "proc_next pc pc' = KProc pc'"

lemma core_proc:
  assumes core: "up_core c p (KProc pc) sub wtn snt failed u m" and cloud: "cloud c"
    and closed: "pc = PClosed \<longrightarrow> up_closed u = sub"
  obtains (ended) res where "pc = PEnd res"
      "proc_step c st p pc m = Some (PExit, end_events c res u, up_removed p u m)"
    | (moved) pc' ev u' m' where "proc_step c st p pc m = Some (pc', ev, m')" "pc' \<noteq> PSet" "end_of ev = None"
      "up_closed u' = up_closed u" "up_core c p (proc_next pc pc') sub wtn (snt @ sent_of ev) failed u' m'"
      "sub \<Longrightarrow> wtn \<noteq> [] \<Longrightarrow> pc \<noteq> PClear \<Longrightarrow> proc_next pc pc' \<noteq> KIdle \<and> proc_next pc pc' \<noteq> KProc PClear"
proof (cases pc)
  case PSet
  then show thesis using up_coreD(3) [OF core] by simp
next
  case PExit
  then show thesis using up_coreD(3) [OF core] by simp
next
  case PClosed
  note D = up_coreD [OF core]
  have "up_core c p (KProc (PGet (up_closed u))) sub wtn snt failed u m"
    using core_stay [OF core, of "KProc (PGet (up_closed u))"] D(3) closed PClosed by simp
  then show thesis using PClosed D(1) by (intro moved [of "PGet (up_closed u)" "[]" m u]) simp_all
next
  case (PGet b)
  note D = up_coreD [OF core]
  show thesis
  proof (cases "up_queue u")
    case Nil
    let ?pc = "if b then PEnd POUCH_GATEWAY_UPLINK_SUCCESS else PClear"
    have "up_core c p (KProc ?pc) sub wtn snt failed u m"
      using core_stay [OF core, of "KProc ?pc"] D(3,8) Nil PGet by (auto split: if_splits)
    then show thesis using PGet D(1,8) Nil
      by (intro moved [of ?pc "[]" m u]) (auto split: if_splits)
  next
    case (Cons a q)
    show thesis using core_get [OF core [unfolded PGet] Cons] PGet D(1) Cons
      by (intro moved [of "PTake a b" "[]" "put_up p (u\<lparr>up_queue := q\<rparr>) m" "u\<lparr>up_queue := q\<rparr>"]) simp_all
  qed
next
  case (PTake a b)
  note D = up_coreD [OF core]
  have "u\<lparr>up_rblock := Some a\<rparr> = u\<lparr>up_rblock := Some a, up_sending := True\<rparr>" using D(4) by (cases u) simp
  from core_move [OF core this, of "KProc (PBlock b)"] D(8) PTake D(1) show thesis
    by (intro moved [of "PBlock b" "[]" "put_up p (u\<lparr>up_rblock := Some a\<rparr>) m" "u\<lparr>up_rblock := Some a\<rparr>"]) simp_all
next
  case (PBlock b)
  from core [unfolded PBlock] cloud show thesis
  proof (cases rule: core_block)
    case (drop a)
    then show thesis using PBlock
      by (intro moved [of PClear "[]" "up_put p (blocks m |` (- {a})) (u\<lparr>up_rblock := None\<rparr>) m" "u\<lparr>up_rblock := None\<rparr>"]) simp_all
  next
    case (send cs)
    let ?pc = "if st = GOLIOTH_OK then PExit else PEnd POUCH_GATEWAY_UPLINK_ERROR_LOCAL"
    let ?ev = "[UplinkBlock (up_session u) (up_block_idx u) cs (up_queue u = [] \<and> b)]"
    show thesis using PBlock send(1) [of st] send(2) [of "proc_next (PBlock b) ?pc"]
      by (intro moved [of ?pc ?ev "put_up p (u\<lparr>up_block_idx := up_block_idx u + 1\<rparr>) m" "u\<lparr>up_block_idx := up_block_idx u + 1\<rparr>"])
         (simp_all del: proc_step.simps split: if_splits)
  qed
next
  case PClear
  note D = up_coreD [OF core]
  have "u\<lparr>up_sending := False\<rparr> = u\<lparr>up_rblock := up_rblock u, up_sending := False\<rparr>" by simp
  from core_move [OF core this, of KIdle] D(1,3) PClear show thesis
    by (intro moved [of PExit "[]" "put_up p (u\<lparr>up_sending := False\<rparr>) m" "u\<lparr>up_sending := False\<rparr>"]) simp_all
next
  case (PEnd res)
  show thesis using core_end [OF core, of res] PEnd by (intro ended [of res]) simp_all
qed

text \<open>The sending flag is taken, and the pieces of the callback.\<close>

lemma core_acquire:
  assumes core: "up_core c p KIdle sub wtn snt failed u m"
  shows "up_core c p (KProc PClosed) sub wtn snt failed (u\<lparr>up_sending := True\<rparr>) (put_up p (u\<lparr>up_sending := True\<rparr>) m)"
proof -
  have "u\<lparr>up_sending := True\<rparr> = u\<lparr>up_rblock := up_rblock u, up_sending := True\<rparr>" by simp
  from core_move [OF core this, of "KProc PClosed"] up_coreD(3) [OF core] show ?thesis by simp
qed

lemma core_begun:
  assumes core: "up_core c p KClient sub wtn snt failed u m"
  shows "up_core c p KAcked sub wtn snt failed (u\<lparr>up_sending := False\<rparr>) (put_up p (u\<lparr>up_sending := False\<rparr>) m)"
proof -
  have "u\<lparr>up_sending := False\<rparr> = u\<lparr>up_rblock := up_rblock u, up_sending := False\<rparr>" by simp
  from core_move [OF core this, of KAcked] up_coreD(3) [OF core] show ?thesis by simp
qed

lemma core_free:
  assumes core: "up_core c p KAcked sub wtn snt failed u m"
  obtains a where "heap_free (blocks m) (up_rblock u) = Some (blocks m |` (- {a}))"
    and "up_core c p KNull sub wtn snt failed u (m\<lparr>blocks := blocks m |` (- {a})\<rparr>)"
proof -
  note D = up_coreD [OF core]
  obtain a where a: "up_rblock u = Some a" using D(3) by auto
  have sb: "stage_block KAcked (up_rblock u) = Some a" using a by simp
  have live: "a \<in> dom (blocks m)" using up_inv_live [OF D(2), of p] a by (simp add: up_owned_stage)
  note ch = stage_freed [OF D(2) sb]
  have "up_core c p KNull sub wtn snt failed u (m\<lparr>blocks := blocks m |` (- {a})\<rparr>)"
  proof (rule up_coreI)
    have own: "mset (up_owned (stage_up KAcked u)) = mset (a # up_owned (stage_up KNull u))"
      using a by (simp add: up_owned_stage)
    show "up_inv c (up_put p (blocks (m\<lparr>blocks := blocks m |` (- {a})\<rparr>)) (stage_up KNull u) (m\<lparr>blocks := blocks m |` (- {a})\<rparr>))"
      using up_put_drop [OF D(2) own] by simp
    show "stage_data KNull wtn snt (blocks (m\<lparr>blocks := blocks m |` (- {a})\<rparr>)) u"
      using D(6) ch by (simp add: stage_data_def stage_bytes_def up_held_def)
    show "stage_solid KNull sub wtn (blocks (m\<lparr>blocks := blocks m |` (- {a})\<rparr>)) u"
      using D(7) ch by (simp only: stage_solid_def) simp
    show "stage_last KNull sub wtn snt failed (up_queue u)"
      using D(9) stage_last_unsent [of KNull KAcked] by simp
  qed (use D in simp_all)
  moreover obtain b where "blocks m a = Some b" using live by auto
  ultimately show thesis using a that [of a] by (simp add: upd_None_restrict)
qed

lemma core_null:
  assumes core: "up_core c p KNull sub wtn snt failed u m" and k: "k = KIdle \<or> k = KFail"
  shows "up_core c p k sub wtn snt failed (u\<lparr>up_rblock := None\<rparr>) (put_up p (u\<lparr>up_rblock := None\<rparr>) m)"
proof -
  have "u\<lparr>up_rblock := None\<rparr> = u\<lparr>up_rblock := None, up_sending := False\<rparr>" using up_coreD(4) [OF core] by (cases u) simp
  from core_move [OF core this, of k] k show ?thesis by auto
qed

text \<open>The pieces of the writer. Before the last block is in the queue, closing changes
  nothing.\<close>

lemma core_closing:
  assumes core: "up_core c p k False wtn snt failed u m"
  shows "up_core c p k False wtn snt failed (u\<lparr>up_closed := True\<rparr>) (put_up p (u\<lparr>up_closed := True\<rparr>) m)"
proof (rule up_coreI)
  note D = up_coreD [OF core]
  let ?u = "u\<lparr>up_closed := True\<rparr>"
  have own: "mset (up_owned (stage_up k ?u)) = mset (up_owned (stage_up k u))" by (simp add: up_owned_stage)
  show "up_inv c (up_put p (blocks (put_up p ?u m)) (stage_up k ?u) (put_up p ?u m))"
    using up_put_move [OF D(2) own] by (simp add: put_up_eq)
  have "stage_bytes k (blocks m) ?u = stage_bytes k (blocks m) u" "up_queued (blocks m) ?u = up_queued (blocks m) u"
    "up_open_chunk (blocks m) ?u = up_open_chunk (blocks m) u"
    by (simp_all add: stage_bytes_def up_queued_def up_open_chunk_def)
  then have "stage_data k wtn snt (blocks m) ?u \<longleftrightarrow> stage_data k wtn snt (blocks m) u"
    "stage_solid k False wtn (blocks m) ?u \<longleftrightarrow> stage_solid k False wtn (blocks m) u"
    by (simp_all add: stage_data_def stage_solid_def up_held_def)
  then show "stage_data k wtn snt (blocks (put_up p ?u m)) ?u" "stage_solid k False wtn (blocks (put_up p ?u m)) ?u"
    using D(6,7) by simp_all
qed (use up_coreD [OF core] in \<open>simp_all add: sub_ok_def\<close>)

text \<open>As long as the last block is not in the queue, what was read and marked does not depend
  on the queue.\<close>

lemma stage_reads_open: "stage_reads k False failed q \<Longrightarrow> stage_reads k False failed' q'"
  by (cases "(k, False, failed, q)" rule: stage_reads.cases) auto

lemma stage_last_open: "stage_last k False wtn snt failed q \<longleftrightarrow> True \<notin> set (lasts snt)"
  unfolding stage_last_def by (auto dest: in_set_butlastD)

lemma stage_last_submit:
  assumes "stage_last k False wtn snt failed q"
  shows "stage_last k True wtn snt failed (q @ [w])" and "failed \<Longrightarrow> stage_last k True wtn snt failed q"
  using assms unfolding stage_last_def by blast+

lemma stage_reads_submit:
  assumes "stage_reads k False failed q" and "\<not> (k = KProc (PGet False) \<and> q = [])"
  shows "stage_reads k True failed (q @ [w])" and "failed \<Longrightarrow> stage_reads k True failed q"
  using assms by (cases "(k, False, failed, q)" rule: stage_reads.cases; auto split: if_splits)+

lemma core_submit:
  assumes core: "up_core c p k False wtn snt failed u m" and closed: "up_closed u"
    and window: "\<not> (k = KProc (PGet False) \<and> up_queue u = [])"
  obtains u' where "(if up_wblock u \<noteq> None then submit_block u else Some u) = Some u'" "up_closed u'"
    and "up_core c p k True wtn snt failed u' (put_up p u' m)"
proof -
  note D = up_coreD [OF core]
  show thesis
  proof (cases "up_wblock u")
    case None
    have failed: failed using D(5) None by (simp add: sub_ok_def)
    have "put_up p u m = m" using D(1) by (cases m) (simp add: put_up_def fun_upd_idem)
    moreover have "up_core c p k True wtn snt failed u m"
    proof (rule up_coreI)
      show "stage_reads k True failed (up_queue u)"
        using stage_reads_submit(2) [OF D(8) window failed] .
      show "stage_last k True wtn snt failed (up_queue u)"
        using stage_last_submit(2) [OF D(9) failed] .
    qed (use D None closed failed in \<open>auto simp: sub_ok_def stage_solid_def\<close>)
    ultimately show thesis using None closed by (intro that [of u]) simp_all
  next
    case (Some w)
    let ?u = "u\<lparr>up_queue := up_queue u @ [w], up_wblock := None\<rparr>"
    have ch: "up_queued (blocks m) ?u = up_queued (blocks m) u @ [up_open_chunk (blocks m) u]"
      "up_open_chunk (blocks m) ?u = []" "stage_bytes k (blocks m) ?u = stage_bytes k (blocks m) u"
      using Some by (simp_all add: up_queued_def up_open_chunk_def stage_bytes_def)
    have "up_core c p k True wtn snt failed ?u (put_up p ?u m)"
    proof (rule up_coreI)
      have own: "mset (up_owned (stage_up k ?u)) = mset (up_owned (stage_up k u))" using Some by (simp add: up_owned_stage)
      show "up_inv c (up_put p (blocks (put_up p ?u m)) (stage_up k ?u) (put_up p ?u m))"
        using up_put_move [OF D(2) own] by (simp add: put_up_eq)
      show "stage_data k wtn snt (blocks (put_up p ?u m)) ?u"
        using D(6) ch by (simp add: stage_data_def up_held_def)
      show "stage_solid k True wtn (blocks (put_up p ?u m)) ?u"
        using D(7) ch Some by (simp only: stage_solid_def) auto
      show "stage_reads k True failed (up_queue ?u)"
        using stage_reads_submit(1) [OF D(8) window] by simp
      show "stage_last k True wtn snt failed (up_queue ?u)"
        using stage_last_submit(1) [OF D(9)] by simp
    qed (use D closed in \<open>simp_all add: sub_ok_def\<close>)
    then show thesis using Some closed by (intro that [of ?u]) (simp_all add: submit_block_def fifo_put_def)
  qed
qed

text \<open>An iteration of the write loop does not look at the block in process.\<close>

lemma submit_if_full_apart:
  "submit_if_full c (u\<lparr>up_rblock := r, up_sending := b\<rparr>) bs =
     map_option (\<lambda>u'. u'\<lparr>up_rblock := r, up_sending := b\<rparr>) (submit_if_full c u bs)"
  by (cases u) (simp add: submit_if_full_def submit_block_def split: option.split bind_split)

lemma write_piece_apart:
  "write_piece c mal payload len (u\<lparr>up_rblock := r, up_sending := b\<rparr>) bs =
     map_option (\<lambda>(rest, u', bs'). (rest, u'\<lparr>up_rblock := r, up_sending := b\<rparr>, bs'))
       (write_piece c mal payload len u bs)"
proof (cases "submit_if_full c u bs")
  case None
  then show ?thesis by (simp add: write_piece_def submit_if_full_apart)
next
  case (Some u1)
  have "ensure_wblock c mal (u1\<lparr>up_rblock := r, up_sending := b\<rparr>) bs = ensure_wblock c mal u1 bs"
    by (simp add: ensure_wblock_def)
  then show ?thesis using Some
    by (cases u1) (auto simp: write_piece_def submit_if_full_apart Let_def split: option.split bind_split prod.split)
qed

lemma write_piece_stage:
  assumes "write_piece c mal payload len (stage_up k u) bs = Some (rest, u', bs')"
  shows "write_piece c mal payload len u bs =
    Some (rest, u'\<lparr>up_rblock := up_rblock u, up_sending := up_sending u\<rparr>, bs')"
proof -
  have "(stage_up k u)\<lparr>up_rblock := up_rblock u, up_sending := up_sending u\<rparr> = u"
    by (simp add: stage_up_def Let_def)
  then show ?thesis
    using write_piece_apart [of c mal payload len "up_sending u" "up_rblock u" "stage_up k u" bs] assms by simp
qed

lemma core_wrote:
  assumes core: "up_core c p k False wtn snt failed u m"
    and inv: "up_inv c (up_put p bs' e1 m)" and wr: "up_wrote c (blocks m) (stage_up k u) xs bs' e1"
    and u': "u' = e1\<lparr>up_rblock := up_rblock u, up_sending := up_sending u\<rparr>"
    and f: "failed \<longrightarrow> failed'" "up_wblock e1 = None \<longrightarrow> failed'"
    and open_: "up_wblock e1 = None \<or> up_open_chunk bs' e1 \<noteq> []"
    and r: "\<forall>a. stage_block k (up_rblock u) = Some a \<longrightarrow> bs' a = blocks m a" and max: "block_max c \<noteq> 0"
  shows "up_core c p k False (wtn @ xs) snt failed' u' (up_put p bs' u' m)" and "up_closed u' = up_closed u"
proof -
  note D = up_coreD [OF core]
  have e1: "e1 = (stage_up k u)\<lparr>up_wblock := up_wblock e1, up_queue := up_queue e1\<rparr>"
    using wr by (simp add: up_wrote_def)
  have upd: "u' = u\<lparr>up_wblock := up_wblock e1, up_queue := up_queue e1\<rparr>"
    unfolding u' by (subst e1) (simp add: stage_up_def Let_def)
  then show "up_closed u' = up_closed u" by simp
  have same: "up_queued bs' u' = up_queued bs' e1" "up_open_chunk bs' u' = up_open_chunk bs' e1" "up_held bs' u' = up_held bs' e1"
    "up_queued bs (stage_up k u) = up_queued bs u" "up_held bs (stage_up k u) = up_held bs u" for bs
    using upd by (simp_all add: up_queued_def up_open_chunk_def up_held_def)
  obtain new where new: "up_queued bs' u' = up_queued (blocks m) u @ new" "\<forall>x \<in> set new. length x = unat (block_max c)"
    using wr same by (auto simp: up_wrote_def)
  have held: "up_held bs' u' = up_held (blocks m) u @ xs" using wr same by (simp add: up_wrote_def)
  have bytes: "stage_bytes k bs' u' = stage_bytes k (blocks m) u"
    using r upd by (cases "stage_block k (up_rblock u)") (simp_all add: stage_bytes_def pb_chunk_def)
  have eff: "stage_up k u' = e1" unfolding upd by (subst (3) e1) (simp add: stage_up_def Let_def)
  have "[] \<notin> set new" using new(2) max by (auto simp: unat_eq_zero)
  show "up_core c p k False (wtn @ xs) snt failed' u' (up_put p bs' u' m)"
  proof (rule up_coreI)
    show "up_inv c (up_put p (blocks (up_put p bs' u' m)) (stage_up k u') (up_put p bs' u' m))"
      using inv eff by simp
    show "stage_data k (wtn @ xs) snt (blocks (up_put p bs' u' m)) u'"
      using D(6) held bytes upd by (simp add: stage_data_def)
    show "stage_solid k False (wtn @ xs) (blocks (up_put p bs' u' m)) u'"
      using D(7) new(1) \<open>[] \<notin> set new\<close> bytes open_ same(2) upd by (auto simp: stage_solid_def)
    show "stage_reads k False failed' (up_queue u')" using stage_reads_open [OF D(8)] .
    show "stage_last k False (wtn @ xs) snt failed' (up_queue u')" using D(9) by (simp add: stage_last_open)
    show "sub_ok False failed' (up_closed u') (up_wblock u')" using f upd by (auto simp: sub_ok_def)
  qed (use D(3,4) upd in simp_all)
qed

lemma core_write:
  assumes core: "up_core c p k False wtn snt failed u m" and mal: "malloc_ok mal" and max: "block_max c \<noteq> 0"
    and len: "len \<noteq> 0" "unat len = length payload"
  obtains (fail) u' where "write_piece c mal payload len u (blocks m) = Some (None, u', blocks m)"
      "up_closed u' = up_closed u" "up_core c p k False wtn snt True u' (put_up p u' m)"
    | (step) pl n u' bs' where "write_piece c mal payload len u (blocks m) = Some (Some (pl, n), u', bs')"
      "unat n = length pl" "up_closed u' = up_closed u"
      "up_core c p k False (wtn @ map Some (take (length payload - length pl) payload)) snt failed u' (up_put p bs' u' m)"
proof -
  note D = up_coreD [OF core]
  have len': "unat len \<le> length payload" using len by simp
  from D(2) mal max len(1) len' show thesis
  proof (cases rule: write_piece_ok)
    case (fail e1)
    let ?u = "e1\<lparr>up_rblock := up_rblock u, up_sending := up_sending u\<rparr>"
    show thesis
      using core_wrote [OF core fail(2,3), of ?u True] fail(4) max
      by (intro that(1) [OF write_piece_stage [OF fail(1)]]) (simp_all add: put_up_eq)
  next
    case (step j e1 bs')
    let ?u = "e1\<lparr>up_rblock := up_rblock u, up_sending := up_sending u\<rparr>" and ?n = "len - of_nat j"
    have j: "length payload - length (drop j payload) = j" using step(2) len by simp
    have n: "unat ?n = length (drop j payload)"
      using step(2) unat_size_bound [of len] len
      by (subst unat_diff_word) (simp_all add: word_le_nat_alt unat_of_nat_size)
    have w: "up_wblock e1 \<noteq> None" using step(7) by (cases "up_wblock e1") (simp_all add: up_open_chunk_def)
    have "up_core c p k False (wtn @ map Some (take j payload)) snt failed ?u (up_put p bs' ?u m)"
      "up_closed ?u = up_closed u"
      using core_wrote [OF core step(4,5), of ?u failed] w step(7,8) max by simp_all
    then show thesis
      using that(2) [OF write_piece_stage [OF step(3)] n] j by simp
  qed
qed

end
