(* ===== verification/Uplink_Threads.thy ===== *)
theory Uplink_Threads
  imports Uplink_Stages
begin

text \<open>
  The two threads of an uplink, which only the flag \<open>POUCH_UPLINK_SENDING\<close> keeps apart:
  \<open>ut_reach\<close> lets the pieces of \<open>Uplink_Pieces\<close> follow one another in any order, the ghost
  \<open>ut_raced\<close> marks four windows. The results: outside of the windows the blocks sent are
  the bytes written, in order and numbered, nothing is leaked, and a closed uplink ends, with
  all bytes sent and the last block marked if it ends with success; an uplink that is freed
  under a call of the other thread is the one way to undefined behaviour; inside each of
  the windows one of these fails.
\<close>

section \<open>Two threads\<close>

text \<open>The state: the memory, where the threads stand, whether a block is with the cloud
  client (which calls back once for it), and ghosts: the bytes written, the blocks sent with
  index and last-block flag, what \<open>end_cb\<close> reported, whether \<open>close\<close> was called, whether a
  write ran out of memory, and whether one of the windows was hit.\<close>

record up_threads =
  ut_mem :: up_mem
  ut_cb :: cb_pc
  ut_wr :: wr_pc
  ut_pending :: bool
  ut_written :: "cell list"
  ut_sent :: "(32 word \<times> cell list \<times> bool) list"
  ut_end :: "uplink_result option"
  ut_closing :: bool
  ut_failed :: bool
  ut_raced :: bool

definition ut_start :: "up_mem \<Rightarrow> up_threads" where
  "ut_start m = \<lparr>ut_mem = m, ut_cb = CbIdle, ut_wr = WIdle, ut_pending = False, ut_written = [], ut_sent = [],
     ut_end = None, ut_closing = False, ut_failed = False, ut_raced = False\<rparr>"

definition ut_log :: "up_event list \<Rightarrow> up_threads \<Rightarrow> up_threads" where
  "ut_log ev s = s\<lparr>ut_sent := ut_sent s @ sent_of ev,
     ut_end := (case end_of ev of None \<Rightarrow> ut_end s | Some res \<Rightarrow> Some res)\<rparr>"

fun wr_added :: "wr_pc \<Rightarrow> wr_pc \<Rightarrow> cell list" where
  "wr_added (WLoop payload len) (WLoop payload' len') = map Some (take (length payload - length payload') payload)"
| "wr_added _ _ = []"

fun cb_accepted :: "cb_pc \<Rightarrow> cb_pc \<Rightarrow> bool" where
  "cb_accepted (CbProc (PBlock closed)) pc' = (pc' = CbIdle)"
| "cb_accepted _ _ = False"

fun wr_accepted :: "wr_pc \<Rightarrow> wr_pc \<Rightarrow> bool" where
  "wr_accepted (WProc (PBlock closed)) pc' = (pc' = WIdle)"
| "wr_accepted _ _ = False"

fun wr_no_memory :: "wr_pc \<Rightarrow> wr_pc \<Rightarrow> bool" where
  "wr_no_memory (WLoop payload len) pc' = (pc' = WIdle)"
| "wr_no_memory _ _ = False"

text \<open>The windows. The transport's thread gets the sending flag while the callback has cleared
  it and not yet finished with the acknowledged block, or finds it set while the cloud's
  thread, having seen the queue empty and the uplink open, is about to clear it; it appends
  the last block between the other's reading of the closed flag and its look at the empty
  queue; the cloud's thread reads the closed flag before that block is appended.\<close>

fun cb_finishing :: "cb_pc \<Rightarrow> bool" where
  "cb_finishing (CbFree status) = True"
| "cb_finishing (CbNull status) = True"
| "cb_finishing CbEnd = True"
| "cb_finishing _ = False"

fun wr_window :: "wr_pc \<Rightarrow> wr_pc \<Rightarrow> cb_pc \<Rightarrow> uplink \<Rightarrow> bool" where
  "wr_window (WProc PSet) pc' cb u =
     (if pc' = WIdle then cb = CbProc PClear \<and> up_closed u else cb_finishing cb)"
| "wr_window (WSubmit closed) pc' cb u = (cb = CbProc (PGet False) \<and> up_queue u = [])"
| "wr_window _ _ _ _ = False"

fun cb_window :: "cb_pc \<Rightarrow> wr_pc \<Rightarrow> uplink \<Rightarrow> bool" where
  "cb_window (CbProc PClosed) (WSubmit closed) u = up_closed u"
| "cb_window _ _ _ = False"

definition ut_writer ::
  "config \<Rightarrow> (pouch_block store \<Rightarrow> ptr) \<Rightarrow> golioth_status \<Rightarrow> addr \<Rightarrow> up_threads \<Rightarrow> up_threads option" where
  "ut_writer c mal st p s = do {
     (pc, ev, m) \<leftarrow> wr_step c mal st p (ut_wr s) (ut_mem s);
     Some (ut_log ev (s\<lparr>ut_mem := m, ut_wr := pc, ut_pending := ut_pending s \<or> wr_accepted (ut_wr s) pc,
       ut_written := ut_written s @ wr_added (ut_wr s) pc, ut_failed := ut_failed s \<or> wr_no_memory (ut_wr s) pc,
       ut_raced := ut_raced s \<or> (case ups (ut_mem s) p of None \<Rightarrow> False | Some u \<Rightarrow> wr_window (ut_wr s) pc (ut_cb s) u)\<rparr>)) }"

definition ut_cloud :: "config \<Rightarrow> golioth_status \<Rightarrow> addr \<Rightarrow> up_threads \<Rightarrow> up_threads option" where
  "ut_cloud c st p s = do {
     (pc, ev, m) \<leftarrow> cb_step c st p (ut_cb s) (ut_mem s);
     Some (ut_log ev (s\<lparr>ut_mem := m, ut_cb := pc, ut_pending := ut_pending s \<or> cb_accepted (ut_cb s) pc,
       ut_raced := ut_raced s \<or> (case ups (ut_mem s) p of None \<Rightarrow> False | Some u \<Rightarrow> cb_window (ut_cb s) (ut_wr s) u)\<rparr>)) }"

text \<open>The steps by name: the calls of \<open>write\<close> and \<open>close\<close>, the next piece of the transport's
  thread, the call of the callback, the next piece of the cloud's thread. The transport calls
  an uplink that has not ended, and nothing after \<open>close\<close>.\<close>

datatype ut_act = UWrite "byte list" size_t | UClose | UWriter "pouch_block store \<Rightarrow> ptr" golioth_status
  | UAck golioth_status | UCloud golioth_status

fun ut_can :: "addr \<Rightarrow> up_threads \<Rightarrow> ut_act \<Rightarrow> bool" where
  "ut_can p s (UWrite payload len) =
     (ut_wr s = WIdle \<and> \<not> ut_closing s \<and> ups (ut_mem s) p \<noteq> None \<and> unat len = length payload)"
| "ut_can p s UClose = (ut_wr s = WIdle \<and> \<not> ut_closing s \<and> ups (ut_mem s) p \<noteq> None)"
| "ut_can p s (UWriter mal st) = (ut_wr s \<noteq> WIdle \<and> malloc_ok mal)"
| "ut_can p s (UAck status) = (ut_pending s \<and> ut_cb s = CbIdle)"
| "ut_can p s (UCloud st) = (ut_cb s \<noteq> CbIdle)"

fun ut_do :: "config \<Rightarrow> addr \<Rightarrow> up_threads \<Rightarrow> ut_act \<Rightarrow> up_threads option" where
  "ut_do c p s (UWrite payload len) = Some (s\<lparr>ut_wr := WLoop payload len\<rparr>)"
| "ut_do c p s UClose = do {
     (pc, m) \<leftarrow> close_enter p (ut_mem s);
     Some (s\<lparr>ut_wr := pc, ut_mem := m, ut_closing := True\<rparr>) }"
| "ut_do c p s (UWriter mal st) = ut_writer c mal st p s"
| "ut_do c p s (UAck status) = Some (s\<lparr>ut_pending := False, ut_cb := CbBegun status\<rparr>)"
| "ut_do c p s (UCloud st) = ut_cloud c st p s"

inductive ut_reach :: "config \<Rightarrow> addr \<Rightarrow> up_threads \<Rightarrow> bool" for c p where
  opened: "up_inv c m \<Longrightarrow> ups m p = None \<Longrightarrow> malloc_ok mal \<Longrightarrow>
     uplink_open c (Some p) mal session dl arg m = Some (Some p, ev, m') \<Longrightarrow> ut_reach c p (ut_start m')"
| moved: "ut_reach c p s \<Longrightarrow> ut_can p s a \<Longrightarrow> ut_do c p s a = Some s' \<Longrightarrow> ut_reach c p s'"

section \<open>The invariant of the threads\<close>

text \<open>Where the threads can stand for each stage of the block.\<close>

fun wr_quiet :: "wr_pc \<Rightarrow> bool" where
  "wr_quiet (WProc pc) = (pc = PSet)"
| "wr_quiet _ = True"

fun cb_quiet :: "cb_pc \<Rightarrow> bool" where
  "cb_quiet CbIdle = True"
| "cb_quiet (CbProc pc) = (pc = PSet)"
| "cb_quiet _ = False"

fun ut_at :: "up_stage \<Rightarrow> bool \<Rightarrow> cb_pc \<Rightarrow> wr_pc \<Rightarrow> bool" where
  "ut_at KIdle pending cb wr = (\<not> pending \<and> cb_quiet cb \<and> wr_quiet wr)"
| "ut_at (KProc pc) pending cb wr =
     (\<not> pending \<and> pc \<noteq> PSet \<and> (cb = CbProc pc \<and> wr_quiet wr \<or> cb_quiet cb \<and> wr = WProc pc))"
| "ut_at KClient pending cb wr = (wr_quiet wr \<and> (if pending then cb_quiet cb else \<exists>status. cb = CbBegun status))"
| "ut_at KAcked pending cb wr = (\<not> pending \<and> wr_quiet wr \<and> (\<exists>status. cb = CbFree status))"
| "ut_at KNull pending cb wr = (\<not> pending \<and> wr_quiet wr \<and> (\<exists>status. cb = CbNull status))"
| "ut_at KFail pending cb wr = (\<not> pending \<and> wr_quiet wr \<and> cb = CbEnd)"

fun wr_submitting :: "wr_pc \<Rightarrow> bool" where
  "wr_submitting (WSubmit closed) = True"
| "wr_submitting _ = False"

fun wr_fits :: "wr_pc \<Rightarrow> bool \<Rightarrow> bool" where
  "wr_fits (WSubmit was) closed = (\<not> was \<and> closed)"
| "wr_fits (WLoop payload len) closed = (\<not> closed \<and> unat len = length payload)"
| "wr_fits _ closed = True"

definition ut_sub :: "up_threads \<Rightarrow> uplink \<Rightarrow> bool" where
  "ut_sub s u \<longleftrightarrow> up_closed u \<and> \<not> wr_submitting (ut_wr s)"

text \<open>A closed uplink to which something was written has somebody who goes on with it.\<close>

definition ut_covered :: "up_stage \<Rightarrow> up_threads \<Rightarrow> uplink \<Rightarrow> bool" where
  "ut_covered k s u \<longleftrightarrow> (ut_sub s u \<and> ut_written s \<noteq> [] \<and> ut_wr s \<noteq> WProc PSet \<longrightarrow>
     k \<noteq> KProc PClear \<and> (k = KIdle \<longrightarrow> ut_cb s = CbProc PSet))"

definition ut_live :: "config \<Rightarrow> addr \<Rightarrow> up_stage \<Rightarrow> up_threads \<Rightarrow> uplink \<Rightarrow> bool" where
  "ut_live c p k s u \<longleftrightarrow> ut_at k (ut_pending s) (ut_cb s) (ut_wr s) \<and>
     up_core c p k (ut_sub s u) (ut_written s) (ut_sent s) (ut_failed s) u (ut_mem s) \<and>
     ut_end s = None \<and> (ut_closing s \<longleftrightarrow> up_closed u) \<and> wr_fits (ut_wr s) (up_closed u) \<and> ut_covered k s u"

text \<open>When the uplink is freed, a thread may stand before its next use.\<close>

definition ut_over :: "config \<Rightarrow> up_threads \<Rightarrow> bool" where
  "ut_over c s \<longleftrightarrow> ut_at KIdle (ut_pending s) (ut_cb s) (ut_wr s) \<and> up_inv c (ut_mem s) \<and>
     idxs (ut_sent s) = map of_nat [0..<length (ut_sent s)] \<and> True \<notin> set (butlast (lasts (ut_sent s))) \<and>
     (case ut_end s of None \<Rightarrow> False | Some res \<Rightarrow> res = POUCH_GATEWAY_UPLINK_SUCCESS \<longrightarrow>
        ut_closing s \<and> ut_written s = sent_bytes (ut_sent s) \<and>
        (ut_written s \<noteq> [] \<and> \<not> ut_failed s \<longrightarrow> True \<in> set (lasts (ut_sent s))))"

definition ut_ok :: "config \<Rightarrow> addr \<Rightarrow> up_threads \<Rightarrow> bool" where
  "ut_ok c p s \<longleftrightarrow> ut_raced s \<or>
     (case ups (ut_mem s) p of None \<Rightarrow> ut_over c s | Some u \<Rightarrow> \<exists>k. ut_live c p k s u)"

definition ut_post :: "config \<Rightarrow> addr \<Rightarrow> up_threads \<Rightarrow> up_threads option \<Rightarrow> bool" where
  "ut_post c p s r \<longleftrightarrow> (case r of None \<Rightarrow> ups (ut_mem s) p = None | Some s' \<Rightarrow> ut_ok c p s')"

lemma ut_okI: "ups (ut_mem s) p = Some u \<Longrightarrow> ut_live c p k s u \<Longrightarrow> ut_ok c p s"
  by (auto simp: ut_ok_def)

lemma ut_liveD:
  assumes "ut_live c p k s u"
  shows "ut_at k (ut_pending s) (ut_cb s) (ut_wr s)"
    and "up_core c p k (ut_sub s u) (ut_written s) (ut_sent s) (ut_failed s) u (ut_mem s)"
    and "ut_end s = None" and "ut_closing s \<longleftrightarrow> up_closed u" and "wr_fits (ut_wr s) (up_closed u)"
    and "ut_covered k s u" and "ups (ut_mem s) p = Some u"
  using assms up_coreD(1) unfolding ut_live_def by blast+

lemma ut_log_simps [simp]:
  "ut_log [] s = s"
  "ut_mem (ut_log ev s) = ut_mem s" "ut_cb (ut_log ev s) = ut_cb s" "ut_wr (ut_log ev s) = ut_wr s"
  "ut_pending (ut_log ev s) = ut_pending s" "ut_written (ut_log ev s) = ut_written s"
  "ut_sent (ut_log ev s) = ut_sent s @ sent_of ev" "ut_closing (ut_log ev s) = ut_closing s"
  "ut_failed (ut_log ev s) = ut_failed s" "ut_raced (ut_log ev s) = ut_raced s"
  "end_of ev = None \<Longrightarrow> ut_end (ut_log ev s) = ut_end s" "end_of ev = Some res \<Longrightarrow> ut_end (ut_log ev s) = Some res"
  by (simp_all add: ut_log_def)

text \<open>The uplink ends.\<close>

lemma ut_ended:
  assumes core: "up_core c p k sub (ut_written s) (ut_sent s) (ut_failed s) u m"
    and k: "k = KProc (PEnd res) \<or> k = KFail \<and> res = POUCH_GATEWAY_UPLINK_ERROR_CLOUD"
    and sub: "sub \<Longrightarrow> ut_closing s" and at: "ut_at KIdle (ut_pending s) (ut_cb s) (ut_wr s)"
    and mem: "ut_mem s = up_removed p u m"
  shows "ut_ok c p (ut_log (end_events c res u) s)"
proof -
  note D = up_coreD [OF core]
  have "sub \<and> ut_written s = sent_bytes (ut_sent s) \<and>
      (ut_written s \<noteq> [] \<and> \<not> ut_failed s \<longrightarrow> True \<in> set (lasts (ut_sent s)))"
    if "res = POUCH_GATEWAY_UPLINK_SUCCESS"
  proof -
    have kk: "k = KProc (PEnd POUCH_GATEWAY_UPLINK_SUCCESS)" using k that by auto
    have sub: sub "up_queue u = []" "up_wblock u = None" using D(5,8) kk by (auto simp: sub_ok_def)
    then have "up_held (blocks m) u = []" "stage_bytes k (blocks m) u = []"
      using kk by (simp_all add: up_held_def up_queued_def up_open_chunk_def stage_bytes_def)
    then have "ut_written s = sent_bytes (ut_sent s)" using D(6) by (simp add: stage_data_def)
    moreover have "ut_written s \<noteq> [] \<and> \<not> ut_failed s \<longrightarrow> True \<in> set (lasts (ut_sent s))"
      using D(9) sub kk unfolding stage_last_def by simp
    ultimately show ?thesis using sub by blast
  qed
  moreover have "idxs (ut_sent s) = map of_nat [0..<length (ut_sent s)]" using D(6) by (simp add: stage_data_def)
  moreover have "True \<notin> set (butlast (lasts (ut_sent s)))" using D(9) unfolding stage_last_def by blast
  moreover have "up_inv c (up_removed p u m)"
  proof -
    have own: "up_owned (stage_up k u) = up_owned u"
      using D(3) k by (auto simp: up_owned_stage up_owned_def)
    have "up_removed p (stage_up k u) (up_put p (blocks m) (stage_up k u) m) = up_removed p u m"
      using own by (simp add: up_removed_def up_put_def)
    then show ?thesis using up_removed_inv [OF D(2), of p "stage_up k u"] by simp
  qed
  ultimately have "ut_over c (ut_log (end_events c res u) s)" using at sub mem unfolding ut_over_def by simp
  then show ?thesis using mem by (simp add: ut_ok_def up_removed_def)
qed

text \<open>The steps of the cloud's thread.\<close>

lemma cb_quiet_cases: "cb_quiet cb \<Longrightarrow> cb = CbIdle \<or> cb = CbProc PSet"
  by (cases cb) simp_all

lemma ut_at_cb:
  assumes "ut_at k pending cb wr" and "cb = CbProc pc" and "pc \<noteq> PSet"
  shows "k = KProc pc" and "\<not> pending" and "wr_quiet wr"
  using assms by (cases k; auto split: if_splits)+

lemma ut_at_wr:
  assumes "ut_at k pending cb wr" and "wr = WProc pc" and "pc \<noteq> PSet"
  shows "k = KProc pc" and "\<not> pending" and "cb_quiet cb"
  using assms by (cases k; auto split: if_splits)+

lemma proc_next_exit: "pc \<noteq> PExit \<Longrightarrow> proc_next pc' pc = KProc pc"
  by (cases pc) simp_all

lemma proc_next_at_cb:
  assumes "wr_quiet wr" and "pc' \<noteq> PSet"
  shows "ut_at (proc_next pc pc') (cb_accepted (CbProc pc) (if pc' = PExit then CbIdle else CbProc pc'))
     (if pc' = PExit then CbIdle else CbProc pc') wr"
  using assms by (cases pc; cases "pc' = PExit") (simp_all add: proc_next_exit)

lemma proc_next_at_wr:
  assumes "cb_quiet cb" and "pc' \<noteq> PSet"
  shows "ut_at (proc_next pc pc') (wr_accepted (WProc pc) (if pc' = PExit then WIdle else WProc pc'))
     cb (if pc' = PExit then WIdle else WProc pc')"
  using assms by (cases pc; cases "pc' = PExit") (simp_all add: proc_next_exit)

lemma ut_cloud_proc:
  assumes live: "ut_live c p k s u" and cloud: "cloud c" and cb: "ut_cb s = CbProc pc" "pc \<noteq> PSet"
    and window: "\<not> cb_window (ut_cb s) (ut_wr s) u" and raced: "\<not> ut_raced s"
  shows "\<exists>s'. ut_cloud c st p s = Some s' \<and> ut_ok c p s'"
proof -
  note L = ut_liveD [OF live]
  note at = ut_at_cb [OF L(1) cb]
  have closed: "pc = PClosed \<longrightarrow> up_closed u = ut_sub s u"
    using window cb by (cases "ut_wr s") (auto simp: ut_sub_def)
  show ?thesis
  proof (cases rule: core_proc [OF L(2) [unfolded at(1)] cloud closed, where st = st, case_names ended moved])
    case (ended res)
    let ?s = "s\<lparr>ut_mem := up_removed p u (ut_mem s), ut_cb := CbIdle, ut_raced := False\<rparr>"
    have "ut_cloud c st p s = Some (ut_log (end_events c res u) ?s)"
      using ended cb raced L(7) by (simp add: ut_cloud_def)
    moreover have "ut_ok c p (ut_log (end_events c res u) ?s)"
      using L(2) [unfolded at(1)] ended(1) at L(4)
      by (intro ut_ended [where k = "KProc pc" and sub = "ut_sub s u" and m = "ut_mem s"]) (auto simp: ut_sub_def)
    ultimately show ?thesis by blast
  next
    case (moved pc' ev u' m')
    let ?cb = "if pc' = PExit then CbIdle else CbProc pc'"
    let ?s = "ut_log ev (s\<lparr>ut_mem := m', ut_cb := ?cb, ut_pending := cb_accepted (CbProc pc) ?cb, ut_raced := False\<rparr>)"
    have run: "ut_cloud c st p s = Some ?s"
      using moved(1) cb at raced L(7) window by (simp add: ut_cloud_def)
    have "ut_sub ?s u' = ut_sub s u" using moved(4) by (simp add: ut_sub_def)
    then have "ut_live c p (proc_next pc pc') ?s u'"
      using moved L(3-6) at proc_next_at_cb [OF at(3) moved(2), of pc]
      unfolding ut_live_def ut_covered_def by (auto simp del: ut_at.simps)
    then show ?thesis using run moved(5) up_coreD(1) [OF moved(5)] by (auto intro!: ut_okI)
  qed
qed

lemma ut_at_setter:
  assumes "ut_at k pending (CbProc PSet) wr"
  shows "if stage_locked k then ut_at k pending CbIdle wr else k = KIdle \<and> \<not> pending \<and> wr_quiet wr"
  using assms by (cases k) (auto split: if_splits)

lemma ut_cloud_set:
  assumes live: "ut_live c p k s u" and cb: "ut_cb s = CbProc PSet" and raced: "\<not> ut_raced s"
  shows "\<exists>s'. ut_cloud c st p s = Some s' \<and> ut_ok c p s'"
proof -
  note L = ut_liveD [OF live]
  have lock: "up_sending u = stage_locked k" using up_coreD(4) [OF L(2)] .
  note at = ut_at_setter [OF L(1) [unfolded cb]]
  show ?thesis
  proof (cases "stage_locked k")
    case True
    let ?s = "s\<lparr>ut_cb := CbIdle, ut_raced := False\<rparr>"
    have "ut_cloud c st p s = Some ?s" using True lock cb raced L(7) by (simp add: ut_cloud_def)
    moreover have "ut_live c p k ?s u"
      using L(2-6) at True by (auto simp: ut_live_def ut_covered_def ut_sub_def simp del: ut_at.simps)
    ultimately show ?thesis using L(7) by (auto intro!: ut_okI)
  next
    case False
    let ?u = "u\<lparr>up_sending := True\<rparr>"
    let ?s = "s\<lparr>ut_mem := put_up p ?u (ut_mem s), ut_cb := CbProc PClosed, ut_raced := False\<rparr>"
    have k: "k = KIdle" "\<not> ut_pending s" "wr_quiet (ut_wr s)" using at False by simp_all
    have "ut_cloud c st p s = Some ?s" using False lock cb raced L(7) by (simp add: ut_cloud_def)
    moreover have "ut_live c p (KProc PClosed) ?s ?u"
      using core_acquire [OF L(2) [unfolded k(1)]] L(3-6) k by (simp add: ut_live_def ut_covered_def ut_sub_def)
    ultimately show ?thesis by (auto intro!: ut_okI)
  qed
qed

lemma ut_cloud_callback:
  assumes live: "ut_live c p k s u" and raced: "\<not> ut_raced s"
    and cb: "ut_cb s \<noteq> CbIdle" "\<And>pc. ut_cb s \<noteq> CbProc pc"
  shows "\<exists>s'. ut_cloud c st p s = Some s' \<and> ut_ok c p s'"
proof (cases "ut_cb s")
  case (CbBegun status)
  note L = ut_liveD [OF live]
  have k: "k = KClient" "\<not> ut_pending s" "wr_quiet (ut_wr s)" using L(1) CbBegun by (cases k; simp split: if_splits)+
  let ?u = "u\<lparr>up_sending := False\<rparr>"
  let ?s = "s\<lparr>ut_mem := put_up p ?u (ut_mem s), ut_cb := CbFree status, ut_raced := False\<rparr>"
  have "ut_cloud c st p s = Some ?s"
    using CbBegun up_coreD(4) [OF L(2)] k raced L(7) by (simp add: ut_cloud_def)
  moreover have "ut_live c p KAcked ?s ?u"
    using core_begun [OF L(2) [unfolded k(1)]] L(3-6) k by (simp add: ut_live_def ut_covered_def ut_sub_def)
  ultimately show ?thesis by (auto intro!: ut_okI)
next
  case (CbFree status)
  note L = ut_liveD [OF live]
  have k: "k = KAcked" "\<not> ut_pending s" "wr_quiet (ut_wr s)" using L(1) CbFree by (cases k; simp split: if_splits)+
  obtain a where free: "heap_free (blocks (ut_mem s)) (up_rblock u) = Some (blocks (ut_mem s) |` (- {a}))"
    and core: "up_core c p KNull (ut_sub s u) (ut_written s) (ut_sent s) (ut_failed s) u
      (ut_mem s\<lparr>blocks := blocks (ut_mem s) |` (- {a})\<rparr>)"
    using core_free [OF L(2) [unfolded k(1)]] by blast
  let ?s = "s\<lparr>ut_mem := ut_mem s\<lparr>blocks := blocks (ut_mem s) |` (- {a})\<rparr>, ut_cb := CbNull status, ut_raced := False\<rparr>"
  have "ut_cloud c st p s = Some ?s" using CbFree free raced L(7) by (simp add: ut_cloud_def)
  moreover have "ut_live c p KNull ?s u"
    using core L(3-6) k by (simp add: ut_live_def ut_covered_def ut_sub_def)
  ultimately show ?thesis using L(7) by (auto intro!: ut_okI)
next
  case (CbNull status)
  note L = ut_liveD [OF live]
  have k: "k = KNull" "\<not> ut_pending s" "wr_quiet (ut_wr s)" using L(1) CbNull by (cases k; simp split: if_splits)+
  let ?u = "u\<lparr>up_rblock := None\<rparr>" and ?k = "if status \<noteq> GOLIOTH_OK then KFail else KIdle"
  let ?s = "s\<lparr>ut_mem := put_up p ?u (ut_mem s), ut_cb := (if status \<noteq> GOLIOTH_OK then CbEnd else CbProc PSet), ut_raced := False\<rparr>"
  have "ut_cloud c st p s = Some ?s" using CbNull raced L(7) by (simp add: ut_cloud_def)
  moreover have "ut_live c p ?k ?s ?u"
    using core_null [OF L(2) [unfolded k(1)], of ?k] L(3-6) k by (simp add: ut_live_def ut_covered_def ut_sub_def)
  ultimately show ?thesis by (auto intro!: ut_okI)
next
  case CbEnd
  note L = ut_liveD [OF live]
  have k: "k = KFail" "\<not> ut_pending s" "wr_quiet (ut_wr s)" using L(1) CbEnd by (cases k; simp split: if_splits)+
  let ?s = "s\<lparr>ut_mem := up_removed p u (ut_mem s), ut_cb := CbIdle, ut_raced := False\<rparr>"
  have "ut_cloud c st p s = Some (ut_log (end_events c POUCH_GATEWAY_UPLINK_ERROR_CLOUD u) ?s)"
    using CbEnd core_end [OF L(2)] k raced L(7) by (simp add: ut_cloud_def)
  moreover have "ut_ok c p (ut_log (end_events c POUCH_GATEWAY_UPLINK_ERROR_CLOUD u) ?s)"
    using L(2,4) k by (intro ut_ended [where k = k and sub = "ut_sub s u" and m = "ut_mem s"]) (auto simp: ut_sub_def)
  ultimately show ?thesis by blast
qed (use cb in auto)

text \<open>The steps of the transport's thread.\<close>

lemma ut_writer_proc:
  assumes live: "ut_live c p k s u" and cloud: "cloud c" and wr: "ut_wr s = WProc pc" "pc \<noteq> PSet"
    and raced: "\<not> ut_raced s"
  shows "\<exists>s'. ut_writer c mal st p s = Some s' \<and> ut_ok c p s'"
proof -
  note L = ut_liveD [OF live]
  note at = ut_at_wr [OF L(1) wr]
  have closed: "pc = PClosed \<longrightarrow> up_closed u = ut_sub s u" using wr by (simp add: ut_sub_def)
  have window: "\<not> wr_window (WProc pc) pc' cb v" for pc' cb v using wr(2) by (cases pc) simp_all
  show ?thesis
  proof (cases rule: core_proc [OF L(2) [unfolded at(1)] cloud closed, where st = st, case_names ended moved])
    case (ended res)
    let ?s = "s\<lparr>ut_mem := up_removed p u (ut_mem s), ut_wr := WIdle, ut_raced := False\<rparr>"
    have "ut_writer c mal st p s = Some (ut_log (end_events c res u) ?s)"
      using ended wr raced L(7) window by (simp add: ut_writer_def)
    moreover have "ut_ok c p (ut_log (end_events c res u) ?s)"
      using L(2) [unfolded at(1)] ended(1) at L(4)
      by (intro ut_ended [where k = "KProc pc" and sub = "ut_sub s u" and m = "ut_mem s"]) (auto simp: ut_sub_def)
    ultimately show ?thesis by blast
  next
    case (moved pc' ev u' m')
    let ?wr = "if pc' = PExit then WIdle else WProc pc'"
    let ?s = "ut_log ev (s\<lparr>ut_mem := m', ut_wr := ?wr, ut_pending := wr_accepted (WProc pc) ?wr, ut_raced := False\<rparr>)"
    have run: "ut_writer c mal st p s = Some ?s"
      using moved(1) wr at raced L(7) window by (simp add: ut_writer_def)
    have "ut_sub ?s u' = ut_sub s u" using moved(4) wr by (simp add: ut_sub_def)
    then have "ut_live c p (proc_next pc pc') ?s u'"
      using moved L(3-6) at wr proc_next_at_wr [OF at(3) moved(2), of pc]
      unfolding ut_live_def ut_covered_def by (auto simp del: ut_at.simps)
    then show ?thesis using run moved(5) up_coreD(1) [OF moved(5)] by (auto intro!: ut_okI)
  qed
qed

lemma ut_at_writer: "ut_at k pending cb wr \<Longrightarrow> wr_quiet wr \<Longrightarrow> wr_quiet wr' \<Longrightarrow> ut_at k pending cb wr'"
  by (cases k) auto

lemma ut_at_taker:
  assumes "ut_at k pending cb wr" and "\<not> stage_locked k" and "\<not> cb_finishing cb"
  shows "k = KIdle \<and> \<not> pending \<and> cb_quiet cb"
  using assms by (cases k) auto

lemma ut_at_clear: "ut_at (KProc PClear) pending cb (WProc PSet) \<Longrightarrow> cb = CbProc PClear"
  by auto

lemma ut_writer_set:
  assumes live: "ut_live c p k s u" and wr: "ut_wr s = WProc PSet" and raced: "\<not> ut_raced s"
  shows "\<exists>s'. ut_writer c mal st p s = Some s' \<and> ut_ok c p s'"
proof -
  note L = ut_liveD [OF live]
  have lock: "up_sending u = stage_locked k" using up_coreD(4) [OF L(2)] .
  show ?thesis
  proof (cases "stage_locked k")
    case True
    let ?s = "s\<lparr>ut_wr := WIdle, ut_raced := (ut_cb s = CbProc PClear \<and> up_closed u)\<rparr>"
    have run: "ut_writer c mal st p s = Some ?s" using True lock wr raced L(7) by (simp add: ut_writer_def)
    have at: "ut_at k (ut_pending s) (ut_cb s) WIdle" using ut_at_writer [OF L(1)] wr by simp
    have "ut_live c p k ?s u" if "\<not> (ut_cb s = CbProc PClear \<and> up_closed u)"
    proof -
      have "k \<noteq> KProc PClear" if "up_closed u"
        using ut_at_clear [of "ut_pending s" "ut_cb s"] L(1) wr that \<open>\<not> (ut_cb s = CbProc PClear \<and> up_closed u)\<close> by auto
      moreover have "k \<noteq> KIdle" using True by auto
      ultimately show ?thesis
        using L(2-4) at wr unfolding ut_live_def ut_covered_def by (auto simp: ut_sub_def simp del: ut_at.simps)
    qed
    then show ?thesis using run L(7) by (auto simp: ut_ok_def)
  next
    case False
    let ?u = "u\<lparr>up_sending := True\<rparr>"
    let ?s = "s\<lparr>ut_mem := put_up p ?u (ut_mem s), ut_wr := WProc PClosed, ut_raced := cb_finishing (ut_cb s)\<rparr>"
    have run: "ut_writer c mal st p s = Some ?s" using False lock wr raced L(7) by (simp add: ut_writer_def)
    have "ut_live c p (KProc PClosed) ?s ?u" if "\<not> cb_finishing (ut_cb s)"
    proof -
      have k: "k = KIdle" "\<not> ut_pending s" "cb_quiet (ut_cb s)" using ut_at_taker [OF L(1) False that] by simp_all
      then show ?thesis
        using core_acquire [OF L(2) [unfolded k(1)]] L(3,4) wr by (simp add: ut_live_def ut_covered_def ut_sub_def)
    qed
    then show ?thesis using run by (auto simp: ut_ok_def)
  qed
qed

lemma ut_writer_loop:
  assumes live: "ut_live c p k s u" and wr: "ut_wr s = WLoop payload len" and raced: "\<not> ut_raced s"
    and mal: "malloc_ok mal" and max: "block_max c \<noteq> 0"
  shows "\<exists>s'. ut_writer c mal st p s = Some s' \<and> ut_ok c p s'"
proof -
  note L = ut_liveD [OF live]
  have fits: "\<not> up_closed u" "unat len = length payload" using L(5) wr by simp_all
  have at: "ut_at k (ut_pending s) (ut_cb s) wr'" if "wr_quiet wr'" for wr'
    using ut_at_writer [OF L(1) _ that] wr by simp
  show ?thesis
  proof (cases "len = 0")
    case True
    let ?s = "s\<lparr>ut_wr := WProc PSet, ut_raced := False\<rparr>"
    have "ut_writer c mal st p s = Some ?s" using True wr raced L(7) by (simp add: ut_writer_def)
    moreover have "ut_live c p k ?s u"
      using L(2-4) wr fits at [of "WProc PSet"] by (simp add: ut_live_def ut_covered_def ut_sub_def del: ut_at.simps)
    ultimately show ?thesis using L(7) by (auto intro!: ut_okI)
  next
    case False
    have core: "up_core c p k False (ut_written s) (ut_sent s) (ut_failed s) u (ut_mem s)"
      using L(2) fits by (simp add: ut_sub_def)
    from core mal max False fits(2) show ?thesis
    proof (cases rule: core_write)
      case (fail u')
      let ?s = "s\<lparr>ut_mem := put_up p u' (ut_mem s), ut_wr := WIdle, ut_failed := True, ut_raced := False\<rparr>"
      have "ut_writer c mal st p s = Some ?s"
        using fail False wr raced L(7) by (simp add: ut_writer_def put_up_eq)
      moreover have "ut_live c p k ?s u'"
        using fail L(3,4) fits at [of WIdle] by (simp add: ut_live_def ut_covered_def ut_sub_def del: ut_at.simps)
      ultimately show ?thesis by (auto intro!: ut_okI)
    next
      case (step pl n u' bs')
      let ?s = "s\<lparr>ut_mem := up_put p bs' u' (ut_mem s), ut_wr := WLoop pl n,
        ut_written := ut_written s @ map Some (take (length payload - length pl) payload), ut_raced := False\<rparr>"
      have "ut_writer c mal st p s = Some ?s"
        using step False wr raced L(7) by (simp add: ut_writer_def)
      moreover have "ut_live c p k ?s u'"
        using step L(3,4) fits at [of "WLoop pl n"] by (simp add: ut_live_def ut_covered_def ut_sub_def del: ut_at.simps)
      ultimately show ?thesis by (auto intro!: ut_okI)
    qed
  qed
qed

lemma ut_writer_submit:
  assumes live: "ut_live c p k s u" and wr: "ut_wr s = WSubmit was" and raced: "\<not> ut_raced s"
  shows "\<exists>s'. ut_writer c mal st p s = Some s' \<and> ut_ok c p s'"
proof -
  note L = ut_liveD [OF live]
  have fits: "up_closed u" "\<not> was" using L(5) wr by simp_all
  have core: "up_core c p k False (ut_written s) (ut_sent s) (ut_failed s) u (ut_mem s)"
    using L(2) wr by (simp add: ut_sub_def)
  let ?race = "ut_cb s = CbProc (PGet False) \<and> up_queue u = []"
  obtain u' where u': "(if up_wblock u \<noteq> None then submit_block u else Some u) = Some u'"
    by (cases "up_wblock u") (simp_all add: submit_block_def)
  let ?s = "s\<lparr>ut_mem := put_up p u' (ut_mem s), ut_wr := WProc PSet, ut_raced := ?race\<rparr>"
  have run: "ut_writer c mal st p s = Some ?s"
    using u' fits wr raced L(7) by (simp add: ut_writer_def)
  have "ut_live c p k ?s u'" if "\<not> ?race"
  proof -
    have "\<not> (k = KProc (PGet False) \<and> up_queue u = [])" using L(1) wr that by auto
    from core_submit [OF core fits(1) this] u' have "up_closed u'"
      "up_core c p k True (ut_written s) (ut_sent s) (ut_failed s) u' (put_up p u' (ut_mem s))" by auto
    then show ?thesis
      using L(3,4) fits ut_at_writer [OF L(1), of "WProc PSet"] wr
      by (simp add: ut_live_def ut_covered_def ut_sub_def del: ut_at.simps)
  qed
  then show ?thesis using run by (auto simp: ut_ok_def)
qed

text \<open>All steps.\<close>

lemma ut_do_ok:
  assumes ok: "ut_ok c p s" and raced: "\<not> ut_raced s" and can: "ut_can p s a"
    and cloud: "cloud c" and max: "block_max c \<noteq> 0"
  shows "ut_post c p s (ut_do c p s a)"
proof (cases "ups (ut_mem s) p")
  case None
  then have over: "ut_over c s" using ok raced by (simp add: ut_ok_def)
  show ?thesis
  proof (cases a)
    case (UWriter mal st)
    show ?thesis
    proof (cases "ut_do c p s a")
      case (Some s')
      have "wr_quiet (ut_wr s)" using over by (simp add: ut_over_def)
      then have "s' = s\<lparr>ut_wr := WProc PSet, ut_raced := False\<rparr>"
        using Some UWriter None raced can
        by (cases "ut_wr s") (auto simp: ut_writer_def split: if_splits bind_splits)
      then show ?thesis using Some over None by (auto simp: ut_post_def ut_ok_def ut_over_def split: option.splits)
    qed (use None in \<open>simp add: ut_post_def\<close>)
  next
    case (UCloud st)
    have "ut_cb s = CbIdle \<or> ut_cb s = CbProc PSet" using over cb_quiet_cases by (simp add: ut_over_def)
    then have "ut_do c p s a = None" using UCloud None can by (auto simp: ut_cloud_def)
    then show ?thesis using None by (simp add: ut_post_def)
  qed (use None can over in \<open>simp_all add: ut_over_def\<close>)
next
  case (Some u)
  then obtain k where live: "ut_live c p k s u" using ok raced by (auto simp: ut_ok_def)
  note L = ut_liveD [OF live]
  show ?thesis
  proof (cases a)
    case (UWrite payload len)
    then have wr: "ut_wr s = WIdle" "\<not> up_closed u" "unat len = length payload" using can L(4) by simp_all
    then have "ut_live c p k (s\<lparr>ut_wr := WLoop payload len\<rparr>) u"
      using L ut_at_writer [OF L(1), of "WLoop payload len"]
      by (simp add: ut_live_def ut_covered_def ut_sub_def del: ut_at.simps)
    then show ?thesis using UWrite Some by (auto simp: ut_post_def intro: ut_okI)
  next
    case UClose
    then have wr: "ut_wr s = WIdle" "\<not> up_closed u" using can L(4) by simp_all
    let ?s = "s\<lparr>ut_wr := WSubmit False, ut_mem := put_up p (u\<lparr>up_closed := True\<rparr>) (ut_mem s), ut_closing := True\<rparr>"
    have "ut_live c p k ?s (u\<lparr>up_closed := True\<rparr>)"
      using L wr ut_at_writer [OF L(1), of "WSubmit False"] core_closing [of c p k]
      by (simp add: ut_live_def ut_covered_def ut_sub_def del: ut_at.simps)
    then have "ut_ok c p ?s" by (auto intro: ut_okI)
    then show ?thesis using UClose Some wr by (simp add: ut_post_def close_enter_def)
  next
    case (UWriter mal st)
    have "\<exists>s'. ut_writer c mal st p s = Some s' \<and> ut_ok c p s'"
    proof (cases "ut_wr s")
      case (WProc pc)
      then show ?thesis using ut_writer_set [OF live _ raced] ut_writer_proc [OF live cloud WProc _ raced] by blast
    qed (use UWriter can ut_writer_loop [OF live _ raced _ max] ut_writer_submit [OF live _ raced] in auto)
    then show ?thesis using UWriter by (auto simp: ut_post_def)
  next
    case (UAck status)
    then have k: "ut_pending s" "ut_cb s = CbIdle" using can by simp_all
    then have kk: "k = KClient" "wr_quiet (ut_wr s)" using L(1) by (cases k; simp)+
    then have "ut_live c p k (s\<lparr>ut_pending := False, ut_cb := CbBegun status\<rparr>) u"
      using L k by (simp add: ut_live_def ut_covered_def ut_sub_def)
    then show ?thesis using UAck Some by (auto simp: ut_post_def intro: ut_okI)
  next
    case (UCloud st)
    show ?thesis
    proof (cases "cb_window (ut_cb s) (ut_wr s) u")
      case True
      then obtain was where w: "ut_cb s = CbProc PClosed" "ut_wr s = WSubmit was"
        by (cases "(ut_cb s, ut_wr s, u)" rule: cb_window.cases) auto
      then have "ut_raced s'" if "ut_cloud c st p s = Some s'" for s'
        using that True Some by (auto simp: ut_cloud_def)
      moreover have "\<exists>s'. ut_cloud c st p s = Some s'" using w Some by (simp add: ut_cloud_def)
      ultimately show ?thesis using UCloud by (auto simp: ut_post_def ut_ok_def)
    next
      case False
      have "\<exists>s'. ut_cloud c st p s = Some s' \<and> ut_ok c p s'"
      proof (cases "ut_cb s")
        case (CbProc pc)
        then show ?thesis
          using ut_cloud_set [OF live _ raced] ut_cloud_proc [OF live cloud CbProc _ False raced] by blast
      qed (use UCloud can ut_cloud_callback [OF live raced] in auto)
      then show ?thesis using UCloud by (auto simp: ut_post_def)
    qed
  qed
qed

lemma ut_do_raced: "ut_do c p s a = Some s' \<Longrightarrow> ut_raced s \<Longrightarrow> ut_raced s'"
  by (cases a) (auto simp: ut_writer_def ut_cloud_def split: bind_splits)

lemma ut_start_ok:
  assumes inv: "up_inv c m" and fresh: "ups m p = None" "malloc_ok mal" and max: "block_max c \<noteq> 0"
    and run: "uplink_open c (Some p) mal session dl arg m = Some (Some p, ev, m')"
  shows "ut_ok c p (ut_start m')"
proof -
  from up_sess_opened [OF inv fresh max run] have inv': "up_inv c m'" by (simp add: up_sess_inv_def)
  from fresh show ?thesis
  proof (cases rule: uplink_open_cases [where c = c and session = session and dl = dl and arg = arg])
    case (failed ev)
    then show ?thesis using run by simp
  next
    case (opened w b)
    let ?u = "\<lparr>up_session = (if cloud c then session else None), up_block_idx = 0, up_closed = False,
      up_sending = False, up_wblock = Some w, up_rblock = None, up_queue = [], up_cb_arg = arg\<rparr>"
    have m': "m' = up_put p ((blocks m)(w \<mapsto> b)) ?u m" using run opened by simp
    have u: "ups m' p = Some ?u" using m' by simp
    have "up_core c p KIdle False [] [] False ?u m'"
    proof (rule up_coreI)
      have "stage_up KIdle ?u = ?u" by (simp add: stage_up_def)
      then show "up_inv c (up_put p (blocks m') (stage_up KIdle ?u) m')" using inv' u by simp
      show "stage_data KIdle [] [] (blocks m') ?u" "stage_solid KIdle False [] (blocks m') ?u"
        using m' opened by (simp_all add: stage_data_def stage_solid_def sent_bytes_def stage_bytes_def up_held_def
            up_queued_def up_open_chunk_def pb_chunk_def)
    qed (use u in \<open>simp_all add: sub_ok_def stage_last_def\<close>)
    then have "ut_live c p KIdle (ut_start m') ?u"
      by (simp add: ut_live_def ut_covered_def ut_sub_def ut_start_def)
    then show ?thesis using u by (auto simp: ut_start_def intro: ut_okI)
  qed
qed

lemma ut_reach_ok:
  assumes "ut_reach c p s" and cloud: "cloud c" and max: "block_max c \<noteq> 0"
  shows "ut_ok c p s"
  using assms(1)
proof induction
  case (opened m mal session dl arg ev m')
  then show ?case using ut_start_ok max by blast
next
  case (moved s a s')
  show ?case
  proof (cases "ut_raced s")
    case True
    then show ?thesis using ut_do_raced moved.hyps(3) by (simp add: ut_ok_def)
  next
    case False
    show ?thesis
      using ut_do_ok [OF moved.IH False moved.hyps(2) cloud max] moved.hyps(3) by (simp add: ut_post_def)
  qed
qed

section \<open>Concrete runs\<close>

fun ut_go :: "config \<Rightarrow> addr \<Rightarrow> ut_act list \<Rightarrow> up_threads \<Rightarrow> up_threads option" where
  "ut_go c p [] s = Some s"
| "ut_go c p (a # as) s = (if ut_can p s a then do { s' \<leftarrow> ut_do c p s a; ut_go c p as s' } else None)"

lemma ut_go_reach: "ut_reach c p s \<Longrightarrow> ut_go c p as s = Some s' \<Longrightarrow> ut_reach c p s'"
  by (induction as arbitrary: s) (auto split: if_splits bind_splits intro: ut_reach.moved)

text \<open>The transport writes six bytes: a full block goes to the cloud client, two bytes stay.\<close>

abbreviation ut_w :: ut_act where "ut_w \<equiv> UWriter up_ex_mal GOLIOTH_OK"
abbreviation ut_c :: ut_act where "ut_c \<equiv> UCloud GOLIOTH_OK"

definition ut_ex_u :: uplink where
  "ut_ex_u = \<lparr>up_session = Some 3, up_block_idx = 1, up_closed = False, up_sending = True,
     up_wblock = Some 1, up_rblock = Some 0, up_queue = [], up_cb_arg = 7\<rparr>"

definition ut_ex_blocks :: "pouch_block store" where
  "ut_ex_blocks = [0 \<mapsto> \<lparr>pb_len = 4, pb_data = [Some 1, Some 2, Some 3, Some 4]\<rparr>,
     1 \<mapsto> \<lparr>pb_len = 2, pb_data = [Some 5, Some 6, None, None]\<rparr>]"

definition ut_ex_written :: up_threads where
  "ut_ex_written = \<lparr>ut_mem = \<lparr>blocks = ut_ex_blocks, ups = [0 \<mapsto> ut_ex_u]\<rparr>, ut_cb = CbIdle, ut_wr = WIdle,
     ut_pending = True, ut_written = map Some [1, 2, 3, 4, 5, 6],
     ut_sent = [(0, [Some 1, Some 2, Some 3, Some 4], False)], ut_end = None, ut_closing = False,
     ut_failed = False, ut_raced = False\<rparr>"

lemmas ut_ex_defs = ut_writer_def ut_cloud_def ut_log_def put_up_def up_put_def write_piece_def submit_if_full_def
  submit_block_def fifo_put_def ensure_wblock_def uplink_block_alloc_def up_ex_mal_def memcpy_to_def memcpy_from_def
  replicate_4 close_enter_def end_uplink_def cleanup_uplink_def

lemma ut_ex_start: "ut_reach up_ex_cfg 0 (ut_start up_ex_open)"
  using ut_reach.opened [OF up_ex_none_inv _ up_ex_mal_ok up_ex_open_eq(1)] by (simp add: up_ex_none_def)

lemma ut_ex_write:
  "ut_go up_ex_cfg 0 [UWrite [1, 2, 3, 4, 5, 6] 6, ut_w, ut_w, ut_w, ut_w, ut_w, ut_w, ut_w, ut_w] (ut_start up_ex_open) =
   Some ut_ex_written"
  using up_ex_mal_ok up_ex_open_eq(2,3)
  by (cases up_ex_open) (simp add: ut_start_def ut_ex_defs min_def ut_ex_written_def ut_ex_blocks_def ut_ex_u_def)

lemma ut_ex_reach: "ut_reach up_ex_cfg 0 ut_ex_written"
  by (rule ut_go_reach [OF ut_ex_start ut_ex_write])

section \<open>Properties\<close>


text \<open>C10. An uplink to which something was written and which was closed has ended as soon as
  no call is in progress and no block is with the cloud client, unless a window was hit; and
  if it ended with success, all bytes were sent and, if no write ran out of memory, exactly
  the last block was marked.\<close>

theorem uplink_threads_end:
  assumes reach: "ut_reach c p s" and raced: "\<not> ut_raced s" and cfg: "cloud c" "block_max c \<noteq> 0"
    and rest: "ut_cb s = CbIdle" "ut_wr s = WIdle" "\<not> ut_pending s" and closing: "ut_closing s" "ut_written s \<noteq> []"
  shows "\<exists>res. ut_end s = Some res \<and> ups (ut_mem s) p = None \<and>
     (res = POUCH_GATEWAY_UPLINK_SUCCESS \<longrightarrow> ut_written s = sent_bytes (ut_sent s) \<and>
       (\<not> ut_failed s \<longrightarrow> lasts (ut_sent s) = replicate (length (ut_sent s) - 1) False @ [True]))"
proof -
  have ok: "ut_ok c p s" using ut_reach_ok [OF reach cfg] .
  have "ups (ut_mem s) p = None"
  proof (rule ccontr)
    assume "ups (ut_mem s) p \<noteq> None"
    then obtain u k where live: "ut_live c p k s u" using ok raced by (auto simp: ut_ok_def)
    note L = ut_liveD [OF live]
    have "k = KIdle" using L(1) rest by (cases k) auto
    then show False using L(4,6) rest closing by (simp add: ut_covered_def ut_sub_def)
  qed
  moreover from this have over: "ut_over c s" using ok raced by (simp add: ut_ok_def)
  moreover have "lasts (ut_sent s) = replicate (length (ut_sent s) - 1) False @ [True]"
    if "True \<in> set (lasts (ut_sent s))" "True \<notin> set (butlast (lasts (ut_sent s)))"
  proof -
    let ?l = "lasts (ut_sent s)"
    have ne: "?l \<noteq> []" using that(1) by auto
    then have split: "?l = butlast ?l @ [last ?l]" by simp
    have "last ?l" using that split by (metis (full_types) Un_iff empty_iff insert_iff list.set set_append)
    moreover have "butlast ?l = replicate (length ?l - 1) False"
      using that(2) by (metis (full_types) length_butlast replicate_eqI)
    ultimately show ?thesis using split by (simp add: lasts_def)
  qed
  ultimately show ?thesis using closing by (auto simp: ut_over_def split: option.splits)
qed

lemma ut_ex_freed_run:
  "\<exists>s. ut_go up_ex_cfg 0 [UWrite [7] 1, UAck GOLIOTH_ERR_NACK, ut_c, ut_c, ut_c, ut_c] ut_ex_written = Some s \<and>
     \<not> ut_raced s \<and> ups (ut_mem s) 0 = None \<and> ut_wr s = WLoop [7] 1"
  by (simp add: ut_ex_defs ut_ex_written_def ut_ex_blocks_def ut_ex_u_def)

lemma ut_ex_end_run:
  "\<exists>s. ut_go up_ex_cfg 0 [UClose, ut_w, ut_w, UAck GOLIOTH_OK, ut_c, ut_c, ut_c, ut_c, ut_c, ut_c, ut_c, ut_c,
       UAck GOLIOTH_OK, ut_c, ut_c, ut_c, ut_c, ut_c, ut_c, ut_c] ut_ex_written = Some s \<and>
     \<not> ut_raced s \<and> ut_cb s = CbIdle \<and> ut_wr s = WIdle \<and> \<not> ut_pending s \<and> ut_closing s \<and>
     ut_written s = map Some [1, 2, 3, 4, 5, 6] \<and> ut_end s = Some POUCH_GATEWAY_UPLINK_SUCCESS \<and>
     ut_sent s = [(0, [Some 1, Some 2, Some 3, Some 4], False), (1, [Some 5, Some 6], True)]"
  using up_ex_mal_ok by (simp add: ut_ex_defs ut_ex_written_def ut_ex_blocks_def ut_ex_u_def)

lemma ut_stuck:
  "ut_cb s = CbIdle \<Longrightarrow> ut_wr s = WIdle \<Longrightarrow> \<not> ut_pending s \<Longrightarrow> ut_closing s \<Longrightarrow> \<not> ut_can p s a"
  by (cases a) simp_all


theorem uplink_threads_end_witness:
  "\<exists>s. ut_reach up_ex_cfg 0 s \<and> ut_end s = Some POUCH_GATEWAY_UPLINK_SUCCESS \<and>
     sent_bytes (ut_sent s) = map Some [1, 2, 3, 4, 5, 6] \<and> lasts (ut_sent s) = [False, True]"
proof -
  obtain s where go: "ut_go up_ex_cfg 0 [UClose, ut_w, ut_w, UAck GOLIOTH_OK, ut_c, ut_c, ut_c, ut_c, ut_c, ut_c, ut_c, ut_c,
       UAck GOLIOTH_OK, ut_c, ut_c, ut_c, ut_c, ut_c, ut_c, ut_c] ut_ex_written = Some s"
    and s: "\<not> ut_raced s" "ut_cb s = CbIdle" "ut_wr s = WIdle" "\<not> ut_pending s" "ut_closing s"
      "ut_written s = map Some [1, 2, 3, 4, 5, 6]" "ut_end s = Some POUCH_GATEWAY_UPLINK_SUCCESS"
      "ut_sent s = [(0, [Some 1, Some 2, Some 3, Some 4], False), (1, [Some 5, Some 6], True)]"
    using ut_ex_end_run by blast
  have reach: "ut_reach up_ex_cfg 0 s" by (rule ut_go_reach [OF ut_ex_reach go])
  have "ut_written s \<noteq> []" using s(6) by simp
  from uplink_threads_end [OF reach s(1) _ _ s(2-5) this] reach s show ?thesis
    by (auto simp: lasts_def)
qed


end
