(* ===== verification/Cert.thy ===== *)
theory Cert
  imports Byte_Source
begin

text \<open>
  The certificates of \<open>lib/cert.c\<close>. A device certificate is collected in a context and
  handed to the cloud client. The server certificate is module state: it is downloaded when
  the gateway connects to the cloud and read by any number of contexts, each with its own
  offset and the id of the certificate it started with.

  Outside the repository, and arguments here: the status
  \<open>golioth_gateway_device_cert_set\<close> returns; what \<open>golioth_gateway_server_cert_get\<close>
  does (its status, the bytes it puts into the buffer and the length it reports); the
  X.509 parser of mbedtls (the serial number, or \<open>None\<close> where parsing fails); the builtin
  certificate, a file the build supplies.
\<close>

section \<open>Device certificate\<close>

record device_cert_ctx =
  dc_len :: size_t
  dc_buf :: "cell list"

definition device_cert_start :: "config \<Rightarrow> ptr \<Rightarrow> device_cert_ctx store \<Rightarrow> ptr \<times> device_cert_ctx store" where
  "device_cert_start c p h =
     (case p of
        None \<Rightarrow> (None, h)
      | Some a \<Rightarrow> (Some a, h(a \<mapsto> \<lparr>dc_len = 0, dc_buf = replicate (unat (device_cert_max c)) None\<rparr>)))"

definition device_cert_push ::
  "config \<Rightarrow> device_cert_ctx \<Rightarrow> byte list \<Rightarrow> (int \<times> device_cert_ctx) option" where
  "device_cert_push c d bytes = do {
     (ret, len, buf) \<leftarrow> buf_push (device_cert_max c) (dc_len d, dc_buf d) bytes;
     Some (ret, \<lparr>dc_len = len, dc_buf = buf\<rparr>) }"

definition device_cert_abort :: "ptr \<Rightarrow> device_cert_ctx store \<Rightarrow> device_cert_ctx store option" where
  "device_cert_abort p h = heap_free h p"

text \<open>\<open>pouch_gateway_device_cert_finish\<close>: the bytes given to the cloud client (none in a
  build without the cloud), the return value and the heap. A failed upload returns before
  the context is freed.\<close>

definition device_cert_finish ::
  "config \<Rightarrow> golioth_status \<Rightarrow> ptr \<Rightarrow> device_cert_ctx store \<Rightarrow>
   (int \<times> cell list option \<times> device_cert_ctx store) option" where
  "device_cert_finish c status p h = do {
     d \<leftarrow> deref h p;
     sent \<leftarrow> (if cloud c then map_option Some (memcpy_from (dc_buf d) 0 (unat (dc_len d))) else Some None);
     if cloud c \<and> status \<noteq> GOLIOTH_OK then Some (- EIO, sent, h)
     else do { h' \<leftarrow> device_cert_abort p h; Some (0, sent, h') } }"

section \<open>Server certificate\<close>

definition CERT_SERIAL_MAXLEN :: nat where
  "CERT_SERIAL_MAXLEN = 20"

record server_crt =
  crt_buf :: "cell list"
  crt_len :: size_t
  crt_serial :: "cell list"
  crt_serial_len :: size_t
  crt_id :: size_t

record server_cert_ctx =
  sc_id :: size_t
  sc_offset :: size_t

definition server_crt_init :: "config \<Rightarrow> server_crt" where
  "server_crt_init c =
     \<lparr>crt_buf = replicate (unat (server_cert_max c)) (Some 0), crt_len = 0,
      crt_serial = replicate CERT_SERIAL_MAXLEN (Some 0), crt_serial_len = 0, crt_id = 0\<rparr>"

definition server_cert_start ::
  "server_crt \<Rightarrow> ptr \<Rightarrow> server_cert_ctx store \<Rightarrow> ptr \<times> server_cert_ctx store" where
  "server_cert_start s p h =
     (case p of
        None \<Rightarrow> (None, h)
      | Some a \<Rightarrow> (Some a, h(a \<mapsto> \<lparr>sc_id = crt_id s, sc_offset = 0\<rparr>)))"

definition server_cert_is_newest :: "server_crt \<Rightarrow> server_cert_ctx \<Rightarrow> bool" where
  "server_cert_is_newest s x \<longleftrightarrow> sc_id x = crt_id s"

text \<open>\<open>server_crt_update\<close>: the serial number is copied without a check against its
  buffer.\<close>

definition server_crt_update ::
  "(cell list \<Rightarrow> byte list option) \<Rightarrow> size_t \<Rightarrow> server_crt \<Rightarrow> (int \<times> server_crt) option" where
  "server_crt_update parse len s = do {
     chain \<leftarrow> memcpy_from (crt_buf s) 0 (unat len);
     (case parse chain of
        None \<Rightarrow> Some (- EIO, s)
      | Some serial \<Rightarrow> do {
          ser \<leftarrow> memcpy_to (crt_serial s) 0 (map Some serial);
          Some (0, s\<lparr>crt_serial := ser, crt_serial_len := of_nat (length serial), crt_len := len,
                     crt_id := crt_id s + 1\<rparr>) }) }"

definition server_cert_is_complete :: "server_crt \<Rightarrow> server_cert_ctx \<Rightarrow> bool" where
  "server_cert_is_complete s x \<longleftrightarrow> sc_offset x \<ge> crt_len s"

definition server_cert_get_data ::
  "server_crt \<Rightarrow> server_cert_ctx \<Rightarrow> size_t \<Rightarrow> (int \<times> size_t \<times> cell list \<times> bool \<times> server_cert_ctx) option" where
  "server_cert_get_data s x dst_len =
     (let len = crt_len s in
      if sc_offset x \<ge> len then Some (- ENODATA, dst_len, [], False, x)
      else let k = (if dst_len > len - sc_offset x then len - sc_offset x else dst_len) in
        (case memcpy_from (crt_buf s) (unat (sc_offset x)) (unat k) of
           None \<Rightarrow> None
         | Some cs \<Rightarrow>
             let x' = x\<lparr>sc_offset := sc_offset x + k\<rparr> in
             Some (0, k, cs, sc_offset x' \<ge> len, x')))"

definition server_cert_get_serial :: "server_crt \<Rightarrow> size_t \<Rightarrow> (size_t \<times> cell list) option" where
  "server_cert_get_serial s dst_len =
     (let len = crt_serial_len s;
          k = (if dst_len > len then len else dst_len) in
      (case memcpy_from (crt_serial s) 0 (unat k) of None \<Rightarrow> None | Some cs \<Rightarrow> Some (k, cs)))"

definition server_cert_abort :: "ptr \<Rightarrow> server_cert_ctx store \<Rightarrow> server_cert_ctx store option" where
  "server_cert_abort p h = heap_free h p"

text \<open>\<open>pouch_gateway_cert_module_on_connected\<close>. \<open>dl\<close> is what the download does: its
  status, what it has put at the start of the buffer, and the length it reports.\<close>

record cert_download =
  get_status :: golioth_status
  get_data :: "byte list"
  get_len :: size_t

definition cert_on_connected ::
  "config \<Rightarrow> (cell list \<Rightarrow> byte list option) \<Rightarrow> byte list \<Rightarrow> cert_download \<Rightarrow> server_crt \<Rightarrow> server_crt option" where
  "cert_on_connected c parse builtin dl s =
     (if cloud c then do {
        buf \<leftarrow> memcpy_to (crt_buf s) 0 (map Some (get_data dl));
        let s1 = s\<lparr>crt_buf := buf\<rparr>;
        if get_status dl \<noteq> GOLIOTH_OK then Some s1
        else do { (ret, s2) \<leftarrow> server_crt_update parse (get_len dl) s1; Some s2 } }
      else if cert_builtin c then do {
        buf \<leftarrow> memcpy_to (crt_buf s) 0 (map Some builtin);
        (ret, s2) \<leftarrow> server_crt_update parse (of_nat (length builtin)) (s\<lparr>crt_buf := buf\<rparr>);
        Some s2 }
      else Some s)"

section \<open>Device certificate: a bounded buffer\<close>

definition dc_data :: "device_cert_ctx \<Rightarrow> cell list" where
  "dc_data d = buf_data (dc_len d, dc_buf d)"

definition dc_ok :: "config \<Rightarrow> device_cert_ctx \<Rightarrow> bool" where
  "dc_ok c d \<longleftrightarrow> buf_ok (device_cert_max c) (dc_len d, dc_buf d)"

interpretation dcb: bounded_buffer "device_cert_max c"
  "\<lparr>dc_len = 0, dc_buf = replicate (unat (device_cert_max c)) None\<rparr>"
  "device_cert_push c" dc_data "dc_ok c" for c
proof unfold_locales
  show "dc_ok c \<lparr>dc_len = 0, dc_buf = replicate (unat (device_cert_max c)) None\<rparr>"
    "dc_data \<lparr>dc_len = 0, dc_buf = replicate (unat (device_cert_max c)) None\<rparr> = []"
    using buf_empty_ok [of "device_cert_max c"] by (simp_all add: dc_ok_def dc_data_def buf_empty_def)
next
  fix d :: device_cert_ctx and x :: "byte list"
  assume d: "dc_ok c d" and fits: "length (dc_data d) + length x \<le> unat (device_cert_max c)"
  show "\<exists>d'. device_cert_push c d x = Some (0, d') \<and> dc_ok c d' \<and> dc_data d' = dc_data d @ map Some x"
    using buf_push_fits [OF d [unfolded dc_ok_def] fits [unfolded dc_data_def]]
    by (auto simp: device_cert_push_def dc_ok_def dc_data_def)
next
  fix d :: device_cert_ctx and x :: "byte list"
  assume d: "dc_ok c d" and "unat (device_cert_max c) < length (dc_data d) + length x"
    "unat (device_cert_max c) + length x < 2 ^ 32"
  then have "buf_push (device_cert_max c) (dc_len d, dc_buf d) x = Some (- ENOSPC, dc_len d, dc_buf d)"
    by (intro buf_push_full) (simp_all add: dc_ok_def dc_data_def)
  then show "device_cert_push c d x = Some (- ENOSPC, d)" by (simp add: device_cert_push_def)
qed

section \<open>Server certificate: the module invariant\<close>

text \<open>The certificate the module serves, and its invariant.\<close>

definition crt_ok :: "config \<Rightarrow> server_crt \<Rightarrow> bool" where
  "crt_ok c s \<longleftrightarrow> length (crt_buf s) = unat (server_cert_max c) \<and> crt_len s \<le> server_cert_max c \<and>
     length (crt_serial s) = CERT_SERIAL_MAXLEN \<and> unat (crt_serial_len s) \<le> CERT_SERIAL_MAXLEN"

definition crt_cert :: "server_crt \<Rightarrow> cell list" where
  "crt_cert s = take (unat (crt_len s)) (crt_buf s)"

text \<open>What the download promises: it stays in the buffer, and where it succeeds the length it
  reports is what it has written. What the parser promises (RFC 5280): a serial number of at
  most 20 bytes.\<close>

definition download_ok :: "config \<Rightarrow> cert_download \<Rightarrow> bool" where
  "download_ok c dl \<longleftrightarrow> length (get_data dl) \<le> unat (server_cert_max c) \<and>
     (get_status dl = GOLIOTH_OK \<longrightarrow> unat (get_len dl) = length (get_data dl))"

definition parse_ok :: "(cell list \<Rightarrow> byte list option) \<Rightarrow> bool" where
  "parse_ok parse \<longleftrightarrow> (\<forall>cs ser. parse cs = Some ser \<longrightarrow> length ser \<le> CERT_SERIAL_MAXLEN)"

lemma server_crt_init_ok: "crt_ok c (server_crt_init c)" "crt_cert (server_crt_init c) = []"
  by (simp_all add: crt_ok_def crt_cert_def server_crt_init_def)

lemma length_crt_cert: "crt_ok c s \<Longrightarrow> length (crt_cert s) = unat (crt_len s)"
  by (simp add: crt_ok_def crt_cert_def word_le_nat_alt)

lemma server_crt_update_cases:
  assumes ok: "crt_ok c s" and len: "len \<le> server_cert_max c" and parse: "parse_ok parse"
  obtains (bad) "parse (take (unat len) (crt_buf s)) = None" "server_crt_update parse len s = Some (- EIO, s)"
  | (good) serial s' where "parse (take (unat len) (crt_buf s)) = Some serial"
      "server_crt_update parse len s = Some (0, s')" "crt_ok c s'" "crt_cert s' = take (unat len) (crt_buf s)"
      "take (length serial) (crt_serial s') = map Some serial" "unat (crt_serial_len s') = length serial"
      "crt_id s' = crt_id s + 1"
proof -
  have chain: "memcpy_from (crt_buf s) 0 (unat len) = Some (take (unat len) (crt_buf s))"
    using ok len by (simp add: crt_ok_def word_le_nat_alt)
  show ?thesis
  proof (cases "parse (take (unat len) (crt_buf s))")
    case None
    then show ?thesis using bad chain by (simp add: server_crt_update_def)
  next
    case (Some serial)
    then have l: "length serial \<le> CERT_SERIAL_MAXLEN" using parse by (auto simp: parse_ok_def)
    obtain ser where ser: "memcpy_to (crt_serial s) 0 (map Some serial) = Some ser"
      using l ok by (simp add: crt_ok_def)
    define s' where "s' = s\<lparr>crt_serial := ser, crt_serial_len := of_nat (length serial), crt_len := len,
                     crt_id := crt_id s + 1\<rparr>"
    have "unat (of_nat (length serial) :: size_t) = length serial"
      using l by (intro unat_of_nat_size) (simp add: CERT_SERIAL_MAXLEN_def)
    then show ?thesis
      using good [OF Some, of s'] ok len l Some chain ser memcpy_to_length [OF ser] memcpy_to_take [OF ser]
      by (simp add: server_crt_update_def s'_def crt_ok_def crt_cert_def)
  qed
qed

section \<open>Downloads\<close>

text \<open>A connection to the cloud either installs the certificate it downloaded under a new id,
  or fails; then length, serial number and id stay, but the start of the buffer has been
  overwritten.\<close>

definition builtin_ok :: "config \<Rightarrow> byte list \<Rightarrow> bool" where
  "builtin_ok c builtin \<longleftrightarrow> length builtin \<le> unat (server_cert_max c)"

definition crt_overwritten :: "byte list \<Rightarrow> server_crt \<Rightarrow> server_crt" where
  "crt_overwritten bytes s = s\<lparr>crt_buf := map Some bytes @ drop (length bytes) (crt_buf s)\<rparr>"

lemma crt_overwritten_ok: "crt_ok c s \<Longrightarrow> length bytes \<le> unat (server_cert_max c) \<Longrightarrow> crt_ok c (crt_overwritten bytes s)"
  by (simp add: crt_ok_def crt_overwritten_def)

lemma cert_update_overwritten:
  assumes ok: "crt_ok c s" and parse: "parse_ok parse" and fits: "length bytes \<le> unat (server_cert_max c)"
    and len: "unat len = length bytes"
  obtains (bad) "parse (map Some bytes) = None"
      "server_crt_update parse len (crt_overwritten bytes s) = Some (- EIO, crt_overwritten bytes s)"
  | (good) s' serial where "parse (map Some bytes) = Some serial"
      "server_crt_update parse len (crt_overwritten bytes s) = Some (0, s')" "crt_ok c s'"
      "crt_cert s' = map Some bytes" "crt_id s' = crt_id s + 1"
      "take (length serial) (crt_serial s') = map Some serial" "unat (crt_serial_len s') = length serial"
proof -
  have ok': "crt_ok c (crt_overwritten bytes s)" by (rule crt_overwritten_ok [OF ok fits])
  have le: "len \<le> server_cert_max c" using fits len by (simp add: word_le_nat_alt)
  have tk: "take (unat len) (crt_buf (crt_overwritten bytes s)) = map Some bytes"
    using len by (simp add: crt_overwritten_def)
  have id: "crt_id (crt_overwritten bytes s) = crt_id s" by (simp add: crt_overwritten_def)
  from ok' le parse show ?thesis
    by (cases rule: server_crt_update_cases) (use bad good tk id in auto)
qed

lemma cert_on_connected_cases:
  assumes ok: "crt_ok c s" and parse: "parse_ok parse" and dl: "download_ok c dl" and b: "builtin_ok c builtin"
  obtains (failed) bytes where "cert_on_connected c parse builtin dl s = Some (crt_overwritten bytes s)"
      "length bytes \<le> unat (server_cert_max c)"
  | (installed) bytes s' serial where "cert_on_connected c parse builtin dl s = Some s'" "crt_ok c s'"
      "crt_cert s' = map Some bytes" "crt_id s' = crt_id s + 1" "parse (map Some bytes) = Some serial"
      "take (length serial) (crt_serial s') = map Some serial" "unat (crt_serial_len s') = length serial"
proof -
  have put: "memcpy_to (crt_buf s) 0 (map Some bytes) = Some (crt_buf (crt_overwritten bytes s))"
    and same: "s\<lparr>crt_buf := crt_buf (crt_overwritten bytes s)\<rparr> = crt_overwritten bytes s"
    if "length bytes \<le> unat (server_cert_max c)" for bytes
    using that ok by (simp_all add: crt_ok_def crt_overwritten_def)
  have none: "crt_overwritten [] s = s" by (simp add: crt_overwritten_def)
  consider (dlfail) "cloud c" "get_status dl \<noteq> GOLIOTH_OK" | (dl) "cloud c" "get_status dl = GOLIOTH_OK"
    | (builtin) "\<not> cloud c" "cert_builtin c" | (nothing) "\<not> cloud c" "\<not> cert_builtin c" by blast
  then show ?thesis
  proof cases
    case dlfail
    then show ?thesis using failed [of "get_data dl"] put [of "get_data dl"] same [of "get_data dl"] dl
      by (simp add: cert_on_connected_def download_ok_def)
  next
    case nothing
    then show ?thesis using failed [of "[]"] none by (simp add: cert_on_connected_def)
  next
    case dl
    have l: "length (get_data dl) \<le> unat (server_cert_max c)" "unat (get_len dl) = length (get_data dl)"
      using assms(3) dl by (simp_all add: download_ok_def)
    from ok parse l show ?thesis
      by (cases rule: cert_update_overwritten)
         (use dl put [OF l(1)] same [OF l(1)] failed [OF _ l(1)] installed in \<open>auto simp: cert_on_connected_def\<close>)
  next
    case builtin
    have l: "length builtin \<le> unat (server_cert_max c)" using b by (simp add: builtin_ok_def)
    then have "unat (of_nat (length builtin) :: size_t) = length builtin"
      using unat_size_bound [of "server_cert_max c"] by (intro unat_of_nat_size) simp
    with ok parse l show ?thesis
      by (cases rule: cert_update_overwritten)
         (use builtin put [OF l] same [OF l] failed [OF _ l] installed in \<open>auto simp: cert_on_connected_def\<close>)
  qed
qed

section \<open>Reading the server certificate\<close>

definition sc_ok :: "config \<Rightarrow> server_crt \<Rightarrow> server_cert_ctx \<Rightarrow> bool" where
  "sc_ok c s x \<longleftrightarrow> crt_ok c s \<and> sc_offset x \<le> crt_len s"

definition sc_pending :: "server_crt \<Rightarrow> server_cert_ctx \<Rightarrow> cell list" where
  "sc_pending s x = drop (unat (sc_offset x)) (crt_cert s)"

lemma server_cert_get_data_end:
  "sc_offset x \<ge> crt_len s \<Longrightarrow> server_cert_get_data s x n = Some (- ENODATA, n, [], False, x)"
  by (simp add: server_cert_get_data_def)

lemma server_cert_get_data_eq:
  assumes ok: "sc_ok c s x" and more: "sc_offset x < crt_len s"
  shows "\<exists>k x'. server_cert_get_data s x n = Some (0, k, take (unat n) (sc_pending s x), sc_offset x' = crt_len s, x') \<and>
     unat k = min (unat n) (length (sc_pending s x)) \<and> sc_ok c s x' \<and> sc_id x' = sc_id x \<and>
     sc_pending s x' = drop (unat n) (sc_pending s x) \<and> unat (sc_offset x') = unat (sc_offset x) + unat k"
proof -
  have crt: "crt_ok c s" "sc_offset x \<le> crt_len s" using ok by (simp_all add: sc_ok_def)
  define k where "k = min n (crt_len s - sc_offset x)"
  have lp: "length (sc_pending s x) = unat (crt_len s) - unat (sc_offset x)"
    using length_crt_cert [OF crt(1)] by (simp add: sc_pending_def)
  have k: "unat k = min (unat n) (length (sc_pending s x))"
    using crt(2) by (simp add: k_def unat_min_word unat_diff_word lp)
  have le: "unat (sc_offset x) + unat k \<le> unat (crt_len s)"
    using crt(2) by (simp add: k lp word_le_nat_alt)
  have max: "unat (crt_len s) \<le> length (crt_buf s)" using crt(1) by (simp add: crt_ok_def word_le_nat_alt)
  have get: "memcpy_from (crt_buf s) (unat (sc_offset x)) (unat k) = Some (take (unat n) (sc_pending s x))"
    using le max by (simp add: sc_pending_def crt_cert_def drop_take k lp min_def)
  define x' where "x' = x\<lparr>sc_offset := sc_offset x + k\<rparr>"
  have off: "unat (sc_offset x') = unat (sc_offset x) + unat k"
    using unat_plus_le_size [OF le] by (simp add: x'_def)
  have "sc_offset x' \<le> crt_len s" using le off by (simp add: word_le_nat_alt)
  moreover from this have "(sc_offset x' \<ge> crt_len s) = (sc_offset x' = crt_len s)" by auto
  moreover have "sc_pending s x' = drop (unat n) (sc_pending s x)"
    using k lp by (simp add: sc_pending_def off min_def length_crt_cert [OF crt(1)] add.commute)
  moreover have "(if n > crt_len s - sc_offset x then crt_len s - sc_offset x else n) = k"
    by (auto simp: k_def min_def not_less not_le)
  ultimately show ?thesis
    using more [unfolded not_le [symmetric]] get crt(1) k off
    by (intro exI [of _ k] exI [of _ x']) (simp add: server_cert_get_data_def Let_def x'_def sc_ok_def)
qed

interpretation scs: byte_source "server_cert_get_data s" "sc_pending s" "sc_ok c s" for c s
proof unfold_locales
  fix x n
  assume ok: "sc_ok c s x"
  show "\<exists>ret k xs last x'. server_cert_get_data s x n = Some (ret, k, xs, last, x') \<and> sc_ok c s x' \<and>
      sc_pending s x = xs @ sc_pending s x' \<and> length xs \<le> unat n \<and> (last \<longrightarrow> sc_pending s x' = []) \<and>
      (ret = 0 \<longrightarrow> k = of_nat (length xs))"
  proof (cases "sc_offset x < crt_len s")
    case False
    then have "server_cert_get_data s x n = Some (- ENODATA, n, [], False, x)"
      by (intro server_cert_get_data_end) simp
    then show ?thesis using ok
      by (intro exI [of _ "- ENODATA"] exI [of _ n] exI [of _ "[]"] exI [of _ False] exI [of _ x])
         (simp add: errno_defs)
  next
    case True
    obtain k x' where E: "server_cert_get_data s x n = Some (0, k, take (unat n) (sc_pending s x), sc_offset x' = crt_len s, x')"
      "unat k = min (unat n) (length (sc_pending s x))" "sc_ok c s x'" "sc_pending s x' = drop (unat n) (sc_pending s x)"
      using server_cert_get_data_eq [OF ok True] by blast
    have "k = of_nat (unat k)" by simp
    then have "k = of_nat (min (unat n) (length (sc_pending s x)))" unfolding E(2) .
    moreover have "sc_pending s x' = []" if "sc_offset x' = crt_len s"
      using that E(3) by (simp add: sc_pending_def sc_ok_def length_crt_cert)
    ultimately show ?thesis using E by (simp add: min.commute)
  qed
qed

text \<open>Reads of any nonzero sizes finish a transfer, at the latest after as many reads as the
  certificate has bytes.\<close>

lemma server_cert_pull_all:
  assumes "sc_ok c s x" and "sc_offset x < crt_len s" and "\<forall>n \<in> set ns. n \<noteq> 0"
    and "length (sc_pending s x) \<le> length ns"
  shows "\<exists>x'. pull_all (server_cert_get_data s) ns x = Some (sc_pending s x, True, x') \<and> server_cert_is_complete s x'"
  using assms
proof (induction ns arbitrary: x)
  case Nil
  then have "unat (crt_len s) \<le> unat (sc_offset x)"
    using length_crt_cert [of c s] by (simp add: sc_pending_def sc_ok_def)
  then show ?case using Nil.prems(2) by (simp add: word_less_nat_alt)
next
  case (Cons n ns)
  obtain k x1 where E: "server_cert_get_data s x n = Some (0, k, take (unat n) (sc_pending s x), sc_offset x1 = crt_len s, x1)"
    "unat k = min (unat n) (length (sc_pending s x))" "sc_ok c s x1" "sc_pending s x1 = drop (unat n) (sc_pending s x)"
    using server_cert_get_data_eq [OF Cons.prems(1,2)] by blast
  have n: "0 < unat n" using Cons.prems(3) by (simp add: word_neq_0_unat [of n])
  show ?case
  proof (cases "sc_offset x1 = crt_len s")
    case True
    then have "sc_pending s x1 = []" using E(3) by (simp add: sc_pending_def sc_ok_def length_crt_cert)
    then have "take (unat n) (sc_pending s x) = sc_pending s x" using E(4) by simp
    then show ?thesis using E True by (auto simp: server_cert_is_complete_def)
  next
    case False
    then have "sc_offset x1 < crt_len s" using E(3) by (auto simp: sc_ok_def)
    moreover have "length (sc_pending s x1) \<le> length ns" using E(4) n Cons.prems(4) by simp
    ultimately obtain x' where "pull_all (server_cert_get_data s) ns x1 = Some (sc_pending s x1, True, x')"
      "server_cert_is_complete s x'"
      using Cons.IH [OF E(3)] Cons.prems(3) by auto
    then show ?thesis using E False by auto
  qed
qed

section \<open>Sessions of one reader\<close>

text \<open>A reader of the server certificate among downloads: the bytes it got, the number of
  certificates installed since it started, and whether a download or a parse failed.\<close>

inductive cert_session ::
  "config \<Rightarrow> (cell list \<Rightarrow> byte list option) \<Rightarrow> byte list \<Rightarrow>
   cell list \<Rightarrow> nat \<Rightarrow> bool \<Rightarrow> server_crt \<Rightarrow> server_cert_ctx \<Rightarrow> bool" for c parse builtin where
  cert_started: "crt_ok c s \<Longrightarrow> server_cert_start s (Some a) h = (Some a, h') \<Longrightarrow> h' a = Some x \<Longrightarrow>
     cert_session c parse builtin [] 0 False s x"
| cert_read: "cert_session c parse builtin out n f s x \<Longrightarrow>
     server_cert_get_data s x k = Some (ret, k', cs, il, x') \<Longrightarrow>
     cert_session c parse builtin (out @ cs) n f s x'"
| cert_reconnected: "cert_session c parse builtin out n f s x \<Longrightarrow> download_ok c dl \<Longrightarrow>
     cert_on_connected c parse builtin dl s = Some s' \<Longrightarrow>
     cert_session c parse builtin out (if crt_id s' = crt_id s then n else Suc n) (f \<or> crt_id s' = crt_id s) s' x"

lemma cert_session_inv:
  assumes "cert_session c parse builtin out n f s x" and parse: "parse_ok parse" and b: "builtin_ok c builtin"
  shows "crt_ok c s \<and> crt_id s = sc_id x + of_nat n \<and>
     (n = 0 \<and> \<not> f \<longrightarrow> sc_offset x \<le> crt_len s \<and> out = take (unat (sc_offset x)) (crt_cert s))"
  using assms(1)
proof (induction rule: cert_session.induct)
  case (cert_started s a h h' x)
  then show ?case by (auto simp: server_cert_start_def)
next
  case (cert_read out n f s x k ret k' cs il x')
  have id: "sc_id x' = sc_id x"
    using cert_read.hyps(2) by (auto simp: server_cert_get_data_def Let_def split: if_splits option.splits)
  have "sc_offset x' \<le> crt_len s \<and> out @ cs = take (unat (sc_offset x')) (crt_cert s)" if "n = 0 \<and> \<not> f"
  proof (cases "sc_offset x < crt_len s")
    case False
    then show ?thesis using cert_read that server_cert_get_data_end [of s x k] by simp
  next
    case True
    have ok: "sc_ok c s x" using cert_read.IH that by (simp add: sc_ok_def)
    obtain k1 x1 where E: "server_cert_get_data s x k = Some (0, k1, take (unat k) (sc_pending s x), sc_offset x1 = crt_len s, x1)"
      "unat k1 = min (unat k) (length (sc_pending s x))" "sc_ok c s x1" "unat (sc_offset x1) = unat (sc_offset x) + unat k1"
      using server_cert_get_data_eq [OF ok True] by blast
    have cs: "cs = take (unat k1) (drop (unat (sc_offset x)) (crt_cert s))" "x' = x1"
      using E(1,2) cert_read.hyps(2) by (simp_all add: sc_pending_def min_def)
    show ?thesis
      using cert_read.IH that E(3,4) cs by (simp add: sc_ok_def take_add)
  qed
  then show ?case using cert_read.IH id by simp
next
  case (cert_reconnected out n f s x dl s')
  then have "crt_ok c s" by simp
  from this parse cert_reconnected.hyps(2) b show ?case
  proof (cases rule: cert_on_connected_cases)
    case (failed bytes)
    then show ?thesis using cert_reconnected by (simp add: crt_overwritten_ok) (simp add: crt_overwritten_def)
  next
    case (installed bytes s1 serial)
    then show ?thesis using cert_reconnected by (simp add: add.assoc)
  qed
qed

section \<open>Properties\<close>

text \<open>C29. The server certificate arrives whole: from the start of a context, reads of any
  nonzero sizes deliver exactly the certificate, and the one that delivers its last byte
  (and none before) says so; as many reads as the certificate has bytes are enough.\<close>

theorem server_cert_transfer:
  assumes ok: "crt_ok c s" and some: "crt_len s \<noteq> 0" and start: "server_cert_start s (Some a) h = (Some a, h')"
    and sizes: "0 \<notin> set ns" "unat (crt_len s) \<le> length ns"
  shows "\<exists>x x'. h' a = Some x \<and> server_cert_is_newest s x \<and>
     pull_all (server_cert_get_data s) ns x = Some (crt_cert s, True, x') \<and> server_cert_is_complete s x'"
proof -
  define x where "x = \<lparr>sc_id = crt_id s, sc_offset = 0\<rparr>"
  have "h' a = Some x" using start by (auto simp: server_cert_start_def x_def)
  moreover have "sc_ok c s x" "sc_offset x < crt_len s" "sc_pending s x = crt_cert s"
    using ok some by (simp_all add: sc_ok_def x_def sc_pending_def word_gt_0)
  moreover have "\<forall>n \<in> set ns. n \<noteq> 0" "length (sc_pending s x) \<le> length ns"
    using sizes calculation(4) by (auto simp: length_crt_cert [OF ok])
  ultimately show ?thesis
    using server_cert_pull_all [of c s x ns] by (auto simp: server_cert_is_newest_def x_def)
qed

definition crt_ex :: server_crt where
  "crt_ex = \<lparr>crt_buf = [Some 1, Some 2, Some 3, Some 0], crt_len = 3, crt_serial = replicate 20 (Some 0),
             crt_serial_len = 1, crt_id = 1\<rparr>"

definition crt_ex_cfg :: config where
  "crt_ex_cfg = (kconfig_default 4)\<lparr>server_cert_max := 4, device_cert_max := 4\<rparr>"

lemma crt_ex_ok: "crt_ok crt_ex_cfg crt_ex" "crt_cert crt_ex = [Some 1, Some 2, Some 3]"
  by (simp_all add: crt_ok_def crt_ex_def crt_ex_cfg_def crt_cert_def CERT_SERIAL_MAXLEN_def)

theorem server_cert_transfer_witness:
  "\<exists>x'. pull_all (server_cert_get_data crt_ex) [2, 2, 2] \<lparr>sc_id = 1, sc_offset = 0\<rparr> = Some ([Some 1, Some 2, Some 3], True, x')"
proof -
  have "server_cert_start crt_ex (Some 0) Map.empty = (Some 0, [0 \<mapsto> \<lparr>sc_id = 1, sc_offset = 0\<rparr>])"
    by (simp add: server_cert_start_def crt_ex_def)
  from server_cert_transfer [OF crt_ex_ok(1) _ this, of "[2, 2, 2]"] show ?thesis
    by (auto simp: crt_ex_ok(2)) (auto simp: crt_ex_def)
qed

text \<open>What a reader got is of the newest certificate: as long as no download or parse has
  failed, and fewer than 2^32 certificates were installed since it started, a context that is
  the newest has delivered a prefix of the certificate now installed, and all of it once it
  is complete, however downloads and reads are interleaved.\<close>

theorem server_cert_newest_is_current:
  assumes sess: "cert_session c parse builtin out n False s x" and parse: "parse_ok parse" and b: "builtin_ok c builtin"
    and few: "n < 2 ^ 32" and newest: "server_cert_is_newest s x"
  shows "out = take (unat (sc_offset x)) (crt_cert s) \<and>
     (if server_cert_is_complete s x then out = crt_cert s else length out < length (crt_cert s))"
proof -
  have inv: "crt_ok c s" "crt_id s = sc_id x + of_nat n"
    "n = 0 \<longrightarrow> sc_offset x \<le> crt_len s \<and> out = take (unat (sc_offset x)) (crt_cert s)"
    using cert_session_inv [OF sess parse b] by auto
  have "(of_nat n :: size_t) = 0" using inv(2) newest by (simp add: server_cert_is_newest_def)
  then have "n = 0" using unat_of_nat_size [OF few] by simp
  then show ?thesis
    using inv(1,3) length_crt_cert [OF inv(1)]
    by (auto simp: server_cert_is_complete_def word_le_nat_alt)
qed

theorem server_cert_newest_is_current_witness:
  "\<exists>x. server_cert_get_data crt_ex \<lparr>sc_id = 1, sc_offset = 0\<rparr> 2 = Some (0, 2, [Some 1, Some 2], False, x) \<and>
     [Some 1, Some 2] = take (unat (sc_offset x)) (crt_cert crt_ex)"
proof -
  define x where "x = \<lparr>sc_id = 1, sc_offset = 2\<rparr>"
  have r: "server_cert_get_data crt_ex \<lparr>sc_id = 1, sc_offset = 0\<rparr> 2 = Some (0, 2, [Some 1, Some 2], False, x)"
    by (simp add: server_cert_get_data_def crt_ex_def x_def memcpy_from_def)
  have "cert_session crt_ex_cfg (\<lambda>_. None) [] [] 0 False crt_ex \<lparr>sc_id = 1, sc_offset = 0\<rparr>"
    by (rule cert_started [OF crt_ex_ok(1), of 0 Map.empty "[0 \<mapsto> \<lparr>sc_id = 1, sc_offset = 0\<rparr>]"])
       (simp_all add: server_cert_start_def crt_ex_def)
  from cert_read [OF this r] have "cert_session crt_ex_cfg (\<lambda>_. None) [] [Some 1, Some 2] 0 False crt_ex x" by simp
  from server_cert_newest_is_current [OF this] have "[Some 1, Some 2] = take (unat (sc_offset x)) (crt_cert crt_ex)"
    by (simp add: parse_ok_def builtin_ok_def server_cert_is_newest_def x_def crt_ex_def)
  with r show ?thesis by blast
qed

text \<open>C33. A failed refresh corrupts the certificate in use: where a download fails after it has
  put some bytes into the buffer, or what was downloaded does not parse, every context that
  was the newest stays the newest, the length and the serial number stay, and the
  certificate served from then on is a mixture of the new bytes and the old ones.\<close>

theorem cert_failed_refresh_corrupts:
  assumes ok: "crt_ok c s" and cloud: "cloud c" and dl: "download_ok c dl"
    and fail: "get_status dl \<noteq> GOLIOTH_OK \<or> parse (map Some (get_data dl)) = None"
  shows "\<exists>s'. cert_on_connected c parse builtin dl s = Some s' \<and>
     server_cert_is_newest s' x = server_cert_is_newest s x \<and> crt_serial s' = crt_serial s \<and> crt_len s' = crt_len s \<and>
     crt_cert s' = take (unat (crt_len s)) (map Some (get_data dl) @ drop (length (get_data dl)) (crt_cert s))"
proof -
  define s1 where "s1 = crt_overwritten (get_data dl) s"
  have l: "length (get_data dl) \<le> unat (server_cert_max c)" using dl by (simp add: download_ok_def)
  have put: "memcpy_to (crt_buf s) 0 (map Some (get_data dl)) = Some (crt_buf s1)"
    "s\<lparr>crt_buf := crt_buf s1\<rparr> = s1"
    using l ok by (simp_all add: crt_ok_def s1_def crt_overwritten_def)
  have upd: "server_crt_update parse (get_len dl) s1 = Some (- EIO, s1)" if "get_status dl = GOLIOTH_OK"
  proof -
    have "unat (get_len dl) = length (get_data dl)" using dl that by (simp add: download_ok_def)
    moreover have "parse (map Some (get_data dl)) = None" using fail that by simp
    ultimately show ?thesis using ok l
      by (simp add: server_crt_update_def s1_def crt_overwritten_def crt_ok_def)
  qed
  have "cert_on_connected c parse builtin dl s = Some s1"
    using cloud put upd by (simp add: cert_on_connected_def)
  moreover have "crt_cert s1 = take (unat (crt_len s)) (map Some (get_data dl) @ drop (length (get_data dl)) (crt_cert s))"
    by (simp add: s1_def crt_overwritten_def crt_cert_def drop_take)
  ultimately show ?thesis
    by (intro exI [of _ s1]) (simp add: s1_def crt_overwritten_def server_cert_is_newest_def)
qed

theorem cert_failed_refresh_corrupts_witness:
  "\<exists>s'. cert_on_connected crt_ex_cfg (\<lambda>_. None) [] \<lparr>get_status = GOLIOTH_ERR_NACK, get_data = [9], get_len = 0\<rparr> crt_ex = Some s' \<and>
     server_cert_is_newest s' \<lparr>sc_id = 1, sc_offset = 0\<rparr> \<and> crt_cert s' = [Some 9, Some 2, Some 3]"
proof -
  have dl: "download_ok crt_ex_cfg \<lparr>get_status = GOLIOTH_ERR_NACK, get_data = [9], get_len = 0\<rparr>"
    by (simp add: download_ok_def crt_ex_cfg_def)
  have "cloud crt_ex_cfg" by (simp add: crt_ex_cfg_def kconfig_default_def)
  from cert_failed_refresh_corrupts [OF crt_ex_ok(1) this dl, where parse = "\<lambda>_. None" and builtin = "[]" and
      x = "\<lparr>sc_id = 1, sc_offset = 0\<rparr>"]
  show ?thesis by (auto simp: server_cert_is_newest_def crt_ex_ok(2)) (auto simp: crt_ex_def)
qed

text \<open>A device certificate that fits is handed to the cloud byte for byte, whatever
  chunks it came in, and its context is freed; one that does not fit is refused at the first
  chunk that exceeds the buffer, which keeps the chunks before it.\<close>

theorem device_cert_collects:
  assumes start: "device_cert_start c (Some a) h = (Some a, h0)"
    and sizes: "\<forall>x \<in> set xs. unat (device_cert_max c) + length x < 2 ^ 32"
  shows "\<exists>d0 ret d. h0 a = Some d0 \<and> push_all (device_cert_push c) xs d0 = Some (ret, d) \<and>
     (if length (concat xs) \<le> unat (device_cert_max c)
      then ret = 0 \<and> device_cert_finish c GOLIOTH_OK (Some a) (h0(a \<mapsto> d)) =
        Some (0, if cloud c then Some (map Some (concat xs)) else None, h0(a := None))
      else ret = - ENOSPC \<and> (\<exists>k < length xs. dc_data d = map Some (concat (take k xs))))"
proof -
  define d0 where "d0 = \<lparr>dc_len = 0, dc_buf = replicate (unat (device_cert_max c)) (None :: cell)\<rparr>"
  have h0: "h0 a = Some d0" using start by (auto simp: device_cert_start_def d0_def)
  obtain ret d where run: "push_all (device_cert_push c) xs d0 = Some (ret, d)" and good: "dc_ok c d"
    and res: "if length (concat xs) \<le> unat (device_cert_max c) then ret = 0 \<and> dc_data d = map Some (concat xs)
       else ret = - ENOSPC \<and> (\<exists>k < length xs. dc_data d = map Some (concat (take k xs)))"
    using dcb.reception [OF sizes] unfolding d0_def [symmetric] by blast
  have "memcpy_from (dc_buf d) 0 (unat (dc_len d)) = Some (dc_data d)"
    using good by (simp add: dc_ok_def buf_ok_def dc_data_def buf_data_def word_le_nat_alt)
  then show ?thesis
    using run res h0 by (auto simp: device_cert_finish_def device_cert_abort_def)
qed

theorem device_cert_collects_witness:
  "\<exists>d. push_all (device_cert_push crt_ex_cfg) [[1, 2], [3]] \<lparr>dc_len = 0, dc_buf = [None, None, None, None]\<rparr> = Some (0, d) \<and>
     device_cert_finish crt_ex_cfg GOLIOTH_OK (Some 0) [0 \<mapsto> d] = Some (0, Some [Some 1, Some 2, Some 3], Map.empty)"
proof -
  have cfg: "device_cert_max crt_ex_cfg = 4" "cloud crt_ex_cfg" by (simp_all add: crt_ex_cfg_def kconfig_default_def)
  have "device_cert_start crt_ex_cfg (Some 0) Map.empty = (Some 0, [0 \<mapsto> \<lparr>dc_len = 0, dc_buf = [None, None, None, None]\<rparr>])"
    by (simp add: device_cert_start_def cfg) (simp add: numeral_eq_Suc)
  from device_cert_collects [OF this, of "[[1, 2], [3]]"] show ?thesis by (auto simp: cfg)
qed

end
