(* ===== verification/Cert_Threads.thy ===== *)
theory Cert_Threads
  imports Cert
begin

text \<open>
  The server certificate under two threads. The application's thread runs
  \<open>pouch_gateway_cert_module_on_connected\<close> of \<open>lib/cert.c\<close>, the Bluetooth stack's
  thread starts contexts and reads; nothing keeps them apart but the order in which the
  length and the id are stored. Both are cut at their accesses to the module's variables,
  and the download may fill the buffer in any number of pieces. The results: no interleaving
  makes an access out of bounds; a reader that no refresh overlapped, and no failed one
  preceded, has the certificate if it is the newest; a reader that is overlapped has a mixture
  of two certificates and counts as the newest.
\<close>

section \<open>The pieces of the functions\<close>

text \<open>The refresh: downloading; with a certificate in the buffer (\<open>FGot\<close>); parsed; with the
  serial number, its length, the length of the certificate stored.\<close>

datatype refresh_pc =
  FIdle | FDownload | FGot size_t | FParsed "byte list" size_t | FSerial nat size_t | FSerialLen size_t | FLen

definition refresh_begin :: "config \<Rightarrow> byte list \<Rightarrow> server_crt \<Rightarrow> (refresh_pc \<times> server_crt) option" where
  "refresh_begin c builtin s =
     (if cloud c then Some (FDownload, s)
      else if cert_builtin c then do {
        buf \<leftarrow> memcpy_to (crt_buf s) 0 (map Some builtin);
        Some (FGot (of_nat (length builtin)), s\<lparr>crt_buf := buf\<rparr>) }
      else Some (FIdle, s))"

definition download_put :: "nat \<Rightarrow> byte list \<Rightarrow> server_crt \<Rightarrow> server_crt option" where
  "download_put off bytes s = do {
     buf \<leftarrow> memcpy_to (crt_buf s) off (map Some bytes);
     Some (s\<lparr>crt_buf := buf\<rparr>) }"

definition download_end :: "golioth_status \<Rightarrow> size_t \<Rightarrow> refresh_pc" where
  "download_end status len = (if status \<noteq> GOLIOTH_OK then FIdle else FGot len)"

fun refresh_step ::
  "(cell list \<Rightarrow> byte list option) \<Rightarrow> refresh_pc \<Rightarrow> server_crt \<Rightarrow> (refresh_pc \<times> server_crt) option" where
  "refresh_step parse (FGot len) s = do {
     chain \<leftarrow> memcpy_from (crt_buf s) 0 (unat len);
     Some (case parse chain of None \<Rightarrow> FIdle | Some serial \<Rightarrow> FParsed serial len, s) }"
| "refresh_step parse (FParsed serial len) s = do {
     ser \<leftarrow> memcpy_to (crt_serial s) 0 (map Some serial);
     Some (FSerial (length serial) len, s\<lparr>crt_serial := ser\<rparr>) }"
| "refresh_step parse (FSerial n len) s = Some (FSerialLen len, s\<lparr>crt_serial_len := of_nat n\<rparr>)"
| "refresh_step parse (FSerialLen len) s = Some (FLen, s\<lparr>crt_len := len\<rparr>)"
| "refresh_step parse FLen s = Some (FIdle, s\<lparr>crt_id := crt_id s + 1\<rparr>)"
| "refresh_step parse pc s = Some (pc, s)"

text \<open>A read: with the length read, and what is to be copied (\<open>GCopy\<close>).\<close>

datatype get_pc = GIdle | GCopy size_t size_t

definition server_cert_get_enter :: "server_crt \<Rightarrow> server_cert_ctx \<Rightarrow> size_t \<Rightarrow> get_pc" where
  "server_cert_get_enter s x dst_len =
     (let len = crt_len s in
      if sc_offset x \<ge> len then GIdle
      else GCopy (if dst_len > len - sc_offset x then len - sc_offset x else dst_len) len)"

definition server_cert_get_copy ::
  "server_crt \<Rightarrow> server_cert_ctx \<Rightarrow> size_t \<Rightarrow> size_t \<Rightarrow> (cell list \<times> bool \<times> server_cert_ctx) option" where
  "server_cert_get_copy s x k len = do {
     cs \<leftarrow> memcpy_from (crt_buf s) (unat (sc_offset x)) (unat k);
     let x' = x\<lparr>sc_offset := sc_offset x + k\<rparr>;
     Some (cs, sc_offset x' \<ge> len, x') }"

text \<open>Without the other thread the pieces are the functions.\<close>

lemma server_cert_get_pieces:
  "server_cert_get_data s x n =
     (case server_cert_get_enter s x n of
        GIdle \<Rightarrow> Some (- ENODATA, n, [], False, x)
      | GCopy k len \<Rightarrow> map_option (\<lambda>(cs, il, x'). (0, k, cs, il, x')) (server_cert_get_copy s x k len))"
  by (simp add: server_cert_get_data_def server_cert_get_enter_def server_cert_get_copy_def Let_def split: option.split)

fun refresh_run ::
  "(cell list \<Rightarrow> byte list option) \<Rightarrow> nat \<Rightarrow> refresh_pc \<Rightarrow> server_crt \<Rightarrow> (refresh_pc \<times> server_crt) option" where
  "refresh_run parse 0 pc s = Some (pc, s)"
| "refresh_run parse (Suc n) pc s = do { (pc', s') \<leftarrow> refresh_step parse pc s; refresh_run parse n pc' s' }"

lemma refresh_run_idle [simp]: "refresh_run parse n FIdle s = Some (FIdle, s)"
  by (induction n) simp_all

lemma server_crt_update_pieces:
  "map_option snd (server_crt_update parse len s) =
     map_option snd (refresh_run parse 5 (FGot len) s)"
  by (simp add: server_crt_update_def numeral_eq_Suc Let_def split: option.split bind_split)

lemma cert_on_connected_pieces:
  "cert_on_connected c parse builtin dl s =
     (if cloud c then do {
        s1 \<leftarrow> download_put 0 (get_data dl) s;
        map_option snd (refresh_run parse 5 (download_end (get_status dl) (get_len dl)) s1) }
      else do {
        (pc, s1) \<leftarrow> refresh_begin c builtin s;
        map_option snd (refresh_run parse 5 pc s1) })"
proof -
  have snd: "do { (ret, s2) \<leftarrow> x; Some s2 } = map_option snd x" for x :: "(int \<times> server_crt) option"
    by (cases x) auto
  show ?thesis
    unfolding cert_on_connected_def snd server_crt_update_pieces Let_def
    by (simp add: download_put_def download_end_def refresh_begin_def split: bind_split)
qed

section \<open>Two threads\<close>

text \<open>The state: the module's variables, where the refresh and the reader stand, the reader's
  context, and ghosts: what it got, the certificates installed since it started, whether a
  refresh was in progress during one of its reads, and whether one failed.\<close>

record cert_threads =
  ct_crt :: server_crt
  ct_refresh :: refresh_pc
  ct_get :: get_pc
  ct_ctx :: server_cert_ctx
  ct_out :: "cell list"
  ct_installed :: nat
  ct_overlap :: bool
  ct_failed :: bool

definition ct_start :: "server_crt \<Rightarrow> refresh_pc \<Rightarrow> server_cert_ctx \<Rightarrow> cert_threads" where
  "ct_start s pc x = \<lparr>ct_crt = s, ct_refresh = pc, ct_get = GIdle, ct_ctx = x, ct_out = [], ct_installed = 0,
     ct_overlap = False, ct_failed = False\<rparr>"

definition ct_mark :: "cert_threads \<Rightarrow> cert_threads" where
  "ct_mark t = t\<lparr>ct_overlap := ct_overlap t \<or> (ct_refresh t \<noteq> FIdle \<and> ct_get t \<noteq> GIdle)\<rparr>"

text \<open>The steps: a refresh begins, the download puts bytes into the buffer, the download ends,
  the refresh goes on, a read begins, a read copies.\<close>

datatype ct_act = TRefresh | TPut nat "byte list" | TEnd golioth_status size_t | TStep | TRead size_t | TCopy

fun ct_can :: "config \<Rightarrow> cert_threads \<Rightarrow> ct_act \<Rightarrow> bool" where
  "ct_can c t TRefresh = (ct_refresh t = FIdle)"
| "ct_can c t (TPut off bytes) = (ct_refresh t = FDownload \<and> off + length bytes \<le> unat (server_cert_max c))"
| "ct_can c t (TEnd status len) = (ct_refresh t = FDownload \<and> (status = GOLIOTH_OK \<longrightarrow> len \<le> server_cert_max c))"
| "ct_can c t TStep = (ct_refresh t \<noteq> FIdle \<and> ct_refresh t \<noteq> FDownload)"
| "ct_can c t (TRead n) = (ct_get t = GIdle)"
| "ct_can c t TCopy = (ct_get t \<noteq> GIdle)"

fun ct_do ::
  "config \<Rightarrow> (cell list \<Rightarrow> byte list option) \<Rightarrow> byte list \<Rightarrow> cert_threads \<Rightarrow> ct_act \<Rightarrow> cert_threads option" where
  "ct_do c parse builtin t TRefresh = do {
     (pc, s) \<leftarrow> refresh_begin c builtin (ct_crt t);
     Some (ct_mark (t\<lparr>ct_refresh := pc, ct_crt := s\<rparr>)) }"
| "ct_do c parse builtin t (TPut off bytes) = do {
     s \<leftarrow> download_put off bytes (ct_crt t);
     Some (t\<lparr>ct_crt := s\<rparr>) }"
| "ct_do c parse builtin t (TEnd status len) =
     Some (t\<lparr>ct_refresh := download_end status len, ct_failed := ct_failed t \<or> status \<noteq> GOLIOTH_OK\<rparr>)"
| "ct_do c parse builtin t TStep = do {
     (pc, s) \<leftarrow> refresh_step parse (ct_refresh t) (ct_crt t);
     let ended = (pc = FIdle);
     let installed = (crt_id s \<noteq> crt_id (ct_crt t));
     Some (t\<lparr>ct_refresh := pc, ct_crt := s, ct_installed := (if installed then Suc (ct_installed t) else ct_installed t),
       ct_failed := ct_failed t \<or> (ended \<and> \<not> installed)\<rparr>) }"
| "ct_do c parse builtin t (TRead n) =
     Some (ct_mark (t\<lparr>ct_get := server_cert_get_enter (ct_crt t) (ct_ctx t) n\<rparr>))"
| "ct_do c parse builtin t TCopy =
     (case ct_get t of
        GIdle \<Rightarrow> Some t
      | GCopy k len \<Rightarrow> do {
          (cs, il, x) \<leftarrow> server_cert_get_copy (ct_crt t) (ct_ctx t) k len;
          Some (t\<lparr>ct_get := GIdle, ct_ctx := x, ct_out := ct_out t @ cs\<rparr>) })"

definition refresh_fits :: "config \<Rightarrow> refresh_pc \<Rightarrow> bool" where
  "refresh_fits c pc \<longleftrightarrow> (case pc of
     FGot len \<Rightarrow> len \<le> server_cert_max c
   | FParsed serial len \<Rightarrow> length serial \<le> CERT_SERIAL_MAXLEN \<and> len \<le> server_cert_max c
   | FSerial n len \<Rightarrow> n \<le> CERT_SERIAL_MAXLEN \<and> len \<le> server_cert_max c
   | FSerialLen len \<Rightarrow> len \<le> server_cert_max c
   | _ \<Rightarrow> True)"

text \<open>A reader may start at any moment of a refresh.\<close>

inductive ct_reach ::
  "config \<Rightarrow> (cell list \<Rightarrow> byte list option) \<Rightarrow> byte list \<Rightarrow> cert_threads \<Rightarrow> bool" for c parse builtin where
  started: "crt_ok c s \<Longrightarrow> refresh_fits c pc \<Longrightarrow> server_cert_start s (Some a) h = (Some a, h') \<Longrightarrow> h' a = Some x \<Longrightarrow>
     ct_reach c parse builtin (ct_start s pc x)"
| moved: "ct_reach c parse builtin t \<Longrightarrow> ct_can c t a \<Longrightarrow> ct_do c parse builtin t a = Some t' \<Longrightarrow>
     ct_reach c parse builtin t'"

section \<open>The invariant\<close>

fun get_of :: "size_t \<Rightarrow> get_pc \<Rightarrow> bool" where
  "get_of l GIdle = True"
| "get_of l (GCopy k len) = (len = l)"

fun get_fits :: "config \<Rightarrow> size_t \<Rightarrow> get_pc \<Rightarrow> bool" where
  "get_fits c off GIdle = True"
| "get_fits c off (GCopy k len) = (len \<le> server_cert_max c \<and> unat off + unat k \<le> unat len)"

definition ct_fresh :: "cert_threads \<Rightarrow> bool" where
  "ct_fresh t \<longleftrightarrow> sc_offset (ct_ctx t) \<le> crt_len (ct_crt t) \<and>
     ct_out t = take (unat (sc_offset (ct_ctx t))) (crt_cert (ct_crt t)) \<and>
     get_of (crt_len (ct_crt t)) (ct_get t)"

definition ct_ok :: "config \<Rightarrow> cert_threads \<Rightarrow> bool" where
  "ct_ok c t \<longleftrightarrow> crt_ok c (ct_crt t) \<and> refresh_fits c (ct_refresh t) \<and>
     crt_id (ct_crt t) = sc_id (ct_ctx t) + of_nat (ct_installed t) \<and>
     get_fits c (sc_offset (ct_ctx t)) (ct_get t) \<and>
     (\<not> ct_overlap t \<longrightarrow> ct_refresh t = FIdle \<or> ct_get t = GIdle) \<and>
     (ct_installed t = 0 \<and> \<not> ct_overlap t \<and> \<not> ct_failed t \<and> ct_refresh t = FIdle \<longrightarrow> ct_fresh t)"

lemma ct_fresh_upd [simp]:
  "ct_fresh (t\<lparr>ct_refresh := pc\<rparr>) = ct_fresh t" "ct_fresh (t\<lparr>ct_overlap := f\<rparr>) = ct_fresh t"
  "ct_fresh (t\<lparr>ct_failed := f\<rparr>) = ct_fresh t"
  by (simp_all add: ct_fresh_def)

lemma server_cert_get_enter_bound:
  assumes "crt_ok c s"
  shows "get_of (crt_len s) (server_cert_get_enter s x n) \<and> get_fits c (sc_offset x) (server_cert_get_enter s x n)"
proof -
  have "unat (sc_offset x) + unat (min n (crt_len s - sc_offset x)) \<le> unat (crt_len s)" if "sc_offset x < crt_len s"
    using that unat_diff_word [of "sc_offset x" "crt_len s"] by (simp add: unat_min_word word_less_nat_alt word_le_nat_alt)
  then show ?thesis
    using assms by (auto simp: server_cert_get_enter_def Let_def crt_ok_def min_def not_le split: if_splits)
qed

lemma ct_do_ok:
  assumes ok: "ct_ok c t" and can: "ct_can c t a" and parse: "parse_ok parse" and b: "builtin_ok c builtin"
  shows "\<exists>t'. ct_do c parse builtin t a = Some t' \<and> ct_ok c t'"
proof (cases a)
  case TRefresh
  have idle: "ct_refresh t = FIdle" using can TRefresh by simp
  have put: "\<exists>buf. memcpy_to (crt_buf (ct_crt t)) 0 (map Some builtin) = Some buf \<and> length buf = length (crt_buf (ct_crt t))"
    using ok b memcpy_to_length by (auto simp: ct_ok_def crt_ok_def builtin_ok_def)
  have len: "(of_nat (length builtin) :: size_t) \<le> server_cert_max c"
    using b unat_size_bound [of "server_cert_max c"] by (simp add: builtin_ok_def word_le_nat_alt unat_of_nat_size)
  show ?thesis
    using ok idle put len TRefresh
    by (auto simp: refresh_begin_def ct_mark_def ct_ok_def crt_ok_def refresh_fits_def)
next
  case (TPut off bytes)
  have put: "\<exists>buf. memcpy_to (crt_buf (ct_crt t)) off (map Some bytes) = Some buf \<and> length buf = length (crt_buf (ct_crt t))"
    using ok can TPut memcpy_to_length by (auto simp: ct_ok_def crt_ok_def)
  show ?thesis
    using ok can put TPut by (auto simp: download_put_def ct_ok_def crt_ok_def)
next
  case (TEnd status len)
  show ?thesis
    using ok can TEnd by (auto simp: download_end_def ct_ok_def refresh_fits_def)
next
  case TStep
  show ?thesis
  proof (cases "ct_refresh t")
    case (FGot len)
    have get: "\<exists>cs. memcpy_from (crt_buf (ct_crt t)) 0 (unat len) = Some cs"
      using ok FGot by (simp add: ct_ok_def crt_ok_def refresh_fits_def word_le_nat_alt)
    then obtain cs where cs: "memcpy_from (crt_buf (ct_crt t)) 0 (unat len) = Some cs" by blast
    show ?thesis
      using ok TStep FGot cs parse by (cases "parse cs") (auto simp: ct_ok_def refresh_fits_def parse_ok_def)
  next
    case (FParsed serial len)
    have "\<exists>ser. memcpy_to (crt_serial (ct_crt t)) 0 (map Some serial) = Some ser \<and> length ser = length (crt_serial (ct_crt t))"
      using ok FParsed memcpy_to_length by (auto simp: ct_ok_def crt_ok_def refresh_fits_def)
    then show ?thesis
      using ok TStep FParsed by (auto simp: ct_ok_def crt_ok_def refresh_fits_def)
  next
    case (FSerial n len)
    then have "unat (of_nat n :: size_t) = n"
      using ok by (intro unat_of_nat_size) (simp add: ct_ok_def refresh_fits_def CERT_SERIAL_MAXLEN_def)
    then show ?thesis
      using ok TStep FSerial by (auto simp: ct_ok_def crt_ok_def refresh_fits_def)
  next
    case (FSerialLen len)
    then show ?thesis
      using ok TStep by (auto simp: ct_ok_def crt_ok_def refresh_fits_def)
  next
    case FLen
    then show ?thesis
      using ok TStep by (auto simp: ct_ok_def crt_ok_def refresh_fits_def add.assoc)
  qed (use can TStep in simp_all)
next
  case (TRead n)
  let ?pc = "server_cert_get_enter (ct_crt t) (ct_ctx t) n"
  have bound: "get_of (crt_len (ct_crt t)) ?pc" "get_fits c (sc_offset (ct_ctx t)) ?pc"
    using server_cert_get_enter_bound [of c "ct_crt t" "ct_ctx t" n] ok by (simp_all add: ct_ok_def)
  show ?thesis
    using ok can TRead bound by (auto simp: ct_mark_def ct_ok_def ct_fresh_def)
next
  case TCopy
  then obtain k len where get: "ct_get t = GCopy k len" using can by (cases "ct_get t") auto
  let ?x = "ct_ctx t" and ?s = "ct_crt t"
  have B: "length (crt_buf ?s) = unat (server_cert_max c)" "len \<le> server_cert_max c" "unat (sc_offset ?x) + unat k \<le> unat len"
    using ok get by (simp_all add: ct_ok_def crt_ok_def)
  then have in_buf: "unat (sc_offset ?x) + unat k \<le> length (crt_buf ?s)" by (simp add: word_le_nat_alt)
  have add: "unat (sc_offset ?x + k) = unat (sc_offset ?x) + unat k"
    using B unat_plus_le_size [of "sc_offset ?x" k len] by simp
  let ?cs = "take (unat k) (drop (unat (sc_offset ?x)) (crt_buf ?s))" and ?x' = "?x\<lparr>sc_offset := sc_offset ?x + k\<rparr>"
  have copy: "server_cert_get_copy ?s ?x k len = Some (?cs, sc_offset ?x + k \<ge> len, ?x')"
    using in_buf by (simp add: server_cert_get_copy_def)
  have "ct_fresh (t\<lparr>ct_get := GIdle, ct_ctx := ?x', ct_out := ct_out t @ ?cs\<rparr>)" if "ct_fresh t"
  proof -
    have f: "len = crt_len ?s" "ct_out t = take (unat (sc_offset ?x)) (crt_cert ?s)"
      using that get by (simp_all add: ct_fresh_def)
    have "?cs = take (unat k) (drop (unat (sc_offset ?x)) (crt_cert ?s))"
      using B(3) f(1) by (simp add: crt_cert_def drop_take min_def)
    then show ?thesis using f B(3) add by (simp add: ct_fresh_def take_add word_le_nat_alt)
  qed
  then show ?thesis
    using ok TCopy get copy by (auto simp: ct_ok_def)
qed

lemma ct_reach_ok:
  assumes "ct_reach c parse builtin t" and parse: "parse_ok parse" and b: "builtin_ok c builtin"
  shows "ct_ok c t"
  using assms(1)
proof induction
  case (started s pc a h h' x)
  then show ?case
    by (auto simp: ct_ok_def ct_start_def ct_fresh_def server_cert_start_def)
next
  case (moved t a t')
  then show ?case using ct_do_ok [OF moved.IH moved.hyps(2) parse b] by auto
qed

fun ct_go ::
  "config \<Rightarrow> (cell list \<Rightarrow> byte list option) \<Rightarrow> byte list \<Rightarrow> ct_act list \<Rightarrow> cert_threads \<Rightarrow> cert_threads option" where
  "ct_go c parse builtin [] t = Some t"
| "ct_go c parse builtin (a # as) t =
     (if ct_can c t a then do { t' \<leftarrow> ct_do c parse builtin t a; ct_go c parse builtin as t' } else None)"

lemma ct_go_reach:
  "ct_reach c parse builtin t \<Longrightarrow> ct_go c parse builtin as t = Some t' \<Longrightarrow> ct_reach c parse builtin t'"
  by (induction as arbitrary: t) (auto split: if_splits bind_splits intro: ct_reach.moved)

section \<open>Properties\<close>

text \<open>C27. However the two threads are interleaved, every copy stays inside its buffers and the
  module's variables keep their bounds. When no refresh is in progress, none overlapped a
  read and none failed, and fewer than 2^32 certificates were installed since it started, a
  context that is the newest has delivered a prefix of the certificate now installed, and all
  of it once it is complete; it may have started at any moment of a refresh.\<close>

theorem cert_threads_newest:
  assumes reach: "ct_reach c parse builtin t" and can: "ct_can c t a"
    and parse: "parse_ok parse" and b: "builtin_ok c builtin"
  shows "(\<exists>t'. ct_do c parse builtin t a = Some t' \<and> crt_ok c (ct_crt t')) \<and>
     (ct_refresh t = FIdle \<and> \<not> ct_overlap t \<and> \<not> ct_failed t \<and> ct_installed t < 2 ^ 32 \<and>
        server_cert_is_newest (ct_crt t) (ct_ctx t) \<longrightarrow>
      ct_out t = take (unat (sc_offset (ct_ctx t))) (crt_cert (ct_crt t)) \<and>
      (if server_cert_is_complete (ct_crt t) (ct_ctx t) then ct_out t = crt_cert (ct_crt t)
       else length (ct_out t) < length (crt_cert (ct_crt t))))"
proof -
  have ok: "ct_ok c t" using ct_reach_ok [OF reach parse b] .
  have "ct_out t = take (unat (sc_offset (ct_ctx t))) (crt_cert (ct_crt t)) \<and>
      (if server_cert_is_complete (ct_crt t) (ct_ctx t) then ct_out t = crt_cert (ct_crt t)
       else length (ct_out t) < length (crt_cert (ct_crt t)))"
    if h: "ct_refresh t = FIdle" "\<not> ct_overlap t" "\<not> ct_failed t" "ct_installed t < 2 ^ 32"
      "server_cert_is_newest (ct_crt t) (ct_ctx t)"
  proof -
    have "(of_nat (ct_installed t) :: size_t) = 0" using ok h(5) by (simp add: ct_ok_def server_cert_is_newest_def)
    then have "ct_installed t = 0" using unat_of_nat_size [OF h(4)] by simp
    then have "ct_fresh t" using ok h by (simp add: ct_ok_def)
    moreover have "length (crt_cert (ct_crt t)) = unat (crt_len (ct_crt t))"
      using length_crt_cert [of c] ok by (simp add: ct_ok_def)
    ultimately show ?thesis
      by (auto simp: ct_fresh_def server_cert_is_complete_def word_le_nat_alt)
  qed
  moreover have "\<exists>t'. ct_do c parse builtin t a = Some t' \<and> crt_ok c (ct_crt t')"
    using ct_do_ok [OF ok can parse b] by (auto simp: ct_ok_def)
  ultimately show ?thesis by blast
qed

text \<open>C28. A reader is not kept from the buffer while a refresh fills it: where the download has
  put its first bytes and the reader, the newest until then, reads, it gets a mixture of the
  new bytes and the old certificate, and it is complete and the newest, so that its transport
  takes the transfer for a success.\<close>

theorem cert_refresh_torn:
  assumes reach: "ct_reach c parse builtin t" and pc: "ct_refresh t = FIdle" "ct_get t = GIdle"
    and x: "sc_id (ct_ctx t) = crt_id (ct_crt t)" "sc_offset (ct_ctx t) = 0" "ct_out t = []"
    and some: "crt_len (ct_crt t) \<noteq> 0" "crt_len (ct_crt t) \<le> n"
    and cfg: "cloud c" "parse_ok parse" "builtin_ok c builtin" and len: "length bytes \<le> unat (server_cert_max c)"
  shows "\<exists>t'. ct_go c parse builtin [TRefresh, TPut 0 bytes, TRead n, TCopy] t = Some t' \<and>
     ct_out t' = take (unat (crt_len (ct_crt t))) (map Some bytes @ drop (length bytes) (crt_cert (ct_crt t))) \<and>
     server_cert_is_complete (ct_crt t') (ct_ctx t') \<and> server_cert_is_newest (ct_crt t') (ct_ctx t')"
proof -
  let ?s = "ct_crt t" and ?x = "ct_ctx t"
  have crt: "crt_ok c ?s" using ct_reach_ok [OF reach cfg(2,3)] by (simp add: ct_ok_def)
  let ?s1 = "crt_overwritten bytes ?s" and ?l = "crt_len ?s"
  have put: "download_put 0 bytes ?s = Some ?s1"
    using crt len by (simp add: download_put_def crt_overwritten_def crt_ok_def)
  have s1: "crt_len ?s1 = ?l" "crt_id ?s1 = crt_id ?s" "crt_ok c ?s1"
    using crt_overwritten_ok [OF crt len] by (simp_all add: crt_overwritten_def)
  have enter: "server_cert_get_enter ?s1 ?x n = GCopy ?l ?l"
    using x(2) some s1(1) by (auto simp: server_cert_get_enter_def word_gt_0 Let_def)
  have copy: "server_cert_get_copy ?s1 ?x ?l ?l = Some (crt_cert ?s1, True, ?x\<lparr>sc_offset := ?l\<rparr>)"
    using x(2) s1 by (simp add: server_cert_get_copy_def crt_cert_def crt_ok_def word_le_nat_alt)
  have mix: "crt_cert ?s1 = take (unat ?l) (map Some bytes @ drop (length bytes) (crt_cert ?s))"
    by (simp add: crt_overwritten_def crt_cert_def drop_take)
  have "ct_go c parse builtin [TRefresh, TPut 0 bytes, TRead n, TCopy] t =
      Some (t\<lparr>ct_refresh := FDownload, ct_crt := ?s1, ct_overlap := True, ct_get := GIdle,
              ct_ctx := ?x\<lparr>sc_offset := ?l\<rparr>, ct_out := crt_cert ?s1\<rparr>)"
    using pc x cfg(1) len put enter copy
    by (simp add: refresh_begin_def ct_mark_def)
  then show ?thesis
    using s1 mix x(1) by (simp add: server_cert_is_complete_def server_cert_is_newest_def)
qed

definition ct_ex :: cert_threads where
  "ct_ex = ct_start crt_ex FIdle \<lparr>sc_id = 1, sc_offset = 0\<rparr>"

lemma ct_ex_reach: "ct_reach crt_ex_cfg parse builtin ct_ex"
  unfolding ct_ex_def
  by (rule ct_reach.started [OF crt_ex_ok(1), of _ 0 Map.empty "[0 \<mapsto> \<lparr>sc_id = 1, sc_offset = 0\<rparr>]"])
     (simp_all add: server_cert_start_def crt_ex_def refresh_fits_def)

lemma ct_ex_cfg: "cloud crt_ex_cfg" "server_cert_max crt_ex_cfg = 4"
  by (simp_all add: crt_ex_cfg_def kconfig_default_def)

theorem cert_threads_newest_witness:
  "\<exists>t. ct_reach crt_ex_cfg (\<lambda>_. None) [] t \<and> server_cert_is_newest (ct_crt t) (ct_ctx t) \<and>
     ct_out t = [Some 1, Some 2] \<and> ct_out t = take (unat (sc_offset (ct_ctx t))) (crt_cert (ct_crt t))"
proof -
  obtain t where go: "ct_go crt_ex_cfg (\<lambda>_. None) [] [TRead 2, TCopy] ct_ex = Some t"
    and t: "ct_refresh t = FIdle" "\<not> ct_overlap t" "\<not> ct_failed t" "ct_installed t = 0" "ct_out t = [Some 1, Some 2]"
      "server_cert_is_newest (ct_crt t) (ct_ctx t)"
    by (simp add: ct_ex_def ct_start_def ct_mark_def crt_ex_def server_cert_get_enter_def server_cert_get_copy_def
        memcpy_from_def server_cert_is_newest_def)
  have reach: "ct_reach crt_ex_cfg (\<lambda>_. None) [] t" by (rule ct_go_reach [OF ct_ex_reach go])
  have "ct_can crt_ex_cfg t TRefresh" using t(1) by simp
  from cert_threads_newest [OF reach this] reach t show ?thesis
    by (auto simp: parse_ok_def builtin_ok_def)
qed

theorem cert_refresh_torn_witness:
  "\<exists>t. ct_go crt_ex_cfg (\<lambda>_. None) [] [TRefresh, TPut 0 [9], TRead 8, TCopy] ct_ex = Some t \<and>
     ct_out t = [Some 9, Some 2, Some 3] \<and> server_cert_is_newest (ct_crt t) (ct_ctx t)"
proof -
  have "crt_len (ct_crt ct_ex) = 3" "crt_cert (ct_crt ct_ex) = [Some 1, Some 2, Some 3]" "crt_id (ct_crt ct_ex) = 1"
    "ct_ctx ct_ex = \<lparr>sc_id = 1, sc_offset = 0\<rparr>" "ct_refresh ct_ex = FIdle" "ct_get ct_ex = GIdle" "ct_out ct_ex = []"
    using crt_ex_ok(2) by (simp_all add: ct_ex_def ct_start_def) (simp_all add: crt_ex_def)
  then show ?thesis
    using cert_refresh_torn [OF ct_ex_reach [of "\<lambda>_. None" "[]"], of 8 "[9]"] ct_ex_cfg
    by (auto simp: parse_ok_def builtin_ok_def simp del: ct_go.simps)
qed

end
