(* ===== verification/Info.thy ===== *)
theory Info
  imports Cert
begin

text \<open>
  The node's information record of \<open>lib/info.c\<close>: at most 64 bytes of CBOR, collected in a
  context and decoded at the end into two answers, whether the node has the current server
  certificate and whether it has a device certificate.

  The CBOR decoder is generated by the build from \<open>info.cddl\<close> and the string comparison
  is zcbor's; both are arguments. \<open>zcbor_ok\<close> states what the comparison documents: two
  strings are equal when their lengths and their bytes are.
\<close>

section \<open>Data and operations\<close>

definition INFO_MAX_SIZE :: size_t where
  "INFO_MAX_SIZE = 64"

definition INFO_FLAG_DEVICE_PROVISIONED :: "32 word" where
  "INFO_FLAG_DEVICE_PROVISIONED = 1"

record info_ctx =
  in_len :: size_t
  in_buf :: "cell list"

record pouch_gatt_info =
  info_flags :: "32 word"
  server_cert_snr :: "byte list"

definition info_start :: "ptr \<Rightarrow> info_ctx store \<Rightarrow> ptr \<times> info_ctx store" where
  "info_start p h =
     (case p of
        None \<Rightarrow> (None, h)
      | Some a \<Rightarrow> (Some a, h(a \<mapsto> \<lparr>in_len = 0, in_buf = replicate (unat INFO_MAX_SIZE) None\<rparr>)))"

definition info_push :: "info_ctx \<Rightarrow> byte list \<Rightarrow> (int \<times> info_ctx) option" where
  "info_push x bytes = do {
     (ret, len, buf) \<leftarrow> buf_push INFO_MAX_SIZE (in_len x, in_buf x) bytes;
     Some (ret, \<lparr>in_len = len, in_buf = buf\<rparr>) }"

definition info_abort :: "ptr \<Rightarrow> info_ctx store \<Rightarrow> info_ctx store option" where
  "info_abort p h = heap_free h p"

text \<open>\<open>pouch_gateway_info_finish\<close>; the two booleans are the caller's
  \<open>*server_cert_provisioned\<close> and \<open>*device_cert_provisioned\<close>, which the function only
  ever sets.\<close>

definition info_finish ::
  "(cell list \<Rightarrow> pouch_gatt_info option) \<Rightarrow> (byte list \<Rightarrow> cell list \<Rightarrow> bool) \<Rightarrow> server_crt \<Rightarrow>
   ptr \<Rightarrow> bool \<Rightarrow> bool \<Rightarrow> info_ctx store \<Rightarrow> (int \<times> bool \<times> bool \<times> info_ctx store) option" where
  "info_finish decode compare s p server_prov device_prov h = do {
     x \<leftarrow> deref h p;
     payload \<leftarrow> memcpy_from (in_buf x) 0 (unat (in_len x));
     (case decode payload of
        None \<Rightarrow> do { h' \<leftarrow> info_abort p h; Some (- EIO, server_prov, device_prov, h') }
      | Some info \<Rightarrow> do {
          let device_prov' = (if info_flags info AND INFO_FLAG_DEVICE_PROVISIONED \<noteq> 0 then True else device_prov);
          (len, serial) \<leftarrow> server_cert_get_serial s (of_nat CERT_SERIAL_MAXLEN);
          let server_prov' = (if compare (server_cert_snr info) serial then True else server_prov);
          h' \<leftarrow> info_abort p h;
          Some (0, server_prov', device_prov', h') }) }"

section \<open>A bounded buffer\<close>

definition in_data :: "info_ctx \<Rightarrow> cell list" where
  "in_data x = buf_data (in_len x, in_buf x)"

definition in_ok :: "info_ctx \<Rightarrow> bool" where
  "in_ok x \<longleftrightarrow> buf_ok INFO_MAX_SIZE (in_len x, in_buf x)"

interpretation inb: bounded_buffer INFO_MAX_SIZE "\<lparr>in_len = 0, in_buf = replicate (unat INFO_MAX_SIZE) None\<rparr>"
  info_push in_data in_ok
proof unfold_locales
  show "in_ok \<lparr>in_len = 0, in_buf = replicate (unat INFO_MAX_SIZE) None\<rparr>"
    "in_data \<lparr>in_len = 0, in_buf = replicate (unat INFO_MAX_SIZE) None\<rparr> = []"
    using buf_empty_ok [of INFO_MAX_SIZE] by (simp_all add: in_ok_def in_data_def buf_empty_def)
next
  fix x :: info_ctx and bs :: "byte list"
  assume x: "in_ok x" and fits: "length (in_data x) + length bs \<le> unat INFO_MAX_SIZE"
  show "\<exists>x'. info_push x bs = Some (0, x') \<and> in_ok x' \<and> in_data x' = in_data x @ map Some bs"
    using buf_push_fits [OF x [unfolded in_ok_def] fits [unfolded in_data_def]]
    by (auto simp: info_push_def in_ok_def in_data_def)
next
  fix x :: info_ctx and bs :: "byte list"
  assume "in_ok x" and "unat INFO_MAX_SIZE < length (in_data x) + length bs" "unat INFO_MAX_SIZE + length bs < 2 ^ 32"
  then have "buf_push INFO_MAX_SIZE (in_len x, in_buf x) bs = Some (- ENOSPC, in_len x, in_buf x)"
    by (intro buf_push_full) (simp_all add: in_ok_def in_data_def)
  then show "info_push x bs = Some (- ENOSPC, x)" by (simp add: info_push_def)
qed

section \<open>The serial number of the server certificate\<close>

text \<open>The serial number the module hands out, and what the comparison promises.\<close>

definition crt_serial_bytes :: "server_crt \<Rightarrow> cell list" where
  "crt_serial_bytes s = take (unat (crt_serial_len s)) (crt_serial s)"

definition zcbor_ok :: "(byte list \<Rightarrow> cell list \<Rightarrow> bool) \<Rightarrow> bool" where
  "zcbor_ok compare \<longleftrightarrow> (\<forall>xs ys. compare xs ys \<longleftrightarrow> map Some xs = ys)"

lemma server_cert_get_serial_eq:
  assumes "crt_ok c s"
  shows "server_cert_get_serial s (of_nat CERT_SERIAL_MAXLEN) = Some (crt_serial_len s, crt_serial_bytes s)"
proof -
  have "unat (of_nat CERT_SERIAL_MAXLEN :: size_t) = CERT_SERIAL_MAXLEN"
    by (intro unat_of_nat_size) (simp add: CERT_SERIAL_MAXLEN_def)
  then have "crt_serial_len s \<le> of_nat CERT_SERIAL_MAXLEN" using assms by (simp add: crt_ok_def word_le_nat_alt)
  then have "(if of_nat CERT_SERIAL_MAXLEN > crt_serial_len s then crt_serial_len s else of_nat CERT_SERIAL_MAXLEN)
      = crt_serial_len s" by auto
  then show ?thesis using assms by (simp add: server_cert_get_serial_def Let_def crt_ok_def crt_serial_bytes_def)
qed

lemma info_flag_bit: "(w AND INFO_FLAG_DEVICE_PROVISIONED \<noteq> 0) = odd w"
  by (simp add: INFO_FLAG_DEVICE_PROVISIONED_def and_one_eq odd_iff_mod_2_eq_one)

lemma info_finish_eq:
  assumes "crt_ok c s" and "zcbor_ok compare" and "h a = Some x" and "in_ok x"
  shows "info_finish decode compare s (Some a) sp dp h =
     (case decode (in_data x) of
        None \<Rightarrow> Some (- EIO, sp, dp, h(a := None))
      | Some info \<Rightarrow> Some (0, sp \<or> map Some (server_cert_snr info) = crt_serial_bytes s,
                           dp \<or> odd (info_flags info), h(a := None)))"
proof -
  have "memcpy_from (in_buf x) 0 (unat (in_len x)) = Some (in_data x)"
    using assms(4) by (simp add: in_ok_def buf_ok_def in_data_def buf_data_def word_le_nat_alt)
  then show ?thesis
    using assms
    by (auto simp: info_finish_def info_abort_def server_cert_get_serial_eq [OF assms(1)] info_flag_bit zcbor_ok_def
        Let_def split: option.splits)
qed

section \<open>Properties\<close>

text \<open>Reading a node's information: received in any chunks, a record of at most 64 bytes
  is decoded as a whole; the node counts as having the server certificate exactly when its
  serial number is the current one, and as having a device certificate exactly when bit 0
  of its flags is set; the context is freed in every case. A longer record is refused.\<close>

theorem info_provisioned:
  assumes start: "info_start (Some a) h = (Some a, h0)" and crt: "crt_ok c s" and cmp: "zcbor_ok compare"
    and sizes: "\<forall>x \<in> set xs. unat INFO_MAX_SIZE + length x < 2 ^ 32"
  shows "\<exists>x0 ret x. h0 a = Some x0 \<and> push_all info_push xs x0 = Some (ret, x) \<and>
     (if length (concat xs) \<le> 64
      then ret = 0 \<and> info_finish decode compare s (Some a) False False (h0(a \<mapsto> x)) =
        Some (case decode (map Some (concat xs)) of
                None \<Rightarrow> (- EIO, False, False, h0(a := None))
              | Some info \<Rightarrow> (0, map Some (server_cert_snr info) = crt_serial_bytes s, odd (info_flags info),
                             h0(a := None)))
      else ret = - ENOSPC)"
proof -
  have cap: "unat INFO_MAX_SIZE = 64" by (simp add: INFO_MAX_SIZE_def)
  define x0 where "x0 = \<lparr>in_len = 0, in_buf = replicate 64 (None :: cell)\<rparr>"
  have h0: "h0 a = Some x0" using start by (auto simp: info_start_def x0_def cap)
  obtain ret x where run: "push_all info_push xs x0 = Some (ret, x)" and good: "in_ok x"
    and res: "if length (concat xs) \<le> 64 then ret = 0 \<and> in_data x = map Some (concat xs)
       else ret = - ENOSPC \<and> (\<exists>k < length xs. in_data x = map Some (concat (take k xs)))"
    using inb.reception [OF sizes] unfolding cap x0_def [symmetric] by blast
  have fin: "info_finish decode compare s (Some a) False False (h0(a \<mapsto> x)) =
     (case decode (in_data x) of
        None \<Rightarrow> Some (- EIO, False, False, h0(a := None))
      | Some info \<Rightarrow> Some (0, map Some (server_cert_snr info) = crt_serial_bytes s, odd (info_flags info), h0(a := None)))"
    using info_finish_eq [OF crt cmp _ good, of "h0(a \<mapsto> x)" a decode False False] by (simp split: option.split)
  show ?thesis
    using run res h0 fin by (auto split: if_splits option.splits)
qed

definition info_ex_decode :: "cell list \<Rightarrow> pouch_gatt_info option" where
  "info_ex_decode cs = (case cs of Some f # rest \<Rightarrow> Some \<lparr>info_flags = ucast f, server_cert_snr = map the rest\<rparr> | _ \<Rightarrow> None)"

definition info_ex_compare :: "byte list \<Rightarrow> cell list \<Rightarrow> bool" where
  "info_ex_compare xs ys = (map Some xs = ys)"

theorem info_provisioned_witness:
  "\<exists>x. push_all info_push [[1], [0]] (the (snd (info_start (Some 0) Map.empty) 0)) = Some (0, x) \<and>
     info_finish info_ex_decode info_ex_compare crt_ex (Some 0) False False (Map.empty(0 := Some x))
       = Some (0, True, True, Map.empty)"
proof -
  have start: "info_start (Some 0) Map.empty = (Some 0, snd (info_start (Some 0) Map.empty))"
    "(snd (info_start (Some 0) Map.empty))(0 \<mapsto> x) = [0 \<mapsto> x]"
    "(snd (info_start (Some 0) Map.empty))(0 := None) = Map.empty" for x
    by (auto simp: info_start_def)
  have cmp: "zcbor_ok info_ex_compare" by (simp add: zcbor_ok_def info_ex_compare_def)
  have ser: "crt_serial_bytes crt_ex = [Some 0]" by (simp add: crt_serial_bytes_def crt_ex_def)
  show ?thesis
    using info_provisioned [OF start(1) crt_ex_ok(1) cmp, of "[[1], [0]]" info_ex_decode]
    by (auto simp: start(2,3) INFO_MAX_SIZE_def info_ex_decode_def ser)
qed

text \<open>While the gateway has no server certificate (the download has not succeeded yet), a
  node that reports an empty serial number counts as having the current one.\<close>

theorem info_no_cert_counts_as_provisioned:
  assumes none: "crt_ok c s" "crt_serial_len s = 0" and cmp: "zcbor_ok compare"
    and x: "h a = Some x" "in_ok x" and dec: "decode (in_data x) = Some info" "server_cert_snr info = []"
  shows "\<exists>dp h'. info_finish decode compare s (Some a) False False h = Some (0, True, dp, h')"
  using info_finish_eq [OF none(1) cmp, of h a x decode] x dec none(2) by (simp add: crt_serial_bytes_def)

theorem info_no_cert_counts_as_provisioned_witness:
  "\<exists>dp h'. info_finish info_ex_decode info_ex_compare (server_crt_init crt_ex_cfg) (Some 0) False False
     (Map.empty(0 := Some \<lparr>in_len = 1, in_buf = Some 0 # replicate 63 None\<rparr>)) = Some (0, True, dp, h')"
proof -
  define x where "x = \<lparr>in_len = 1, in_buf = Some 0 # replicate 63 (None :: cell)\<rparr>"
  have cmp: "zcbor_ok info_ex_compare" by (simp add: zcbor_ok_def info_ex_compare_def)
  have "in_ok x" "in_data x = [Some 0]"
    by (simp_all add: x_def in_ok_def buf_ok_def in_data_def buf_data_def INFO_MAX_SIZE_def)
  then show ?thesis
    using info_no_cert_counts_as_provisioned [OF server_crt_init_ok(1) _ cmp, of crt_ex_cfg "Map.empty(0 := Some x)" 0 x info_ex_decode]
    by (simp add: info_ex_decode_def server_crt_init_def x_def [symmetric])
qed

end
