(* ===== verification/Connect.thy ===== *)
theory Connect
  imports Gateway_Prelude
begin

text \<open>
  GATT discovery of \<open>lib/bt/connect.c\<close>, with the attribute handles of
  \<open>include/pouch_gateway/types.h\<close>: the service is searched by its 16-bit and then its
  128-bit UUID, its characteristics are matched against five known UUIDs, and each CCC
  descriptor is attached to the characteristic it follows.

  The UUIDs come from a header of the pouch module and are an argument; the Bluetooth stack
  calls the three discovery functions with what it finds, one call per attribute and a last
  one without, and \<open>bt_gatt_discover\<close> returns an error number that is an argument too.
  What a function asks for in turn is the list of calls it returns.
\<close>

section \<open>Data\<close>

datatype gatt_attr =
  POUCH_GATEWAY_GATT_ATTR_INFO
| POUCH_GATEWAY_GATT_ATTR_DOWNLINK
| POUCH_GATEWAY_GATT_ATTR_UPLINK
| POUCH_GATEWAY_GATT_ATTR_SERVER_CERT
| POUCH_GATEWAY_GATT_ATTR_DEVICE_CERT

text \<open>The enumeration is an array index: \<open>gatt_attrs\<close> is the order the loops run in.\<close>

definition gatt_attrs :: "gatt_attr list" where
  "gatt_attrs = [POUCH_GATEWAY_GATT_ATTR_INFO, POUCH_GATEWAY_GATT_ATTR_DOWNLINK, POUCH_GATEWAY_GATT_ATTR_UPLINK,
     POUCH_GATEWAY_GATT_ATTR_SERVER_CERT, POUCH_GATEWAY_GATT_ATTR_DEVICE_CERT]"

fun attr_index :: "gatt_attr \<Rightarrow> nat" where
  "attr_index POUCH_GATEWAY_GATT_ATTR_INFO = 0"
| "attr_index POUCH_GATEWAY_GATT_ATTR_DOWNLINK = 1"
| "attr_index POUCH_GATEWAY_GATT_ATTR_UPLINK = 2"
| "attr_index POUCH_GATEWAY_GATT_ATTR_SERVER_CERT = 3"
| "attr_index POUCH_GATEWAY_GATT_ATTR_DEVICE_CERT = 4"

lemma attr_index_inj: "attr_index a = attr_index b \<Longrightarrow> a = b"
  by (cases a; cases b) simp_all

lemma in_gatt_attrs [simp]: "a \<in> set gatt_attrs"
  by (cases a) (simp_all add: gatt_attrs_def)

instantiation gatt_attr :: linorder
begin

definition less_eq_gatt_attr :: "gatt_attr \<Rightarrow> gatt_attr \<Rightarrow> bool" where
  "less_eq_gatt_attr a b \<longleftrightarrow> attr_index a \<le> attr_index b"

definition less_gatt_attr :: "gatt_attr \<Rightarrow> gatt_attr \<Rightarrow> bool" where
  "less_gatt_attr a b \<longleftrightarrow> attr_index a < attr_index b"

instance
  by standard (auto simp: less_eq_gatt_attr_def less_gatt_attr_def intro: attr_index_inj)

end

lemma gatt_attrs_sorted: "sorted gatt_attrs" "distinct gatt_attrs"
  by (simp_all add: gatt_attrs_def less_eq_gatt_attr_def)

record attr_handle =
  ah_value :: "16 word"
  ah_ccc :: "16 word"

type_synonym attr_handles = "gatt_attr \<Rightarrow> attr_handle"

datatype uuid_ref = SVC_UUID_16 | SVC_UUID_128 | GATT_CCC_UUID

datatype discover_func = DISCOVER_SERVICES | DISCOVER_CHARACTERISTICS | DISCOVER_DESCRIPTORS

datatype discover_type = BT_GATT_DISCOVER_PRIMARY | BT_GATT_DISCOVER_CHARACTERISTIC | BT_GATT_DISCOVER_DESCRIPTOR

record discover_params =
  dp_func :: discover_func
  dp_type :: discover_type
  dp_start :: "16 word"
  dp_end :: "16 word"
  dp_uuid :: "uuid_ref option"

datatype bt_iter = BT_GATT_ITER_STOP | BT_GATT_ITER_CONTINUE

datatype connect_call =
  BtGattDiscover discover_params
| CallBtFinished
| CallInfoReadStart
| CallUplinkStart

type_synonym uuid = "byte list"

record gatt_uuids =
  uuid_svc_16 :: uuid
  uuid_svc_128 :: uuid
  char_uuids :: "gatt_attr \<Rightarrow> uuid"

record gatt_service =
  svc_handle :: "16 word"
  svc_uuid :: uuid
  svc_end_handle :: "16 word"

record gatt_chrc =
  chrc_uuid :: uuid
  chrc_value_handle :: "16 word"

section \<open>Discovery\<close>

text \<open>The loop of \<open>discover_descriptors\<close>; \<open>best\<close> is \<open>attr_idx\<close>, \<open>None\<close> for the
  out-of-range value it starts with.\<close>

fun closest_attr :: "attr_handles \<Rightarrow> 16 word \<Rightarrow> gatt_attr list \<Rightarrow> gatt_attr option \<Rightarrow> gatt_attr option" where
  "closest_attr h handle [] best = best"
| "closest_attr h handle (i # is) best =
     closest_attr h handle is
       (if ah_value (h i) < handle then
          (case best of
             None \<Rightarrow> Some i
           | Some b \<Rightarrow> if ah_value (h i) > ah_value (h b) then Some i else best)
        else best)"

definition discover_descriptors ::
  "16 word option \<Rightarrow> attr_handles \<Rightarrow> connect_call list \<times> bt_iter \<times> attr_handles" where
  "discover_descriptors attr h =
     (case attr of
        Some handle \<Rightarrow>
          ([], BT_GATT_ITER_CONTINUE,
           case closest_attr h handle gatt_attrs None of
             None \<Rightarrow> h
           | Some i \<Rightarrow> h(i := (h i)\<lparr>ah_ccc := handle\<rparr>))
      | None \<Rightarrow>
          (if ah_value (h POUCH_GATEWAY_GATT_ATTR_SERVER_CERT) \<noteq> 0 \<and> ah_value (h POUCH_GATEWAY_GATT_ATTR_DEVICE_CERT) \<noteq> 0
           then [CallInfoReadStart] else [CallUplinkStart],
           BT_GATT_ITER_STOP, h))"

text \<open>The two loops of \<open>discover_characteristics\<close>.\<close>

definition match_chrc :: "gatt_uuids \<Rightarrow> gatt_chrc \<Rightarrow> gatt_attr option" where
  "match_chrc g c = List.find (\<lambda>i. chrc_uuid c = char_uuids g i) gatt_attrs"

fun lowest_value :: "attr_handles \<Rightarrow> gatt_attr list \<Rightarrow> 16 word \<Rightarrow> 16 word" where
  "lowest_value h [] start = start"
| "lowest_value h (i # is) start =
     lowest_value h is (if ah_value (h i) < start then ah_value (h i) else start)"

definition discover_characteristics ::
  "gatt_uuids \<Rightarrow> int \<Rightarrow> gatt_chrc option \<Rightarrow> discover_params \<Rightarrow> attr_handles \<Rightarrow>
   connect_call list \<times> bt_iter \<times> attr_handles \<times> discover_params" where
  "discover_characteristics g err attr params h =
     (case attr of
        Some c \<Rightarrow>
          ([], BT_GATT_ITER_CONTINUE,
           (case match_chrc g c of None \<Rightarrow> h | Some i \<Rightarrow> h(i := (h i)\<lparr>ah_value := chrc_value_handle c\<rparr>)), params)
      | None \<Rightarrow>
          if ah_value (h POUCH_GATEWAY_GATT_ATTR_UPLINK) = 0 \<or> ah_value (h POUCH_GATEWAY_GATT_ATTR_DOWNLINK) = 0
          then ([CallBtFinished], BT_GATT_ITER_STOP, h, params)
          else let params' = params\<lparr>dp_start := lowest_value h gatt_attrs (dp_end params) + 1,
                 dp_func := DISCOVER_DESCRIPTORS, dp_type := BT_GATT_DISCOVER_DESCRIPTOR, dp_uuid := Some GATT_CCC_UUID\<rparr> in
            (BtGattDiscover params' # (if err \<noteq> 0 then [CallBtFinished] else []), BT_GATT_ITER_STOP, h, params'))"

definition discover_services ::
  "gatt_uuids \<Rightarrow> int \<Rightarrow> gatt_service option \<Rightarrow> discover_params \<Rightarrow> connect_call list \<times> bt_iter \<times> discover_params" where
  "discover_services g err attr params =
     (case attr of
        None \<Rightarrow>
          if dp_uuid params = Some SVC_UUID_16
          then let params' = params\<lparr>dp_uuid := Some SVC_UUID_128\<rparr> in
            (BtGattDiscover params' # (if err \<noteq> 0 then [CallBtFinished] else []), BT_GATT_ITER_STOP, params')
          else ([CallBtFinished], BT_GATT_ITER_STOP, params)
      | Some svc \<Rightarrow>
          if uuid_svc_16 g = svc_uuid svc \<or> uuid_svc_128 g = svc_uuid svc
          then let params' = params\<lparr>dp_func := DISCOVER_CHARACTERISTICS, dp_type := BT_GATT_DISCOVER_CHARACTERISTIC,
                 dp_start := svc_handle svc + 1, dp_end := svc_end_handle svc, dp_uuid := None\<rparr> in
            (BtGattDiscover params' # (if err \<noteq> 0 then [CallBtFinished] else []), BT_GATT_ITER_STOP, params')
          else ([], BT_GATT_ITER_CONTINUE, params))"

text \<open>\<open>pouch_gateway_bt_start\<close> clears the node's record and starts the search.\<close>

definition no_handles :: attr_handles where
  "no_handles = (\<lambda>_. \<lparr>ah_value = 0, ah_ccc = 0\<rparr>)"

definition bt_start_discovery :: "int \<Rightarrow> connect_call list \<times> attr_handles \<times> discover_params" where
  "bt_start_discovery err =
     (let params = \<lparr>dp_func = DISCOVER_SERVICES, dp_type = BT_GATT_DISCOVER_PRIMARY, dp_start = 1,
                    dp_end = 0xFFFF, dp_uuid = Some SVC_UUID_16\<rparr> in
      (BtGattDiscover params # (if err \<noteq> 0 then [CallBtFinished] else []), no_handles, params))"

section \<open>The loops\<close>

text \<open>\<open>closest_attr\<close> finds the first attribute of the greatest value handle below the
  descriptor.\<close>

definition is_closest :: "attr_handles \<Rightarrow> 16 word \<Rightarrow> gatt_attr set \<Rightarrow> gatt_attr option \<Rightarrow> bool" where
  "is_closest h handle A r \<longleftrightarrow>
     (case r of
        None \<Rightarrow> \<forall>i \<in> A. \<not> ah_value (h i) < handle
      | Some a \<Rightarrow> a \<in> A \<and> ah_value (h a) < handle \<and>
          (\<forall>i \<in> A. ah_value (h i) < handle \<longrightarrow>
             ah_value (h i) < ah_value (h a) \<or> ah_value (h i) = ah_value (h a) \<and> a \<le> i))"

lemma closest_attr_step:
  "is_closest h handle A best \<Longrightarrow> \<forall>j \<in> A. j \<le> i \<Longrightarrow>
   is_closest h handle (insert i A)
     (if ah_value (h i) < handle then
        (case best of None \<Rightarrow> Some i | Some b \<Rightarrow> if ah_value (h i) > ah_value (h b) then Some i else best)
      else best)"
  by (cases best) (fastforce simp: is_closest_def split: if_splits)+

lemma closest_attr_is_closest:
  "is_closest h handle A best \<Longrightarrow> sorted is \<Longrightarrow> \<forall>i \<in> A. \<forall>j \<in> set is. i \<le> j \<Longrightarrow>
   is_closest h handle (A \<union> set is) (closest_attr h handle is best)"
proof (induction "is" arbitrary: A best)
  case Nil
  then show ?case by simp
next
  case (Cons i "is")
  have "is_closest h handle (insert i A)
     (if ah_value (h i) < handle then
        (case best of None \<Rightarrow> Some i | Some b \<Rightarrow> if ah_value (h i) > ah_value (h b) then Some i else best)
      else best)"
    using Cons.prems by (intro closest_attr_step) auto
  from Cons.IH [OF this] Cons.prems show ?case by auto
qed

lemma closest_attr_spec: "is_closest h handle UNIV (closest_attr h handle gatt_attrs None)"
proof -
  have "set gatt_attrs = UNIV" by auto
  then show ?thesis
    using closest_attr_is_closest [of h handle "{}" None gatt_attrs] gatt_attrs_sorted
    by (simp add: is_closest_def [of h handle "{}"])
qed

lemma lowest_value_le:
  "lowest_value h is start \<le> start \<and> (\<forall>i \<in> set is. lowest_value h is start \<le> ah_value (h i)) \<and>
   (lowest_value h is start = start \<or> (\<exists>i \<in> set is. lowest_value h is start = ah_value (h i)))"
proof (induction "is" arbitrary: start)
  case Nil
  then show ?case by simp
next
  case (Cons i "is")
  show ?case using Cons.IH [of "if ah_value (h i) < start then ah_value (h i) else start"]
    by (auto split: if_splits)
qed

section \<open>The node's record after discovery\<close>

text \<open>The calls the stack makes with what it found: one per characteristic, one per
  descriptor.\<close>

definition found_characteristics :: "gatt_uuids \<Rightarrow> discover_params \<Rightarrow> gatt_chrc list \<Rightarrow> attr_handles \<Rightarrow> attr_handles" where
  "found_characteristics g params cs h =
     fold (\<lambda>c h. fst (snd (snd (discover_characteristics g 0 (Some c) params h)))) cs h"

definition found_descriptors :: "16 word list \<Rightarrow> attr_handles \<Rightarrow> attr_handles" where
  "found_descriptors ds h = fold (\<lambda>d h. snd (snd (discover_descriptors (Some d) h))) ds h"

lemma match_chrc_uuid:
  assumes "inj (char_uuids g)"
  shows "match_chrc g c = Some a \<longleftrightarrow> chrc_uuid c = char_uuids g a"
proof
  assume "match_chrc g c = Some a"
  then show "chrc_uuid c = char_uuids g a" by (auto simp: match_chrc_def find_Some_iff)
next
  assume a: "chrc_uuid c = char_uuids g a"
  then have "(\<lambda>i. chrc_uuid c = char_uuids g i) = (\<lambda>i. i = a)"
    using assms by (auto simp: fun_eq_iff inj_eq)
  then show "match_chrc g c = Some a"
    by (cases a) (simp_all add: match_chrc_def gatt_attrs_def)
qed

lemma found_characteristics_snoc:
  "found_characteristics g params (cs @ [c]) h =
     (case match_chrc g c of
        None \<Rightarrow> found_characteristics g params cs h
      | Some i \<Rightarrow> (found_characteristics g params cs h)
          (i := (found_characteristics g params cs h i)\<lparr>ah_value := chrc_value_handle c\<rparr>))"
  by (cases "match_chrc g c") (simp_all add: found_characteristics_def discover_characteristics_def)

lemma closest_attr_unique:
  assumes "ah_value (h a) < d" "\<forall>j. j \<noteq> a \<longrightarrow> ah_value (h j) < ah_value (h a) \<or> d \<le> ah_value (h j)"
  shows "closest_attr h d gatt_attrs None = Some a"
proof -
  have c: "is_closest h d UNIV (closest_attr h d gatt_attrs None)" by (rule closest_attr_spec)
  show ?thesis
  proof (cases "closest_attr h d gatt_attrs None")
    case None
    with c assms(1) show ?thesis by (auto simp: is_closest_def)
  next
    case (Some b)
    then have b: "ah_value (h b) < d"
      "\<forall>i. ah_value (h i) < d \<longrightarrow> ah_value (h i) < ah_value (h b) \<or> ah_value (h i) = ah_value (h b) \<and> b \<le> i"
      using c by (auto simp: is_closest_def)
    have "b = a"
    proof (rule ccontr)
      assume "b \<noteq> a"
      with assms(2) have "ah_value (h b) < ah_value (h a) \<or> d \<le> ah_value (h b)" by blast
      with b(1) have "ah_value (h b) < ah_value (h a)" by auto
      with b(2) assms(1) show False by force
    qed
    with Some show ?thesis by simp
  qed
qed

lemma found_descriptors_Cons:
  "found_descriptors (d # ds) h = found_descriptors ds (snd (snd (discover_descriptors (Some d) h)))"
  by (simp add: found_descriptors_def)

lemma discover_descriptors_value [simp]:
  "ah_value (snd (snd (discover_descriptors (Some d) h)) a) = ah_value (h a)"
  by (simp add: discover_descriptors_def split: option.splits)

lemma found_descriptors_value [simp]: "ah_value (found_descriptors ds h a) = ah_value (h a)"
  by (induction ds arbitrary: h) (simp_all add: found_descriptors_Cons, simp add: found_descriptors_def)

text \<open>Each descriptor \<open>d\<close> stands after the value of \<open>owner d\<close> and before the next
  characteristic's.\<close>

definition ccc_layout :: "attr_handles \<Rightarrow> (16 word \<Rightarrow> gatt_attr) \<Rightarrow> 16 word list \<Rightarrow> bool" where
  "ccc_layout h owner ds \<longleftrightarrow>
     (\<forall>d \<in> set ds. ah_value (h (owner d)) < d \<and>
        (\<forall>j. j \<noteq> owner d \<longrightarrow> ah_value (h j) < ah_value (h (owner d)) \<or> d \<le> ah_value (h j)))"

lemma found_descriptors_layout:
  "ccc_layout h owner ds \<Longrightarrow> distinct (map owner ds) \<Longrightarrow>
   ah_ccc (found_descriptors ds h a) =
     (case find (\<lambda>d. owner d = a) ds of None \<Rightarrow> ah_ccc (h a) | Some d \<Rightarrow> d)"
proof (induction ds arbitrary: h)
  case Nil
  then show ?case by (simp add: found_descriptors_def)
next
  case (Cons d ds)
  have c: "closest_attr h d gatt_attrs None = Some (owner d)"
    using Cons.prems(1) by (intro closest_attr_unique) (simp_all add: ccc_layout_def)
  define h' where "h' = snd (snd (discover_descriptors (Some d) h))"
  have h': "h' = h(owner d := (h (owner d))\<lparr>ah_ccc := d\<rparr>)"
    by (simp add: h'_def discover_descriptors_def c)
  have "ah_value (h' j) = ah_value (h j)" for j by (simp add: h'_def)
  then have "ccc_layout h' owner ds"
    using Cons.prems(1) by (simp add: ccc_layout_def)
  from Cons.IH [OF this] Cons.prems(2)
  have "ah_ccc (found_descriptors ds h' a) =
     (case find (\<lambda>d. owner d = a) ds of None \<Rightarrow> ah_ccc (h' a) | Some d \<Rightarrow> d)" by simp
  moreover have "owner d = a \<Longrightarrow> find (\<lambda>d. owner d = a) ds = None"
    using Cons.prems(2) by (simp add: find_None_iff) (metis image_eqI)
  moreover have "ah_ccc (h' a) = (if owner d = a then d else ah_ccc (h a))" by (simp add: h')
  ultimately show ?case by (simp add: found_descriptors_Cons h'_def [symmetric] split: option.split)
qed

section \<open>Properties\<close>

text \<open>C37. After discovery every characteristic's value handle is that of the last
  characteristic the peer presented under its UUID (0 when it presented none), and, where the
  peer's CCC descriptors stand between their characteristic's value and the next one, every
  CCC handle is the descriptor of its own characteristic.\<close>

theorem discovery_records_handles:
  assumes "inj (char_uuids g)"
    and "h = found_characteristics g params cs no_handles"
    and "ccc_layout h owner ds" "distinct (map owner ds)"
  shows "found_descriptors ds h a =
    \<lparr>ah_value = (case find (\<lambda>c. chrc_uuid c = char_uuids g a) (rev cs) of None \<Rightarrow> 0 | Some c \<Rightarrow> chrc_value_handle c),
     ah_ccc = (case find (\<lambda>d. owner d = a) ds of None \<Rightarrow> 0 | Some d \<Rightarrow> d)\<rparr>"
proof -
  have v: "found_characteristics g params cs no_handles a =
    \<lparr>ah_value = (case find (\<lambda>c. chrc_uuid c = char_uuids g a) (rev cs) of None \<Rightarrow> 0 | Some c \<Rightarrow> chrc_value_handle c),
     ah_ccc = 0\<rparr>"
  proof (induction cs rule: rev_induct)
    case Nil
    then show ?case by (simp add: found_characteristics_def no_handles_def)
  next
    case (snoc c cs)
    show ?case
    proof (cases "chrc_uuid c = char_uuids g a")
      case True
      then have "match_chrc g c = Some a" by (simp add: match_chrc_uuid [OF assms(1)])
      with True snoc show ?thesis by (simp add: found_characteristics_snoc split: option.split)
    next
      case False
      then have "match_chrc g c \<noteq> Some a" by (simp add: match_chrc_uuid [OF assms(1)])
      with False snoc show ?thesis
        by (cases "match_chrc g c") (auto simp: found_characteristics_snoc)
    qed
  qed
  have "ah_value (found_descriptors ds h a) = ah_value (h a)" by simp
  moreover have "ah_ccc (found_descriptors ds h a) =
     (case find (\<lambda>d. owner d = a) ds of None \<Rightarrow> ah_ccc (h a) | Some d \<Rightarrow> d)"
    using assms(3,4) by (rule found_descriptors_layout)
  ultimately show ?thesis using v assms(2) by (simp split: option.split)
qed

definition example_uuids :: gatt_uuids where
  "example_uuids = \<lparr>uuid_svc_16 = [0x49, 0xFC], uuid_svc_128 = [0x89], char_uuids = (\<lambda>a. [of_nat (attr_index a)])\<rparr>"

definition example_chrcs :: "gatt_chrc list" where
  "example_chrcs = [\<lparr>chrc_uuid = [2], chrc_value_handle = 12\<rparr>, \<lparr>chrc_uuid = [1], chrc_value_handle = 15\<rparr>]"

definition example_params :: discover_params where
  "example_params = \<lparr>dp_func = DISCOVER_CHARACTERISTICS, dp_type = BT_GATT_DISCOVER_CHARACTERISTIC,
     dp_start = 11, dp_end = 16, dp_uuid = None\<rparr>"

definition example_owner :: "16 word \<Rightarrow> gatt_attr" where
  "example_owner d = (if d = 13 then POUCH_GATEWAY_GATT_ATTR_UPLINK else POUCH_GATEWAY_GATT_ATTR_DOWNLINK)"

lemma inj_example_uuids: "inj (char_uuids example_uuids)"
proof (rule injI)
  fix a b
  assume "char_uuids example_uuids a = char_uuids example_uuids b"
  then show "a = b" by (cases a; cases b) (simp_all add: example_uuids_def)
qed

lemma example_handles:
  "found_characteristics example_uuids p example_chrcs no_handles =
   no_handles(POUCH_GATEWAY_GATT_ATTR_UPLINK := \<lparr>ah_value = 12, ah_ccc = 0\<rparr>,
              POUCH_GATEWAY_GATT_ATTR_DOWNLINK := \<lparr>ah_value = 15, ah_ccc = 0\<rparr>)"
proof -
  have "match_chrc example_uuids \<lparr>chrc_uuid = [2], chrc_value_handle = 12\<rparr> = Some POUCH_GATEWAY_GATT_ATTR_UPLINK"
       "match_chrc example_uuids \<lparr>chrc_uuid = [1], chrc_value_handle = 15\<rparr> = Some POUCH_GATEWAY_GATT_ATTR_DOWNLINK"
    by (simp_all add: match_chrc_uuid [OF inj_example_uuids], simp_all add: example_uuids_def)
  then show ?thesis
    by (simp add: found_characteristics_def example_chrcs_def discover_characteristics_def no_handles_def)
qed

lemma example_layout:
  "ccc_layout (found_characteristics example_uuids p example_chrcs no_handles) example_owner [13, 16]"
  unfolding ccc_layout_def example_handles by (simp add: example_owner_def no_handles_def)

lemma discovery_records_handles_witness:
  "ah_value (found_descriptors [13, 16] (found_characteristics example_uuids example_params example_chrcs no_handles)
      POUCH_GATEWAY_GATT_ATTR_DOWNLINK) = 15 \<and>
   ah_ccc (found_descriptors [13, 16] (found_characteristics example_uuids example_params example_chrcs no_handles)
      POUCH_GATEWAY_GATT_ATTR_DOWNLINK) = 16"
  using discovery_records_handles [OF inj_example_uuids refl example_layout [of example_params], of POUCH_GATEWAY_GATT_ATTR_DOWNLINK]
  by (simp add: example_owner_def example_chrcs_def, simp add: example_uuids_def)



text \<open>One missing characteristic (its recorded value handle is 0) makes the descriptor
  search start at handle 1 instead of after the service's first value, and a CCC descriptor of
  another service below all found values is recorded as the missing characteristic's.\<close>

theorem missing_characteristic_scans_from_one:
  assumes "ah_value (h POUCH_GATEWAY_GATT_ATTR_UPLINK) \<noteq> 0" "ah_value (h POUCH_GATEWAY_GATT_ATTR_DOWNLINK) \<noteq> 0"
    and "ah_value (h a) = 0"
    and "0 < d" "\<forall>b. ah_value (h b) = 0 \<or> d \<le> ah_value (h b)"
  shows "dp_start (snd (snd (snd (discover_characteristics g err None params h)))) = 1 \<and>
         (\<exists>b. ah_value (h b) = 0 \<and> snd (snd (discover_descriptors (Some d) h)) = h(b := (h b)\<lparr>ah_ccc := d\<rparr>))"
proof -
  have "lowest_value h gatt_attrs (dp_end params) \<le> ah_value (h a)"
    using lowest_value_le by simp
  then have l: "lowest_value h gatt_attrs (dp_end params) = 0" using assms(3) by simp
  have c: "is_closest h d UNIV (closest_attr h d gatt_attrs None)" by (rule closest_attr_spec)
  have "closest_attr h d gatt_attrs None \<noteq> None"
  proof
    assume "closest_attr h d gatt_attrs None = None"
    with c have "\<not> ah_value (h a) < d" by (simp add: is_closest_def)
    with assms(3,4) show False by simp
  qed
  then obtain b where b: "closest_attr h d gatt_attrs None = Some b" by blast
  have "ah_value (h b) < d" using c by (simp add: b is_closest_def)
  then have "ah_value (h b) = 0" using assms(5) by (meson leD)
  then show ?thesis
    using b l assms(1,2) by (auto simp: discover_characteristics_def discover_descriptors_def Let_def)
qed

lemma missing_characteristic_scans_from_one_witness:
  "dp_start (snd (snd (snd (discover_characteristics example_uuids 0 None example_params
     (found_characteristics example_uuids example_params example_chrcs no_handles))))) = 1"
proof -
  define h where "h = found_characteristics example_uuids example_params example_chrcs no_handles"
  have h: "\<forall>b. ah_value (h b) = 0 \<or> 4 \<le> ah_value (h b)" "ah_value (h POUCH_GATEWAY_GATT_ATTR_INFO) = 0"
    "ah_value (h POUCH_GATEWAY_GATT_ATTR_UPLINK) \<noteq> 0" "ah_value (h POUCH_GATEWAY_GATT_ATTR_DOWNLINK) \<noteq> 0"
    unfolding h_def example_handles by (simp_all add: no_handles_def)
  from missing_characteristic_scans_from_one [OF h(3,4,2) _ h(1), of example_uuids 0 example_params]
  show ?thesis by (simp add: h_def)
qed

end
