(* ===== verification/Gatt_Node.thy ===== *)
theory Gatt_Node
  imports Connect Info Downlink_Session Uplink_Properties
begin

text \<open>
  The record of a connected node (\<open>include/pouch_gateway/types.h\<close>) and the memory its
  five transports work on. The transports of \<open>lib/bt\<close> are modelled in \<open>Gatt_Link\<close>
  (downlink, uplink) and \<open>Gatt_Certs\<close> (device certificate, server certificate, info).

  Receivers, senders and packetizers belong to the pouch module. A store holds the live
  ones with what they were created with; destroying one takes it out of the store, and
  destroying or using one that is not there is undefined behaviour. What a receiver and a
  sender do with a notification is an argument: a function that is given the callback the
  gateway registered. \<open>recv_ok\<close> and \<open>ack_ok\<close> state what the gateway relies on.

  Everything the gateway asks others for, and every byte it hands to a packetizer, is in
  the log of the world.
\<close>

section \<open>State\<close>

datatype server_cert_next_state =
  SERVER_CERT_NEXT_DEVICE_CERT
| SERVER_CERT_NEXT_SERVER_CERT
| SERVER_CERT_NEXT_END

text \<open>Of the subscription parameters only \<open>downlink_subscribe_params.value\<close> is ever
  read: \<open>nd_downlink_subscribed\<close> says that it is not 0.\<close>

record node =
  nd_attr_handles :: attr_handles
  nd_downlink_subscribed :: bool
  nd_downlink_ctx :: ptr
  nd_info_receiver :: ptr
  nd_server_cert_sender :: ptr
  nd_device_cert_receiver :: ptr
  nd_downlink_sender :: ptr
  nd_uplink_receiver :: ptr
  nd_packetizer :: ptr
  nd_uplink :: ptr
  nd_info_ctx :: ptr
  nd_device_cert_ctx :: ptr
  nd_server_cert_ctx :: ptr
  nd_server_cert_next :: server_cert_next_state
  nd_server_cert_provisioned :: bool
  nd_device_cert_provisioned :: bool

text \<open>\<open>memset\<close> of \<open>pouch_gateway_bt_start\<close>; the first state of the enumeration is 0.\<close>

definition node_zero :: node where
  "node_zero =
     \<lparr>nd_attr_handles = no_handles, nd_downlink_subscribed = False, nd_downlink_ctx = None,
      nd_info_receiver = None, nd_server_cert_sender = None, nd_device_cert_receiver = None,
      nd_downlink_sender = None, nd_uplink_receiver = None, nd_packetizer = None, nd_uplink = None,
      nd_info_ctx = None, nd_device_cert_ctx = None, nd_server_cert_ctx = None,
      nd_server_cert_next = SERVER_CERT_NEXT_DEVICE_CERT, nd_server_cert_provisioned = False,
      nd_device_cert_provisioned = False\<rparr>"

datatype fill_source = ServerCertFill ptr | DownlinkFill ptr

datatype gatt_obj = Receiver gatt_attr | Sender gatt_attr ptr | Packetizer fill_source

datatype packetizer_result =
  POUCH_GATT_PACKETIZER_MORE_DATA
| POUCH_GATT_PACKETIZER_NO_MORE_DATA
| POUCH_GATT_PACKETIZER_ERROR

datatype node_event =
  BtFinished
| BtGattSubscribe gatt_attr "16 word" "16 word"
| BtGattUnsubscribe gatt_attr
| BtGattWrite "16 word" "byte list"
| Filled gatt_attr "cell list" packetizer_result
| DestroyNull
| UpEvent up_event
| DeviceCertSet "cell list"

record world =
  w_node :: node
  w_dl :: dl_mem
  w_up :: up_mem
  w_crt :: server_crt
  w_sc :: "server_cert_ctx store"
  w_dc :: "device_cert_ctx store"
  w_in :: "info_ctx store"
  w_objs :: "gatt_obj store"
  w_subs :: "gatt_attr set"
  w_log :: "node_event list"

section \<open>Code outside the repository\<close>

type_synonym recv_cb = "byte list \<Rightarrow> bool \<Rightarrow> world \<Rightarrow> (int \<times> world) option"
type_synonym fill_cb = "size_t \<Rightarrow> world \<Rightarrow> (packetizer_result \<times> world) option"

record env =
  e_conf :: config
  e_conn :: nat
  e_malloc :: "addr set \<Rightarrow> ptr"
  e_create :: "gatt_obj \<Rightarrow> addr set \<Rightarrow> ptr"
  e_mtu :: size_t
  e_subscribe :: "gatt_attr \<Rightarrow> int"
  e_write :: "16 word \<Rightarrow> int"
  e_nack :: "byte list"
  e_fin :: "byte list"
  e_session :: ptr
  e_block_status :: golioth_status
  e_cert_status :: golioth_status
  e_decode :: "cell list \<Rightarrow> pouch_gatt_info option"
  e_compare :: "byte list \<Rightarrow> cell list \<Rightarrow> bool"
  e_receive :: "recv_cb \<Rightarrow> world \<Rightarrow> (int \<times> bool \<times> world) option"
  e_ack :: "fill_cb \<Rightarrow> world \<Rightarrow> (int \<times> bool \<times> world) option"

definition e_mal :: "env \<Rightarrow> 'o store \<Rightarrow> ptr" where
  "e_mal e h = e_malloc e (dom h)"

text \<open>What a receiver is relied on to do with one notification: it hands over the chunks it
  completes, in order and each at most as long as a notification, nothing behind the last
  one; it stops at a chunk the callback refuses and returns that error.\<close>

fun replay_chunks :: "(byte list \<times> bool) list \<Rightarrow> int \<Rightarrow> bool \<Rightarrow> recv_cb \<Rightarrow> world \<Rightarrow> (int \<times> bool \<times> world) option" where
  "replay_chunks [] err complete cb w = Some (err, complete, w)"
| "replay_chunks ((x, l) # cs) err complete cb w = do {
     (r, w') \<leftarrow> cb x l w;
     if r \<noteq> 0 then Some (r, False, w') else replay_chunks cs err complete cb w' }"

definition chunks_ok :: "(byte list \<times> bool) list \<Rightarrow> bool" where
  "chunks_ok cs \<longleftrightarrow> True \<notin> snd ` set (butlast cs) \<and> (\<forall>c \<in> set cs. length (fst c) < 2 ^ 16)"

definition recv_ok :: "env \<Rightarrow> bool" where
  "recv_ok e \<longleftrightarrow> (\<exists>cs err complete. chunks_ok cs \<and> e_receive e = replay_chunks cs err complete)"

text \<open>What a sender is relied on to do with an acknowledgement (or when it is told that
  there is data): it asks the packetizer, and so the fill callback, for data some number of
  times.\<close>

fun replay_fills :: "size_t list \<Rightarrow> int \<Rightarrow> bool \<Rightarrow> fill_cb \<Rightarrow> world \<Rightarrow> (int \<times> bool \<times> world) option" where
  "replay_fills [] ret complete fill w = Some (ret, complete, w)"
| "replay_fills (n # ns) ret complete fill w = do {
     (r, w') \<leftarrow> fill n w;
     replay_fills ns ret complete fill w' }"

definition ack_ok :: "env \<Rightarrow> bool" where
  "ack_ok e \<longleftrightarrow> (\<exists>ns ret complete. e_ack e = replay_fills ns ret complete)"

section \<open>Elementary operations\<close>

definition emit :: "node_event \<Rightarrow> world \<Rightarrow> world" where
  "emit ev w = w\<lparr>w_log := w_log w @ [ev]\<rparr>"

definition bt_finished :: "world \<Rightarrow> world" where
  "bt_finished w = emit BtFinished w"

definition on_node :: "(node \<Rightarrow> node) \<Rightarrow> world \<Rightarrow> world" where
  "on_node f w = w\<lparr>w_node := f (w_node w)\<rparr>"

definition obj_create :: "env \<Rightarrow> gatt_obj \<Rightarrow> world \<Rightarrow> ptr \<times> world" where
  "obj_create e ob w =
     (case e_create e ob (dom (w_objs w)) of
        None \<Rightarrow> (None, w)
      | Some a \<Rightarrow> (Some a, w\<lparr>w_objs := (w_objs w)(a \<mapsto> ob)\<rparr>))"

definition obj_destroy :: "ptr \<Rightarrow> world \<Rightarrow> world option" where
  "obj_destroy p w =
     (case p of
        None \<Rightarrow> Some (emit DestroyNull w)
      | Some a \<Rightarrow> map_option (\<lambda>h. w\<lparr>w_objs := h\<rparr>) (heap_free (w_objs w) p))"

text \<open>The recurring \<open>if (node->x) { destroy(node->x); node->x = NULL; }\<close>.\<close>

definition clear_obj :: "(node \<Rightarrow> ptr) \<Rightarrow> ((ptr \<Rightarrow> ptr) \<Rightarrow> node \<Rightarrow> node) \<Rightarrow> world \<Rightarrow> world option" where
  "clear_obj get upd w =
     (case get (w_node w) of
        None \<Rightarrow> Some w
      | Some a \<Rightarrow> do { w' \<leftarrow> obj_destroy (Some a) w; Some (on_node (upd (\<lambda>_. None)) w') })"

definition att_value :: "gatt_attr \<Rightarrow> world \<Rightarrow> 16 word" where
  "att_value i w = ah_value (nd_attr_handles (w_node w) i)"

definition att_ccc :: "gatt_attr \<Rightarrow> world \<Rightarrow> 16 word" where
  "att_ccc i w = ah_ccc (nd_attr_handles (w_node w) i)"

text \<open>A subscription the stack has accepted is in \<open>w_subs\<close> until the stack ends it.\<close>

definition gatt_subscribe :: "env \<Rightarrow> gatt_attr \<Rightarrow> world \<Rightarrow> int \<times> world" where
  "gatt_subscribe e i w =
     (let w1 = emit (BtGattSubscribe i (att_value i w) (att_ccc i w)) w in
      (e_subscribe e i, if e_subscribe e i = 0 then w1\<lparr>w_subs := insert i (w_subs w1)\<rparr> else w1))"

text \<open>A write without response. \<open>pouch_gatt_receiver_send_nack\<close> and
  \<open>pouch_gatt_sender_send_fin\<close> hand a packet of the module to the send callback; nobody
  looks at the result.\<close>

type_synonym send_cb = "byte list \<Rightarrow> world \<Rightarrow> int \<times> world"

definition gatt_write :: "env \<Rightarrow> 16 word \<Rightarrow> send_cb" where
  "gatt_write e handle data w = (e_write e handle, emit (BtGattWrite handle data) w)"

definition send_idle :: "send_cb \<Rightarrow> byte list \<Rightarrow> world \<Rightarrow> world" where
  "send_idle cb packet w = snd (cb packet w)"

definition POUCH_GATEWAY_BT_ATT_OVERHEAD :: size_t where
  "POUCH_GATEWAY_BT_ATT_OVERHEAD = 3"

end
