(* ===== verification/Gatt_Link.thy ===== *)
theory Gatt_Link
  imports Gatt_Node
begin

text \<open>
  The transports of the pouch itself: \<open>lib/bt/downlink.c\<close> (cloud to node) and
  \<open>lib/bt/uplink.c\<close> (node to cloud). Starting the uplink starts the downlink; the
  downlink subscribes to its characteristic only when the cloud has data.
\<close>

section \<open>Downlink\<close>

definition cleanup_downlink_ctx :: "world \<Rightarrow> world option" where
  "cleanup_downlink_ctx w =
     (case nd_downlink_ctx (w_node w) of
        None \<Rightarrow> Some w
      | Some a \<Rightarrow> do {
          m \<leftarrow> downlink_abort (Some a) (w_dl w);
          Some (on_node (\<lambda>n. n\<lparr>nd_downlink_ctx := None\<rparr>) (w\<lparr>w_dl := m\<rparr>)) })"

definition cleanup_downlink :: "world \<Rightarrow> world option" where
  "cleanup_downlink w = do {
     w1 \<leftarrow> cleanup_downlink_ctx w;
     w2 \<leftarrow> clear_obj nd_packetizer nd_packetizer_update w1;
     clear_obj nd_downlink_sender nd_downlink_sender_update w2 }"

text \<open>\<open>downlink_packet_fill_cb\<close>; its \<open>user_arg\<close> is the context.\<close>

definition downlink_packet_fill_cb :: "env \<Rightarrow> ptr \<Rightarrow> fill_cb" where
  "downlink_packet_fill_cb e user_arg dst_len w = do {
     a \<leftarrow> user_arg;
     (ret, n, out, is_last, m) \<leftarrow> downlink_get_data (e_conf e) a dst_len (w_dl w);
     let w' = w\<lparr>w_dl := m\<rparr>;
     let res = (if ret = - EAGAIN then POUCH_GATT_PACKETIZER_MORE_DATA
                else if ret < 0 then POUCH_GATT_PACKETIZER_ERROR
                else if is_last then POUCH_GATT_PACKETIZER_NO_MORE_DATA
                else POUCH_GATT_PACKETIZER_MORE_DATA);
     let data = (if ret \<noteq> - EAGAIN \<and> ret < 0 then [] else out);
     Some (res, emit (Filled POUCH_GATEWAY_GATT_ATTR_DOWNLINK data res) w') }"

text \<open>A sender pulls from its packetizer, whose callback fills from the context it was
  started with.\<close>

definition sender_source :: "ptr \<Rightarrow> world \<Rightarrow> fill_source option" where
  "sender_source s w = do {
     ob \<leftarrow> deref (w_objs w) s;
     (case ob of
        Sender i k \<Rightarrow> do { ob' \<leftarrow> deref (w_objs w) k; (case ob' of Packetizer src \<Rightarrow> Some src | _ \<Rightarrow> None) }
      | _ \<Rightarrow> None) }"

definition downlink_sender_run :: "env \<Rightarrow> world \<Rightarrow> (int \<times> bool \<times> world) option" where
  "downlink_sender_run e w = do {
     src \<leftarrow> sender_source (nd_downlink_sender (w_node w)) w;
     (case src of DownlinkFill a \<Rightarrow> e_ack e (downlink_packet_fill_cb e a) w | _ \<Rightarrow> None) }"

text \<open>\<open>downlink_notify_cb\<close>: with no data, and with data; \<open>is_ack\<close> is what
  \<open>pouch_gatt_packetizer_is_ack\<close> says of it.\<close>

definition downlink_notify_end :: "world \<Rightarrow> (bt_iter \<times> world) option" where
  "downlink_notify_end w = do {
     w' \<leftarrow> cleanup_downlink w;
     Some (BT_GATT_ITER_STOP, bt_finished w') }"

definition downlink_send_data_cb :: "env \<Rightarrow> send_cb" where
  "downlink_send_data_cb e data w =
     (let handle = att_value POUCH_GATEWAY_GATT_ATTR_DOWNLINK w in gatt_write e handle data w)"

lemma downlink_send_data_cb_emit [simp]:
  "send_idle (downlink_send_data_cb e) packet w = emit (BtGattWrite (att_value POUCH_GATEWAY_GATT_ATTR_DOWNLINK w) packet) w"
  by (simp add: send_idle_def downlink_send_data_cb_def gatt_write_def Let_def)

definition downlink_notify_cb :: "env \<Rightarrow> bool \<Rightarrow> world \<Rightarrow> (bt_iter \<times> world) option" where
  "downlink_notify_cb e is_ack w =
     (if nd_downlink_sender (w_node w) = None
      then Some (BT_GATT_ITER_STOP, if is_ack then send_idle (downlink_send_data_cb e) (e_fin e) w else w)
      else do {
        (ret, complete, w1) \<leftarrow> downlink_sender_run e w;
        if ret < 0 then Some (BT_GATT_ITER_STOP, w1)
        else if 0 < ret then Some (BT_GATT_ITER_STOP, w1)
        else if complete then do {
          m \<leftarrow> downlink_close (nd_downlink_ctx (w_node w1)) (w_dl w1);
          Some (BT_GATT_ITER_STOP, on_node (\<lambda>n. n\<lparr>nd_downlink_ctx := None\<rparr>) (w1\<lparr>w_dl := m\<rparr>)) }
        else Some (BT_GATT_ITER_CONTINUE, w1) })"

definition downlink_data_available :: "env \<Rightarrow> world \<Rightarrow> world option" where
  "downlink_data_available e w =
     (if \<not> nd_downlink_subscribed (w_node w) then
        (let (err, w1) = gatt_subscribe e POUCH_GATEWAY_GATT_ATTR_DOWNLINK
                           (on_node (\<lambda>n. n\<lparr>nd_downlink_subscribed := True\<rparr>) w) in
         if err \<noteq> 0 then do { w2 \<leftarrow> cleanup_downlink w1; Some (bt_finished w2) } else Some w1)
      else do { (ret, complete, w1) \<leftarrow> downlink_sender_run e w; Some w1 })"

definition downlink_start :: "env \<Rightarrow> world \<Rightarrow> (ptr \<times> world) option" where
  "downlink_start e w =
     (if att_value POUCH_GATEWAY_GATT_ATTR_DOWNLINK w = 0 then Some (None, w)
      else if \<not> cloud (e_conf e) then Some (None, w)
      else if e_mtu e < POUCH_GATEWAY_BT_ATT_OVERHEAD then Some (None, w)
      else
        let (ctx, m) = downlink_open (e_mal e (ctxs (w_dl w))) (e_conn e) (w_dl w);
            w1 = on_node (\<lambda>n. n\<lparr>nd_downlink_ctx := ctx\<rparr>) (w\<lparr>w_dl := m\<rparr>) in
        if ctx = None then Some (None, w1)
        else
          let (pk, w2) = obj_create e (Packetizer (DownlinkFill ctx)) w1;
              w3 = on_node (\<lambda>n. n\<lparr>nd_packetizer := pk\<rparr>) w2 in
          if pk = None then do { w4 \<leftarrow> cleanup_downlink w3; Some (None, w4) }
          else
            let (s, w4) = obj_create e (Sender POUCH_GATEWAY_GATT_ATTR_DOWNLINK pk) w3;
                w5 = on_node (\<lambda>n. n\<lparr>nd_downlink_sender := s\<rparr>) w4 in
            if s = None then do { w6 \<leftarrow> cleanup_downlink w5; Some (None, w6) }
            else
              let w6 = on_node (\<lambda>n. n\<lparr>nd_downlink_subscribed := False\<rparr>) w5 in
              Some (nd_downlink_ctx (w_node w6), w6))"

definition downlink_cleanup :: "world \<Rightarrow> world" where
  "downlink_cleanup w = emit (BtGattUnsubscribe POUCH_GATEWAY_GATT_ATTR_DOWNLINK) w"

section \<open>Uplink\<close>

definition uplink_end_cb :: "uplink_result \<Rightarrow> world \<Rightarrow> world" where
  "uplink_end_cb res w =
     (let w1 = on_node (\<lambda>n. n\<lparr>nd_uplink := None\<rparr>) w in
      if res \<noteq> POUCH_GATEWAY_UPLINK_SUCCESS then bt_finished w1 else w1)"

text \<open>The calls an operation of \<open>lib/uplink.c\<close> makes: its end callback is
  \<open>uplink_end_cb\<close>, the others go to the cloud client.\<close>

fun up_calls :: "up_event list \<Rightarrow> world \<Rightarrow> world" where
  "up_calls [] w = w"
| "up_calls (ev # evs) w =
     up_calls evs (let w1 = emit (UpEvent ev) w in
       (case ev of UplinkEnd arg res \<Rightarrow> uplink_end_cb res w1 | _ \<Rightarrow> w1))"

definition do_uplink_close :: "env \<Rightarrow> world \<Rightarrow> world option" where
  "do_uplink_close e w = do {
     p \<leftarrow> nd_uplink (w_node w);
     (evs, m) \<leftarrow> uplink_close (e_conf e) (e_block_status e) p (w_up w);
     Some (up_calls evs (w\<lparr>w_up := m\<rparr>)) }"

definition uplink_data_received_cb :: "env \<Rightarrow> recv_cb" where
  "uplink_data_received_cb e bytes is_last w =
     (case nd_uplink (w_node w) of
        None \<Rightarrow> Some (- ENOLINK, w)
      | Some p \<Rightarrow> do {
          (err, evs, m) \<leftarrow> uplink_write (e_conf e) (e_mal e) (e_block_status e) p bytes
                              (of_nat (length bytes)) (w_up w);
          let w1 = up_calls evs (w\<lparr>w_up := m\<rparr>);
          if err \<noteq> 0 \<or> is_last then do {
            w2 \<leftarrow> do_uplink_close e w1;
            Some (err, on_node (\<lambda>n. n\<lparr>nd_uplink := None\<rparr>) w2) }
          else Some (err, w1) })"

definition uplink_notify_end :: "world \<Rightarrow> (bt_iter \<times> world) option" where
  "uplink_notify_end w = do {
     w1 \<leftarrow> obj_destroy (nd_uplink_receiver (w_node w)) w;
     Some (BT_GATT_ITER_STOP, on_node (\<lambda>n. n\<lparr>nd_uplink_receiver := None\<rparr>) w1) }"

definition uplink_send_ack_cb :: "env \<Rightarrow> send_cb" where
  "uplink_send_ack_cb e data w =
     (let handle = att_value POUCH_GATEWAY_GATT_ATTR_UPLINK w in gatt_write e handle data w)"

lemma uplink_send_ack_cb_emit [simp]:
  "send_idle (uplink_send_ack_cb e) packet w = emit (BtGattWrite (att_value POUCH_GATEWAY_GATT_ATTR_UPLINK w) packet) w"
  by (simp add: send_idle_def uplink_send_ack_cb_def gatt_write_def Let_def)

text \<open>\<open>is_fin\<close> is what \<open>pouch_gatt_packetizer_is_fin\<close> says of the data.\<close>

definition uplink_notify_cb :: "env \<Rightarrow> bool \<Rightarrow> world \<Rightarrow> (bt_iter \<times> world) option" where
  "uplink_notify_cb e is_fin w =
     (if nd_uplink_receiver (w_node w) = None
      then Some (BT_GATT_ITER_CONTINUE, if is_fin then w else send_idle (uplink_send_ack_cb e) (e_nack e) w)
      else do {
        (err, complete, w1) \<leftarrow> e_receive e (uplink_data_received_cb e) w;
        if err \<noteq> 0 then Some (BT_GATT_ITER_STOP, bt_finished w1)
        else if complete then Some (BT_GATT_ITER_STOP, w1)
        else Some (BT_GATT_ITER_CONTINUE, w1) })"

definition uplink_start :: "env \<Rightarrow> world \<Rightarrow> world option" where
  "uplink_start e w =
     (if att_ccc POUCH_GATEWAY_GATT_ATTR_UPLINK w = 0 then Some (bt_finished w)
      else do {
        (downlink, w1) \<leftarrow> downlink_start e w;
        if downlink = None then Some (bt_finished w1)
        else do {
          (p, evs, m) \<leftarrow> uplink_open (e_conf e) (e_mal e (ups (w_up w1))) (e_mal e) (e_session e) downlink
                            (e_conn e) (w_up w1);
          let w2 = on_node (\<lambda>n. n\<lparr>nd_uplink := p\<rparr>) (up_calls evs (w1\<lparr>w_up := m\<rparr>));
          if p = None then Some (bt_finished w2)
          else
            let (r, w3) = obj_create e (Receiver POUCH_GATEWAY_GATT_ATTR_UPLINK) w2;
                w4 = on_node (\<lambda>n. n\<lparr>nd_uplink_receiver := r\<rparr>) w3 in
            if r = None then Some (bt_finished w4)
            else
              let (err, w5) = gatt_subscribe e POUCH_GATEWAY_GATT_ATTR_UPLINK w4 in
              Some (if err \<noteq> 0 then bt_finished w5 else w5) } })"

definition uplink_cleanup :: "env \<Rightarrow> world \<Rightarrow> world option" where
  "uplink_cleanup e w = do {
     w1 \<leftarrow> clear_obj nd_uplink_receiver nd_uplink_receiver_update (emit (BtGattUnsubscribe POUCH_GATEWAY_GATT_ATTR_UPLINK) w);
     (case nd_uplink (w_node w1) of
        None \<Rightarrow> Some w1
      | Some p \<Rightarrow> do {
          w2 \<leftarrow> do_uplink_close e w1;
          Some (on_node (\<lambda>n. n\<lparr>nd_uplink := None\<rparr>) w2) }) }"

text \<open>\<open>pouch_gateway_bt_stop\<close> of \<open>lib/bt/connect.c\<close>.\<close>

definition bt_stop :: "env \<Rightarrow> world \<Rightarrow> world option" where
  "bt_stop e w = do { w1 \<leftarrow> uplink_cleanup e w; Some (downlink_cleanup w1) }"

section \<open>Calls of the cloud client\<close>

text \<open>The client delivers downlink blocks and ends, and acknowledges uplink blocks; the
  callbacks of \<open>lib/downlink.c\<close> and \<open>lib/uplink.c\<close> call back into the transport.\<close>

definition cloud_downlink_block :: "env \<Rightarrow> addr \<Rightarrow> ptr \<Rightarrow> byte list \<Rightarrow> bool \<Rightarrow> world \<Rightarrow> (golioth_status \<times> world) option" where
  "cloud_downlink_block e a slot bytes is_last w = do {
     (st, notify, m) \<leftarrow> downlink_block_cb (e_conf e) a slot bytes is_last (w_dl w);
     w' \<leftarrow> (if notify then downlink_data_available e (w\<lparr>w_dl := m\<rparr>) else Some (w\<lparr>w_dl := m\<rparr>));
     Some (st, w') }"

definition cloud_downlink_end :: "env \<Rightarrow> golioth_status \<Rightarrow> addr \<Rightarrow> world \<Rightarrow> world option" where
  "cloud_downlink_end e status a w = do {
     (notify, m) \<leftarrow> downlink_end_cb status a (w_dl w);
     if notify then downlink_data_available e (w\<lparr>w_dl := m\<rparr>) else Some (w\<lparr>w_dl := m\<rparr>) }"

definition cloud_uploaded :: "env \<Rightarrow> golioth_status \<Rightarrow> addr \<Rightarrow> world \<Rightarrow> world option" where
  "cloud_uploaded e status p w = do {
     (evs, m) \<leftarrow> block_upload_callback (e_conf e) status (e_block_status e) p (w_up w);
     Some (up_calls evs (w\<lparr>w_up := m\<rparr>)) }"

end
