(* ===== verification/Gatt_Certs.thy ===== *)
theory Gatt_Certs
  imports Gatt_Link
begin

text \<open>
  The certificate exchange that precedes the pouch: \<open>lib/bt/device_cert.c\<close>,
  \<open>lib/bt/server_cert.c\<close> and \<open>lib/bt/info.c\<close>, in the order of their calls (info starts
  the server certificate, which starts the device certificate, which starts the uplink),
  and the calls of \<open>lib/bt/connect.c\<close> that start them.
\<close>

section \<open>Device certificate\<close>

definition device_cert_cleanup :: "world \<Rightarrow> world option" where
  "device_cert_cleanup w = do {
     w1 \<leftarrow> (case nd_device_cert_ctx (w_node w) of
              None \<Rightarrow> Some w
            | Some a \<Rightarrow> do {
                h \<leftarrow> device_cert_abort (Some a) (w_dc w);
                Some (on_node (\<lambda>n. n\<lparr>nd_device_cert_ctx := None\<rparr>) (w\<lparr>w_dc := h\<rparr>)) });
     clear_obj nd_device_cert_receiver nd_device_cert_receiver_update w1 }"

text \<open>\<open>device_cert_data_received_cb\<close>; a successful \<open>finish\<close> frees the context.\<close>

definition device_cert_finish_step :: "env \<Rightarrow> world \<Rightarrow> (int \<times> world) option" where
  "device_cert_finish_step e w = do {
     (err, sent, h) \<leftarrow> device_cert_finish (e_conf e) (e_cert_status e) (nd_device_cert_ctx (w_node w)) (w_dc w);
     let w1 = w\<lparr>w_dc := h\<rparr>;
     let w2 = (case sent of None \<Rightarrow> w1 | Some cs \<Rightarrow> emit (DeviceCertSet cs) w1);
     Some (err, if err = 0 then on_node (\<lambda>n. n\<lparr>nd_device_cert_ctx := None\<rparr>) w2 else w2) }"

definition device_cert_data_received_cb :: "env \<Rightarrow> recv_cb" where
  "device_cert_data_received_cb e bytes is_last w = do {
     a \<leftarrow> nd_device_cert_ctx (w_node w);
     d \<leftarrow> w_dc w a;
     (err, d') \<leftarrow> device_cert_push (e_conf e) d bytes;
     let w1 = w\<lparr>w_dc := (w_dc w)(a \<mapsto> d')\<rparr>;
     (err2, w2) \<leftarrow> (if err = 0 \<and> is_last then device_cert_finish_step e w1 else Some (err, w1));
     if err2 \<noteq> 0 then do { w3 \<leftarrow> device_cert_cleanup w2; Some (err2, bt_finished w3) }
     else Some (err2, w2) }"

definition device_cert_notify_end :: "world \<Rightarrow> (bt_iter \<times> world) option" where
  "device_cert_notify_end w = do { w' \<leftarrow> device_cert_cleanup w; Some (BT_GATT_ITER_STOP, w') }"

definition device_cert_send_ack_cb :: "env \<Rightarrow> send_cb" where
  "device_cert_send_ack_cb e data w =
     (let handle = att_value POUCH_GATEWAY_GATT_ATTR_DEVICE_CERT w in gatt_write e handle data w)"

lemma device_cert_send_ack_cb_emit [simp]:
  "send_idle (device_cert_send_ack_cb e) packet w = emit (BtGattWrite (att_value POUCH_GATEWAY_GATT_ATTR_DEVICE_CERT w) packet) w"
  by (simp add: send_idle_def device_cert_send_ack_cb_def gatt_write_def Let_def)

definition device_cert_notify_cb :: "env \<Rightarrow> bool \<Rightarrow> world \<Rightarrow> (bt_iter \<times> world) option" where
  "device_cert_notify_cb e is_fin w =
     (if nd_device_cert_receiver (w_node w) = None
      then Some (BT_GATT_ITER_STOP, if is_fin then w else send_idle (device_cert_send_ack_cb e) (e_nack e) w)
      else do {
        (err, complete, w1) \<leftarrow> e_receive e (device_cert_data_received_cb e) w;
        if err \<noteq> 0 then do { w2 \<leftarrow> device_cert_cleanup w1; Some (BT_GATT_ITER_STOP, bt_finished w2) }
        else if complete then do {
          w2 \<leftarrow> device_cert_cleanup w1;
          w3 \<leftarrow> uplink_start e w2;
          Some (BT_GATT_ITER_STOP, w3) }
        else Some (BT_GATT_ITER_CONTINUE, w1) })"

text \<open>The exit of a start function that fails behind an allocation.\<close>

definition device_cert_fail :: "world \<Rightarrow> world option" where
  "device_cert_fail w = do { w' \<leftarrow> device_cert_cleanup w; Some (bt_finished w') }"

definition device_cert_read :: "env \<Rightarrow> world \<Rightarrow> world option" where
  "device_cert_read e w =
     (if nd_device_cert_provisioned (w_node w) then uplink_start e w
      else if att_ccc POUCH_GATEWAY_GATT_ATTR_DEVICE_CERT w = 0 then Some (bt_finished w)
      else
        let (p, h) = device_cert_start (e_conf e) (e_mal e (w_dc w)) (w_dc w);
            w1 = on_node (\<lambda>n. n\<lparr>nd_device_cert_ctx := p\<rparr>) (w\<lparr>w_dc := h\<rparr>) in
        if p = None then device_cert_fail w1
        else
          let (r, w2) = obj_create e (Receiver POUCH_GATEWAY_GATT_ATTR_DEVICE_CERT) w1;
              w3 = on_node (\<lambda>n. n\<lparr>nd_device_cert_receiver := r\<rparr>) w2 in
          if r = None then device_cert_fail w3
          else
            let (err, w4) = gatt_subscribe e POUCH_GATEWAY_GATT_ATTR_DEVICE_CERT w3 in
            if err \<noteq> 0 then device_cert_fail w4 else Some w4)"

section \<open>Server certificate\<close>

definition server_cert_cleanup :: "world \<Rightarrow> world option" where
  "server_cert_cleanup w = do {
     w1 \<leftarrow> (case nd_server_cert_ctx (w_node w) of
              None \<Rightarrow> Some w
            | Some a \<Rightarrow> do {
                h \<leftarrow> server_cert_abort (Some a) (w_sc w);
                Some (on_node (\<lambda>n. n\<lparr>nd_server_cert_ctx := None\<rparr>) (w\<lparr>w_sc := h\<rparr>)) });
     w2 \<leftarrow> clear_obj nd_packetizer nd_packetizer_update w1;
     clear_obj nd_server_cert_sender nd_server_cert_sender_update w2 }"

definition server_cert_fill_cb :: "env \<Rightarrow> ptr \<Rightarrow> fill_cb" where
  "server_cert_fill_cb e user_arg dst_len w = do {
     a \<leftarrow> user_arg;
     x \<leftarrow> w_sc w a;
     (ret, n, out, is_last, x') \<leftarrow> server_cert_get_data (w_crt w) x dst_len;
     let w' = w\<lparr>w_sc := (w_sc w)(a \<mapsto> x')\<rparr>;
     let res = (if ret = - EAGAIN then POUCH_GATT_PACKETIZER_MORE_DATA
                else if ret < 0 then POUCH_GATT_PACKETIZER_ERROR
                else if is_last then POUCH_GATT_PACKETIZER_NO_MORE_DATA
                else POUCH_GATT_PACKETIZER_MORE_DATA);
     let data = (if ret \<noteq> - EAGAIN \<and> ret < 0 then [] else out);
     Some (res, emit (Filled POUCH_GATEWAY_GATT_ATTR_SERVER_CERT data res) w') }"

definition server_cert_fail :: "world \<Rightarrow> world option" where
  "server_cert_fail w = do { w' \<leftarrow> server_cert_cleanup w; Some (bt_finished w') }"

definition server_cert_write :: "env \<Rightarrow> world \<Rightarrow> world option" where
  "server_cert_write e w =
     (if nd_server_cert_provisioned (w_node w) then device_cert_read e w
      else if att_value POUCH_GATEWAY_GATT_ATTR_SERVER_CERT w = 0 then server_cert_fail w
      else
        let (p, h) = server_cert_start (w_crt w) (e_mal e (w_sc w)) (w_sc w);
            w1 = on_node (\<lambda>n. n\<lparr>nd_server_cert_ctx := p\<rparr>) (w\<lparr>w_sc := h\<rparr>) in
        if p = None then server_cert_fail w1
        else
          let (pk, w2) = obj_create e (Packetizer (ServerCertFill p)) w1;
              w3 = on_node (\<lambda>n. n\<lparr>nd_packetizer := pk\<rparr>) w2 in
          if pk = None then server_cert_fail w3
          else if e_mtu e < POUCH_GATEWAY_BT_ATT_OVERHEAD then server_cert_fail w3
          else
            let (s, w4) = obj_create e (Sender POUCH_GATEWAY_GATT_ATTR_SERVER_CERT pk) w3;
                w5 = on_node (\<lambda>n. n\<lparr>nd_server_cert_sender := s\<rparr>) w4 in
            if s = None then server_cert_fail w5
            else
              let w6 = on_node (\<lambda>n. n\<lparr>nd_server_cert_next := SERVER_CERT_NEXT_END\<rparr>) w5;
                  (err, w7) = gatt_subscribe e POUCH_GATEWAY_GATT_ATTR_SERVER_CERT w6 in
              if err \<noteq> 0 then server_cert_fail w7 else Some w7)"

definition server_cert_sender_run :: "env \<Rightarrow> world \<Rightarrow> (int \<times> bool \<times> world) option" where
  "server_cert_sender_run e w = do {
     src \<leftarrow> sender_source (nd_server_cert_sender (w_node w)) w;
     (case src of ServerCertFill a \<Rightarrow> e_ack e (server_cert_fill_cb e a) w | _ \<Rightarrow> None) }"

definition set_next :: "server_cert_next_state \<Rightarrow> world \<Rightarrow> world" where
  "set_next x w = on_node (\<lambda>n. n\<lparr>nd_server_cert_next := x\<rparr>) w"

definition server_cert_notify_end :: "env \<Rightarrow> world \<Rightarrow> (bt_iter \<times> world) option" where
  "server_cert_notify_end e w = do {
     w1 \<leftarrow> server_cert_cleanup w;
     w2 \<leftarrow> (case nd_server_cert_next (w_node w1) of
              SERVER_CERT_NEXT_DEVICE_CERT \<Rightarrow> device_cert_read e w1
            | SERVER_CERT_NEXT_SERVER_CERT \<Rightarrow> server_cert_write e w1
            | SERVER_CERT_NEXT_END \<Rightarrow> Some (bt_finished w1));
     Some (BT_GATT_ITER_STOP, set_next SERVER_CERT_NEXT_END w2) }"

definition server_cert_send_data_cb :: "env \<Rightarrow> send_cb" where
  "server_cert_send_data_cb e data w =
     (let handle = att_value POUCH_GATEWAY_GATT_ATTR_SERVER_CERT w in gatt_write e handle data w)"

lemma server_cert_send_data_cb_emit [simp]:
  "send_idle (server_cert_send_data_cb e) packet w = emit (BtGattWrite (att_value POUCH_GATEWAY_GATT_ATTR_SERVER_CERT w) packet) w"
  by (simp add: send_idle_def server_cert_send_data_cb_def gatt_write_def Let_def)

definition server_cert_notify_cb :: "env \<Rightarrow> bool \<Rightarrow> world \<Rightarrow> (bt_iter \<times> world) option" where
  "server_cert_notify_cb e is_ack w =
     (if nd_server_cert_sender (w_node w) = None
      then Some (BT_GATT_ITER_STOP, set_next SERVER_CERT_NEXT_END
             (if is_ack then send_idle (server_cert_send_data_cb e) (e_fin e) w else w))
      else do {
        (ret, complete, w1) \<leftarrow> server_cert_sender_run e w;
        if ret < 0 then Some (BT_GATT_ITER_STOP, set_next SERVER_CERT_NEXT_END w1)
        else if 0 < ret then Some (BT_GATT_ITER_STOP, set_next SERVER_CERT_NEXT_END w1)
        else if complete then do {
          x \<leftarrow> deref (w_sc w1) (nd_server_cert_ctx (w_node w1));
          Some (BT_GATT_ITER_STOP,
            if server_cert_is_newest (w_crt w1) x then set_next SERVER_CERT_NEXT_DEVICE_CERT w1
            else set_next SERVER_CERT_NEXT_SERVER_CERT w1) }
        else Some (BT_GATT_ITER_CONTINUE, w1) })"

section \<open>Information record\<close>

definition info_cleanup :: "world \<Rightarrow> world option" where
  "info_cleanup w = do {
     w1 \<leftarrow> (case nd_info_ctx (w_node w) of
              None \<Rightarrow> Some w
            | Some a \<Rightarrow> do {
                h \<leftarrow> info_abort (Some a) (w_in w);
                Some (on_node (\<lambda>n. n\<lparr>nd_info_ctx := None\<rparr>) (w\<lparr>w_in := h\<rparr>)) });
     clear_obj nd_info_receiver nd_info_receiver_update w1 }"

text \<open>\<open>info_data_received_cb\<close>; the error of \<open>finish\<close> is only logged.\<close>

definition info_data_received_cb :: "env \<Rightarrow> recv_cb" where
  "info_data_received_cb e bytes is_last w = do {
     a \<leftarrow> nd_info_ctx (w_node w);
     x \<leftarrow> w_in w a;
     (err, x') \<leftarrow> info_push x bytes;
     let w1 = w\<lparr>w_in := (w_in w)(a \<mapsto> x')\<rparr>;
     if err \<noteq> 0 then Some (err, w1)
     else if is_last then do {
       (err2, sp, dp, h) \<leftarrow> info_finish (e_decode e) (e_compare e) (w_crt w1) (Some a)
          (nd_server_cert_provisioned (w_node w1)) (nd_device_cert_provisioned (w_node w1)) (w_in w1);
       Some (0, on_node (\<lambda>n. n\<lparr>nd_server_cert_provisioned := sp, nd_device_cert_provisioned := dp,
                              nd_info_ctx := None\<rparr>) (w1\<lparr>w_in := h\<rparr>)) }
     else Some (0, w1) }"

definition info_notify_end :: "world \<Rightarrow> (bt_iter \<times> world) option" where
  "info_notify_end w = do { w' \<leftarrow> info_cleanup w; Some (BT_GATT_ITER_STOP, w') }"

definition info_send_ack_cb :: "env \<Rightarrow> send_cb" where
  "info_send_ack_cb e data w =
     (let handle = att_value POUCH_GATEWAY_GATT_ATTR_INFO w in gatt_write e handle data w)"

lemma info_send_ack_cb_emit [simp]:
  "send_idle (info_send_ack_cb e) packet w = emit (BtGattWrite (att_value POUCH_GATEWAY_GATT_ATTR_INFO w) packet) w"
  by (simp add: send_idle_def info_send_ack_cb_def gatt_write_def Let_def)

definition info_notify_cb :: "env \<Rightarrow> bool \<Rightarrow> world \<Rightarrow> (bt_iter \<times> world) option" where
  "info_notify_cb e is_fin w =
     (if nd_info_receiver (w_node w) = None
      then Some (BT_GATT_ITER_STOP, if is_fin then w else send_idle (info_send_ack_cb e) (e_nack e) w)
      else do {
        (err, complete, w1) \<leftarrow> e_receive e (info_data_received_cb e) w;
        if err \<noteq> 0 then do { w2 \<leftarrow> info_cleanup w1; Some (BT_GATT_ITER_STOP, bt_finished w2) }
        else if complete then do {
          w2 \<leftarrow> info_cleanup w1;
          w3 \<leftarrow> server_cert_write e w2;
          Some (BT_GATT_ITER_STOP, w3) }
        else Some (BT_GATT_ITER_CONTINUE, w1) })"

definition info_fail :: "world \<Rightarrow> world option" where
  "info_fail w = do { w' \<leftarrow> info_cleanup w; Some (bt_finished w') }"

definition info_read_start :: "env \<Rightarrow> world \<Rightarrow> world option" where
  "info_read_start e w =
     (let w0 = on_node (\<lambda>n. n\<lparr>nd_server_cert_provisioned := False, nd_device_cert_provisioned := False\<rparr>) w;
          (p, h) = info_start (e_mal e (w_in w0)) (w_in w0);
          w1 = on_node (\<lambda>n. n\<lparr>nd_info_ctx := p\<rparr>) (w0\<lparr>w_in := h\<rparr>) in
      if p = None then Some (bt_finished w1)
      else
        let (r, w2) = obj_create e (Receiver POUCH_GATEWAY_GATT_ATTR_INFO) w1;
            w3 = on_node (\<lambda>n. n\<lparr>nd_info_receiver := r\<rparr>) w2 in
        if r = None then info_fail w3
        else
          let (err, w4) = gatt_subscribe e POUCH_GATEWAY_GATT_ATTR_INFO w3 in
          if err \<noteq> 0 then info_fail w4 else Some w4)"

section \<open>Connection\<close>

text \<open>What discovery ends with, and \<open>pouch_gateway_bt_start\<close>, which clears the node's
  record before discovery fills its handles.\<close>

definition after_discovery :: "env \<Rightarrow> attr_handles \<Rightarrow> world \<Rightarrow> world option" where
  "after_discovery e h w =
     (case fst (discover_descriptors None h) of
        [CallInfoReadStart] \<Rightarrow> info_read_start e (on_node (\<lambda>n. n\<lparr>nd_attr_handles := h\<rparr>) w)
      | [CallUplinkStart] \<Rightarrow> uplink_start e (on_node (\<lambda>n. n\<lparr>nd_attr_handles := h\<rparr>) w)
      | _ \<Rightarrow> None)"

definition bt_start :: "world \<Rightarrow> world" where
  "bt_start w = w\<lparr>w_node := node_zero\<rparr>"

end
