(* ===== verification/Gatt_Contracts.thy ===== *)
theory Gatt_Contracts
  imports Gatt_Node
begin

text \<open>
  The contracts between the gateway and the receivers and senders of the pouch module: what
  a data callback must do for a receiver, and a fill callback for a packetizer, so that a
  whole notification is safe. They are interpreted on the three data callbacks and the two
  fill callbacks where these are proved safe.
\<close>

section \<open>Receivers\<close>

text \<open>While it is \<open>ready\<close> the callback takes a chunk and keeps the component \<open>ok\<close>; it stays
  ready until it refuses a chunk or has taken the last one.\<close>

locale chunk_sink =
  fixes push :: recv_cb
    and ready :: "world \<Rightarrow> bool"
    and ok :: "world \<Rightarrow> bool"
  assumes ready_ok: "ready w \<Longrightarrow> ok w"
    and push_ok: "ready w \<Longrightarrow> length x < 2 ^ 16 \<Longrightarrow>
      holds (\<lambda>(r, w'). ok w' \<and> (r = 0 \<longrightarrow> \<not> l \<longrightarrow> ready w')) (push x l w)"
begin

text \<open>A receiver delivers nothing behind the last chunk, nor after a refusal: a notification
  is safe.\<close>

lemma receive_ok:
  assumes "chunks_ok cs" and "if cs = [] then ok w else ready w"
  shows "holds (\<lambda>(r, b, w'). ok w') (replay_chunks cs err complete push w)"
  using assms
proof (induction cs arbitrary: w)
  case Nil
  then show ?case by simp
next
  case (Cons c cs)
  obtain x l where c: "c = (x, l)" by (cases c)
  have "length x < 2 ^ 16" using Cons.prems(1) by (simp add: chunks_ok_def c)
  then obtain r w' where run: "push x l w = Some (r, w')" "ok w'" "r = 0 \<longrightarrow> \<not> l \<longrightarrow> ready w'"
    using push_ok [of w x l] Cons.prems(2) by (auto simp: holds_def)
  have cs: "chunks_ok cs" using Cons.prems(1) by (cases cs) (auto simp: chunks_ok_def)
  have "\<not> l" if "cs \<noteq> []" using Cons.prems(1) that by (auto simp: chunks_ok_def c image_iff)
  then have "if cs = [] then ok w' else ready w'" if "r = 0" using run that by auto
  with Cons.IH [OF cs, of w'] run show ?case by (cases "r = 0") (simp_all add: c)
qed

lemma receive_ready:
  assumes "chunks_ok cs" and "ready w"
  shows "holds (\<lambda>(r, b, w'). ok w') (replay_chunks cs err complete push w)"
  using assms ready_ok by (intro receive_ok) auto

end

section \<open>Senders\<close>

text \<open>The fill callback may be called whenever its source is \<open>live\<close>, and keeps it so.\<close>

locale packet_source =
  fixes fill :: fill_cb
    and live :: "world \<Rightarrow> bool"
  assumes fill_ok: "live w \<Longrightarrow> holds (\<lambda>(r, w'). live w') (fill n w)"
begin

lemma send_ok:
  assumes "live w"
  shows "holds (\<lambda>(r, b, w'). live w') (replay_fills ns ret complete fill w)"
  using assms
proof (induction ns arbitrary: w)
  case Nil
  then show ?case by simp
next
  case (Cons n ns)
  from fill_ok [OF Cons.prems, of n] obtain r w' where f: "fill n w = Some (r, w')" "live w'"
    by (auto simp: holds_def)
  then show ?case using Cons.IH [of w'] by simp
qed

end

end
