(* ===== verification/Gatt_Invariant.thy ===== *)
theory Gatt_Invariant
  imports Gatt_Certs Gatt_Contracts
begin

text \<open>
  The invariant of a node and that every transport operation returns and keeps it. A node
  is idle or in one of four phases (info, server certificate, device certificate, link);
  in each the pointers of its record are \<open>NULL\<close> or point to live objects of the right
  kind, and only the pointers of that phase are set.
\<close>

section \<open>What the environment is relied on for\<close>

definition env_ok :: "config \<Rightarrow> env \<Rightarrow> bool" where
  "env_ok c e \<longleftrightarrow> e_conf e = c \<and> block_max c \<noteq> 0 \<and> unat (device_cert_max c) + 2 ^ 16 < 2 ^ 32 \<and>
     (\<forall>A a. e_malloc e A = Some a \<longrightarrow> a \<notin> A) \<and> (\<forall>ob A a. e_create e ob A = Some a \<longrightarrow> a \<notin> A) \<and>
     zcbor_ok (e_compare e) \<and> ack_ok e"

lemma env_okD:
  assumes "env_ok c e"
  shows "e_conf e = c" "block_max c \<noteq> 0" "malloc_ok (e_mal e)"
    "e_mal e h = Some a \<Longrightarrow> h a = None"
    "e_create e ob A = Some b \<Longrightarrow> b \<notin> A"
  using assms by (auto simp: env_ok_def malloc_ok_def e_mal_def)

section \<open>The invariant\<close>

definition mem_ok :: "config \<Rightarrow> world \<Rightarrow> bool" where
  "mem_ok c w \<longleftrightarrow> dl_inv c (w_dl w) \<and> up_inv c (w_up w) \<and> crt_ok c (w_crt w) \<and>
     (\<forall>a d. w_dc w a = Some d \<longrightarrow> dc_ok c d) \<and> (\<forall>a x. w_in w a = Some x \<longrightarrow> in_ok x)"

definition live_recv :: "gatt_attr \<Rightarrow> ptr \<Rightarrow> world \<Rightarrow> bool" where
  "live_recv i p w \<longleftrightarrow> (\<forall>r. p = Some r \<longrightarrow> w_objs w r = Some (Receiver i))"

definition uplink_part :: "world \<Rightarrow> bool" where
  "uplink_part w \<longleftrightarrow> live_recv POUCH_GATEWAY_GATT_ATTR_UPLINK (nd_uplink_receiver (w_node w)) w \<and>
     (\<forall>p. nd_uplink (w_node w) = Some p \<longrightarrow> (\<exists>u. ups (w_up w) p = Some u \<and> \<not> up_closed u))"

text \<open>A linked sender: it pulls from the node's packetizer, which fills from \<open>src\<close>.\<close>

definition linked :: "gatt_attr \<Rightarrow> ptr \<Rightarrow> fill_source \<Rightarrow> world \<Rightarrow> bool" where
  "linked i s src w \<longleftrightarrow> (\<exists>a k. s = Some a \<and> nd_packetizer (w_node w) = Some k \<and>
     w_objs w a = Some (Sender i (Some k)) \<and> w_objs w k = Some (Packetizer src))"

text \<open>Whether a downlink context is live, and if so whether it is aborted.\<close>

definition dl_state :: "dl_mem \<Rightarrow> addr \<Rightarrow> bool option" where
  "dl_state m a = map_option dl_aborted (ctxs m a)"

lemma dl_state_upd [simp]:
  "dl_state (m\<lparr>slab := s\<rparr>) = dl_state m"
  "dl_state (m\<lparr>ctxs := (ctxs m)(a := v)\<rparr>) = (dl_state m)(a := map_option dl_aborted v)"
  by (auto simp: dl_state_def fun_eq_iff)

lemma dl_state_live: "dl_state m a = Some b \<Longrightarrow> ctxs m a \<noteq> None"
  by (auto simp: dl_state_def)

lemma dl_state_dom: "dl_state m = dl_state m' \<Longrightarrow> ctxs m a = None \<longleftrightarrow> ctxs m' a = None"
  by (metis dl_state_def map_option_is_None)

definition downlink_part :: "world \<Rightarrow> bool" where
  "downlink_part w \<longleftrightarrow>
     nd_downlink_sender (w_node w) = None \<and> nd_downlink_ctx (w_node w) = None \<and> nd_packetizer (w_node w) = None \<or>
     (\<exists>a. linked POUCH_GATEWAY_GATT_ATTR_DOWNLINK (nd_downlink_sender (w_node w)) (DownlinkFill (Some a)) w \<and>
        (nd_downlink_ctx (w_node w) = None \<or>
         nd_downlink_ctx (w_node w) = Some a \<and> dl_state (w_dl w) a = Some False))"

definition info_off :: "world \<Rightarrow> bool" where
  "info_off w \<longleftrightarrow> nd_info_receiver (w_node w) = None \<and> nd_info_ctx (w_node w) = None"

definition server_off :: "world \<Rightarrow> bool" where
  "server_off w \<longleftrightarrow> nd_server_cert_sender (w_node w) = None \<and> nd_server_cert_ctx (w_node w) = None \<and>
     POUCH_GATEWAY_GATT_ATTR_SERVER_CERT \<notin> w_subs w"

definition device_off :: "world \<Rightarrow> bool" where
  "device_off w \<longleftrightarrow> nd_device_cert_receiver (w_node w) = None \<and> nd_device_cert_ctx (w_node w) = None"

definition link_off :: "world \<Rightarrow> bool" where
  "link_off w \<longleftrightarrow> nd_uplink_receiver (w_node w) = None \<and> nd_uplink (w_node w) = None \<and>
     nd_downlink_sender (w_node w) = None \<and> nd_downlink_ctx (w_node w) = None \<and>
     POUCH_GATEWAY_GATT_ATTR_DOWNLINK \<notin> w_subs w"

definition idle_ok :: "config \<Rightarrow> world \<Rightarrow> bool" where
  "idle_ok c w \<longleftrightarrow> mem_ok c w \<and> info_off w \<and> server_off w \<and> device_off w \<and> link_off w \<and>
     nd_packetizer (w_node w) = None"

definition info_ok :: "config \<Rightarrow> world \<Rightarrow> bool" where
  "info_ok c w \<longleftrightarrow> mem_ok c w \<and> server_off w \<and> device_off w \<and> link_off w \<and> nd_packetizer (w_node w) = None \<and>
     live_recv POUCH_GATEWAY_GATT_ATTR_INFO (nd_info_receiver (w_node w)) w \<and>
     (\<forall>a. nd_info_ctx (w_node w) = Some a \<longrightarrow> w_in w a \<noteq> None)"

definition server_ok :: "config \<Rightarrow> world \<Rightarrow> bool" where
  "server_ok c w \<longleftrightarrow> mem_ok c w \<and> info_off w \<and> device_off w \<and> link_off w \<and>
     (\<exists>a. linked POUCH_GATEWAY_GATT_ATTR_SERVER_CERT (nd_server_cert_sender (w_node w)) (ServerCertFill (Some a)) w \<and>
        nd_server_cert_ctx (w_node w) = Some a \<and> w_sc w a \<noteq> None)"

definition device_ok :: "config \<Rightarrow> world \<Rightarrow> bool" where
  "device_ok c w \<longleftrightarrow> mem_ok c w \<and> info_off w \<and> server_off w \<and> link_off w \<and> nd_packetizer (w_node w) = None \<and>
     live_recv POUCH_GATEWAY_GATT_ATTR_DEVICE_CERT (nd_device_cert_receiver (w_node w)) w \<and>
     (\<forall>a. nd_device_cert_ctx (w_node w) = Some a \<longrightarrow> w_dc w a \<noteq> None)"

definition link_ok :: "config \<Rightarrow> world \<Rightarrow> bool" where
  "link_ok c w \<longleftrightarrow> mem_ok c w \<and> info_off w \<and> server_off w \<and> device_off w \<and> uplink_part w \<and> downlink_part w"

definition node_ok :: "config \<Rightarrow> world \<Rightarrow> bool" where
  "node_ok c w \<longleftrightarrow> info_ok c w \<or> server_ok c w \<or> device_ok c w \<or> link_ok c w"

lemmas off_defs = info_off_def server_off_def device_off_def link_off_def
lemmas part_defs = uplink_part_def downlink_part_def live_recv_def linked_def
lemmas phase_defs = idle_ok_def info_ok_def server_ok_def device_ok_def link_ok_def
lemmas step_defs = on_node_def emit_def bt_finished_def gatt_subscribe_def Let_def

lemma idle_phases: "idle_ok c w \<Longrightarrow> info_ok c w" "idle_ok c w \<Longrightarrow> device_ok c w" "idle_ok c w \<Longrightarrow> link_ok c w"
  by (auto simp: phase_defs off_defs part_defs)

lemma node_okI:
  "idle_ok c w \<Longrightarrow> node_ok c w" "info_ok c w \<Longrightarrow> node_ok c w" "server_ok c w \<Longrightarrow> node_ok c w"
  "device_ok c w \<Longrightarrow> node_ok c w" "link_ok c w \<Longrightarrow> node_ok c w"
  by (auto simp: node_ok_def dest: idle_phases)

text \<open>The log does not matter.\<close>

lemma mem_ok_log [simp]:
  "mem_ok c (w\<lparr>w_log := l\<rparr>) = mem_ok c w" "mem_ok c (w\<lparr>w_node := n\<rparr>) = mem_ok c w"
  "mem_ok c (w\<lparr>w_subs := S\<rparr>) = mem_ok c w" "mem_ok c (w\<lparr>w_objs := h\<rparr>) = mem_ok c w"
  "mem_ok c (w\<lparr>w_sc := sc\<rparr>) = mem_ok c w"
  by (simp_all add: mem_ok_def)

lemma phase_emit [simp]:
  "idle_ok c (emit ev w) = idle_ok c w" "info_ok c (emit ev w) = info_ok c w"
  "server_ok c (emit ev w) = server_ok c w" "device_ok c (emit ev w) = device_ok c w"
  "link_ok c (emit ev w) = link_ok c w" "node_ok c (emit ev w) = node_ok c w"
  "mem_ok c (emit ev w) = mem_ok c w"
  by (simp_all add: phase_defs off_defs part_defs node_ok_def emit_def)

lemma phase_finished [simp]:
  "idle_ok c (bt_finished w) = idle_ok c w" "info_ok c (bt_finished w) = info_ok c w"
  "server_ok c (bt_finished w) = server_ok c w" "device_ok c (bt_finished w) = device_ok c w"
  "link_ok c (bt_finished w) = link_ok c w" "node_ok c (bt_finished w) = node_ok c w"
  by (simp_all add: bt_finished_def)

section \<open>Elementary operations\<close>

lemma clear_same:
  "nd_packetizer n = None \<Longrightarrow> nd_packetizer_update (\<lambda>_. None) n = n"
  "nd_downlink_sender n = None \<Longrightarrow> nd_downlink_sender_update (\<lambda>_. None) n = n"
  "nd_server_cert_sender n = None \<Longrightarrow> nd_server_cert_sender_update (\<lambda>_. None) n = n"
  "nd_device_cert_receiver n = None \<Longrightarrow> nd_device_cert_receiver_update (\<lambda>_. None) n = n"
  "nd_info_receiver n = None \<Longrightarrow> nd_info_receiver_update (\<lambda>_. None) n = n"
  "nd_uplink_receiver n = None \<Longrightarrow> nd_uplink_receiver_update (\<lambda>_. None) n = n"
  by (cases n; simp)+

lemma clear_obj_eq:
  assumes "get (w_node w) = None \<Longrightarrow> upd (\<lambda>_. None) (w_node w) = w_node w"
    and "\<And>a. get (w_node w) = Some a \<Longrightarrow> w_objs w a \<noteq> None"
  shows "clear_obj get upd w = Some (w\<lparr>w_objs := w_objs w |` (- set (ptr_list (get (w_node w)))),
      w_node := upd (\<lambda>_. None) (w_node w)\<rparr>)"
  using assms
  by (cases "get (w_node w)")
     (auto simp: clear_obj_def obj_destroy_def on_node_def heap_free_def upd_None_restrict)

section \<open>Downlink\<close>

text \<open>\<open>cleanup_downlink\<close> from any state in which the three pointers are \<open>NULL\<close> or live:
  it returns with all three \<open>NULL\<close>, the receivers alive and nothing else of the node
  changed.\<close>

definition downlink_live :: "world \<Rightarrow> bool" where
  "downlink_live w \<longleftrightarrow>
     (\<forall>a. nd_downlink_ctx (w_node w) = Some a \<longrightarrow> ctxs (w_dl w) a \<noteq> None) \<and>
     (\<forall>k. nd_packetizer (w_node w) = Some k \<longrightarrow> (\<exists>src. w_objs w k = Some (Packetizer src))) \<and>
     (\<forall>s. nd_downlink_sender (w_node w) = Some s \<longrightarrow> (\<exists>i k. w_objs w s = Some (Sender i k)))"

definition downlink_cleaned :: "config \<Rightarrow> world \<Rightarrow> world \<Rightarrow> bool" where
  "downlink_cleaned c w w' \<longleftrightarrow>
     (\<exists>m h. w' = w\<lparr>w_dl := m, w_objs := h,
        w_node := (w_node w)\<lparr>nd_downlink_ctx := None, nd_packetizer := None, nd_downlink_sender := None\<rparr>\<rparr> \<and>
      dl_inv c m \<and> (\<forall>a i. w_objs w a = Some (Receiver i) \<longrightarrow> h a = Some (Receiver i)))"

lemma downlink_part_live: "downlink_part w \<Longrightarrow> downlink_live w"
  by (auto simp: downlink_part_def downlink_live_def linked_def dest: dl_state_live)

lemma cleanup_downlink_ok:
  assumes inv: "dl_inv c (w_dl w)" and live: "downlink_live w"
  shows "holds (downlink_cleaned c w) (cleanup_downlink w)"
proof -
  obtain m where m: "cleanup_downlink_ctx w =
      Some (w\<lparr>w_dl := m, w_node := (w_node w)\<lparr>nd_downlink_ctx := None\<rparr>\<rparr>)" "dl_inv c m"
  proof (cases "nd_downlink_ctx (w_node w)")
    case None
    then have "cleanup_downlink_ctx w = Some (w\<lparr>w_dl := w_dl w, w_node := (w_node w)\<lparr>nd_downlink_ctx := None\<rparr>\<rparr>)"
      by (cases w; cases "w_node w") (simp add: cleanup_downlink_ctx_def)
    with that inv show ?thesis by blast
  next
    case (Some a)
    then obtain d where "ctxs (w_dl w) a = Some d" using live by (auto simp: downlink_live_def)
    then obtain m' where "downlink_abort (Some a) (w_dl w) = Some m'" "dl_inv c m'"
      using downlink_abort_inv [OF inv] by blast
    with that Some show ?thesis by (simp add: cleanup_downlink_ctx_def on_node_def)
  qed
  obtain pk s where n: "nd_packetizer (w_node w) = pk" "nd_downlink_sender (w_node w) = s" by blast
  have ne: "pk = None \<or> s = None \<or> pk \<noteq> s" using live by (auto simp: downlink_live_def n)
  define h where "h = w_objs w |` (- (set (ptr_list pk) \<union> set (ptr_list s)))"
  have "cleanup_downlink w = Some (w\<lparr>w_dl := m, w_objs := h,
      w_node := (w_node w)\<lparr>nd_downlink_ctx := None, nd_packetizer := None, nd_downlink_sender := None\<rparr>\<rparr>)"
  proof -
    define w1 where "w1 = w\<lparr>w_dl := m, w_node := (w_node w)\<lparr>nd_downlink_ctx := None\<rparr>\<rparr>"
    define w2 where "w2 = w1\<lparr>w_objs := w_objs w |` (- set (ptr_list pk)),
        w_node := nd_packetizer_update (\<lambda>_. None) (w_node w1)\<rparr>"
    have "clear_obj nd_packetizer nd_packetizer_update w1 = Some w2"
      using live by (subst clear_obj_eq) (auto simp: w1_def w2_def n downlink_live_def)
    moreover have "clear_obj nd_downlink_sender nd_downlink_sender_update w2 =
        Some (w2\<lparr>w_objs := h, w_node := nd_downlink_sender_update (\<lambda>_. None) (w_node w2)\<rparr>)"
      using live ne
      by (subst clear_obj_eq; cases pk; cases s)
         (auto simp: w1_def w2_def h_def n downlink_live_def restrict_map_def fun_eq_iff)
    ultimately show ?thesis using m(1) by (simp add: cleanup_downlink_def w1_def [symmetric]) (simp add: w1_def w2_def)
  qed
  moreover have "h a = Some (Receiver i)" if "w_objs w a = Some (Receiver i)" for a i
    using live that by (cases pk; cases s) (auto simp: n h_def downlink_live_def restrict_map_def)
  ultimately show ?thesis using m(2) by (auto simp: downlink_cleaned_def)
qed

text \<open>Each pull through the packetizer is safe.\<close>

definition dl_advanced :: "config \<Rightarrow> world \<Rightarrow> world \<Rightarrow> bool" where
  "dl_advanced c w w' \<longleftrightarrow>
     (\<exists>m l. w' = w\<lparr>w_dl := m, w_log := l\<rparr> \<and> dl_inv c m \<and> dl_state m = dl_state (w_dl w))"

lemma dl_advancedI:
  "dl_inv c m \<Longrightarrow> dl_state m = dl_state (w_dl w) \<Longrightarrow> dl_advanced c w (w\<lparr>w_dl := m, w_log := l\<rparr>)"
  by (auto simp: dl_advanced_def)

lemma dl_advanced_refl: "dl_inv c (w_dl w) \<Longrightarrow> dl_advanced c w w"
  by (auto simp: dl_advanced_def intro!: exI [of _ "w_dl w"] exI [of _ "w_log w"])

lemma dl_advanced_trans: "dl_advanced c w w1 \<Longrightarrow> dl_advanced c w1 w2 \<Longrightarrow> dl_advanced c w w2"
  by (fastforce simp: dl_advanced_def)

lemma dl_advanced_inv: "dl_advanced c w w' \<Longrightarrow> dl_inv c (w_dl w')"
  by (auto simp: dl_advanced_def)

lemma downlink_fill_ok:
  assumes "env_ok c e" "dl_inv c (w_dl w)" "ctxs (w_dl w) a \<noteq> None"
  shows "holds (\<lambda>(r, w'). dl_advanced c w w') (downlink_packet_fill_cb e (Some a) n w)"
proof -
  obtain d where d: "ctxs (w_dl w) a = Some d" using assms(3) by blast
  have "\<exists>ret k x il m'. downlink_get_data c a n (w_dl w) = Some (ret, k, x, il, m') \<and> dl_inv c m' \<and>
      dl_state m' = dl_state (w_dl w)"
  proof (cases "dl_complete d")
    case True
    then show ?thesis using d assms(2) by (auto simp: downlink_get_data_def downlink_is_complete_def)
  next
    case False
    obtain ret x il d' s' where run: "downlink_get_data c a n (w_dl w) =
         Some (ret, of_nat (length x), x, il, (w_dl w)\<lparr>slab := s', ctxs := (ctxs (w_dl w))(a \<mapsto> d')\<rparr>)"
      and post: "dl_loop_post c (slab (w_dl w)) d (unat n) [] ret x il d' s'"
      and inv: "dl_inv c ((w_dl w)\<lparr>slab := s', ctxs := (ctxs (w_dl w))(a \<mapsto> d')\<rparr>)"
      using downlink_get_data_eq [OF assms(2) d False, of n] by blast
    have "dl_aborted d' = dl_aborted d"
      using post by (auto simp: dl_loop_post_def Let_def split: prod.splits)
    then have "dl_state ((w_dl w)\<lparr>slab := s', ctxs := (ctxs (w_dl w))(a \<mapsto> d')\<rparr>) = dl_state (w_dl w)"
      using d by (auto simp: dl_state_def fun_eq_iff)
    with run inv show ?thesis by blast
  qed
  then obtain ret k x il m' where "downlink_get_data c a n (w_dl w) = Some (ret, k, x, il, m')" "dl_inv c m'"
      "dl_state m' = dl_state (w_dl w)" by blast
  then show ?thesis
    by (simp add: downlink_packet_fill_cb_def env_okD(1) [OF assms(1)] dl_advancedI emit_def Let_def)
qed

interpretation dl_packets: packet_source "downlink_packet_fill_cb e (Some a)"
  "\<lambda>v. env_ok c e \<and> ctxs (w_dl w) a \<noteq> None \<and> dl_inv c (w_dl v) \<and> dl_advanced c w v" for c e a w
proof unfold_locales
  fix v :: world and n :: size_t
  assume v: "env_ok c e \<and> ctxs (w_dl w) a \<noteq> None \<and> dl_inv c (w_dl v) \<and> dl_advanced c w v"
  then have live: "ctxs (w_dl v) a \<noteq> None"
    using dl_state_dom [of "w_dl v" "w_dl w" a] by (auto simp: dl_advanced_def)
  from downlink_fill_ok [of c e v a n] v live
  have "holds (\<lambda>(r, w'). dl_advanced c v w') (downlink_packet_fill_cb e (Some a) n v)" by blast
  then show "holds (\<lambda>(r, v'). env_ok c e \<and> ctxs (w_dl w) a \<noteq> None \<and> dl_inv c (w_dl v') \<and> dl_advanced c w v')
      (downlink_packet_fill_cb e (Some a) n v)"
    by (rule holds_mono) (use v in \<open>auto intro: dl_advanced_trans dl_advanced_inv\<close>)
qed

lemma downlink_run_ok:
  assumes env: "env_ok c e" and inv: "dl_inv c (w_dl w)" and live: "ctxs (w_dl w) a \<noteq> None"
    and link: "linked i (nd_downlink_sender (w_node w)) (DownlinkFill (Some a)) w"
  shows "holds (\<lambda>(ret, complete, w'). dl_advanced c w w') (downlink_sender_run e w)"
proof -
  obtain ns ret complete where ack: "e_ack e = replay_fills ns ret complete"
    using env by (auto simp: env_ok_def ack_ok_def)
  have "sender_source (nd_downlink_sender (w_node w)) w = Some (DownlinkFill (Some a))"
    using link by (auto simp: linked_def sender_source_def)
  moreover have "holds (\<lambda>(r, b, w'). dl_advanced c w w')
      (replay_fills ns ret complete (downlink_packet_fill_cb e (Some a)) w)"
    by (rule holds_mono [OF dl_packets.send_ok]) (use assms dl_advanced_refl in auto)
  ultimately show ?thesis by (simp add: downlink_sender_run_def ack)
qed

section \<open>Uplink\<close>

text \<open>What an operation of \<open>lib/uplink.c\<close> leaves behind: the other uplinks as they were,
  its own one gone exactly when the end callback ran.\<close>

definition ends :: "up_event list \<Rightarrow> bool" where
  "ends evs \<longleftrightarrow> (\<exists>arg res. UplinkEnd arg res \<in> set evs)"

lemma ends_simps [simp]:
  "\<not> ends []" "ends (end_events c res u)" "ends (UplinkBlock s i x l # evs) = ends evs"
  "\<not> ends (if b then [UplinkStart d] else [])"
  by (auto simp: ends_def end_events_def)

definition up_after :: "config \<Rightarrow> addr \<Rightarrow> up_mem \<Rightarrow> bool \<Rightarrow> up_event list \<Rightarrow> up_mem \<Rightarrow> bool" where
  "up_after c p m closed evs m' \<longleftrightarrow> up_inv c m' \<and> (\<forall>q. q \<noteq> p \<longrightarrow> ups m' q = ups m q) \<and>
     (if ends evs then ups m' p = None else (\<exists>u'. ups m' p = Some u' \<and> up_closed u' = closed))"

lemma up_frame_other: "up_frame p m m' \<Longrightarrow> q \<noteq> p \<Longrightarrow> ups m' q = ups m q"
  by (simp add: up_frame_def own_frame_def)

lemma up_after_frame:
  "up_after c p m1 closed evs m' \<Longrightarrow> up_frame p m m1 \<Longrightarrow> up_after c p m closed evs m'"
  by (simp add: up_after_def up_frame_other)

lemma up_after_removed:
  "up_inv c m \<Longrightarrow> ups m p = Some u \<Longrightarrow> ends evs \<Longrightarrow> up_after c p m closed evs (up_removed p u m)"
  using up_removed_keeps [of c m p u] by (simp add: up_after_def up_frame_other) (simp add: up_removed_def)

lemma process_uplink_after:
  assumes inv: "up_inv c m" and u: "ups m p = Some u"
  shows "holds (\<lambda>(evs, m'). up_after c p m (up_closed u) evs m' \<and>
      (st = GOLIOTH_OK \<longrightarrow> \<not> up_closed u \<longrightarrow> \<not> ends evs)) (process_uplink c st p m)"
proof -
  obtain ev m' where run: "process_uplink c st p m = Some (ev, m')" and m': "up_inv c m'" "up_frame p m m'"
    using process_uplink_inv [OF inv u] by blast
  have other: "\<forall>q. q \<noteq> p \<longrightarrow> ups m' q = ups m q" using up_frame_other [OF m'(2)] by blast
  show ?thesis
    using inv u
  proof (cases rule: process_uplink_cases [where st = st])
    case (finished)
    then show ?thesis using up_after_removed [OF inv u] by simp
  next
    case (failed a q b)
    then show ?thesis using up_after_removed [OF inv u] by simp
  qed (use run m' other u in \<open>auto simp: up_after_def\<close>)
qed

lemma uplink_close_after:
  assumes inv: "up_inv c m" and u: "ups m p = Some u"
  shows "holds (\<lambda>(evs, m'). up_after c p m True evs m') (uplink_close c st p m)"
proof -
  note E = uplink_close_eq [OF inv u]
  have "up_closed (up_closing u)" by (simp add: up_closing_def)
  then show ?thesis
    using process_uplink_after [OF E(2), of p "up_closing u" st]
    by (auto simp: E(1) elim!: holds_mono intro: up_after_frame [OF _ E(3)])
qed

lemma block_upload_callback_after:
  assumes inv: "up_inv c m" and u: "ups m p = Some u"
  shows "holds (\<lambda>(evs, m'). up_after c p m (up_closed u) evs m') (block_upload_callback c status st p m)"
proof (cases "up_rblock u")
  case None
  then have "\<not> up_sending u" using up_invD [OF inv u] by (simp add: up_good_def)
  then show ?thesis using block_upload_callback_idle [OF u] inv u by (simp add: up_after_def)
next
  case (Some r)
  note E = block_upload_callback_eq [OF inv u Some]
  show ?thesis
    using process_uplink_after [OF E(2), of p "up_acked u" st] up_after_removed [OF inv u]
    by (auto simp: E(1) elim!: holds_mono intro: up_after_frame [OF _ E(3)])
qed

lemma uplink_write_after:
  assumes inv: "up_inv c m" and u: "ups m p = Some u" and mal: "malloc_ok mal" and max: "block_max c \<noteq> 0"
    and len: "unat len \<le> length payload"
  shows "holds (\<lambda>(ret, evs, m'). up_after c p m (up_closed u) evs m' \<and>
      (st = GOLIOTH_OK \<longrightarrow> \<not> up_closed u \<longrightarrow> \<not> ends evs) \<and> (ret \<noteq> 0 \<longrightarrow> \<not> ends evs)) (uplink_write c mal st p payload len m)"
proof -
  obtain ret u' bs' where post: "up_write_post c p m (blocks m) u payload (unat len) ret u' bs'" and
    eq: "uplink_write c mal st p payload len m =
      (if ret = 0 then map_option (\<lambda>(ev, m'). (0, ev, m')) (process_uplink c st p (up_put p bs' u' m))
       else Some (ret, [], up_put p bs' u' m))"
    using uplink_write_eq [OF inv u mal max len] by blast
  have inv': "up_inv c (up_put p bs' u' m)" and fr: "up_frame p m (up_put p bs' u' m)"
    using post own_frame_trans [OF _ own_frame_upd] by (auto simp: up_write_post_def up_frame_def)
  have "u' = u\<lparr>up_wblock := up_wblock u', up_queue := up_queue u'\<rparr>"
    using post by (auto simp: up_write_post_def up_wrote_def)
  from arg_cong [OF this, of up_closed] have cl: "up_closed u' = up_closed u" by simp
  show ?thesis
  proof (cases "ret = 0")
    case True
    obtain evs m' where "process_uplink c st p (up_put p bs' u' m) = Some (evs, m')"
      "up_after c p (up_put p bs' u' m) (up_closed u) evs m'" "st = GOLIOTH_OK \<longrightarrow> \<not> up_closed u \<longrightarrow> \<not> ends evs"
      using process_uplink_after [OF inv', of p u' st] cl by (auto simp: holds_def)
    then show ?thesis using True by (simp add: eq up_after_frame [OF _ fr])
  next
    case False
    then show ?thesis using inv' fr cl by (simp add: eq up_after_def up_frame_other)
  qed
qed

end
