(* ===== verification/Gatt_Safety.thy ===== *)
theory Gatt_Safety
  imports Gatt_Invariant
begin

text \<open>
  Every operation of the transports, started in its phase, returns and keeps the invariant.
  The uplink assumes that the cloud client accepts the blocks it is given while a write
  runs; what happens otherwise is shown in \<open>Gatt_Properties\<close>.
\<close>

section \<open>The link\<close>

lemma up_calls_eq:
  "\<exists>l. up_calls evs w =
     w\<lparr>w_node := (if ends evs then (w_node w)\<lparr>nd_uplink := None\<rparr> else w_node w), w_log := l\<rparr>"
proof (induction evs arbitrary: w)
  case Nil
  then show ?case by (intro exI [of _ "w_log w"]) simp
next
  case (Cons ev evs)
  show ?case
  proof (cases ev)
    case (UplinkEnd arg res)
    then have e: "ends (ev # evs)" by (auto simp: ends_def)
    obtain l where "up_calls evs (uplink_end_cb res (emit (UpEvent ev) w)) =
        (uplink_end_cb res (emit (UpEvent ev) w))\<lparr>w_node := (if ends evs
           then (w_node (uplink_end_cb res (emit (UpEvent ev) w)))\<lparr>nd_uplink := None\<rparr>
           else w_node (uplink_end_cb res (emit (UpEvent ev) w))), w_log := l\<rparr>"
      using Cons.IH by blast
    then show ?thesis using e UplinkEnd
      by (intro exI [of _ l]) (auto simp: uplink_end_cb_def step_defs)
  qed (use Cons.IH [of "emit (UpEvent ev) w"] in \<open>auto simp: emit_def ends_def\<close>)
qed

lemma up_calls_mem:
  obtains l where "up_calls evs (w\<lparr>w_up := m\<rparr>) =
     w\<lparr>w_up := m, w_node := (if ends evs then (w_node w)\<lparr>nd_uplink := None\<rparr> else w_node w), w_log := l\<rparr>"
proof -
  obtain l where "up_calls evs (w\<lparr>w_up := m\<rparr>) = (w\<lparr>w_up := m\<rparr>)\<lparr>w_node := (if ends evs
      then (w_node (w\<lparr>w_up := m\<rparr>))\<lparr>nd_uplink := None\<rparr> else w_node (w\<lparr>w_up := m\<rparr>)), w_log := l\<rparr>"
    using up_calls_eq by blast
  with that [of l] show ?thesis by simp
qed

text \<open>The uplink part of the invariant after an operation on one of the uplinks.\<close>

lemma up_calls_link:
  assumes w: "link_ok c w" and m: "up_after c p (w_up w) closed evs m"
    and cl: "nd_uplink (w_node w) = Some p \<Longrightarrow> \<not> ends evs \<Longrightarrow> \<not> closed"
  shows "link_ok c (up_calls evs (w\<lparr>w_up := m\<rparr>))"
proof -
  obtain l where "up_calls evs (w\<lparr>w_up := m\<rparr>) = w\<lparr>w_up := m,
      w_node := (if ends evs then (w_node w)\<lparr>nd_uplink := None\<rparr> else w_node w), w_log := l\<rparr>"
    by (rule up_calls_mem)
  moreover have "\<exists>u. ups m q = Some u \<and> \<not> up_closed u" if "nd_uplink (w_node w) = Some q" "\<not> ends evs" for q
    using w m cl that by (cases "q = p") (auto simp: link_ok_def uplink_part_def up_after_def)
  ultimately show ?thesis
    using w m by (auto simp: link_ok_def mem_ok_def up_after_def off_defs part_defs)
qed

lemma cloud_uploaded_ok:
  assumes env: "env_ok c e" and w: "link_ok c w" and u: "ups (w_up w) p = Some u"
  shows "holds (link_ok c) (cloud_uploaded e status p w)"
proof -
  have "up_inv c (w_up w)" using w by (simp add: link_ok_def mem_ok_def)
  from block_upload_callback_after [OF this u, of status "e_block_status e"]
  obtain evs m where m: "block_upload_callback c status (e_block_status e) p (w_up w) = Some (evs, m)"
      "up_after c p (w_up w) (up_closed u) evs m"
    by (auto simp: holds_def)
  have "nd_uplink (w_node w) = Some p \<Longrightarrow> \<not> up_closed u"
    using w u by (auto simp: link_ok_def uplink_part_def)
  with up_calls_link [OF w m(2)] m(1) show ?thesis
    by (simp add: cloud_uploaded_def env_okD(1) [OF env])
qed

lemma do_uplink_close_ok:
  assumes env: "env_ok c e" and w: "link_ok c w" and p: "nd_uplink (w_node w) = Some p"
  shows "holds (\<lambda>w'. link_ok c (on_node (\<lambda>n. n\<lparr>nd_uplink := None\<rparr>) w')) (do_uplink_close e w)"
proof -
  obtain u where u: "ups (w_up w) p = Some u" using w p by (auto simp: link_ok_def uplink_part_def)
  have "up_inv c (w_up w)" using w by (simp add: link_ok_def mem_ok_def)
  from uplink_close_after [OF this u, of "e_block_status e"]
  obtain evs m where m: "uplink_close c (e_block_status e) p (w_up w) = Some (evs, m)" "up_inv c m"
    by (auto simp: holds_def up_after_def)
  obtain l where "up_calls evs (w\<lparr>w_up := m\<rparr>) = w\<lparr>w_up := m,
      w_node := (if ends evs then (w_node w)\<lparr>nd_uplink := None\<rparr> else w_node w), w_log := l\<rparr>"
    by (rule up_calls_mem)
  then show ?thesis
    using w m p
    by (auto simp: do_uplink_close_def env_okD(1) [OF env] link_ok_def mem_ok_def off_defs part_defs on_node_def)
qed

text \<open>One chunk of the node's pouch.\<close>

lemma uplink_received_ok:
  assumes env: "env_ok c e" and st: "e_block_status e = GOLIOTH_OK" and w: "link_ok c w"
    and len: "length x < 2 ^ 16"
  shows "holds (\<lambda>(r, w'). link_ok c w') (uplink_data_received_cb e x l w)"
proof (cases "nd_uplink (w_node w)")
  case None
  then show ?thesis using w by (simp add: uplink_data_received_cb_def)
next
  case (Some p)
  then obtain u where u: "ups (w_up w) p = Some u" "\<not> up_closed u"
    using w by (auto simp: link_ok_def uplink_part_def)
  have inv: "up_inv c (w_up w)" using w by (simp add: link_ok_def mem_ok_def)
  have "unat (of_nat (length x) :: size_t) \<le> length x"
    using len by (subst unat_of_nat_size) simp_all
  from uplink_write_after [OF inv u(1) env_okD(3) [OF env] env_okD(2) [OF env] this, of GOLIOTH_OK]
  obtain ret evs m where m: "uplink_write c (e_mal e) GOLIOTH_OK p x (of_nat (length x)) (w_up w) = Some (ret, evs, m)"
      "up_after c p (w_up w) (up_closed u) evs m" "\<not> ends evs"
    using u(2) by (auto simp: holds_def)
  define w1 where "w1 = up_calls evs (w\<lparr>w_up := m\<rparr>)"
  have w1: "link_ok c w1" unfolding w1_def using u(2) by (intro up_calls_link [OF w m(2)]) simp
  have p1: "nd_uplink (w_node w1) = Some p"
    using up_calls_eq [of evs "w\<lparr>w_up := m\<rparr>"] m(3) Some by (auto simp: w1_def)
  have "uplink_data_received_cb e x l w =
      (if ret \<noteq> 0 \<or> l then do {
         w2 \<leftarrow> do_uplink_close e w1; Some (ret, on_node (\<lambda>n. n\<lparr>nd_uplink := None\<rparr>) w2) }
       else Some (ret, w1))"
    using Some m(1) by (simp add: uplink_data_received_cb_def env_okD(1) [OF env] st w1_def [symmetric])
  then show ?thesis
    using do_uplink_close_ok [OF env w1 p1] w1 by (auto simp: holds_def)
qed

interpretation up_sink: chunk_sink "uplink_data_received_cb e"
  "\<lambda>w. env_ok c e \<and> e_block_status e = GOLIOTH_OK \<and> link_ok c w" "link_ok c" for c e
  by unfold_locales (auto intro: holds_mono [OF uplink_received_ok])

section \<open>Starting and stopping the link\<close>

lemma cleaned_link:
  assumes w: "link_ok c w" and d: "downlink_cleaned c w w'"
  shows "link_ok c w'"
  using assms by (auto simp: downlink_cleaned_def link_ok_def mem_ok_def off_defs part_defs)

lemma cleanup_downlink_link:
  assumes "link_ok c w"
  shows "holds (link_ok c) (cleanup_downlink w)"
  using cleanup_downlink_ok [of c w] downlink_part_live [of w] assms cleaned_link [OF assms]
  by (auto simp: link_ok_def mem_ok_def elim!: holds_mono)

text \<open>While the downlink is being set up.\<close>

definition link_setup :: "config \<Rightarrow> world \<Rightarrow> bool" where
  "link_setup c w \<longleftrightarrow> mem_ok c w \<and> info_off w \<and> server_off w \<and> device_off w \<and> uplink_part w \<and> downlink_live w"

lemma cleaned_setup:
  assumes w: "link_setup c w"
  shows "holds (\<lambda>w'. link_ok c w' \<and> nd_uplink (w_node w') = nd_uplink (w_node w)) (cleanup_downlink w)"
proof -
  have "holds (downlink_cleaned c w) (cleanup_downlink w)"
    using w by (intro cleanup_downlink_ok) (simp_all add: link_setup_def mem_ok_def)
  then show ?thesis
    using w by (auto simp: downlink_cleaned_def link_setup_def link_ok_def mem_ok_def off_defs part_defs elim!: holds_mono)
qed

lemma downlink_start_ok:
  assumes env: "env_ok c e" and w: "idle_ok c w"
  shows "holds (\<lambda>(p, w'). link_ok c w' \<and> nd_uplink (w_node w') = None) (downlink_start e w)"
proof -
  have idle: "holds (\<lambda>(p, w'). link_ok c w' \<and> nd_uplink (w_node w') = None) (Some (None, w))"
    using w idle_phases(3) [OF w] by (simp add: idle_ok_def link_off_def)
  show ?thesis
  proof (cases "att_value POUCH_GATEWAY_GATT_ATTR_DOWNLINK w = 0 \<or> \<not> cloud (e_conf e) \<or>
      e_mtu e < POUCH_GATEWAY_BT_ATT_OVERHEAD \<or> e_mal e (ctxs (w_dl w)) = None")
    case True
    have "w\<lparr>w_node := (w_node w)\<lparr>nd_downlink_ctx := None\<rparr>\<rparr> = w"
      using w by (cases w; cases "w_node w") (simp add: idle_ok_def link_off_def)
    then show ?thesis using True idle
      by (auto simp: downlink_start_def downlink_open_def on_node_def)
  next
    case False
    then obtain a where a: "e_mal e (ctxs (w_dl w)) = Some a" by auto
    have fresh: "ctxs (w_dl w) a = None" using env_okD(4) [OF env a] .
    define m where "m = (w_dl w)\<lparr>ctxs := (ctxs (w_dl w))(a \<mapsto> dl_ctx_init (e_conn e))\<rparr>"
    have m: "dl_inv c m"
      using downlink_open_inv [of c "w_dl w" a "e_conn e"] fresh w
      by (simp add: m_def downlink_open_def idle_ok_def mem_ok_def)
    define w1 where "w1 = on_node (\<lambda>n. n\<lparr>nd_downlink_ctx := Some a\<rparr>) (w\<lparr>w_dl := m\<rparr>)"
    have su: "link_setup c w1" "nd_uplink (w_node w1) = None" "dl_state (w_dl w1) a = Some False"
      using w m by (auto simp: w1_def on_node_def idle_ok_def mem_ok_def link_setup_def off_defs part_defs
          downlink_live_def m_def)
    show ?thesis
    proof (cases "e_create e (Packetizer (DownlinkFill (Some a))) (dom (w_objs w1))")
      case None
      have "on_node (\<lambda>n. n\<lparr>nd_packetizer := None\<rparr>) w1 = w1"
        using w by (cases w; cases "w_node w") (simp add: w1_def on_node_def idle_ok_def)
      then have "downlink_start e w = do { w4 \<leftarrow> cleanup_downlink w1; Some (None, w4) }"
        using False a None
        by (simp add: downlink_start_def downlink_open_def m_def [symmetric] w1_def [symmetric] obj_create_def)
      then show ?thesis using cleaned_setup [OF su(1)] su(2) by (auto elim!: holds_mono)
    next
      case (Some k)
      have k: "w_objs w1 k = None" using env_okD(5) [OF env Some] by auto
      define w3 where "w3 = on_node (\<lambda>n. n\<lparr>nd_packetizer := Some k\<rparr>)
          (w1\<lparr>w_objs := (w_objs w1)(k \<mapsto> Packetizer (DownlinkFill (Some a)))\<rparr>)"
      have su3: "link_setup c w3" "nd_uplink (w_node w3) = None" "nd_downlink_sender (w_node w3) = None"
        using su k w by (auto simp: w3_def on_node_def link_setup_def off_defs part_defs downlink_live_def
            w1_def idle_ok_def)
      have start3: "downlink_start e w = (let (s, w4) = obj_create e (Sender POUCH_GATEWAY_GATT_ATTR_DOWNLINK (Some k)) w3;
                w5 = on_node (\<lambda>n. n\<lparr>nd_downlink_sender := s\<rparr>) w4 in
            if s = None then do { w6 \<leftarrow> cleanup_downlink w5; Some (None, w6) }
            else
              let w6 = on_node (\<lambda>n. n\<lparr>nd_downlink_subscribed := False\<rparr>) w5 in
              Some (nd_downlink_ctx (w_node w6), w6))"
        using False a Some
        by (simp add: downlink_start_def downlink_open_def m_def [symmetric] w1_def [symmetric] obj_create_def
            w3_def [symmetric])
      show ?thesis
      proof (cases "e_create e (Sender POUCH_GATEWAY_GATT_ATTR_DOWNLINK (Some k)) (dom (w_objs w3))")
        case None
        have "on_node (\<lambda>n. n\<lparr>nd_downlink_sender := None\<rparr>) w3 = w3"
          using su3(3) by (cases w3; cases "w_node w3") (simp add: on_node_def)
        then have "downlink_start e w = do { w4 \<leftarrow> cleanup_downlink w3; Some (None, w4) }"
          using None by (simp add: start3 obj_create_def)
        then show ?thesis using cleaned_setup [OF su3(1)] su3(2) by (auto elim!: holds_mono)
      next
        case s: (Some s)
        have "s \<noteq> k" "w_objs w3 s = None" using env_okD(5) [OF env s] by (auto simp: w3_def on_node_def)
        then show ?thesis
          using s su3(1,2) su(3)
          by (auto simp: start3 obj_create_def link_setup_def link_ok_def off_defs part_defs on_node_def w3_def w1_def)
      qed
    qed
  qed
qed

text \<open>Receivers come and go without touching the sender and its packetizer.\<close>

lemma linked_receiver:
  assumes link: "linked i s src w" and r: "\<forall>ob. w_objs w r = Some ob \<longrightarrow> (\<exists>j. ob = Receiver j)"
    and n: "nd_packetizer n = nd_packetizer (w_node w)"
  shows "linked i s src (w\<lparr>w_objs := (w_objs w)(r := v), w_node := n\<rparr>)"
proof -
  obtain a k where a: "s = Some a" "nd_packetizer (w_node w) = Some k"
    "w_objs w a = Some (Sender i (Some k))" "w_objs w k = Some (Packetizer src)"
    using link by (auto simp: linked_def)
  then have "a \<noteq> r" "k \<noteq> r" using r by auto
  with a n show ?thesis by (simp add: linked_def)
qed

lemma link_receiver:
  assumes w: "link_ok c w" and r: "\<forall>ob. w_objs w r = Some ob \<longrightarrow> (\<exists>j. ob = Receiver j)"
    and p: "live_recv POUCH_GATEWAY_GATT_ATTR_UPLINK p (w\<lparr>w_objs := (w_objs w)(r := v)\<rparr>)"
  shows "link_ok c (w\<lparr>w_objs := (w_objs w)(r := v), w_node := (w_node w)\<lparr>nd_uplink_receiver := p\<rparr>\<rparr>)"
proof -
  have "downlink_part (w\<lparr>w_objs := (w_objs w)(r := v), w_node := (w_node w)\<lparr>nd_uplink_receiver := p\<rparr>\<rparr>)"
    using w linked_receiver [OF _ r, of _ _ _ "(w_node w)\<lparr>nd_uplink_receiver := p\<rparr>" v]
    by (fastforce simp: link_ok_def downlink_part_def)
  then show ?thesis using w p by (simp add: link_ok_def off_defs uplink_part_def live_recv_def)
qed

lemma link_recv_gone:
  assumes w: "link_ok c w" and r: "nd_uplink_receiver (w_node w) = Some r"
  shows "link_ok c (w\<lparr>w_objs := (w_objs w)(r := None), w_node := (w_node w)\<lparr>nd_uplink_receiver := None\<rparr>\<rparr>)"
  using w r by (intro link_receiver) (auto simp: link_ok_def uplink_part_def live_recv_def)

lemma link_recv_new:
  assumes w: "link_ok c w" and r: "w_objs w r = None"
  shows "link_ok c (w\<lparr>w_objs := (w_objs w)(r \<mapsto> Receiver POUCH_GATEWAY_GATT_ATTR_UPLINK),
    w_node := (w_node w)\<lparr>nd_uplink_receiver := Some r\<rparr>\<rparr>)"
  using w r by (intro link_receiver) (auto simp: live_recv_def)

lemma link_recv_none:
  "link_ok c w \<Longrightarrow> link_ok c (w\<lparr>w_node := (w_node w)\<lparr>nd_uplink_receiver := None\<rparr>\<rparr>)"
  by (simp add: link_ok_def off_defs part_defs)

lemma link_subscribe:
  "link_ok c w \<Longrightarrow> i \<noteq> POUCH_GATEWAY_GATT_ATTR_SERVER_CERT \<Longrightarrow> link_ok c (snd (gatt_subscribe e i w))"
  by (simp add: link_ok_def off_defs part_defs gatt_subscribe_def emit_def Let_def)

text \<open>\<open>uplink_open\<close> on a fresh address.\<close>

lemma uplink_opened:
  assumes inv: "up_inv c m" and max: "block_max c \<noteq> 0" and mal: "malloc_ok mal"
    and p: "\<forall>a. p = Some a \<longrightarrow> ups m a = None"
  shows "holds (\<lambda>(r, evs, m'). up_inv c m' \<and> \<not> ends evs \<and>
      (\<forall>a. r = Some a \<longrightarrow> (\<exists>u. ups m' a = Some u \<and> \<not> up_closed u))) (uplink_open c p mal session dl arg m)"
proof (cases p)
  case None
  then show ?thesis using inv by (simp add: uplink_open_def)
next
  case (Some a)
  then have fresh: "ups m a = None" using p by simp
  from fresh mal show ?thesis
  proof (cases rule: uplink_open_cases [where c = c and session = session and dl = dl and arg = arg])
    case (failed evs)
    then have "uplink_open c (Some a) mal session dl arg m = Some (None, evs, m)" .
    moreover have "\<not> ends evs"
      using failed by (auto simp: uplink_open_def ends_def Let_def split: option.splits prod.splits if_splits bind_splits)
    ultimately show ?thesis using inv Some by simp
  next
    case (opened w b)
    then have "up_op c a m (snd (snd (the (uplink_open c (Some a) mal session dl arg m))))"
      using upop_open [OF fresh mal] by auto
    then have "up_inv c (snd (snd (the (uplink_open c (Some a) mal session dl arg m))))"
      using up_op_inv [OF inv max] by blast
    with opened Some show ?thesis by simp
  qed
qed

lemma uplink_start_ok:
  assumes env: "env_ok c e" and w: "idle_ok c w"
  shows "holds (link_ok c) (uplink_start e w)"
proof (cases "att_ccc POUCH_GATEWAY_GATT_ATTR_UPLINK w = 0")
  case True
  then show ?thesis using idle_phases(3) [OF w] by (simp add: uplink_start_def)
next
  case False
  obtain d w1 where d: "downlink_start e w = Some (d, w1)" and w1: "link_ok c w1" "nd_uplink (w_node w1) = None"
    using downlink_start_ok [OF env w] by (auto simp: holds_def)
  show ?thesis
  proof (cases d)
    case None
    then show ?thesis using False d w1 by (simp add: uplink_start_def)
  next
    case (Some dl)
    have "up_inv c (w_up w1)" using w1 by (simp add: link_ok_def mem_ok_def)
    moreover have "\<forall>a. e_mal e (ups (w_up w1)) = Some a \<longrightarrow> ups (w_up w1) a = None"
      using env_okD(4) [OF env] by blast
    ultimately obtain p evs m where o: "uplink_open c (e_mal e (ups (w_up w1))) (e_mal e) (e_session e) d
        (e_conn e) (w_up w1) = Some (p, evs, m)" "up_inv c m" "\<not> ends evs"
        "\<forall>a. p = Some a \<longrightarrow> (\<exists>u. ups m a = Some u \<and> \<not> up_closed u)"
      using uplink_opened [of c "w_up w1" "e_mal e" "e_mal e (ups (w_up w1))" "e_session e" d "e_conn e"]
        env_okD(2,3) [OF env] by (auto simp: holds_def)
    obtain l where l: "up_calls evs (w1\<lparr>w_up := m\<rparr>) =
        w1\<lparr>w_up := m, w_node := (if ends evs then (w_node w1)\<lparr>nd_uplink := None\<rparr> else w_node w1), w_log := l\<rparr>"
      by (rule up_calls_mem)
    define w2 where "w2 = on_node (\<lambda>n. n\<lparr>nd_uplink := p\<rparr>) (up_calls evs (w1\<lparr>w_up := m\<rparr>))"
    have w2: "link_ok c w2"
      using w1 o(2-4) by (auto simp: w2_def l on_node_def link_ok_def mem_ok_def off_defs part_defs)
    have start: "uplink_start e w =
       (if p = None then Some (bt_finished w2)
        else
          let (r, w3) = obj_create e (Receiver POUCH_GATEWAY_GATT_ATTR_UPLINK) w2;
              w4 = on_node (\<lambda>n. n\<lparr>nd_uplink_receiver := r\<rparr>) w3 in
          if r = None then Some (bt_finished w4)
          else
            let (err, w5) = gatt_subscribe e POUCH_GATEWAY_GATT_ATTR_UPLINK w4 in
            Some (if err \<noteq> 0 then bt_finished w5 else w5))"
      using False d Some o(1) by (simp add: uplink_start_def env_okD(1) [OF env] w2_def [symmetric])
    show ?thesis
    proof (cases "e_create e (Receiver POUCH_GATEWAY_GATT_ATTR_UPLINK) (dom (w_objs w2))")
      case None
      then show ?thesis using w2 link_recv_none [OF w2]
        by (simp add: start obj_create_def on_node_def)
    next
      case r: (Some r)
      define w4 where "w4 = w2\<lparr>w_objs := (w_objs w2)(r \<mapsto> Receiver POUCH_GATEWAY_GATT_ATTR_UPLINK),
          w_node := (w_node w2)\<lparr>nd_uplink_receiver := Some r\<rparr>\<rparr>"
      have "link_ok c w4" unfolding w4_def using env_okD(5) [OF env r] by (intro link_recv_new [OF w2]) auto
      then have "link_ok c (snd (gatt_subscribe e POUCH_GATEWAY_GATT_ATTR_UPLINK w4))"
        by (simp add: link_subscribe)
      then show ?thesis using w2 r
        by (cases "gatt_subscribe e POUCH_GATEWAY_GATT_ATTR_UPLINK w4")
           (simp add: start obj_create_def on_node_def w4_def [symmetric])
    qed
  qed
qed

lemma uplink_cleanup_ok:
  assumes env: "env_ok c e" and w: "link_ok c w"
  shows "holds (link_ok c) (uplink_cleanup e w)"
proof -
  define w0 where "w0 = emit (BtGattUnsubscribe POUCH_GATEWAY_GATT_ATTR_UPLINK) w"
  define w1 where "w1 = w0\<lparr>w_objs := w_objs w0 |` (- set (ptr_list (nd_uplink_receiver (w_node w0)))),
      w_node := nd_uplink_receiver_update (\<lambda>_. None) (w_node w0)\<rparr>"
  have w0: "link_ok c w0" using w by (simp add: w0_def)
  have c1: "clear_obj nd_uplink_receiver nd_uplink_receiver_update w0 = Some w1"
    using w0 by (subst clear_obj_eq) (auto simp: w1_def clear_same link_ok_def part_defs)
  have w1: "link_ok c w1"
    using w0 link_recv_gone [OF w0] by (cases "nd_uplink_receiver (w_node w0)")
      (simp_all add: w1_def clear_same flip: upd_None_restrict)
  show ?thesis
  proof (cases "nd_uplink (w_node w1)")
    case None
    then show ?thesis using c1 w1 by (simp add: uplink_cleanup_def w0_def)
  next
    case (Some p)
    then show ?thesis using do_uplink_close_ok [OF env w1 Some] c1
      by (auto simp: uplink_cleanup_def w0_def holds_def)
  qed
qed

lemma uplink_notify_end_ok:
  assumes "link_ok c w"
  shows "holds (\<lambda>(i, w'). link_ok c w') (uplink_notify_end w)"
proof (cases "nd_uplink_receiver (w_node w)")
  case None
  have "on_node (nd_uplink_receiver_update (\<lambda>_. None)) (emit DestroyNull w) = emit DestroyNull w"
    using None by (simp add: on_node_def emit_def clear_same)
  with None assms show ?thesis by (simp add: uplink_notify_end_def obj_destroy_def)
next
  case (Some r)
  then have "w_objs w r = Some (Receiver POUCH_GATEWAY_GATT_ATTR_UPLINK)"
    using assms by (simp add: link_ok_def uplink_part_def live_recv_def)
  with Some link_recv_gone [OF assms Some] show ?thesis
    by (simp add: uplink_notify_end_def obj_destroy_def on_node_def)
qed

lemma uplink_notify_ok:
  assumes env: "env_ok c e" and st: "e_block_status e = GOLIOTH_OK" and recv: "recv_ok e" and w: "link_ok c w"
  shows "holds (\<lambda>(i, w'). link_ok c w') (uplink_notify_cb e fin w)"
proof (cases "nd_uplink_receiver (w_node w)")
  case None
  then show ?thesis using w by (simp add: uplink_notify_cb_def)
next
  case (Some r)
  obtain cs err complete where recv: "chunks_ok cs" "e_receive e = replay_chunks cs err complete"
    using recv by (auto simp: recv_ok_def)
  have "holds (\<lambda>(r, b, w'). link_ok c w') (e_receive e (uplink_data_received_cb e) w)"
    unfolding recv(2) using up_sink.receive_ready [OF recv(1)] env st w by blast
  then show ?thesis using Some by (auto simp: uplink_notify_cb_def elim!: holds_mono)
qed

lemma bt_stop_ok:
  assumes "env_ok c e" "link_ok c w"
  shows "holds (link_ok c) (bt_stop e w)"
  using uplink_cleanup_ok [OF assms] by (auto simp: bt_stop_def downlink_cleanup_def elim!: holds_mono)

section \<open>The downlink's handlers\<close>

lemma downlink_notify_end_ok:
  "link_ok c w \<Longrightarrow> holds (\<lambda>(i, w'). link_ok c w') (downlink_notify_end w)"
  using cleanup_downlink_link [of c w] by (auto simp: downlink_notify_end_def elim!: holds_mono)

lemma link_advanced: "link_ok c w \<Longrightarrow> dl_advanced c w w' \<Longrightarrow> link_ok c w'"
  by (fastforce simp: dl_advanced_def link_ok_def mem_ok_def off_defs part_defs)

text \<open>The node's own context, its sender linked to it.\<close>

lemma link_ctx:
  assumes "link_ok c w" "nd_downlink_ctx (w_node w) = Some a"
  shows "dl_inv c (w_dl w)" "dl_state (w_dl w) a = Some False"
    "linked POUCH_GATEWAY_GATT_ATTR_DOWNLINK (nd_downlink_sender (w_node w)) (DownlinkFill (Some a)) w"
  using assms by (auto simp: link_ok_def mem_ok_def downlink_part_def)

lemma link_run_ok:
  assumes env: "env_ok c e" and w: "link_ok c w" and a: "nd_downlink_ctx (w_node w) = Some a"
  shows "holds (\<lambda>(ret, complete, w'). link_ok c w' \<and> nd_downlink_ctx (w_node w') = Some a) (downlink_sender_run e w)"
  using downlink_run_ok [OF env link_ctx(1) [OF w a] dl_state_live [OF link_ctx(2) [OF w a]] link_ctx(3) [OF w a]]
    link_advanced [OF w] a
  by (auto simp: dl_advanced_def elim!: holds_mono)

text \<open>The stack delivers nothing more to a subscription whose handler asked it to stop, as
  it does when the transfer is complete: a node with a sender still has its context.\<close>

lemma downlink_notify_ok:
  assumes env: "env_ok c e" and w: "link_ok c w"
    and going: "nd_downlink_ctx (w_node w) = None \<Longrightarrow> nd_downlink_sender (w_node w) = None"
  shows "holds (\<lambda>(i, w'). link_ok c w') (downlink_notify_cb e ack w)"
proof (cases "nd_downlink_sender (w_node w)")
  case None
  then show ?thesis using w by (simp add: downlink_notify_cb_def)
next
  case (Some s)
  then obtain a where a: "nd_downlink_ctx (w_node w) = Some a" using going by fastforce
  obtain ret complete w1 where run: "downlink_sender_run e w = Some (ret, complete, w1)"
    and w1: "link_ok c w1" "nd_downlink_ctx (w_node w1) = Some a"
    using link_run_ok [OF env w a] by (auto simp: holds_def)
  obtain d where "ctxs (w_dl w1) a = Some d" using dl_state_live [OF link_ctx(2) [OF w1]] by auto
  then obtain m where m: "downlink_close (Some a) (w_dl w1) = Some m" "dl_inv c m"
    using downlink_close_inv [OF link_ctx(1) [OF w1]] by blast
  have "link_ok c (on_node (\<lambda>n. n\<lparr>nd_downlink_ctx := None\<rparr>) (w1\<lparr>w_dl := m\<rparr>))"
    using w1 m(2) by (auto simp: on_node_def link_ok_def mem_ok_def off_defs part_defs)
  then show ?thesis using Some run w1 m(1) by (simp add: downlink_notify_cb_def)
qed

lemma link_subscribed:
  "link_ok c w \<Longrightarrow> link_ok c (on_node (\<lambda>n. n\<lparr>nd_downlink_subscribed := b\<rparr>) w)"
  by (simp add: on_node_def link_ok_def off_defs part_defs)

lemma downlink_data_available_ok:
  assumes env: "env_ok c e" and w: "link_ok c w" and a: "nd_downlink_ctx (w_node w) = Some a"
  shows "holds (link_ok c) (downlink_data_available e w)"
proof (cases "nd_downlink_subscribed (w_node w)")
  case True
  then show ?thesis using link_run_ok [OF env w a] by (auto simp: downlink_data_available_def elim!: holds_mono)
next
  case False
  obtain err w1 where s: "gatt_subscribe e POUCH_GATEWAY_GATT_ATTR_DOWNLINK
      (on_node (\<lambda>n. n\<lparr>nd_downlink_subscribed := True\<rparr>) w) = (err, w1)" by fastforce
  then have w1: "link_ok c w1"
    using link_subscribe [OF link_subscribed [OF w], of POUCH_GATEWAY_GATT_ATTR_DOWNLINK e True] by simp
  then show ?thesis using False s cleanup_downlink_link [OF w1]
    by (auto simp: downlink_data_available_def elim!: holds_mono)
qed

text \<open>The cloud client's downlink callbacks, for the context of the node or an aborted one.\<close>

definition dl_target :: "world \<Rightarrow> addr \<Rightarrow> bool" where
  "dl_target w a \<longleftrightarrow> dl_state (w_dl w) a = Some True \<or>
     nd_downlink_ctx (w_node w) = Some a \<and> dl_state (w_dl w) a = Some False"

lemma block_cb_state:
  assumes "downlink_block_cb c a slot bytes l m = Some (st, notify, m')" "dl_state m a = Some b"
  shows "dl_state m' = dl_state m \<and> (notify \<longrightarrow> \<not> b)"
  using assms
  by (auto simp: downlink_block_cb_def dl_state_def fun_eq_iff Let_def split: bind_splits if_splits option.splits prod.splits)

lemma end_cb_state:
  assumes "downlink_end_cb st a m = Some (notify, m')" "dl_state m a = Some b" "dl_inv c m"
  shows "(\<forall>q. q \<noteq> a \<or> \<not> b \<longrightarrow> dl_state m' q = dl_state m q) \<and> (notify \<longrightarrow> \<not> b)"
proof -
  obtain d where d: "ctxs m a = Some d" "dl_aborted d = b" using assms(2) by (auto simp: dl_state_def)
  show ?thesis
    using assms(1) d downlink_close_eq [OF assms(3) d(1)]
    by (auto simp: downlink_end_cb_def dl_state_def Let_def split: if_splits)
qed

lemma link_dl_mem:
  assumes w: "link_ok c w" and m: "dl_inv c m"
    and live: "\<And>a. nd_downlink_ctx (w_node w) = Some a \<Longrightarrow> dl_state m a = Some False"
  shows "link_ok c (w\<lparr>w_dl := m\<rparr>)"
  using assms by (auto simp: link_ok_def mem_ok_def off_defs part_defs)

lemma cloud_downlink_block_ok:
  assumes env: "env_ok c e" and w: "link_ok c w" and a: "dl_target w a"
    and slot: "slab_slot_ok c (slab (w_dl w)) slot" and len: "length bytes \<le> unat (block_max c)"
  shows "holds (\<lambda>(st, w'). link_ok c w') (cloud_downlink_block e a slot bytes l w)"
proof -
  obtain b where b: "dl_state (w_dl w) a = Some b" "\<not> b \<Longrightarrow> nd_downlink_ctx (w_node w) = Some a"
    using a by (auto simp: dl_target_def)
  then obtain d where d: "ctxs (w_dl w) a = Some d" using dl_state_live by blast
  have inv: "dl_inv c (w_dl w)" using w by (simp add: link_ok_def mem_ok_def)
  obtain st notify m where run: "downlink_block_cb c a slot bytes l (w_dl w) = Some (st, notify, m)" and m: "dl_inv c m"
    using downlink_block_cb_inv [OF inv d slot len] by blast
  note S = block_cb_state [OF run b(1)]
  have w1: "link_ok c (w\<lparr>w_dl := m\<rparr>)"
    using link_dl_mem [OF w m] link_ctx(2) [OF w] S by simp
  show ?thesis
    using run w1 downlink_data_available_ok [OF env w1, of a] b(2) S
    by (cases notify) (auto simp: cloud_downlink_block_def env_okD(1) [OF env] elim!: holds_mono)
qed

lemma cloud_downlink_end_ok:
  assumes env: "env_ok c e" and w: "link_ok c w" and a: "dl_target w a"
  shows "holds (link_ok c) (cloud_downlink_end e st a w)"
proof -
  obtain b where b: "dl_state (w_dl w) a = Some b" "\<not> b \<Longrightarrow> nd_downlink_ctx (w_node w) = Some a"
    using a by (auto simp: dl_target_def)
  then obtain d where d: "ctxs (w_dl w) a = Some d" using dl_state_live by blast
  have inv: "dl_inv c (w_dl w)" using w by (simp add: link_ok_def mem_ok_def)
  obtain notify m where run: "downlink_end_cb st a (w_dl w) = Some (notify, m)" and m: "dl_inv c m"
    using downlink_end_cb_inv [OF inv d] by blast
  note S = end_cb_state [OF run b(1) inv]
  have "dl_state m q = Some False" if "nd_downlink_ctx (w_node w) = Some q" for q
    using link_ctx(2) [OF w that] S b(1) by (cases "q = a") auto
  then have w1: "link_ok c (w\<lparr>w_dl := m\<rparr>)" by (rule link_dl_mem [OF w m])
  show ?thesis
    using run w1 downlink_data_available_ok [OF env w1, of a] b(2) S
    by (cases notify) (auto simp: cloud_downlink_end_def)
qed

end
