(* ===== verification/Gatt_Cert_Safety.thy ===== *)
theory Gatt_Cert_Safety
  imports Gatt_Safety
begin

text \<open>
  The operations of the certificate exchange return and keep the invariant; each phase
  leads into the next one or ends the node.
\<close>

section \<open>Contexts and receivers\<close>

lemma mem_ok_dc: "mem_ok c w \<Longrightarrow> dc_ok c d \<Longrightarrow> mem_ok c (w\<lparr>w_dc := (w_dc w)(a \<mapsto> d)\<rparr>)"
  by (simp add: mem_ok_def)

lemma mem_ok_dc_free: "mem_ok c w \<Longrightarrow> mem_ok c (w\<lparr>w_dc := (w_dc w)(a := None)\<rparr>)"
  by (simp add: mem_ok_def)

lemma mem_ok_in: "mem_ok c w \<Longrightarrow> in_ok x \<Longrightarrow> mem_ok c (w\<lparr>w_in := (w_in w)(a \<mapsto> x)\<rparr>)"
  by (simp add: mem_ok_def)

lemma mem_ok_in_free: "mem_ok c w \<Longrightarrow> mem_ok c (w\<lparr>w_in := (w_in w)(a := None)\<rparr>)"
  by (simp add: mem_ok_def)

section \<open>Device certificate\<close>

lemma device_cert_cleanup_ok:
  assumes w: "device_ok c w"
  shows "holds (idle_ok c) (device_cert_cleanup w)"
proof -
  obtain h where h: "(case nd_device_cert_ctx (w_node w) of None \<Rightarrow> Some w
      | Some a \<Rightarrow> do { h \<leftarrow> device_cert_abort (Some a) (w_dc w);
                Some (on_node (\<lambda>n. n\<lparr>nd_device_cert_ctx := None\<rparr>) (w\<lparr>w_dc := h\<rparr>)) })
      = Some (w\<lparr>w_dc := h, w_node := (w_node w)\<lparr>nd_device_cert_ctx := None\<rparr>\<rparr>)"
    "mem_ok c (w\<lparr>w_dc := h\<rparr>)"
  proof (cases "nd_device_cert_ctx (w_node w)")
    case None
    then have "w\<lparr>w_dc := w_dc w, w_node := (w_node w)\<lparr>nd_device_cert_ctx := None\<rparr>\<rparr> = w"
      by (cases w; cases "w_node w") simp
    with that [of "w_dc w"] None w show ?thesis by (simp add: device_ok_def)
  next
    case (Some a)
    then obtain d where "w_dc w a = Some d" using w by (auto simp: device_ok_def)
    with that [of "(w_dc w)(a := None)"] Some w mem_ok_dc_free show ?thesis
      by (simp add: device_cert_abort_def on_node_def device_ok_def)
  qed
  define w1 where "w1 = w\<lparr>w_dc := h, w_node := (w_node w)\<lparr>nd_device_cert_ctx := None\<rparr>\<rparr>"
  have "clear_obj nd_device_cert_receiver nd_device_cert_receiver_update w1 =
     Some (w1\<lparr>w_objs := w_objs w1 |` (- set (ptr_list (nd_device_cert_receiver (w_node w1)))),
         w_node := nd_device_cert_receiver_update (\<lambda>_. None) (w_node w1)\<rparr>)"
    using w by (subst clear_obj_eq) (auto simp: w1_def clear_same device_ok_def live_recv_def)
  then show ?thesis
    using w h by (simp add: device_cert_cleanup_def w1_def device_ok_def idle_ok_def off_defs)
qed

lemma device_cert_fail_ok: "device_ok c w \<Longrightarrow> holds (idle_ok c) (device_cert_fail w)"
  using device_cert_cleanup_ok [of c w] by (auto simp: device_cert_fail_def elim!: holds_mono)

lemma device_cert_fail_phase:
  assumes "device_ok c w"
  shows "holds (\<lambda>w'. device_ok c w' \<or> link_ok c w') (device_cert_fail w)"
  by (rule holds_mono [OF device_cert_fail_ok [OF assms]]) (simp add: idle_phases)

lemma device_new_receiver:
  assumes "device_ok c w" "w_objs w r = None"
  shows "device_ok c (w\<lparr>w_objs := (w_objs w)(r \<mapsto> Receiver POUCH_GATEWAY_GATT_ATTR_DEVICE_CERT),
    w_node := (w_node w)\<lparr>nd_device_cert_receiver := Some r\<rparr>\<rparr>)"
  using assms by (simp add: device_ok_def off_defs live_recv_def)

lemma device_subscribe:
  "device_ok c w \<Longrightarrow> i \<noteq> POUCH_GATEWAY_GATT_ATTR_SERVER_CERT \<Longrightarrow> i \<noteq> POUCH_GATEWAY_GATT_ATTR_DOWNLINK \<Longrightarrow>
   device_ok c (snd (gatt_subscribe e i w))"
  by (simp add: device_ok_def off_defs live_recv_def gatt_subscribe_def emit_def Let_def)

lemma device_cert_read_ok:
  assumes env: "env_ok c e" and w: "idle_ok c w"
  shows "holds (\<lambda>w'. device_ok c w' \<or> link_ok c w') (device_cert_read e w)"
proof (cases "nd_device_cert_provisioned (w_node w) \<or> att_ccc POUCH_GATEWAY_GATT_ATTR_DEVICE_CERT w = 0")
  case True
  then show ?thesis using uplink_start_ok [OF env w] idle_phases(2) [OF w]
    by (auto simp: device_cert_read_def elim!: holds_mono)
next
  case False
  show ?thesis
  proof (cases "e_mal e (w_dc w)")
    case None
    have "on_node (\<lambda>n. n\<lparr>nd_device_cert_ctx := None\<rparr>) w = w"
      using w by (cases w; cases "w_node w") (simp add: on_node_def idle_ok_def device_off_def)
    then have "device_cert_read e w = device_cert_fail w"
      using False None by (simp add: device_cert_read_def device_cert_start_def)
    then show ?thesis using device_cert_fail_phase [OF idle_phases(2) [OF w]] by simp
  next
    case (Some a)
    define w1 where "w1 = on_node (\<lambda>n. n\<lparr>nd_device_cert_ctx := Some a\<rparr>)
        (w\<lparr>w_dc := (w_dc w)(a \<mapsto> \<lparr>dc_len = 0, dc_buf = replicate (unat (device_cert_max c)) None\<rparr>)\<rparr>)"
    have w1: "device_ok c w1"
      using w idle_phases(2) [OF w] mem_ok_dc [OF _ dcb.init_ok(1) [of c], of w a]
      by (simp add: w1_def on_node_def device_ok_def off_defs live_recv_def)
    have read: "device_cert_read e w =
       (let (r, w2) = obj_create e (Receiver POUCH_GATEWAY_GATT_ATTR_DEVICE_CERT) w1;
            w3 = on_node (\<lambda>n. n\<lparr>nd_device_cert_receiver := r\<rparr>) w2 in
        if r = None then device_cert_fail w3
        else
          let (err, w4) = gatt_subscribe e POUCH_GATEWAY_GATT_ATTR_DEVICE_CERT w3 in
          if err \<noteq> 0 then device_cert_fail w4 else Some w4)"
      using False Some by (simp add: device_cert_read_def device_cert_start_def env_okD(1) [OF env] w1_def [symmetric])
    show ?thesis
    proof (cases "e_create e (Receiver POUCH_GATEWAY_GATT_ATTR_DEVICE_CERT) (dom (w_objs w1))")
      case None
      have "on_node (\<lambda>n. n\<lparr>nd_device_cert_receiver := None\<rparr>) w1 = w1"
        using w by (cases w; cases "w_node w") (simp add: w1_def on_node_def idle_ok_def device_off_def)
      then have "device_cert_read e w = device_cert_fail w1" using None by (simp add: read obj_create_def)
      then show ?thesis using device_cert_fail_phase [OF w1] by simp
    next
      case r: (Some r)
      define w3 where "w3 = w1\<lparr>w_objs := (w_objs w1)(r \<mapsto> Receiver POUCH_GATEWAY_GATT_ATTR_DEVICE_CERT),
          w_node := (w_node w1)\<lparr>nd_device_cert_receiver := Some r\<rparr>\<rparr>"
      have "device_ok c w3" unfolding w3_def using env_okD(5) [OF env r] by (intro device_new_receiver [OF w1]) auto
      then have "device_ok c (snd (gatt_subscribe e POUCH_GATEWAY_GATT_ATTR_DEVICE_CERT w3))"
        by (simp add: device_subscribe)
      then show ?thesis using r device_cert_fail_phase
        by (cases "gatt_subscribe e POUCH_GATEWAY_GATT_ATTR_DEVICE_CERT w3")
           (auto simp: read obj_create_def on_node_def w3_def [symmetric])
    qed
  qed
qed

text \<open>One chunk, while the context is there.\<close>

lemma device_received_ok:
  assumes env: "env_ok c e" and w: "device_ok c w" and a: "nd_device_cert_ctx (w_node w) = Some a"
    and len: "length x < 2 ^ 16"
  shows "holds (\<lambda>(r, w'). device_ok c w' \<and> (r = 0 \<longrightarrow> \<not> l \<longrightarrow> nd_device_cert_ctx (w_node w') = Some a))
     (device_cert_data_received_cb e x l w)"
proof -
  obtain d where d: "w_dc w a = Some d" using w a by (auto simp: device_ok_def)
  then have ok: "dc_ok c d" using w by (auto simp: device_ok_def mem_ok_def)
  have cap: "unat (device_cert_max c) + length x < 2 ^ 32" using env len by (simp add: env_ok_def)
  obtain err d' where push: "device_cert_push c d x = Some (err, d')" "dc_ok c d'"
    using dcb.push_total [OF ok cap] by blast
  define w1 where "w1 = w\<lparr>w_dc := (w_dc w)(a \<mapsto> d')\<rparr>"
  have w1: "device_ok c w1" "nd_device_cert_ctx (w_node w1) = Some a"
    using w mem_ok_dc [OF _ push(2), of w a] a by (simp_all add: w1_def device_ok_def off_defs live_recv_def)
  have fin: "holds (\<lambda>(r, w'). device_ok c w') (device_cert_finish_step e w1)"
  proof -
    have "memcpy_from (dc_buf d') 0 (unat (dc_len d')) = Some (take (unat (dc_len d')) (dc_buf d'))"
      using push(2) by (simp add: dc_ok_def buf_ok_def word_le_nat_alt)
    then show ?thesis
      using w1 mem_ok_dc_free [of c w1 a]
      by (auto simp: device_cert_finish_step_def device_cert_finish_def device_cert_abort_def env_okD(1) [OF env]
          w1_def emit_def on_node_def device_ok_def off_defs live_recv_def Let_def errno_defs)
  qed
  obtain err2 w2 where step: "(if err = 0 \<and> l then device_cert_finish_step e w1 else Some (err, w1)) = Some (err2, w2)"
    and w2: "device_ok c w2" "\<not> l \<Longrightarrow> w2 = w1"
    using fin w1 by (cases "err = 0 \<and> l") (auto simp: holds_def)
  have "device_cert_data_received_cb e x l w =
      (if err2 \<noteq> 0 then do { w3 \<leftarrow> device_cert_cleanup w2; Some (err2, bt_finished w3) } else Some (err2, w2))"
    using a d push(1) step by (simp add: device_cert_data_received_cb_def env_okD(1) [OF env] w1_def [symmetric])
  then show ?thesis
    using device_cert_cleanup_ok [OF w2(1)] w2 w1(2) idle_phases(2)
    by (auto simp: holds_def)
qed

interpretation dc_sink: chunk_sink "device_cert_data_received_cb e"
  "\<lambda>w. env_ok c e \<and> device_ok c w \<and> nd_device_cert_ctx (w_node w) \<noteq> None" "device_ok c" for c e
  by unfold_locales (auto intro: holds_mono [OF device_received_ok])

text \<open>Nothing is handed over behind the last chunk, so once the context is gone the
  receiver delivers no more.\<close>

definition recv_done_ok :: "env \<Rightarrow> bool \<Rightarrow> bool" where
  "recv_done_ok e complete \<longleftrightarrow> (\<exists>cs err b. chunks_ok cs \<and> (complete \<longrightarrow> cs = []) \<and> e_receive e = replay_chunks cs err b)"

lemma device_notify_ok:
  assumes env: "env_ok c e" and recv: "recv_done_ok e (nd_device_cert_ctx (w_node w) = None)" and w: "device_ok c w"
  shows "holds (\<lambda>(i, w'). device_ok c w' \<or> link_ok c w') (device_cert_notify_cb e fin w)"
proof (cases "nd_device_cert_receiver (w_node w)")
  case None
  then show ?thesis using w by (simp add: device_cert_notify_cb_def)
next
  case (Some r)
  obtain cs err b where cs: "chunks_ok cs" "nd_device_cert_ctx (w_node w) = None \<longrightarrow> cs = []"
      "e_receive e = replay_chunks cs err b"
    using recv by (auto simp: recv_done_ok_def)
  have "holds (\<lambda>(r, b, w'). device_ok c w') (replay_chunks cs err b (device_cert_data_received_cb e) w)"
    using w env cs(2) by (intro dc_sink.receive_ok [OF cs(1)]) auto
  then obtain err' complete w1 where run: "e_receive e (device_cert_data_received_cb e) w = Some (err', complete, w1)"
    and w1: "device_ok c w1"
    unfolding cs(3) by (auto simp: holds_def)
  obtain w2 where w2: "device_cert_cleanup w1 = Some w2" "idle_ok c w2"
    using device_cert_cleanup_ok [OF w1] by (auto simp: holds_def)
  obtain w3 where w3: "uplink_start e w2 = Some w3" "link_ok c w3"
    using uplink_start_ok [OF env w2(2)] by (auto simp: holds_def)
  show ?thesis using Some run w1 w2 w3 idle_phases(2) [OF w2(2)] by (simp add: device_cert_notify_cb_def)
qed

lemma device_notify_end_ok:
  "device_ok c w \<Longrightarrow> holds (\<lambda>(i, w'). idle_ok c w') (device_cert_notify_end w)"
  using device_cert_cleanup_ok [of c w] by (auto simp: device_cert_notify_end_def elim!: holds_mono)

section \<open>Server certificate\<close>

text \<open>Cleaning up the server certificate from any state in which its pointers are live.\<close>

definition server_live :: "config \<Rightarrow> world \<Rightarrow> bool" where
  "server_live c w \<longleftrightarrow> mem_ok c w \<and> info_off w \<and> device_off w \<and> link_off w \<and>
     POUCH_GATEWAY_GATT_ATTR_SERVER_CERT \<notin> w_subs w \<and>
     (\<forall>a. nd_server_cert_ctx (w_node w) = Some a \<longrightarrow> w_sc w a \<noteq> None) \<and>
     (\<forall>k. nd_packetizer (w_node w) = Some k \<longrightarrow> (\<exists>src. w_objs w k = Some (Packetizer src))) \<and>
     (\<forall>s. nd_server_cert_sender (w_node w) = Some s \<longrightarrow> (\<exists>i k. w_objs w s = Some (Sender i k)))"

lemma server_ok_live:
  "server_ok c w \<Longrightarrow> POUCH_GATEWAY_GATT_ATTR_SERVER_CERT \<notin> w_subs w \<Longrightarrow> server_live c w"
  by (auto simp: server_ok_def server_live_def linked_def)

lemma idle_server_live: "idle_ok c w \<Longrightarrow> server_live c w"
  by (simp add: idle_ok_def server_live_def server_off_def)

lemma server_cert_cleanup_ok:
  assumes w: "server_live c w"
  shows "holds (idle_ok c) (server_cert_cleanup w)"
proof -
  obtain h where h: "(case nd_server_cert_ctx (w_node w) of None \<Rightarrow> Some w
      | Some a \<Rightarrow> do { h \<leftarrow> server_cert_abort (Some a) (w_sc w);
                Some (on_node (\<lambda>n. n\<lparr>nd_server_cert_ctx := None\<rparr>) (w\<lparr>w_sc := h\<rparr>)) })
      = Some (w\<lparr>w_sc := h, w_node := (w_node w)\<lparr>nd_server_cert_ctx := None\<rparr>\<rparr>)"
  proof (cases "nd_server_cert_ctx (w_node w)")
    case None
    then have "w\<lparr>w_sc := w_sc w, w_node := (w_node w)\<lparr>nd_server_cert_ctx := None\<rparr>\<rparr> = w"
      by (cases w; cases "w_node w") simp
    with that [of "w_sc w"] None show ?thesis by simp
  next
    case (Some a)
    then obtain x where "w_sc w a = Some x" using w by (auto simp: server_live_def)
    with that [of "(w_sc w)(a := None)"] Some show ?thesis
      by (simp add: server_cert_abort_def on_node_def)
  qed
  obtain pk s where n: "nd_packetizer (w_node w) = pk" "nd_server_cert_sender (w_node w) = s" by blast
  have ne: "pk = None \<or> s = None \<or> pk \<noteq> s" using w by (auto simp: server_live_def n)
  define w1 where "w1 = w\<lparr>w_sc := h, w_node := (w_node w)\<lparr>nd_server_cert_ctx := None\<rparr>\<rparr>"
  define w2 where "w2 = w1\<lparr>w_objs := w_objs w |` (- set (ptr_list pk)),
      w_node := nd_packetizer_update (\<lambda>_. None) (w_node w1)\<rparr>"
  have 1: "clear_obj nd_packetizer nd_packetizer_update w1 = Some w2"
    using w by (subst clear_obj_eq) (auto simp: w1_def w2_def n server_live_def clear_same)
  have 2: "clear_obj nd_server_cert_sender nd_server_cert_sender_update w2 =
      Some (w2\<lparr>w_objs := w_objs w2 |` (- set (ptr_list s)),
        w_node := nd_server_cert_sender_update (\<lambda>_. None) (w_node w2)\<rparr>)"
    using w ne
    by (subst clear_obj_eq; cases pk; cases s) (auto simp: w1_def w2_def n server_live_def clear_same restrict_map_def)
  show ?thesis
    using w by (simp add: server_cert_cleanup_def h w1_def [symmetric] 1 2)
      (simp add: w1_def w2_def server_live_def idle_ok_def off_defs)
qed

lemma server_cert_fail_ok: "server_live c w \<Longrightarrow> holds (node_ok c) (server_cert_fail w)"
  using server_cert_cleanup_ok [of c w] by (auto simp: server_cert_fail_def elim!: holds_mono intro: node_okI)

lemma node_ok_cases_ok: "device_ok c w \<or> link_ok c w \<Longrightarrow> node_ok c w"
  by (auto simp: node_ok_def)

lemma server_cert_write_ok:
  assumes env: "env_ok c e" and w: "idle_ok c w"
  shows "holds (node_ok c) (server_cert_write e w)"
proof (cases "nd_server_cert_provisioned (w_node w) \<or> att_value POUCH_GATEWAY_GATT_ATTR_SERVER_CERT w = 0")
  case True
  then show ?thesis
    using device_cert_read_ok [OF env w] server_cert_fail_ok [OF idle_server_live [OF w]]
    by (auto simp: server_cert_write_def elim!: holds_mono intro: node_ok_cases_ok)
next
  case False
  show ?thesis
  proof (cases "e_mal e (w_sc w)")
    case None
    have "on_node (\<lambda>n. n\<lparr>nd_server_cert_ctx := None\<rparr>) w = w"
      using w by (cases w; cases "w_node w") (simp add: on_node_def idle_ok_def server_off_def)
    then show ?thesis using False None server_cert_fail_ok [OF idle_server_live [OF w]]
      by (simp add: server_cert_write_def server_cert_start_def)
  next
    case (Some a)
    define w1 where "w1 = on_node (\<lambda>n. n\<lparr>nd_server_cert_ctx := Some a\<rparr>)
        (w\<lparr>w_sc := (w_sc w)(a \<mapsto> \<lparr>sc_id = crt_id (w_crt w), sc_offset = 0\<rparr>)\<rparr>)"
    have w1: "server_live c w1" using w by (simp add: w1_def on_node_def server_live_def idle_ok_def off_defs)
    have pk1: "nd_packetizer (w_node w1) = None" "nd_server_cert_sender (w_node w1) = None"
      using w by (simp_all add: w1_def on_node_def idle_ok_def server_off_def)
    show ?thesis
    proof (cases "e_create e (Packetizer (ServerCertFill (Some a))) (dom (w_objs w1))")
      case None
      have "on_node (\<lambda>n. n\<lparr>nd_packetizer := None\<rparr>) w1 = w1"
        using pk1 by (simp add: on_node_def clear_same)
      then show ?thesis using False Some None server_cert_fail_ok [OF w1]
        by (simp add: server_cert_write_def server_cert_start_def w1_def [symmetric] obj_create_def)
    next
      case k: (Some k)
      define w3 where "w3 = on_node (\<lambda>n. n\<lparr>nd_packetizer := Some k\<rparr>)
          (w1\<lparr>w_objs := (w_objs w1)(k \<mapsto> Packetizer (ServerCertFill (Some a)))\<rparr>)"
      have w3: "server_live c w3" using w1 pk1(2) by (simp add: w3_def on_node_def server_live_def off_defs)
      have sn: "nd_server_cert_sender (w_node w3) = None" using pk1(2) by (simp add: w3_def on_node_def)
      have wr: "server_cert_write e w = (if e_mtu e < POUCH_GATEWAY_BT_ATT_OVERHEAD then server_cert_fail w3
          else
            let (s, w4) = obj_create e (Sender POUCH_GATEWAY_GATT_ATTR_SERVER_CERT (Some k)) w3;
                w5 = on_node (\<lambda>n. n\<lparr>nd_server_cert_sender := s\<rparr>) w4 in
            if s = None then server_cert_fail w5
            else
              let w6 = on_node (\<lambda>n. n\<lparr>nd_server_cert_next := SERVER_CERT_NEXT_END\<rparr>) w5;
                  (err, w7) = gatt_subscribe e POUCH_GATEWAY_GATT_ATTR_SERVER_CERT w6 in
              if err \<noteq> 0 then server_cert_fail w7 else Some w7)"
        using False Some k
        by (simp add: server_cert_write_def server_cert_start_def w1_def [symmetric] obj_create_def w3_def [symmetric])
      show ?thesis
      proof (cases "e_mtu e < POUCH_GATEWAY_BT_ATT_OVERHEAD")
        case True
        then show ?thesis using server_cert_fail_ok [OF w3] by (simp add: wr)
      next
        case mtu: False
        show ?thesis
        proof (cases "e_create e (Sender POUCH_GATEWAY_GATT_ATTR_SERVER_CERT (Some k)) (dom (w_objs w3))")
          case None
          have "on_node (\<lambda>n. n\<lparr>nd_server_cert_sender := None\<rparr>) w3 = w3"
            using sn by (simp add: on_node_def clear_same)
          then show ?thesis using mtu None server_cert_fail_ok [OF w3] by (simp add: wr obj_create_def)
        next
          case s: (Some s)
          have sk: "s \<noteq> k" using env_okD(5) [OF env s] by (auto simp: w3_def on_node_def)
          define w6 where "w6 = w3\<lparr>w_objs := (w_objs w3)(s \<mapsto> Sender POUCH_GATEWAY_GATT_ATTR_SERVER_CERT (Some k)),
              w_node := (w_node w3)\<lparr>nd_server_cert_sender := Some s, nd_server_cert_next := SERVER_CERT_NEXT_END\<rparr>\<rparr>"
          have wr6: "server_cert_write e w = (let (err, w7) = gatt_subscribe e POUCH_GATEWAY_GATT_ATTR_SERVER_CERT w6 in
              if err \<noteq> 0 then server_cert_fail w7 else Some w7)"
            using mtu s by (simp add: wr obj_create_def on_node_def w6_def [symmetric])
          have live: "server_live c (emit ev w6)" for ev
            using w3 sk by (simp add: w6_def server_live_def off_defs emit_def) (simp add: w3_def on_node_def)
          have "server_ok c w6"
            using w3 sk by (auto simp: server_ok_def linked_def server_live_def w6_def off_defs)
               (auto simp: w3_def w1_def on_node_def)
          then have "server_ok c (w6\<lparr>w_log := l, w_subs := S\<rparr>)" if "POUCH_GATEWAY_GATT_ATTR_DOWNLINK \<notin> S" for l S
            using that by (simp add: server_ok_def off_defs linked_def)
          moreover have "POUCH_GATEWAY_GATT_ATTR_DOWNLINK \<notin> w_subs w6"
            using w by (simp add: w6_def w3_def w1_def on_node_def idle_ok_def link_off_def)
          ultimately show ?thesis
            using server_cert_fail_ok [OF live]
            by (auto simp: wr6 gatt_subscribe_def emit_def Let_def intro!: node_okI(3))
        qed
      qed
    qed
  qed
qed

text \<open>Pulling from the certificate.\<close>

definition sc_advanced :: "world \<Rightarrow> world \<Rightarrow> bool" where
  "sc_advanced w w' \<longleftrightarrow> (\<exists>h l. w' = w\<lparr>w_sc := h, w_log := l\<rparr> \<and> dom h = dom (w_sc w))"

lemma sc_advancedI: "dom h = dom (w_sc w) \<Longrightarrow> sc_advanced w (w\<lparr>w_sc := h, w_log := l\<rparr>)"
  by (auto simp: sc_advanced_def)

lemma sc_advanced_refl: "sc_advanced w w"
  using sc_advancedI [of "w_sc w" w "w_log w"] by simp

lemma sc_advanced_trans: "sc_advanced w w1 \<Longrightarrow> sc_advanced w1 w2 \<Longrightarrow> sc_advanced w w2"
  by (fastforce simp: sc_advanced_def)

lemma server_fill_ok:
  assumes crt: "crt_ok c (w_crt w)" and a: "w_sc w a \<noteq> None"
  shows "holds (\<lambda>(r, w'). sc_advanced w w') (server_cert_fill_cb e (Some a) n w)"
proof -
  obtain x where x: "w_sc w a = Some x" using a by blast
  obtain ret k cs l x' where g: "server_cert_get_data (w_crt w) x n = Some (ret, k, cs, l, x')"
  proof (cases "sc_offset x < crt_len (w_crt w)")
    case True
    then have "sc_ok c (w_crt w) x" using crt by (simp add: sc_ok_def)
    from server_cert_get_data_eq [OF this True] that show ?thesis by blast
  next
    case False
    then show ?thesis using that server_cert_get_data_end [of "w_crt w" x n] by simp
  qed
  have "dom ((w_sc w)(a \<mapsto> x')) = dom (w_sc w)" using x by auto
  then show ?thesis by (simp add: server_cert_fill_cb_def x g emit_def Let_def sc_advancedI)
qed

interpretation sc_packets: packet_source "server_cert_fill_cb e (Some a)"
  "\<lambda>v. crt_ok c (w_crt w) \<and> w_sc w a \<noteq> None \<and> sc_advanced w v" for c e a w
proof unfold_locales
  fix v :: world and n :: size_t
  assume v: "crt_ok c (w_crt w) \<and> w_sc w a \<noteq> None \<and> sc_advanced w v"
  then obtain h l where h: "v = w\<lparr>w_sc := h, w_log := l\<rparr>" "dom h = dom (w_sc w)"
    unfolding sc_advanced_def by blast
  then have "crt_ok c (w_crt v)" "dom (w_sc v) = dom (w_sc w)" using v by simp_all
  then have "crt_ok c (w_crt v)" "w_sc v a \<noteq> None" using v domIff by metis+
  then have "holds (\<lambda>(r, w'). sc_advanced v w') (server_cert_fill_cb e (Some a) n v)" by (rule server_fill_ok)
  then show "holds (\<lambda>(r, v'). crt_ok c (w_crt w) \<and> w_sc w a \<noteq> None \<and> sc_advanced w v') (server_cert_fill_cb e (Some a) n v)"
    by (rule holds_mono) (use v sc_advanced_trans in auto)
qed

lemma server_run_ok:
  assumes env: "env_ok c e" and crt: "crt_ok c (w_crt w)" and a: "w_sc w a \<noteq> None"
    and link: "linked i (nd_server_cert_sender (w_node w)) (ServerCertFill (Some a)) w"
  shows "holds (\<lambda>(ret, complete, w'). sc_advanced w w') (server_cert_sender_run e w)"
proof -
  obtain ns ret complete where ack: "e_ack e = replay_fills ns ret complete"
    using env by (auto simp: env_ok_def ack_ok_def)
  have "sender_source (nd_server_cert_sender (w_node w)) w = Some (ServerCertFill (Some a))"
    using link by (auto simp: linked_def sender_source_def)
  moreover have "holds (\<lambda>(r, b, w'). sc_advanced w w') (replay_fills ns ret complete (server_cert_fill_cb e (Some a)) w)"
    by (rule holds_mono [OF sc_packets.send_ok]) (use assms sc_advanced_refl in auto)
  ultimately show ?thesis by (simp add: server_cert_sender_run_def ack)
qed

lemma server_advanced: "server_ok c w \<Longrightarrow> sc_advanced w w' \<Longrightarrow> server_ok c w'"
  by (fastforce simp: sc_advanced_def server_ok_def off_defs linked_def)

lemma server_set_next [simp]: "server_ok c (set_next x w) = server_ok c w"
  by (simp add: set_next_def on_node_def server_ok_def off_defs linked_def)

lemma server_notify_ok:
  assumes env: "env_ok c e" and w: "server_ok c w"
  shows "holds (\<lambda>(i, w'). server_ok c w') (server_cert_notify_cb e ack w)"
proof -
  obtain a where a: "linked POUCH_GATEWAY_GATT_ATTR_SERVER_CERT (nd_server_cert_sender (w_node w)) (ServerCertFill (Some a)) w"
      "w_sc w a \<noteq> None" "crt_ok c (w_crt w)"
    using w by (auto simp: server_ok_def mem_ok_def)
  obtain ret complete w1 where run: "server_cert_sender_run e w = Some (ret, complete, w1)" and w1: "server_ok c w1"
    using server_run_ok [OF env a(3,2,1)] server_advanced [OF w] by (auto simp: holds_def)
  obtain s where "nd_server_cert_sender (w_node w) = Some s" using a(1) by (auto simp: linked_def)
  moreover obtain x where "deref (w_sc w1) (nd_server_cert_ctx (w_node w1)) = Some x"
    using w1 by (auto simp: server_ok_def)
  ultimately show ?thesis using run w1 by (simp add: server_cert_notify_cb_def)
qed

lemma idle_set_next [simp]:
  "idle_ok c (set_next x w) = idle_ok c w" "info_ok c (set_next x w) = info_ok c w"
  "device_ok c (set_next x w) = device_ok c w" "link_ok c (set_next x w) = link_ok c w"
  "node_ok c (set_next x w) = node_ok c w"
  by (simp_all add: set_next_def on_node_def phase_defs node_ok_def off_defs part_defs)

lemma server_notify_end_ok:
  assumes env: "env_ok c e" and w: "server_ok c w" and ended: "POUCH_GATEWAY_GATT_ATTR_SERVER_CERT \<notin> w_subs w"
  shows "holds (\<lambda>(i, w'). node_ok c w') (server_cert_notify_end e w)"
proof -
  obtain w1 where w1: "server_cert_cleanup w = Some w1" "idle_ok c w1"
    using server_cert_cleanup_ok [OF server_ok_live [OF w ended]] by (auto simp: holds_def)
  have dev: "holds (node_ok c) (device_cert_read e w1)"
    using device_cert_read_ok [OF env w1(2)] by (rule holds_mono) (rule node_ok_cases_ok)
  show ?thesis
    using w1 dev server_cert_write_ok [OF env w1(2)] node_okI(1) [OF w1(2)]
    by (cases "nd_server_cert_next (w_node w1)") (simp_all add: server_cert_notify_end_def holds_mono)
qed

section \<open>Information record\<close>

lemma info_cleanup_ok:
  assumes w: "info_ok c w"
  shows "holds (idle_ok c) (info_cleanup w)"
proof -
  obtain h where h: "(case nd_info_ctx (w_node w) of None \<Rightarrow> Some w
      | Some a \<Rightarrow> do { h \<leftarrow> info_abort (Some a) (w_in w);
                Some (on_node (\<lambda>n. n\<lparr>nd_info_ctx := None\<rparr>) (w\<lparr>w_in := h\<rparr>)) })
      = Some (w\<lparr>w_in := h, w_node := (w_node w)\<lparr>nd_info_ctx := None\<rparr>\<rparr>)"
    "mem_ok c (w\<lparr>w_in := h\<rparr>)"
  proof (cases "nd_info_ctx (w_node w)")
    case None
    then have "w\<lparr>w_in := w_in w, w_node := (w_node w)\<lparr>nd_info_ctx := None\<rparr>\<rparr> = w"
      by (cases w; cases "w_node w") simp
    with that [of "w_in w"] None w show ?thesis by (simp add: info_ok_def)
  next
    case (Some a)
    then obtain d where "w_in w a = Some d" using w by (auto simp: info_ok_def)
    with that [of "(w_in w)(a := None)"] Some w mem_ok_in_free show ?thesis
      by (simp add: info_abort_def on_node_def info_ok_def)
  qed
  define w1 where "w1 = w\<lparr>w_in := h, w_node := (w_node w)\<lparr>nd_info_ctx := None\<rparr>\<rparr>"
  have "clear_obj nd_info_receiver nd_info_receiver_update w1 =
     Some (w1\<lparr>w_objs := w_objs w1 |` (- set (ptr_list (nd_info_receiver (w_node w1)))),
         w_node := nd_info_receiver_update (\<lambda>_. None) (w_node w1)\<rparr>)"
    using w by (subst clear_obj_eq) (auto simp: w1_def clear_same info_ok_def live_recv_def)
  then show ?thesis
    using w h by (simp add: info_cleanup_def w1_def info_ok_def idle_ok_def off_defs)
qed

lemma info_fail_ok: "info_ok c w \<Longrightarrow> holds (info_ok c) (info_fail w)"
  using info_cleanup_ok [of c w] by (auto simp: info_fail_def elim!: holds_mono intro: idle_phases)

lemma info_received_ok:
  assumes env: "env_ok c e" and w: "info_ok c w" and a: "nd_info_ctx (w_node w) = Some a"
    and len: "length x < 2 ^ 16"
  shows "holds (\<lambda>(r, w'). info_ok c w' \<and> (r = 0 \<longrightarrow> \<not> l \<longrightarrow> nd_info_ctx (w_node w') = Some a))
     (info_data_received_cb e x l w)"
proof -
  obtain d where d: "w_in w a = Some d" using w a by (auto simp: info_ok_def)
  then have ok: "in_ok d" using w by (auto simp: info_ok_def mem_ok_def)
  have cap: "unat INFO_MAX_SIZE + length x < 2 ^ 32" using len by (simp add: INFO_MAX_SIZE_def)
  obtain err d' where push: "info_push d x = Some (err, d')" "in_ok d'"
    using inb.push_total [OF ok cap] by blast
  define w1 where "w1 = w\<lparr>w_in := (w_in w)(a \<mapsto> d')\<rparr>"
  have w1: "info_ok c w1" "nd_info_ctx (w_node w1) = Some a"
    using w mem_ok_in [OF _ push(2), of c w a] a by (simp_all add: w1_def info_ok_def off_defs live_recv_def)
  have crt: "crt_ok c (w_crt w)" "zcbor_ok (e_compare e)"
    using w env by (simp_all add: info_ok_def mem_ok_def env_ok_def)
  obtain err2 sp dp where fin: "info_finish (e_decode e) (e_compare e) (w_crt w1) (Some a)
          (nd_server_cert_provisioned (w_node w1)) (nd_device_cert_provisioned (w_node w1)) (w_in w1)
        = Some (err2, sp, dp, (w_in w1)(a := None))"
  proof -
    have "w_in w1 a = Some d'" by (simp add: w1_def)
    note F = info_finish_eq [where h = "w_in w1", OF crt this push(2)]
    have "w_crt w1 = w_crt w" by (simp add: w1_def)
    then show ?thesis using F that by (cases "e_decode e (in_data d')") auto
  qed
  show ?thesis
    using a d push(1) w1 fin mem_ok_in_free [of c w1 a]
    by (auto simp: info_data_received_cb_def w1_def [symmetric] Let_def)
       (simp add: on_node_def info_ok_def off_defs live_recv_def)
qed

interpretation in_sink: chunk_sink "info_data_received_cb e"
  "\<lambda>w. env_ok c e \<and> info_ok c w \<and> nd_info_ctx (w_node w) \<noteq> None" "info_ok c" for c e
  by unfold_locales (auto intro: holds_mono [OF info_received_ok])

lemma info_notify_ok:
  assumes env: "env_ok c e" and recv: "recv_done_ok e (nd_info_ctx (w_node w) = None)" and w: "info_ok c w"
  shows "holds (\<lambda>(i, w'). node_ok c w') (info_notify_cb e fin w)"
proof (cases "nd_info_receiver (w_node w)")
  case None
  then show ?thesis using node_okI(2) [OF w] by (simp add: info_notify_cb_def)
next
  case (Some r)
  obtain cs err b where cs: "chunks_ok cs" "nd_info_ctx (w_node w) = None \<longrightarrow> cs = []"
      "e_receive e = replay_chunks cs err b"
    using recv by (auto simp: recv_done_ok_def)
  have "holds (\<lambda>(r, b, w'). info_ok c w') (replay_chunks cs err b (info_data_received_cb e) w)"
    using w env cs(2) by (intro in_sink.receive_ok [OF cs(1)]) auto
  then obtain err' complete w1 where run: "e_receive e (info_data_received_cb e) w = Some (err', complete, w1)"
    and w1: "info_ok c w1"
    unfolding cs(3) by (auto simp: holds_def)
  obtain w2 where w2: "info_cleanup w1 = Some w2" "idle_ok c w2"
    using info_cleanup_ok [OF w1] by (auto simp: holds_def)
  obtain w3 where w3: "server_cert_write e w2 = Some w3" "node_ok c w3"
    using server_cert_write_ok [OF env w2(2)] by (auto simp: holds_def)
  show ?thesis using Some run w1 w2 w3 by (simp add: info_notify_cb_def node_okI)
qed

lemma info_notify_end_ok:
  "info_ok c w \<Longrightarrow> holds (\<lambda>(i, w'). idle_ok c w') (info_notify_end w)"
  using info_cleanup_ok [of c w] by (auto simp: info_notify_end_def elim!: holds_mono)

lemma info_new_receiver:
  assumes "info_ok c w" "w_objs w r = None"
  shows "info_ok c (w\<lparr>w_objs := (w_objs w)(r \<mapsto> Receiver POUCH_GATEWAY_GATT_ATTR_INFO),
    w_node := (w_node w)\<lparr>nd_info_receiver := Some r\<rparr>\<rparr>)"
  using assms by (simp add: info_ok_def off_defs live_recv_def)

lemma info_subscribe:
  "info_ok c w \<Longrightarrow> i \<noteq> POUCH_GATEWAY_GATT_ATTR_SERVER_CERT \<Longrightarrow> i \<noteq> POUCH_GATEWAY_GATT_ATTR_DOWNLINK \<Longrightarrow>
   info_ok c (snd (gatt_subscribe e i w))"
  by (simp add: info_ok_def off_defs live_recv_def gatt_subscribe_def emit_def Let_def)

lemma info_read_start_ok:
  assumes env: "env_ok c e" and w: "idle_ok c w"
  shows "holds (info_ok c) (info_read_start e w)"
proof -
  define w0 where "w0 = on_node (\<lambda>n. n\<lparr>nd_server_cert_provisioned := False, nd_device_cert_provisioned := False\<rparr>) w"
  have w0: "idle_ok c w0" using w by (simp add: w0_def on_node_def idle_ok_def off_defs)
  have off: "nd_info_ctx (w_node w0) = None" "nd_info_receiver (w_node w0) = None"
    using w0 by (simp_all add: idle_ok_def info_off_def)
  show ?thesis
  proof (cases "e_mal e (w_in w0)")
    case None
    have "on_node (\<lambda>n. n\<lparr>nd_info_ctx := None\<rparr>) w0 = w0"
      using off by (cases w0; cases "w_node w0") (simp add: on_node_def)
    then show ?thesis using None idle_phases(1) [OF w0]
      by (simp add: info_read_start_def w0_def [symmetric] info_start_def)
  next
    case (Some a)
    define w1 where "w1 = on_node (\<lambda>n. n\<lparr>nd_info_ctx := Some a\<rparr>)
        (w0\<lparr>w_in := (w_in w0)(a \<mapsto> \<lparr>in_len = 0, in_buf = replicate (unat INFO_MAX_SIZE) None\<rparr>)\<rparr>)"
    have w1: "info_ok c w1"
      using w0 idle_phases(1) [OF w0] mem_ok_in [OF _ inb.init_ok(1), of c w0 a]
      by (simp add: w1_def on_node_def info_ok_def off_defs live_recv_def)
    have read: "info_read_start e w = (let (r, w2) = obj_create e (Receiver POUCH_GATEWAY_GATT_ATTR_INFO) w1;
            w3 = on_node (\<lambda>n. n\<lparr>nd_info_receiver := r\<rparr>) w2 in
        if r = None then info_fail w3
        else
          let (err, w4) = gatt_subscribe e POUCH_GATEWAY_GATT_ATTR_INFO w3 in
          if err \<noteq> 0 then info_fail w4 else Some w4)"
      using Some by (simp add: info_read_start_def w0_def [symmetric] info_start_def w1_def [symmetric])
    show ?thesis
    proof (cases "e_create e (Receiver POUCH_GATEWAY_GATT_ATTR_INFO) (dom (w_objs w1))")
      case None
      have "on_node (\<lambda>n. n\<lparr>nd_info_receiver := None\<rparr>) w1 = w1"
        using off by (simp add: w1_def on_node_def clear_same)
      then show ?thesis using None info_fail_ok [OF w1] by (simp add: read obj_create_def)
    next
      case r: (Some r)
      define w3 where "w3 = w1\<lparr>w_objs := (w_objs w1)(r \<mapsto> Receiver POUCH_GATEWAY_GATT_ATTR_INFO),
          w_node := (w_node w1)\<lparr>nd_info_receiver := Some r\<rparr>\<rparr>"
      have "info_ok c w3" unfolding w3_def using env_okD(5) [OF env r] by (intro info_new_receiver [OF w1]) auto
      then have "info_ok c (snd (gatt_subscribe e POUCH_GATEWAY_GATT_ATTR_INFO w3))"
        by (simp add: info_subscribe)
      then show ?thesis using r info_fail_ok
        by (cases "gatt_subscribe e POUCH_GATEWAY_GATT_ATTR_INFO w3")
           (auto simp: read obj_create_def on_node_def w3_def [symmetric])
    qed
  qed
qed

lemma after_discovery_ok:
  assumes env: "env_ok c e" and w: "idle_ok c w"
  shows "holds (node_ok c) (after_discovery e h w)"
proof -
  have "idle_ok c (on_node (\<lambda>n. n\<lparr>nd_attr_handles := h\<rparr>) w)"
    using w by (simp add: on_node_def idle_ok_def off_defs)
  from info_read_start_ok [OF env this] uplink_start_ok [OF env this] show ?thesis
    by (auto simp: after_discovery_def discover_descriptors_def elim!: holds_mono intro: node_okI)
qed

end
