(* ===== verification/Gatt_Session.thy ===== *)
theory Gatt_Session
  imports Gatt_Cert_Safety
begin

text \<open>
  The life of a node: the calls the Bluetooth stack and the cloud client may make, in any
  order, and what holds of the world they reach. \<open>gatt_call c w r\<close> says that in world
  \<open>w\<close> a call may be made whose result is \<open>r\<close>, \<open>None\<close> if it is undefined behaviour.
\<close>

section \<open>Calls\<close>

definition world_init :: "config \<Rightarrow> world" where
  "world_init c =
     \<lparr>w_node = node_zero, w_dl = \<lparr>slab = Map.empty, ctxs = Map.empty\<rparr>, w_up = \<lparr>blocks = Map.empty, ups = Map.empty\<rparr>,
      w_crt = server_crt_init c, w_sc = Map.empty, w_dc = Map.empty, w_in = Map.empty, w_objs = Map.empty,
      w_subs = {}, w_log = []\<rparr>"

definition ended :: "gatt_attr \<Rightarrow> world \<Rightarrow> world" where
  "ended i w = w\<lparr>w_subs := w_subs w - {i}\<rparr>"

text \<open>The stack calls a notify handler only while it holds the subscription, and once with
  no data when it ends it. A connection starts when no subscription of the last one is
  left. The cloud client calls back for live contexts only, and for a context that is not
  aborted only while it is the node's. While a pouch is written it accepts the blocks.\<close>

text \<open>The callbacks of the Bluetooth stack for a connection: it has discovered the handles, a
  notification has come, a subscription has ended.\<close>

inductive stack_call :: "config \<Rightarrow> world \<Rightarrow> world option \<Rightarrow> bool" for c where
  call_discovered: "env_ok c e \<Longrightarrow> w_node w = node_zero \<Longrightarrow> w_subs w = {} \<Longrightarrow> stack_call c w (after_discovery e h w)"
| call_info: "env_ok c e \<Longrightarrow> POUCH_GATEWAY_GATT_ATTR_INFO \<in> w_subs w \<Longrightarrow>
    recv_done_ok e (nd_info_ctx (w_node w) = None) \<Longrightarrow> stack_call c w (map_option snd (info_notify_cb e fin w))"
| call_info_end: "POUCH_GATEWAY_GATT_ATTR_INFO \<in> w_subs w \<Longrightarrow>
    stack_call c w (map_option snd (info_notify_end (ended POUCH_GATEWAY_GATT_ATTR_INFO w)))"
| call_server: "env_ok c e \<Longrightarrow> POUCH_GATEWAY_GATT_ATTR_SERVER_CERT \<in> w_subs w \<Longrightarrow>
    stack_call c w (map_option snd (server_cert_notify_cb e ack w))"
| call_server_end: "env_ok c e \<Longrightarrow> POUCH_GATEWAY_GATT_ATTR_SERVER_CERT \<in> w_subs w \<Longrightarrow>
    stack_call c w (map_option snd (server_cert_notify_end e (ended POUCH_GATEWAY_GATT_ATTR_SERVER_CERT w)))"
| call_device: "env_ok c e \<Longrightarrow> POUCH_GATEWAY_GATT_ATTR_DEVICE_CERT \<in> w_subs w \<Longrightarrow>
    recv_done_ok e (nd_device_cert_ctx (w_node w) = None) \<Longrightarrow> stack_call c w (map_option snd (device_cert_notify_cb e fin w))"
| call_device_end: "POUCH_GATEWAY_GATT_ATTR_DEVICE_CERT \<in> w_subs w \<Longrightarrow>
    stack_call c w (map_option snd (device_cert_notify_end (ended POUCH_GATEWAY_GATT_ATTR_DEVICE_CERT w)))"
| call_uplink: "env_ok c e \<Longrightarrow> POUCH_GATEWAY_GATT_ATTR_UPLINK \<in> w_subs w \<Longrightarrow> recv_ok e \<Longrightarrow>
    e_block_status e = GOLIOTH_OK \<Longrightarrow> stack_call c w (map_option snd (uplink_notify_cb e fin w))"
| call_uplink_end: "POUCH_GATEWAY_GATT_ATTR_UPLINK \<in> w_subs w \<Longrightarrow>
    stack_call c w (map_option snd (uplink_notify_end (ended POUCH_GATEWAY_GATT_ATTR_UPLINK w)))"
| call_downlink: "env_ok c e \<Longrightarrow> POUCH_GATEWAY_GATT_ATTR_DOWNLINK \<in> w_subs w \<Longrightarrow>
    (nd_downlink_ctx (w_node w) = None \<Longrightarrow> nd_downlink_sender (w_node w) = None) \<Longrightarrow>
    stack_call c w (map_option snd (downlink_notify_cb e ack w))"
| call_downlink_end: "POUCH_GATEWAY_GATT_ATTR_DOWNLINK \<in> w_subs w \<Longrightarrow>
    stack_call c w (map_option snd (downlink_notify_end (ended POUCH_GATEWAY_GATT_ATTR_DOWNLINK w)))"

text \<open>The callbacks of the cloud client, which knows nothing of connections.\<close>

inductive cloud_call :: "config \<Rightarrow> world \<Rightarrow> world option \<Rightarrow> bool" for c where
  call_block: "env_ok c e \<Longrightarrow> dl_target w a \<Longrightarrow> slab_slot_ok c (slab (w_dl w)) slot \<Longrightarrow>
    length bytes \<le> unat (block_max c) \<Longrightarrow> cloud_call c w (map_option snd (cloud_downlink_block e a slot bytes l w))"
| call_dl_end: "env_ok c e \<Longrightarrow> dl_target w a \<Longrightarrow> cloud_call c w (cloud_downlink_end e st a w)"
| call_uploaded: "env_ok c e \<Longrightarrow> ups (w_up w) p = Some u \<Longrightarrow> cloud_call c w (cloud_uploaded e st p w)"
| call_refresh: "parse_ok parse \<Longrightarrow> builtin_ok c builtin \<Longrightarrow> download_ok c dl \<Longrightarrow>
    cloud_call c w (map_option (\<lambda>s. w\<lparr>w_crt := s\<rparr>) (cert_on_connected c parse builtin dl (w_crt w)))"

text \<open>Besides these, the application starts and stops the node.\<close>

inductive gatt_call :: "config \<Rightarrow> world \<Rightarrow> world option \<Rightarrow> bool" for c where
  call_start: "w_subs w = {} \<Longrightarrow> gatt_call c w (Some (bt_start w))"
| call_stop: "env_ok c e \<Longrightarrow> gatt_call c w (bt_stop e w)"
| call_stack: "stack_call c w r \<Longrightarrow> gatt_call c w r"
| call_cloud: "cloud_call c w r \<Longrightarrow> gatt_call c w r"

inductive gatt_reach :: "config \<Rightarrow> world \<Rightarrow> bool" for c where
  reach_init: "gatt_reach c (world_init c)"
| reach_call: "gatt_reach c w \<Longrightarrow> gatt_call c w (Some w') \<Longrightarrow> gatt_reach c w'"

section \<open>The phases of a node\<close>

text \<open>A node outside the link phase has its whole link off.\<close>

lemma node_phases:
  assumes "node_ok c w"
  obtains (info) "info_ok c w" | (server) "server_ok c w" | (device) "device_ok c w" | (link) "link_ok c w"
  using assms by (auto simp: node_ok_def)

lemma phase_dl_mem:
  assumes "dl_inv c m"
  shows "info_ok c w \<Longrightarrow> info_ok c (w\<lparr>w_dl := m\<rparr>)" "server_ok c w \<Longrightarrow> server_ok c (w\<lparr>w_dl := m\<rparr>)"
    "device_ok c w \<Longrightarrow> device_ok c (w\<lparr>w_dl := m\<rparr>)"
  using assms by (auto simp: info_ok_def server_ok_def device_ok_def mem_ok_def off_defs live_recv_def linked_def)

lemma phase_ended:
  "info_ok c w \<Longrightarrow> info_ok c (ended i w)" "server_ok c w \<Longrightarrow> server_ok c (ended i w)"
  "device_ok c w \<Longrightarrow> device_ok c (ended i w)" "link_ok c w \<Longrightarrow> link_ok c (ended i w)"
  by (auto simp: ended_def phase_defs off_defs part_defs)

lemma crt_frame:
  "info_off (w\<lparr>w_crt := s\<rparr>) = info_off w" "server_off (w\<lparr>w_crt := s\<rparr>) = server_off w"
  "device_off (w\<lparr>w_crt := s\<rparr>) = device_off w" "link_off (w\<lparr>w_crt := s\<rparr>) = link_off w"
  "live_recv i p (w\<lparr>w_crt := s\<rparr>) = live_recv i p w" "linked i p src (w\<lparr>w_crt := s\<rparr>) = linked i p src w"
  "uplink_part (w\<lparr>w_crt := s\<rparr>) = uplink_part w" "downlink_part (w\<lparr>w_crt := s\<rparr>) = downlink_part w"
  by (simp_all add: off_defs part_defs)

lemma phase_crt:
  assumes crt: "crt_ok c s" and w: "node_ok c w"
  shows "node_ok c (w\<lparr>w_crt := s\<rparr>)"
proof -
  have "mem_ok c w \<Longrightarrow> mem_ok c (w\<lparr>w_crt := s\<rparr>)" using crt by (simp add: mem_ok_def)
  then show ?thesis
    using w by (auto simp: node_ok_def info_ok_def server_ok_def device_ok_def link_ok_def crt_frame)
qed

lemma phase_uploaded:
  assumes m: "up_after c p (w_up w) closed evs m"
  shows "info_ok c w \<Longrightarrow> info_ok c (up_calls evs (w\<lparr>w_up := m\<rparr>))"
    "server_ok c w \<Longrightarrow> server_ok c (up_calls evs (w\<lparr>w_up := m\<rparr>))"
    "device_ok c w \<Longrightarrow> device_ok c (up_calls evs (w\<lparr>w_up := m\<rparr>))"
proof -
  obtain l where "up_calls evs (w\<lparr>w_up := m\<rparr>) =
     w\<lparr>w_up := m, w_node := (if ends evs then (w_node w)\<lparr>nd_uplink := None\<rparr> else w_node w), w_log := l\<rparr>"
    by (rule up_calls_mem)
  then show "info_ok c w \<Longrightarrow> info_ok c (up_calls evs (w\<lparr>w_up := m\<rparr>))"
    "server_ok c w \<Longrightarrow> server_ok c (up_calls evs (w\<lparr>w_up := m\<rparr>))"
    "device_ok c w \<Longrightarrow> device_ok c (up_calls evs (w\<lparr>w_up := m\<rparr>))"
    using m by (auto simp: info_ok_def server_ok_def device_ok_def mem_ok_def off_defs live_recv_def linked_def up_after_def)
qed

lemma world_init_ok: "idle_ok c (world_init c)"
  by (simp add: world_init_def idle_ok_def mem_ok_def dl_inv_empty up_inv_def own_inv_empty server_crt_init_ok
      off_defs node_zero_def)

lemma bt_start_ok:
  assumes "node_ok c w" "w_subs w = {}"
  shows "idle_ok c (bt_start w)"
  using assms by (auto simp: bt_start_def node_ok_def phase_defs mem_ok_def off_defs node_zero_def)

lemma node_zero_idle:
  assumes "node_ok c w" "w_node w = node_zero" "w_subs w = {}"
  shows "idle_ok c w"
  using assms by (auto simp: node_ok_def phase_defs off_defs node_zero_def linked_def)

text \<open>Outside the link phase only callbacks for aborted contexts come, and stopping does
  nothing.\<close>

lemma bt_stop_off:
  assumes "link_off w"
  shows "bt_stop e w = Some (emit (BtGattUnsubscribe POUCH_GATEWAY_GATT_ATTR_DOWNLINK)
    (emit (BtGattUnsubscribe POUCH_GATEWAY_GATT_ATTR_UPLINK) w))"
  using assms by (simp add: bt_stop_def uplink_cleanup_def downlink_cleanup_def clear_obj_def link_off_def emit_def)

lemma cloud_downlink_off:
  assumes env: "env_ok c e" and inv: "dl_inv c (w_dl w)" and off: "link_off w" and a: "dl_target w a"
    and slot: "slab_slot_ok c (slab (w_dl w)) slot" and len: "length bytes \<le> unat (block_max c)"
  shows "holds (\<lambda>(st, w'). \<exists>m. w' = w\<lparr>w_dl := m\<rparr> \<and> dl_inv c m) (cloud_downlink_block e a slot bytes l w)"
    and "holds (\<lambda>w'. \<exists>m. w' = w\<lparr>w_dl := m\<rparr> \<and> dl_inv c m) (cloud_downlink_end e st a w)"
proof -
  have b: "dl_state (w_dl w) a = Some True" using a off by (simp add: dl_target_def link_off_def)
  then obtain d where d: "ctxs (w_dl w) a = Some d" using dl_state_live by blast
  obtain st0 notify m where run: "downlink_block_cb c a slot bytes l (w_dl w) = Some (st0, notify, m)" "dl_inv c m"
    using downlink_block_cb_inv [OF inv d slot len] by blast
  then show "holds (\<lambda>(st, w'). \<exists>m. w' = w\<lparr>w_dl := m\<rparr> \<and> dl_inv c m) (cloud_downlink_block e a slot bytes l w)"
    using block_cb_state [OF run(1) b] by (auto simp: cloud_downlink_block_def env_okD(1) [OF env])
  obtain notify' m' where run': "downlink_end_cb st a (w_dl w) = Some (notify', m')" "dl_inv c m'"
    using downlink_end_cb_inv [OF inv d] by blast
  show "holds (\<lambda>w'. \<exists>m. w' = w\<lparr>w_dl := m\<rparr> \<and> dl_inv c m) (cloud_downlink_end e st a w)"
    using run' end_cb_state [OF run'(1) b inv] by (auto simp: cloud_downlink_end_def)
qed

section \<open>Every call is safe\<close>

text \<open>A phase that holds the subscription to a handler's characteristic.\<close>

lemma server_subscribed:
  "node_ok c w \<Longrightarrow> POUCH_GATEWAY_GATT_ATTR_SERVER_CERT \<in> w_subs w \<Longrightarrow> server_ok c w"
  by (auto simp: node_ok_def info_ok_def device_ok_def link_ok_def server_off_def)

lemma downlink_subscribed:
  "node_ok c w \<Longrightarrow> POUCH_GATEWAY_GATT_ATTR_DOWNLINK \<in> w_subs w \<Longrightarrow> link_ok c w"
  by (auto simp: node_ok_def info_ok_def device_ok_def server_ok_def link_off_def)

lemma holds_snd: "holds (\<lambda>(i, w'). P w') r \<Longrightarrow> holds P (map_option snd r)"
  by (cases r) auto

lemma info_call_ok:
  assumes w: "node_ok c w" and env: "env_ok c e" and recv: "recv_done_ok e (nd_info_ctx (w_node w) = None)"
  shows "holds (\<lambda>(i, w'). node_ok c w') (info_notify_cb e fin w)"
proof (cases "nd_info_receiver (w_node w)")
  case None
  then show ?thesis using w by (simp add: info_notify_cb_def)
next
  case (Some r)
  then have "info_ok c w" using w by (auto simp: node_ok_def server_ok_def device_ok_def link_ok_def info_off_def)
  then show ?thesis by (rule info_notify_ok [OF env recv])
qed

lemma device_call_ok:
  assumes w: "node_ok c w" and env: "env_ok c e" and recv: "recv_done_ok e (nd_device_cert_ctx (w_node w) = None)"
  shows "holds (\<lambda>(i, w'). node_ok c w') (device_cert_notify_cb e fin w)"
proof (cases "nd_device_cert_receiver (w_node w)")
  case None
  then show ?thesis using w by (simp add: device_cert_notify_cb_def)
next
  case (Some r)
  then have "device_ok c w" using w by (auto simp: node_ok_def server_ok_def info_ok_def link_ok_def device_off_def)
  from device_notify_ok [OF env recv this] show ?thesis
    by (rule holds_mono) (auto intro: node_ok_cases_ok)
qed

lemma uplink_call_ok:
  assumes w: "node_ok c w" and env: "env_ok c e" and recv: "recv_ok e" and st: "e_block_status e = GOLIOTH_OK"
  shows "holds (\<lambda>(i, w'). node_ok c w') (uplink_notify_cb e fin w)"
proof (cases "nd_uplink_receiver (w_node w)")
  case None
  then show ?thesis using w by (simp add: uplink_notify_cb_def)
next
  case (Some r)
  then have "link_ok c w" using w by (auto simp: node_ok_def server_ok_def info_ok_def device_ok_def link_off_def)
  from uplink_notify_ok [OF env st recv this] show ?thesis
    by (rule holds_mono) (auto intro: node_okI)
qed

text \<open>With no context and no receiver the ends of the info and device subscriptions do
  nothing.\<close>

lemma cleanups_off:
  "info_off w \<Longrightarrow> info_notify_end w = Some (BT_GATT_ITER_STOP, w)"
  "device_off w \<Longrightarrow> device_cert_notify_end w = Some (BT_GATT_ITER_STOP, w)"
  by (simp_all add: info_notify_end_def info_cleanup_def device_cert_notify_end_def device_cert_cleanup_def
      clear_obj_def off_defs)

lemma info_end_call_ok:
  assumes "node_ok c w"
  shows "holds (\<lambda>(i, w'). node_ok c w') (info_notify_end w)"
proof (cases "info_off w")
  case True
  then show ?thesis using assms by (simp add: cleanups_off)
next
  case False
  then have "info_ok c w" using assms by (auto simp: node_ok_def server_ok_def device_ok_def link_ok_def)
  from info_notify_end_ok [OF this] show ?thesis by (rule holds_mono) (auto intro: node_okI)
qed

lemma device_end_call_ok:
  assumes "node_ok c w"
  shows "holds (\<lambda>(i, w'). node_ok c w') (device_cert_notify_end w)"
proof (cases "device_off w")
  case True
  then show ?thesis using assms by (simp add: cleanups_off)
next
  case False
  then have "device_ok c w" using assms by (auto simp: node_ok_def server_ok_def info_ok_def link_ok_def)
  from device_notify_end_ok [OF this] show ?thesis by (rule holds_mono) (auto intro: node_okI)
qed

lemma uplink_end_call_ok:
  assumes w: "node_ok c w"
  shows "holds (\<lambda>(i, w'). node_ok c w') (uplink_notify_end w)"
proof (cases "nd_uplink_receiver (w_node w)")
  case None
  have "on_node (nd_uplink_receiver_update (\<lambda>_. None)) (emit DestroyNull w) = emit DestroyNull w"
    using None by (simp add: on_node_def emit_def clear_same)
  with None w show ?thesis by (simp add: uplink_notify_end_def obj_destroy_def)
next
  case (Some r)
  then have "link_ok c w" using w by (auto simp: node_ok_def server_ok_def info_ok_def device_ok_def link_off_def)
  from uplink_notify_end_ok [OF this] show ?thesis by (rule holds_mono) (auto intro: node_okI)
qed

lemma off_or_link:
  assumes "node_ok c w"
  shows "link_ok c w \<or> link_off w"
  using assms by (auto simp: node_ok_def info_ok_def server_ok_def device_ok_def)

lemma off_dl_mem:
  assumes "node_ok c w" "link_off w" "dl_inv c m"
  shows "node_ok c (w\<lparr>w_dl := m\<rparr>)"
  using assms phase_dl_mem [OF assms(3), of w]
  by (auto simp: node_ok_def link_ok_def mem_ok_def off_defs part_defs)

lemma stop_call_ok:
  assumes w: "node_ok c w" and env: "env_ok c e"
  shows "holds (node_ok c) (bt_stop e w)"
  using off_or_link [OF w]
proof
  assume "link_ok c w"
  from bt_stop_ok [OF env this] show ?thesis by (rule holds_mono) (rule node_okI)
next
  assume "link_off w"
  then show ?thesis using w by (simp add: bt_stop_off)
qed

lemma block_call_ok:
  assumes w: "node_ok c w" and env: "env_ok c e" and a: "dl_target w a"
    and slot: "slab_slot_ok c (slab (w_dl w)) slot" and len: "length bytes \<le> unat (block_max c)"
  shows "holds (\<lambda>(st, w'). node_ok c w') (cloud_downlink_block e a slot bytes l w)"
    and "holds (node_ok c) (cloud_downlink_end e st a w)"
proof -
  have inv: "dl_inv c (w_dl w)"
    using w by (auto simp: node_ok_def info_ok_def server_ok_def device_ok_def link_ok_def mem_ok_def)
  have off: "node_ok c w'" if "link_off w" "\<exists>m. w' = w\<lparr>w_dl := m\<rparr> \<and> dl_inv c m" for w'
    using off_dl_mem [OF w] that by blast
  show "holds (\<lambda>(st, w'). node_ok c w') (cloud_downlink_block e a slot bytes l w)"
    using off_or_link [OF w]
  proof
    assume "link_ok c w"
    from cloud_downlink_block_ok [OF env this a slot len] show ?thesis by (rule holds_mono) (auto intro: node_okI)
  next
    assume o: "link_off w"
    from cloud_downlink_off(1) [OF env inv o a slot len] show ?thesis by (rule holds_mono) (use off [OF o] in auto)
  qed
  show "holds (node_ok c) (cloud_downlink_end e st a w)"
    using off_or_link [OF w]
  proof
    assume "link_ok c w"
    from cloud_downlink_end_ok [OF env this a] show ?thesis by (rule holds_mono) (auto intro: node_okI)
  next
    assume o: "link_off w"
    from cloud_downlink_off(2) [OF env inv o a slot len] show ?thesis by (rule holds_mono) (use off [OF o] in auto)
  qed
qed

lemma uploaded_call_ok:
  assumes w: "node_ok c w" and env: "env_ok c e" and u: "ups (w_up w) p = Some u"
  shows "holds (node_ok c) (cloud_uploaded e st p w)"
  using off_or_link [OF w]
proof
  assume "link_ok c w"
  from cloud_uploaded_ok [OF env this u] show ?thesis by (rule holds_mono) (rule node_okI)
next
  assume o: "link_off w"
  have "up_inv c (w_up w)"
    using w by (auto simp: node_ok_def info_ok_def server_ok_def device_ok_def link_ok_def mem_ok_def)
  from block_upload_callback_after [OF this u, of st "e_block_status e"]
  obtain evs m where m: "block_upload_callback c st (e_block_status e) p (w_up w) = Some (evs, m)"
      "up_after c p (w_up w) (up_closed u) evs m"
    by (auto simp: holds_def)
  have "link_ok c w \<Longrightarrow> link_ok c (up_calls evs (w\<lparr>w_up := m\<rparr>))"
    using o by (intro up_calls_link [OF _ m(2)]) (simp_all add: link_off_def)
  then have "node_ok c (up_calls evs (w\<lparr>w_up := m\<rparr>))"
    using w phase_uploaded [OF m(2)] by (auto simp: node_ok_def)
  then show ?thesis using m(1) by (simp add: cloud_uploaded_def env_okD(1) [OF env])
qed

lemma refresh_call_ok:
  assumes w: "node_ok c w" and ok: "parse_ok parse" "builtin_ok c builtin" "download_ok c dl"
  shows "holds (\<lambda>s. node_ok c (w\<lparr>w_crt := s\<rparr>)) (cert_on_connected c parse builtin dl (w_crt w))"
proof -
  have crt: "crt_ok c (w_crt w)"
    using w by (auto simp: node_ok_def info_ok_def server_ok_def device_ok_def link_ok_def mem_ok_def)
  from crt ok(1,3,2) show ?thesis
  proof (cases rule: cert_on_connected_cases)
    case (failed bytes)
    then show ?thesis using phase_crt [OF crt_overwritten_ok [OF crt failed(2)] w] by simp
  next
    case (installed bytes s' serial)
    then show ?thesis using phase_crt [OF installed(2) w] by simp
  qed
qed

end
