(* ===== verification/Gatt_Properties.thy ===== *)
theory Gatt_Properties
  imports Gatt_Session
begin

text \<open>
  The properties of the transports: memory safety of the whole node over every reachable
  world, what of the packet streams the transports preserve, and what goes wrong when a
  connection ends at a bad moment.
\<close>

section \<open>A concrete node\<close>

text \<open>A node without certificates, with the handles of its two pouch characteristics; few
  addresses, no notification under way.\<close>

definition gx_alloc :: "addr set \<Rightarrow> ptr" where
  "gx_alloc A = List.find (\<lambda>a. a \<notin> A) [0, 1, 2]"

definition gx_env :: env where
  "gx_env =
     \<lparr>e_conf = up_ex_cfg, e_conn = 7, e_malloc = (\<lambda>A. List.find (\<lambda>a. a \<notin> A) [0, 1]), e_create = (\<lambda>_. gx_alloc), e_mtu = 23,
      e_subscribe = (\<lambda>_. 0), e_write = (\<lambda>_. 0), e_nack = [], e_fin = [], e_session = Some 3, e_block_status = GOLIOTH_OK, e_cert_status = GOLIOTH_OK,
      e_decode = (\<lambda>_. None), e_compare = (\<lambda>xs ys. map Some xs = ys), e_receive = replay_chunks [] 0 False,
      e_ack = replay_fills [] 0 False\<rparr>"

definition gx_handles :: attr_handles where
  "gx_handles = no_handles(POUCH_GATEWAY_GATT_ATTR_UPLINK := \<lparr>ah_value = 3, ah_ccc = 4\<rparr>,
     POUCH_GATEWAY_GATT_ATTR_DOWNLINK := \<lparr>ah_value = 5, ah_ccc = 6\<rparr>)"

definition gx_linked :: world where
  "gx_linked = the (after_discovery gx_env gx_handles (world_init up_ex_cfg))"

lemma gx_alloc_free: "gx_alloc A = Some a \<Longrightarrow> a \<notin> A"
  by (auto simp: gx_alloc_def split: if_splits)

lemma gx_env_simps [simp]:
  "e_conf gx_env = up_ex_cfg" "e_conn gx_env = 7" "e_create gx_env = (\<lambda>_. gx_alloc)" "e_mtu gx_env = 23"
  "e_subscribe gx_env = (\<lambda>_. 0)" "e_session gx_env = Some 3" "e_block_status gx_env = GOLIOTH_OK"
  "e_receive gx_env = replay_chunks [] 0 False" "e_ack gx_env = replay_fills [] 0 False"
  by (simp_all add: gx_env_def)

lemma gx_mal: "e_mal gx_env = up_ex_mal"
  by (auto simp: gx_env_def e_mal_def up_ex_mal_def fun_eq_iff)

lemma gx_env_ok: "env_ok up_ex_cfg gx_env"
  using gx_alloc_free
  by (auto split: if_splits simp: env_ok_def gx_env_def zcbor_ok_def ack_ok_def up_ex_cfg_def kconfig_default_def)

lemma gx_linked_ex:
  "\<exists>l. after_discovery gx_env gx_handles (world_init up_ex_cfg) = Some
    \<lparr>w_node = node_zero\<lparr>nd_attr_handles := gx_handles, nd_downlink_ctx := Some 0, nd_downlink_sender := Some 1,
       nd_packetizer := Some 0, nd_uplink := Some 0, nd_uplink_receiver := Some 2\<rparr>,
     w_dl = snd (downlink_open (Some 0) 7 \<lparr>slab = Map.empty, ctxs = Map.empty\<rparr>), w_up = up_ex_open,
     w_crt = server_crt_init up_ex_cfg, w_sc = Map.empty, w_dc = Map.empty, w_in = Map.empty,
     w_objs = [0 \<mapsto> Packetizer (DownlinkFill (Some 0)), 1 \<mapsto> Sender POUCH_GATEWAY_GATT_ATTR_DOWNLINK (Some 0),
       2 \<mapsto> Receiver POUCH_GATEWAY_GATT_ATTR_UPLINK],
     w_subs = {POUCH_GATEWAY_GATT_ATTR_UPLINK}, w_log = l\<rparr>"
  by (simp add: after_discovery_def discover_descriptors_def gx_handles_def no_handles_def uplink_start_def
      downlink_start_def att_ccc_def att_value_def on_node_def world_init_def node_zero_def downlink_open_def
      POUCH_GATEWAY_BT_ATT_OVERHEAD_def obj_create_def gx_mal up_ex_mal_def gx_alloc_def uplink_open_def uplink_block_alloc_def
      up_ex_open_def up_ex_none_def gatt_subscribe_def emit_def Let_def)

lemma gx_linked_simps [simp]:
  "w_node gx_linked = node_zero\<lparr>nd_attr_handles := gx_handles, nd_downlink_ctx := Some 0, nd_downlink_sender := Some 1,
     nd_packetizer := Some 0, nd_uplink := Some 0, nd_uplink_receiver := Some 2\<rparr>"
  "w_up gx_linked = up_ex_open" "w_dl gx_linked = snd (downlink_open (Some 0) 7 \<lparr>slab = Map.empty, ctxs = Map.empty\<rparr>)"
  "w_objs gx_linked = [0 \<mapsto> Packetizer (DownlinkFill (Some 0)), 1 \<mapsto> Sender POUCH_GATEWAY_GATT_ATTR_DOWNLINK (Some 0),
     2 \<mapsto> Receiver POUCH_GATEWAY_GATT_ATTR_UPLINK]"
  "w_subs gx_linked = {POUCH_GATEWAY_GATT_ATTR_UPLINK}"
  using gx_linked_ex by (auto simp: gx_linked_def)

lemma gx_linked_eq: "after_discovery gx_env gx_handles (world_init up_ex_cfg) = Some gx_linked"
  using gx_linked_ex by (auto simp: gx_linked_def)

lemma gx_start: "gatt_call up_ex_cfg (world_init up_ex_cfg) (Some gx_linked)"
  using call_stack [OF call_discovered, OF gx_env_ok, of "world_init up_ex_cfg" gx_handles]
  by (simp add: gx_linked_eq) (simp add: world_init_def)

lemma gx_reach: "gatt_reach up_ex_cfg gx_linked"
  by (rule reach_call [OF reach_init gx_start])

section \<open>Safety of every call\<close>

lemma node_ended: "node_ok c w \<Longrightarrow> node_ok c (ended i w)"
  by (auto simp: node_ok_def intro: phase_ended)

lemma node_ended_server: "POUCH_GATEWAY_GATT_ATTR_SERVER_CERT \<notin> w_subs (ended POUCH_GATEWAY_GATT_ATTR_SERVER_CERT w)"
  by (simp add: ended_def)

lemma stack_call_holds:
  assumes w: "node_ok c w" and call: "stack_call c w r"
  shows "holds (node_ok c) r"
  using call
proof (cases rule: stack_call.cases)
  case (call_discovered e h)
  then show ?thesis using w by (auto intro: after_discovery_ok node_zero_idle)
next
  case (call_info e fin)
  then show ?thesis using holds_snd [OF info_call_ok [OF w]] by blast
next
  case call_info_end
  then show ?thesis using holds_snd [OF info_end_call_ok [OF node_ended [OF w]]] by blast
next
  case (call_server e ack)
  from server_notify_ok [OF call_server(2) server_subscribed [OF w call_server(3)]]
  have "holds (\<lambda>(i, w'). node_ok c w') (server_cert_notify_cb e ack w)"
    by (rule holds_mono) (auto intro: node_okI)
  then show ?thesis unfolding call_server(1) by (rule holds_snd)
next
  case (call_server_end e)
  then show ?thesis
    using holds_snd [OF server_notify_end_ok [OF _ phase_ended(2) [OF server_subscribed [OF w]] node_ended_server]]
    by blast
next
  case (call_device e fin)
  then show ?thesis using holds_snd [OF device_call_ok [OF w]] by blast
next
  case call_device_end
  then show ?thesis using holds_snd [OF device_end_call_ok [OF node_ended [OF w]]] by blast
next
  case (call_uplink e fin)
  then show ?thesis using holds_snd [OF uplink_call_ok [OF w]] by blast
next
  case call_uplink_end
  then show ?thesis using holds_snd [OF uplink_end_call_ok [OF node_ended [OF w]]] by blast
next
  case (call_downlink e ack)
  from downlink_notify_ok [OF call_downlink(2) downlink_subscribed [OF w call_downlink(3)] call_downlink(4)]
  have "holds (\<lambda>(i, w'). node_ok c w') (downlink_notify_cb e ack w)"
    by (rule holds_mono) (auto intro: node_okI)
  then show ?thesis unfolding call_downlink(1) by (rule holds_snd)
next
  case call_downlink_end
  from downlink_notify_end_ok [OF phase_ended(4) [OF downlink_subscribed [OF w call_downlink_end(2)]]]
  have "holds (\<lambda>(i, w'). node_ok c w') (downlink_notify_end (ended POUCH_GATEWAY_GATT_ATTR_DOWNLINK w))"
    by (rule holds_mono) (auto intro: node_okI)
  then show ?thesis unfolding call_downlink_end(1) by (rule holds_snd)
qed

lemma cloud_call_holds:
  assumes w: "node_ok c w" and call: "cloud_call c w r"
  shows "holds (node_ok c) r"
  using call
proof (cases rule: cloud_call.cases)
  case (call_block e a slot bytes l)
  then show ?thesis using holds_snd [OF block_call_ok(1) [OF w]] by blast
next
  case (call_dl_end e a st)
  have "slab_slot_ok c (slab (w_dl w)) None" by (simp add: slab_slot_ok_def)
  then show ?thesis using block_call_ok(2) [OF w, of e a None "[]" st] call_dl_end by simp
next
  case (call_uploaded e p u st)
  then show ?thesis using uploaded_call_ok [OF w] by blast
next
  case (call_refresh parse builtin dl)
  then show ?thesis using refresh_call_ok [OF w] by (fastforce simp: holds_def)
qed

lemma gatt_call_holds:
  assumes w: "node_ok c w" and call: "gatt_call c w r"
  shows "holds (node_ok c) r"
  using call
proof (cases rule: gatt_call.cases)
  case (call_start)
  then show ?thesis using w by (auto intro: node_okI bt_start_ok)
next
  case (call_stop e)
  then show ?thesis using stop_call_ok [OF w] by blast
next
  case call_stack
  then show ?thesis by (rule stack_call_holds [OF w])
next
  case call_cloud
  then show ?thesis by (rule cloud_call_holds [OF w])
qed

lemma gatt_reach_ok: "gatt_reach c w \<Longrightarrow> node_ok c w"
proof (induction rule: gatt_reach.induct)
  case reach_init
  then show ?case using world_init_ok by (rule node_okI)
next
  case (reach_call w w')
  then show ?case using gatt_call_holds [of c w "Some w'"] by simp
qed

lemma gx_linked_ok: "link_ok up_ex_cfg gx_linked"
  using gatt_reach_ok [OF gx_reach]
  by (auto simp: node_ok_def info_ok_def server_ok_def device_ok_def link_off_def)

section \<open>Properties of every reachable world\<close>





section \<open>What the cloud client's answers do\<close>

lemma link_uplink:
  assumes "link_ok c w" "nd_uplink (w_node w) = Some p"
  obtains u where "ups (w_up w) p = Some u" "\<not> up_closed u"
  using assms by (auto simp: link_ok_def uplink_part_def)

lemma received_unlinked: "nd_uplink (w_node w) = None \<Longrightarrow> uplink_data_received_cb e x l w = Some (- ENOLINK, w)"
  by (simp add: uplink_data_received_cb_def)

lemma link_up_inv: "link_ok c w \<Longrightarrow> up_inv c (w_up w)"
  by (simp add: link_ok_def mem_ok_def)

text \<open>A refused block crashes the gateway: where the cloud client refuses a block while
  the last chunk of a pouch is written, the uplink ends within the write, its end callback
  clears the node's pointer, and the close that follows dereferences the null pointer. That
  is the only way a chunk of an open uplink fails to return; a chunk that is not the last
  is then accepted, and the next one refused.\<close>

theorem uplink_refused_last_chunk:
  assumes env: "env_ok c e" and w: "link_ok c w" and p: "nd_uplink (w_node w) = Some p"
    and len: "length x < 2 ^ 16"
    and run: "uplink_write c (e_mal e) (e_block_status e) p x (of_nat (length x)) (w_up w) = Some (ret, evs, m)"
  shows "(uplink_data_received_cb e x True w = None) = (\<exists>arg res. UplinkEnd arg res \<in> set evs) \<and>
     ((\<exists>arg res. UplinkEnd arg res \<in> set evs) \<longrightarrow>
        (\<exists>w1. uplink_data_received_cb e x False w = Some (0, w1) \<and> ups (w_up w1) p = None \<and>
           uplink_data_received_cb e y l w1 = Some (- ENOLINK, w1)))"
proof -
  obtain u where u: "ups (w_up w) p = Some u" "\<not> up_closed u" using link_uplink [OF w p] .
  have "unat (of_nat (length x) :: size_t) \<le> length x"
    using len by (subst unat_of_nat_size) simp_all
  from uplink_write_after [OF link_up_inv [OF w] u(1) env_okD(3) [OF env] env_okD(2) [OF env] this, of "e_block_status e"]
  have m: "up_after c p (w_up w) (up_closed u) evs m" "ret \<noteq> 0 \<longrightarrow> \<not> ends evs" using run by simp_all
  obtain lg where l: "up_calls evs (w\<lparr>w_up := m\<rparr>) =
     w\<lparr>w_up := m, w_node := (if ends evs then (w_node w)\<lparr>nd_uplink := None\<rparr> else w_node w), w_log := lg\<rparr>"
    by (rule up_calls_mem)
  define w1 where "w1 = up_calls evs (w\<lparr>w_up := m\<rparr>)"
  have cb: "uplink_data_received_cb e x b w =
      (if ret \<noteq> 0 \<or> b then do {
         w2 \<leftarrow> do_uplink_close e w1; Some (ret, on_node (\<lambda>n. n\<lparr>nd_uplink := None\<rparr>) w2) }
       else Some (ret, w1))" for b
    using p run by (simp add: uplink_data_received_cb_def env_okD(1) [OF env] w1_def)
  show ?thesis
  proof (cases "ends evs")
    case True
    then have "nd_uplink (w_node w1) = None" "ret = 0" "ups (w_up w1) p = None"
      using l m by (auto simp: w1_def up_after_def)
    then show ?thesis using True by (auto simp: cb do_uplink_close_def ends_def received_unlinked)
  next
    case False
    have "link_ok c w1" unfolding w1_def using u(2) by (intro up_calls_link [OF w m(1)]) simp
    moreover have "nd_uplink (w_node w1) = Some p" using False l p by (simp add: w1_def)
    ultimately have "\<exists>w2. do_uplink_close e w1 = Some w2"
      using do_uplink_close_ok [OF env] by (auto simp: holds_def)
    then show ?thesis using False by (auto simp: cb ends_def)
  qed
qed


definition gx_refusing :: env where
  "gx_refusing = gx_env\<lparr>e_block_status := GOLIOTH_ERR_NACK\<rparr>"

lemma gx_refusing_ok: "env_ok up_ex_cfg gx_refusing"
  using gx_env_ok by (simp add: env_ok_def gx_refusing_def ack_ok_def)

lemma gx_refusing_mal: "e_mal gx_refusing = up_ex_mal"
  by (simp add: gx_refusing_def e_mal_def fun_eq_iff flip: gx_mal)

lemma gx_refused:
  "\<exists>m. uplink_write (up_ex_cfg) (e_mal gx_refusing) (e_block_status gx_refusing) 0 [1, 2, 3, 4, 5, 6]
     (of_nat (length [1 :: byte, 2, 3, 4, 5, 6])) (w_up gx_linked) = Some (0,
       [UplinkBlock (Some 3) 0 [Some 1, Some 2, Some 3, Some 4] False,
        UplinkEnd 7 POUCH_GATEWAY_UPLINK_ERROR_LOCAL, UplinkFinish (Some 3)], m)"
proof -
  have "\<exists>m. uplink_write up_ex_cfg up_ex_mal GOLIOTH_ERR_NACK 0 [1, 2, 3, 4, 5, 6] 6 up_ex_open = Some (0,
       [UplinkBlock (Some 3) 0 [Some 1, Some 2, Some 3, Some 4] False,
        UplinkEnd 7 POUCH_GATEWAY_UPLINK_ERROR_LOCAL, UplinkFinish (Some 3)], m)"
    by (simp add: uplink_write_def up_ex_open_eq(2,3) up_ex_loop process_uplink_def memcpy_from_def end_uplink_def
        cleanup_uplink_def)
  then show ?thesis by (simp add: gx_refusing_mal) (simp add: gx_refusing_def)
qed

theorem uplink_refused_last_chunk_witness:
  "uplink_data_received_cb gx_refusing [1, 2, 3, 4, 5, 6] True gx_linked = None \<and>
   (\<exists>w1. uplink_data_received_cb gx_refusing [1, 2, 3, 4, 5, 6] False gx_linked = Some (0, w1) \<and>
      uplink_data_received_cb gx_refusing [7] True w1 = Some (- ENOLINK, w1))"
proof -
  obtain m where run: "uplink_write up_ex_cfg (e_mal gx_refusing) (e_block_status gx_refusing) 0 [1, 2, 3, 4, 5, 6]
     (of_nat (length [1 :: byte, 2, 3, 4, 5, 6])) (w_up gx_linked) = Some (0,
       [UplinkBlock (Some 3) 0 [Some 1, Some 2, Some 3, Some 4] False,
        UplinkEnd 7 POUCH_GATEWAY_UPLINK_ERROR_LOCAL, UplinkFinish (Some 3)], m)"
    using gx_refused by blast
  from uplink_refused_last_chunk [OF gx_refusing_ok gx_linked_ok _ _ run, of "[7]" True] show ?thesis
    by auto
qed

section \<open>The packets of a downlink\<close>

lemma downlink_fill_session:
  assumes env: "env_ok c e" and sess: "dl_session c a acc dlv fin (w_dl w)"
  obtains x r m where "downlink_packet_fill_cb e (Some a) n w =
       Some (r, w\<lparr>w_dl := m, w_log := w_log w @ [Filled POUCH_GATEWAY_GATT_ATTR_DOWNLINK x r]\<rparr>)"
     "dl_session c a acc (dlv @ x) fin m" "r = POUCH_GATT_PACKETIZER_MORE_DATA \<or> dlv @ x = acc \<and> fin"
proof -
  obtain d where inv: "dl_inv c (w_dl w)" and d: "ctxs (w_dl w) a = Some d"
    and ctx: "dl_sess_ctx (slab (w_dl w)) acc dlv fin d"
    using dl_session_inv [OF sess] by (auto simp: dl_sess_inv_def)
  show ?thesis
  proof (cases "dl_complete d")
    case True
    then have "dlv = acc \<and> fin" using ctx by (auto simp: dl_sess_ctx_def dl_stream_def)
    then show ?thesis using d sess True
      by (intro that [of POUCH_GATT_PACKETIZER_ERROR "[]" "w_dl w"])
         (simp_all add: downlink_packet_fill_cb_def env_okD(1) [OF env] downlink_get_data_def
            downlink_is_complete_def emit_def errno_defs)
  next
    case False
    obtain x e' rs where rd: "seg_read (unat n) (dl_segs (slab (w_dl w)) d) = (x, e', rs)"
      by (cases "seg_read (unat n) (dl_segs (slab (w_dl w)) d)") auto
    obtain ret il m d' where run: "downlink_get_data c a n (w_dl w) = Some (ret, of_nat (length x), x, il, m)"
        and "ctxs m a = Some d'" "dl_complete d' = il" "ret = - EAGAIN \<or> ret = 0"
      using downlink_get_data_flags [OF inv d False rd] by (auto simp: Let_def split: if_splits)
    have sess': "dl_session c a acc (dlv @ x) fin m" using pulled [OF sess run] .
    moreover have "dlv @ x = acc \<and> fin" if il
      using dl_session_inv [OF sess'] \<open>ctxs m a = Some d'\<close> \<open>dl_complete d' = il\<close> that
      by (auto simp: dl_sess_inv_def dl_sess_ctx_def dl_stream_def)
    ultimately show ?thesis using run \<open>ret = - EAGAIN \<or> ret = 0\<close>
      by (intro that [of "if ret = - EAGAIN \<or> \<not> il then POUCH_GATT_PACKETIZER_MORE_DATA
             else POUCH_GATT_PACKETIZER_NO_MORE_DATA" x m])
         (auto simp: downlink_packet_fill_cb_def env_okD(1) [OF env] emit_def errno_defs)
  qed
qed

lemma downlink_fills_session:
  assumes env: "env_ok c e" and sess: "dl_session c a acc dlv fin (w_dl w)"
  shows "\<exists>fills m. replay_fills ns ret complete (downlink_packet_fill_cb e (Some a)) w = Some (ret, complete,
       w\<lparr>w_dl := m, w_log := w_log w @ map (\<lambda>(x, r). Filled POUCH_GATEWAY_GATT_ATTR_DOWNLINK x r) fills\<rparr>) \<and>
     length fills = length ns \<and> dl_session c a acc (dlv @ concat (map fst fills)) fin m \<and>
     (snd ` set fills \<subseteq> {POUCH_GATT_PACKETIZER_MORE_DATA} \<or> dlv @ concat (map fst fills) = acc \<and> fin)"
  using sess
proof (induction ns arbitrary: w dlv)
  case Nil
  then show ?case by (intro exI [of _ "[]"] exI [of _ "w_dl w"]) simp
next
  case (Cons n ns)
  obtain x r m where step: "downlink_packet_fill_cb e (Some a) n w =
       Some (r, w\<lparr>w_dl := m, w_log := w_log w @ [Filled POUCH_GATEWAY_GATT_ATTR_DOWNLINK x r]\<rparr>)"
     and s: "dl_session c a acc (dlv @ x) fin m" and r: "r = POUCH_GATT_PACKETIZER_MORE_DATA \<or> dlv @ x = acc \<and> fin"
    using downlink_fill_session [OF env Cons.prems, of n] .
  define v where "v = w\<lparr>w_dl := m, w_log := w_log w @ [Filled POUCH_GATEWAY_GATT_ATTR_DOWNLINK x r]\<rparr>"
  have "dl_session c a acc (dlv @ x) fin (w_dl v)" using s by (simp add: v_def)
  from Cons.IH [OF this] obtain fills m' where
    IH: "replay_fills ns ret complete (downlink_packet_fill_cb e (Some a)) v = Some (ret, complete,
       v\<lparr>w_dl := m', w_log := w_log v @ map (\<lambda>(x, r). Filled POUCH_GATEWAY_GATT_ATTR_DOWNLINK x r) fills\<rparr>)"
     "length fills = length ns" "dl_session c a acc ((dlv @ x) @ concat (map fst fills)) fin m'"
     "snd ` set fills \<subseteq> {POUCH_GATT_PACKETIZER_MORE_DATA} \<or> (dlv @ x) @ concat (map fst fills) = acc \<and> fin"
    by blast
  have pre: "\<exists>rest. acc = ((dlv @ x) @ concat (map fst fills)) @ rest"
    using dl_session_inv [OF IH(3)] by (auto simp: dl_sess_inv_def dl_sess_ctx_def)
  show ?case
  proof (intro exI conjI)
    show "replay_fills (n # ns) ret complete (downlink_packet_fill_cb e (Some a)) w = Some (ret, complete,
       w\<lparr>w_dl := m', w_log := w_log w @
          map (\<lambda>(x, r). Filled POUCH_GATEWAY_GATT_ATTR_DOWNLINK x r) ((x, r) # fills)\<rparr>)"
      using step IH(1) by (simp add: v_def)
    show "snd ` set ((x, r) # fills) \<subseteq> {POUCH_GATT_PACKETIZER_MORE_DATA} \<or>
        dlv @ concat (map fst ((x, r) # fills)) = acc \<and> fin"
      using r IH(4) pre by auto
  qed (use IH in simp_all)
qed

text \<open>C6. End to end, cloud to node: while a downlink is under way, each time the sender runs
  (on an acknowledgement, or on new data) it returns, and the packets it is given carry, in
  order and exactly once, the next of the bytes the cloud callback accepted; every packet
  but those behind the end is marked as having more data, and a packet is marked as the end
  only if the cloud has ended the stream and all of it was delivered.\<close>

theorem downlink_packets:
  assumes env: "env_ok c e" and link: "linked i (nd_downlink_sender (w_node w)) (DownlinkFill (Some a)) w"
    and sess: "dl_session c a acc dlv fin (w_dl w)"
  shows "\<exists>ret complete fills m rest. downlink_sender_run e w = Some (ret, complete,
       w\<lparr>w_dl := m, w_log := w_log w @ map (\<lambda>(x, r). Filled POUCH_GATEWAY_GATT_ATTR_DOWNLINK x r) fills\<rparr>) \<and>
     dl_session c a acc (dlv @ concat (map fst fills)) fin m \<and> acc = dlv @ concat (map fst fills) @ rest \<and>
     (snd ` set fills \<subseteq> {POUCH_GATT_PACKETIZER_MORE_DATA} \<or> rest = [] \<and> fin)"
proof -
  obtain ns ret complete where ack: "e_ack e = replay_fills ns ret complete"
    using env by (auto simp: env_ok_def ack_ok_def)
  have src: "sender_source (nd_downlink_sender (w_node w)) w = Some (DownlinkFill (Some a))"
    using link by (auto simp: linked_def sender_source_def)
  obtain fills m where F: "replay_fills ns ret complete (downlink_packet_fill_cb e (Some a)) w = Some (ret, complete,
       w\<lparr>w_dl := m, w_log := w_log w @ map (\<lambda>(x, r). Filled POUCH_GATEWAY_GATT_ATTR_DOWNLINK x r) fills\<rparr>)"
     "dl_session c a acc (dlv @ concat (map fst fills)) fin m"
     "snd ` set fills \<subseteq> {POUCH_GATT_PACKETIZER_MORE_DATA} \<or> dlv @ concat (map fst fills) = acc \<and> fin"
    using downlink_fills_session [OF env sess, of ns ret complete] by blast
  obtain rest where "acc = dlv @ concat (map fst fills) @ rest"
    using dl_session_inv [OF F(2)] by (auto simp: dl_sess_inv_def dl_sess_ctx_def)
  with F show ?thesis by (auto simp: downlink_sender_run_def src ack)
qed


theorem downlink_packets_witness:
  "\<exists>ret complete fills m rest. downlink_sender_run (gx_env\<lparr>e_conf := dl_ex_cfg, e_ack := replay_fills [8, 8] 0 True\<rparr>)
     (gx_linked\<lparr>w_dl := dl_ex1\<rparr>) = Some (ret, complete, gx_linked\<lparr>w_dl := m, w_log := w_log gx_linked @
        map (\<lambda>(x, r). Filled POUCH_GATEWAY_GATT_ATTR_DOWNLINK x r) fills\<rparr>) \<and>
     [Some 7, Some 9] = concat (map fst fills) @ rest"
proof -
  have env: "env_ok dl_ex_cfg (gx_env\<lparr>e_conf := dl_ex_cfg, e_ack := replay_fills [8, 8] 0 True\<rparr>)"
    using gx_env_ok by (auto simp: env_ok_def ack_ok_def dl_ex_cfg_def kconfig_default_def)
  have link: "linked POUCH_GATEWAY_GATT_ATTR_DOWNLINK (nd_downlink_sender (w_node (gx_linked\<lparr>w_dl := dl_ex1\<rparr>)))
      (DownlinkFill (Some 0)) (gx_linked\<lparr>w_dl := dl_ex1\<rparr>)"
    by (simp add: linked_def)
  have "dl_session dl_ex_cfg 0 [Some 7, Some 9] [] True (w_dl (gx_linked\<lparr>w_dl := dl_ex1\<rparr>))"
    using dl_ex_session(2) by simp
  from downlink_packets [OF env link this] show ?thesis by auto
qed

section \<open>The chunks of a pouch\<close>

text \<open>What the log holds of the calls of \<open>lib/uplink.c\<close>.\<close>

definition up_events :: "node_event list \<Rightarrow> up_event list" where
  "up_events l = List.map_filter (\<lambda>ev. case ev of UpEvent x \<Rightarrow> Some x | _ \<Rightarrow> None) l"

lemma up_events_simps [simp]:
  "up_events [] = []" "up_events (UpEvent x # l) = x # up_events l" "up_events (BtFinished # l) = up_events l"
  "up_events (l @ l') = up_events l @ up_events l'"
  by (simp_all add: up_events_def map_filter_simps map_filter_def)

lemma up_calls_log: "up_events (w_log (up_calls evs w)) = up_events (w_log w) @ evs"
proof (induction evs arbitrary: w)
  case Nil
  then show ?case by simp
next
  case (Cons ev evs)
  then show ?case by (cases ev) (simp_all add: uplink_end_cb_def step_defs)
qed

lemma end_of_ends: "end_of evs = None \<longleftrightarrow> \<not> ends evs"
  by (induction evs rule: end_of.induct) (auto simp: ends_def)

lemma uplink_chunk_session:
  assumes env: "env_ok c e" and st: "e_block_status e = GOLIOTH_OK" and w: "link_ok c w"
    and p: "nd_uplink (w_node w) = Some p" and len: "length x < 2 ^ 16"
    and sess: "uplink_session c p acc sent oom None (w_up w)"
    and run: "uplink_data_received_cb e x l w = Some (0, w')"
  obtains evs res where "up_events (w_log w') = up_events (w_log w) @ evs"
    "uplink_session c p (acc @ map Some x) (sent @ sent_of evs) oom res (w_up w')"
    "if l then nd_uplink (w_node w') = None \<and> (res \<noteq> None \<or> map_option up_closed (ups (w_up w') p) = Some True)
     else nd_uplink (w_node w') = Some p \<and> res = None"
proof -
  obtain u where u: "ups (w_up w) p = Some u" "\<not> up_closed u" using link_uplink [OF w p] .
  have len': "unat (of_nat (length x) :: size_t) = length x" using len by (subst unat_of_nat_size) simp_all
  from uplink_write_after [OF link_up_inv [OF w] u(1) env_okD(3) [OF env] env_okD(2) [OF env], of "of_nat (length x)" x
      GOLIOTH_OK]
  obtain ret evs m where m: "uplink_write c (e_mal e) GOLIOTH_OK p x (of_nat (length x)) (w_up w) = Some (ret, evs, m)"
      "up_after c p (w_up w) (up_closed u) evs m" "\<not> ends evs"
    using u(2) len' by (auto simp: holds_def)
  define w1 where "w1 = up_calls evs (w\<lparr>w_up := m\<rparr>)"
  have cb: "uplink_data_received_cb e x l w =
      (if ret \<noteq> 0 \<or> l then do {
         w2 \<leftarrow> do_uplink_close e w1; Some (ret, on_node (\<lambda>n. n\<lparr>nd_uplink := None\<rparr>) w2) }
       else Some (ret, w1))"
    using p m(1) by (simp add: uplink_data_received_cb_def env_okD(1) [OF env] st w1_def)
  have ret: "ret = 0" using run unfolding cb by (cases "do_uplink_close e w1") (auto split: if_splits)
  have log1: "up_events (w_log w1) = up_events (w_log w) @ evs" by (simp add: w1_def up_calls_log)
  obtain lg where w1: "w1 = w\<lparr>w_up := m, w_log := lg\<rparr>"
  proof -
    obtain lg where "w1 = w\<lparr>w_up := m, w_node := (if ends evs then (w_node w)\<lparr>nd_uplink := None\<rparr> else w_node w), w_log := lg\<rparr>"
      unfolding w1_def by (rule up_calls_mem)
    with m(3) that [of lg] show ?thesis by (cases w) simp
  qed
  have "end_of evs = None" using m(3) by (simp add: end_of_ends)
  then have s1: "uplink_session c p (acc @ map Some x) (sent @ sent_of evs) oom None m"
    using up_written [OF sess u env_okD(3) [OF env] _ m(1) [unfolded ret], of] len' by simp
  show ?thesis
  proof (cases l)
    case False
    then show ?thesis using run log1 s1 w1 p ret that [of evs None] unfolding cb by auto
  next
    case True
    obtain u1 where u1: "ups m p = Some u1" "up_inv c m" using m(2,3) by (auto simp: up_after_def)
    from uplink_close_after [OF u1(2,1), of "e_block_status e"]
    obtain evs2 m2 where m2: "uplink_close c (e_block_status e) p m = Some (evs2, m2)" "up_after c p m True evs2 m2"
      by (auto simp: holds_def)
    define w2 where "w2 = up_calls evs2 (w1\<lparr>w_up := m2\<rparr>)"
    obtain lg2 where w2: "w2 = w1\<lparr>w_up := m2,
        w_node := (if ends evs2 then (w_node w1)\<lparr>nd_uplink := None\<rparr> else w_node w1), w_log := lg2\<rparr>"
      unfolding w2_def by (rule up_calls_mem)
    have "do_uplink_close e w1 = Some w2"
      using p m2(1) by (simp add: do_uplink_close_def env_okD(1) [OF env] w1 w2_def)
    then have w': "w' = on_node (\<lambda>n. n\<lparr>nd_uplink := None\<rparr>) w2" using run True unfolding cb by simp
    have "up_events (w_log w2) = up_events (w_log w) @ (evs @ evs2)"
      using log1 by (simp add: w2_def up_calls_log)
    moreover have "uplink_session c p (acc @ map Some x) (sent @ sent_of (evs @ evs2)) oom (end_of evs2) m2"
      using up_close [OF s1 m2(1)] by simp
    moreover have "end_of evs2 \<noteq> None \<or> map_option up_closed (ups m2 p) = Some True"
      using m2(2) by (auto simp: up_after_def end_of_ends split: if_splits)
    ultimately show ?thesis using that [of "evs @ evs2" "end_of evs2"] True
      by (simp add: w' w2 on_node_def)
  qed
qed

lemma uplink_chunks_session:
  assumes env: "env_ok c e" and st: "e_block_status e = GOLIOTH_OK" and w: "link_ok c w"
    and p: "nd_uplink (w_node w) = Some p" and cs: "chunks_ok cs"
    and sess: "uplink_session c p acc sent oom None (w_up w)"
    and run: "replay_chunks cs err complete (uplink_data_received_cb e) w = Some (0, complete', w')"
  shows "\<exists>evs res. up_events (w_log w') = up_events (w_log w) @ evs \<and>
    uplink_session c p (acc @ map Some (concat (map fst cs))) (sent @ sent_of evs) oom res (w_up w') \<and>
    (if True \<in> snd ` set cs
     then nd_uplink (w_node w') = None \<and> (res \<noteq> None \<or> map_option up_closed (ups (w_up w') p) = Some True)
     else nd_uplink (w_node w') = Some p \<and> res = None)"
  using w p cs sess run
proof (induction cs arbitrary: w acc sent)
  case Nil
  then show ?case by (intro exI [of _ "[]"] exI [of _ None]) simp
next
  case (Cons ch cs)
  obtain x l where ch: "ch = (x, l)" by (cases ch)
  have len: "length x < 2 ^ 16" using Cons.prems(3) by (simp add: chunks_ok_def ch)
  have cs: "chunks_ok cs" using Cons.prems(3) by (cases cs) (auto simp: chunks_ok_def)
  from Cons.prems(5) obtain w1 where w1: "uplink_data_received_cb e x l w = Some (0, w1)"
      "replay_chunks cs err complete (uplink_data_received_cb e) w1 = Some (0, complete', w')"
    by (auto simp: ch split: bind_splits if_splits)
  have ok1: "link_ok c w1" using uplink_received_ok [OF env st Cons.prems(1) len, of l] w1(1) by simp
  obtain evs res where step: "up_events (w_log w1) = up_events (w_log w) @ evs"
    "uplink_session c p (acc @ map Some x) (sent @ sent_of evs) oom res (w_up w1)"
    "if l then nd_uplink (w_node w1) = None \<and> (res \<noteq> None \<or> map_option up_closed (ups (w_up w1) p) = Some True)
     else nd_uplink (w_node w1) = Some p \<and> res = None"
    using uplink_chunk_session [OF env st Cons.prems(1,2) len Cons.prems(4) w1(1)] .
  show ?case
  proof (cases l)
    case True
    then have "cs = []" using Cons.prems(3) by (cases cs) (auto simp: chunks_ok_def ch)
    then show ?thesis using step w1(2) True by (auto simp: ch)
  next
    case False
    then have n: "nd_uplink (w_node w1) = Some p" "res = None" using step(3) by simp_all
    from Cons.IH [OF ok1 n(1) cs step(2) [unfolded n(2)] w1(2)] obtain evs' res' where
      "up_events (w_log w') = up_events (w_log w1) @ evs'"
      "uplink_session c p ((acc @ map Some x) @ map Some (concat (map fst cs))) ((sent @ sent_of evs) @ sent_of evs') oom res'
         (w_up w')"
      "if True \<in> snd ` set cs
       then nd_uplink (w_node w') = None \<and> (res' \<noteq> None \<or> map_option up_closed (ups (w_up w') p) = Some True)
       else nd_uplink (w_node w') = Some p \<and> res' = None"
      by blast
    then show ?thesis using step(1) False
      by (intro exI [of _ "evs @ evs'"] exI [of _ res']) (simp add: ch sent_of_append)
  qed
qed


text \<open>C5. End to end, node to cloud: a notification whose chunks the receiver hands over without
  an error appends exactly those chunks, in order, to what the uplink has got; the blocks
  handed to the cloud client so far are the first blocks of that stream, cut at the block
  size and numbered; and the last chunk, and no other, closes the uplink and drops the
  node's pointer to it.\<close>

theorem uplink_pouch_forwarded:
  assumes env: "env_ok c e" and cloud: "cloud c" and st: "e_block_status e = GOLIOTH_OK" and w: "link_ok c w"
    and r: "nd_uplink_receiver (w_node w) = Some r" and p: "nd_uplink (w_node w) = Some p"
    and cs: "chunks_ok cs" "e_receive e = replay_chunks cs err complete"
    and sess: "uplink_session c p acc sent oom None (w_up w)"
    and run: "e_receive e (uplink_data_received_cb e) w = Some (0, complete', w')"
  shows "\<exists>evs res rest. uplink_notify_cb e fin w =
      Some (if complete' then BT_GATT_ITER_STOP else BT_GATT_ITER_CONTINUE, w') \<and>
    up_events (w_log w') = up_events (w_log w) @ evs \<and>
    uplink_session c p (acc @ map Some (concat (map fst cs))) (sent @ sent_of evs) oom res (w_up w') \<and>
    chunks (unat (block_max c)) (acc @ map Some (concat (map fst cs))) = payloads (sent @ sent_of evs) @ rest \<and>
    idxs (sent @ sent_of evs) = map of_nat [0..<length (sent @ sent_of evs)] \<and>
    (if True \<in> snd ` set cs
     then nd_uplink (w_node w') = None \<and> (res \<noteq> None \<or> map_option up_closed (ups (w_up w') p) = Some True)
     else nd_uplink (w_node w') = Some p \<and> res = None)"
proof -
  have n: "uplink_notify_cb e fin w = Some (if complete' then BT_GATT_ITER_STOP else BT_GATT_ITER_CONTINUE, w')"
    using r run by (simp add: uplink_notify_cb_def)
  from uplink_chunks_session [OF env st w p cs(1) sess run [unfolded cs(2)]] obtain evs res where
    S: "up_events (w_log w') = up_events (w_log w) @ evs"
    "uplink_session c p (acc @ map Some (concat (map fst cs))) (sent @ sent_of evs) oom res (w_up w')"
    "if True \<in> snd ` set cs
     then nd_uplink (w_node w') = None \<and> (res \<noteq> None \<or> map_option up_closed (ups (w_up w') p) = Some True)
     else nd_uplink (w_node w') = Some p \<and> res = None" by blast
  from session_packs [OF S(2) env_okD(2) [OF env] cloud] n S show ?thesis by blast
qed

lemma gx_session: "uplink_session up_ex_cfg 0 [] [] False None (w_up gx_linked)"
  using up_ex_session(1) by simp

lemma gx_received:
  "\<exists>w'. replay_chunks [([1, 2, 3, 4, 5, 6], True)] 0 True
     (uplink_data_received_cb (gx_env\<lparr>e_receive := replay_chunks [([1, 2, 3, 4, 5, 6], True)] 0 True\<rparr>)) gx_linked = Some (0, True, w')"
proof -
  define e where "e = gx_env\<lparr>e_receive := replay_chunks [([1, 2, 3, 4, 5, 6], True)] 0 True\<rparr>"
  have e: "e_conf e = up_ex_cfg" "e_mal e = up_ex_mal" "e_block_status e = GOLIOTH_OK"
    by (simp_all add: e_def e_mal_def fun_eq_iff flip: gx_mal)
  have e': "e_mal e = up_ex_mal"
    by (simp add: e_def e_mal_def fun_eq_iff flip: gx_mal)
  show ?thesis
    unfolding e_def [symmetric]
    by (simp add: uplink_data_received_cb_def e e' up_ex_written_eq(1) uplink_end_cb_def do_uplink_close_def
        up_ex_closed_eq emit_def)
qed

theorem uplink_pouch_forwarded_witness:
  "\<exists>w'. uplink_notify_cb (gx_env\<lparr>e_receive := replay_chunks [([1, 2, 3, 4, 5, 6], True)] 0 True\<rparr>) False gx_linked
     = Some (BT_GATT_ITER_STOP, w') \<and> nd_uplink (w_node w') = None"
proof -
  define e where "e = gx_env\<lparr>e_receive := replay_chunks [([1, 2, 3, 4, 5, 6], True)] 0 True\<rparr>"
  have env: "env_ok up_ex_cfg e" using gx_env_ok by (simp add: env_ok_def e_def ack_ok_def)
  obtain w' where run: "e_receive e (uplink_data_received_cb e) gx_linked = Some (0, True, w')"
    using gx_received by (auto simp: e_def)
  have cs: "chunks_ok [([1, 2, 3, 4, 5, 6 :: byte], True)]" by (simp add: chunks_ok_def)
  from uplink_pouch_forwarded [OF env _ _ gx_linked_ok _ _ cs _ gx_session run, of 2 0 True False]
  have "\<exists>w'. uplink_notify_cb e False gx_linked = Some (BT_GATT_ITER_STOP, w') \<and> nd_uplink (w_node w') = None"
    by (auto simp: e_def)
  then show ?thesis by (simp add: e_def)
qed


section \<open>A connection that ends at a bad moment\<close>

lemma uplink_callback_finishes:
  assumes inv: "up_inv c m" and u: "ups m p = Some u" "up_rblock u = Some r" "up_queue u = []" "up_closed u"
  shows "block_upload_callback c GOLIOTH_OK st p m =
     Some (end_events c POUCH_GATEWAY_UPLINK_SUCCESS (up_acked u),
       up_removed p (up_acked u) (up_put p (blocks m |` (- {r})) (up_acked u) m))"
proof -
  note E = block_upload_callback_eq [OF inv u(1,2)]
  have "process_uplink c st p (up_put p (blocks m |` (- {r})) (up_acked u) m) =
      Some (end_events c POUCH_GATEWAY_UPLINK_SUCCESS (up_acked u),
        up_removed p (up_acked u) (up_put p (blocks m |` (- {r})) (up_acked u) m))"
    using process_uplink_idle [OF E(2), of p "up_acked u" st] u by (simp add: up_acked_def)
  then show ?thesis by (simp add: E(1))
qed

text \<open>Stopping touches nothing of the downlink, and frees only the uplink's receiver.\<close>

lemma bt_stop_frame:
  assumes env: "env_ok c e" and w: "link_ok c w" and stop: "bt_stop e w = Some w'"
  shows "w_dl w' = w_dl w" "w_subs w' = w_subs w" "nd_uplink_receiver (w_node w') = None"
    "w_objs w a \<noteq> Some (Receiver POUCH_GATEWAY_GATT_ATTR_UPLINK) \<Longrightarrow> w_objs w' a = w_objs w a"
    "nd_uplink (w_node w) = None \<Longrightarrow> w_up w' = w_up w"
proof -
  define w0 where "w0 = emit (BtGattUnsubscribe POUCH_GATEWAY_GATT_ATTR_UPLINK) w"
  define w1 where "w1 = w0\<lparr>w_objs := w_objs w0 |` (- set (ptr_list (nd_uplink_receiver (w_node w0)))),
      w_node := nd_uplink_receiver_update (\<lambda>_. None) (w_node w0)\<rparr>"
  have recv: "w_objs w r = Some (Receiver POUCH_GATEWAY_GATT_ATTR_UPLINK)" if "nd_uplink_receiver (w_node w) = Some r" for r
    using w that by (auto simp: link_ok_def uplink_part_def live_recv_def)
  have c1: "clear_obj nd_uplink_receiver nd_uplink_receiver_update w0 = Some w1"
    using recv by (subst clear_obj_eq) (auto simp: w1_def clear_same w0_def emit_def)
  have w1: "w_dl w1 = w_dl w" "w_subs w1 = w_subs w" "nd_uplink_receiver (w_node w1) = None"
      "w_up w1 = w_up w" "nd_uplink (w_node w1) = nd_uplink (w_node w)"
    by (simp_all add: w1_def w0_def emit_def)
  have objs: "w_objs w1 a = w_objs w a" if "w_objs w a \<noteq> Some (Receiver POUCH_GATEWAY_GATT_ATTR_UPLINK)"
    using that recv by (cases "nd_uplink_receiver (w_node w)") (auto simp: w1_def w0_def emit_def restrict_map_def)
  have "w_dl w' = w_dl w1 \<and> w_subs w' = w_subs w1 \<and> nd_uplink_receiver (w_node w') = nd_uplink_receiver (w_node w1) \<and>
      w_objs w' = w_objs w1 \<and> (nd_uplink (w_node w) = None \<longrightarrow> w_up w' = w_up w1)"
  proof (cases "nd_uplink (w_node w)")
    case None
    then have "w' = downlink_cleanup w1"
      using stop c1 w1(5) by (simp add: bt_stop_def uplink_cleanup_def w0_def [symmetric])
    then show ?thesis by (simp add: downlink_cleanup_def emit_def)
  next
    case (Some p)
    then obtain evs m where "w' = downlink_cleanup (on_node (\<lambda>n. n\<lparr>nd_uplink := None\<rparr>) (up_calls evs (w1\<lparr>w_up := m\<rparr>)))"
      using stop c1 w1(5)
      by (auto simp: bt_stop_def uplink_cleanup_def w0_def [symmetric] do_uplink_close_def split: bind_splits)
    moreover obtain lg where "up_calls evs (w1\<lparr>w_up := m\<rparr>) = (w1\<lparr>w_up := m\<rparr>)\<lparr>w_node :=
        (if ends evs then (w_node (w1\<lparr>w_up := m\<rparr>))\<lparr>nd_uplink := None\<rparr> else w_node (w1\<lparr>w_up := m\<rparr>)), w_log := lg\<rparr>"
      using up_calls_eq by blast
    ultimately show ?thesis using Some by (simp add: downlink_cleanup_def emit_def on_node_def)
  qed
  with w1 objs show "w_dl w' = w_dl w" "w_subs w' = w_subs w" "nd_uplink_receiver (w_node w') = None"
    "w_objs w a \<noteq> Some (Receiver POUCH_GATEWAY_GATT_ATTR_UPLINK) \<Longrightarrow> w_objs w' a = w_objs w a"
    "nd_uplink (w_node w) = None \<Longrightarrow> w_up w' = w_up w" by simp_all
qed

text \<open>C39. An old uplink ends the new one: a connection may be replaced while the last block of
  its uplink is still under way. When the cloud acknowledges it, the end callback finds the
  node by the index of the connection and clears the pointer of the new uplink \<open>q\<close>, which
  stays allocated; no error is reported, but every further chunk of the new pouch is refused,
  and stopping the node does not close the new uplink either.\<close>

theorem stale_uplink_end:
  assumes env: "env_ok c e" and w: "link_ok c w" and q: "nd_uplink (w_node w) = Some q" "q \<noteq> p"
    and u: "ups (w_up w) p = Some u" "up_rblock u = Some r" "up_queue u = []" "up_closed u"
  shows "\<exists>w' u'. cloud_uploaded e GOLIOTH_OK p w = Some w' \<and> nd_uplink (w_node w') = None \<and>
     ups (w_up w') q = Some u' \<and> \<not> up_closed u' \<and>
     (BtFinished \<in> set (w_log w')) = (BtFinished \<in> set (w_log w)) \<and>
     uplink_data_received_cb e x l w' = Some (- ENOLINK, w') \<and>
     (case bt_stop e w' of None \<Rightarrow> False | Some w'' \<Rightarrow> ups (w_up w'') q = Some u')"
proof -
  obtain u' where u': "ups (w_up w) q = Some u'" "\<not> up_closed u'" using link_uplink [OF w q(1)] .
  note inv = link_up_inv [OF w]
  from block_upload_callback_after [OF inv u(1), of GOLIOTH_OK "e_block_status e"]
    uplink_callback_finishes [OF inv u, of "e_block_status e"]
  obtain m where m: "block_upload_callback c GOLIOTH_OK (e_block_status e) p (w_up w) =
      Some (end_events c POUCH_GATEWAY_UPLINK_SUCCESS (up_acked u), m)"
     and after: "up_after c p (w_up w) (up_closed u) (end_events c POUCH_GATEWAY_UPLINK_SUCCESS (up_acked u)) m"
    by auto
  define w' where "w' = up_calls (end_events c POUCH_GATEWAY_UPLINK_SUCCESS (up_acked u)) (w\<lparr>w_up := m\<rparr>)"
  have run: "cloud_uploaded e GOLIOTH_OK p w = Some w'"
    using m by (simp add: cloud_uploaded_def env_okD(1) [OF env] w'_def)
  have log: "(BtFinished \<in> set (w_log w')) = (BtFinished \<in> set (w_log w))"
    by (simp add: w'_def end_events_def uplink_end_cb_def step_defs)
  obtain lg where eq: "w' = w\<lparr>w_up := m, w_node := (w_node w)\<lparr>nd_uplink := None\<rparr>, w_log := lg\<rparr>"
    using up_calls_eq [of "end_events c POUCH_GATEWAY_UPLINK_SUCCESS (up_acked u)" "w\<lparr>w_up := m\<rparr>"] by (auto simp: w'_def)
  have link: "link_ok c w'" unfolding w'_def by (rule up_calls_link [OF w after]) (use q in simp)
  have mq: "ups m q = Some u'" using after u'(1) q(2) by (simp add: up_after_def)
  obtain w2 where stop: "bt_stop e w' = Some w2" using bt_stop_ok [OF env link] by (auto simp: holds_def)
  then have "w_up w2 = m" using bt_stop_frame [OF env link stop] by (simp add: eq)
  then show ?thesis using run log eq mq u' stop by (auto simp: received_unlinked)
qed

definition gx_old :: up_mem where
  "gx_old = snd (the (block_upload_callback up_ex_cfg GOLIOTH_OK GOLIOTH_OK 0 up_ex_closed))"

definition gx_two :: up_mem where
  "gx_two = snd (snd (the (uplink_open up_ex_cfg (Some 1) up_ex_mal (Some 4) None 7 gx_old)))"

definition gx_reconnected :: world where
  "gx_reconnected = gx_linked\<lparr>w_up := gx_two, w_node := (w_node gx_linked)\<lparr>nd_uplink := Some 1\<rparr>\<rparr>"

lemma gx_old_eq:
  "block_upload_callback up_ex_cfg GOLIOTH_OK GOLIOTH_OK 0 up_ex_closed =
     Some ([UplinkBlock (Some 3) 1 [Some 5, Some 6] True], gx_old)"
  "ups gx_old 0 = Some (up_ex_u\<lparr>up_block_idx := 2, up_rblock := Some 1, up_queue := []\<rparr>)"
  "ups gx_old 1 = None" "blocks gx_old 0 = None"
proof -
  have b: "blocks up_ex_closed 1 = Some \<lparr>pb_len = 2, pb_data = [Some 5, Some 6, None, None]\<rparr>"
    "blocks up_ex_closed 0 = Some \<lparr>pb_len = 4, pb_data = [Some 1, Some 2, Some 3, Some 4]\<rparr>"
    by (simp_all add: up_ex_closed_eq(3) up_ex_written_eq)
  have n: "ups up_ex_closed 1 = None"
    using uplink_close_after [OF up_ex_inv(2), of 0 _ GOLIOTH_OK] up_ex_written_eq(3) up_ex_closed_eq(1)
    by (simp add: up_after_def)
  show "block_upload_callback up_ex_cfg GOLIOTH_OK GOLIOTH_OK 0 up_ex_closed =
     Some ([UplinkBlock (Some 3) 1 [Some 5, Some 6] True], gx_old)"
  "ups gx_old 0 = Some (up_ex_u\<lparr>up_block_idx := 2, up_rblock := Some 1, up_queue := []\<rparr>)"
  "ups gx_old 1 = None" "blocks gx_old 0 = None"
    using b n
    by (simp_all add: gx_old_def block_upload_callback_def upload_cb_clear_def upload_cb_rest_def heap_free_def up_ex_closed_eq(2) process_uplink_def memcpy_from_def up_ex_u_def)
qed

lemma gx_two_eq:
  "up_inv up_ex_cfg gx_two" "ups gx_two 0 = ups gx_old 0" "\<exists>u. ups gx_two 1 = Some u \<and> \<not> up_closed u"
proof -
  have max: "block_max up_ex_cfg \<noteq> 0" by simp
  have old: "up_inv up_ex_cfg gx_old"
    using up_op_inv [OF up_ex_inv(3) max upop_ack [OF gx_old_eq(1)]] by simp
  obtain ev where run: "uplink_open up_ex_cfg (Some 1) up_ex_mal (Some 4) None 7 gx_old = Some (Some 1, ev, gx_two)"
    and u: "ups gx_two = (ups gx_old)(1 \<mapsto> \<lparr>up_session = Some 4, up_block_idx = 0, up_closed = False, up_sending = False,
       up_wblock = Some 0, up_rblock = None, up_queue = [], up_cb_arg = 7\<rparr>)"
    using gx_old_eq(4) by (simp add: gx_two_def uplink_open_def uplink_block_alloc_def up_ex_mal_def)
  show "up_inv up_ex_cfg gx_two" "ups gx_two 0 = ups gx_old 0" "\<exists>u. ups gx_two 1 = Some u \<and> \<not> up_closed u"
    using up_op_inv [OF old max upop_open [OF gx_old_eq(3) up_ex_mal_ok run]] by (simp_all add: u)
qed

lemma gx_reconnected_ok: "link_ok up_ex_cfg gx_reconnected"
  using gx_linked_ok gx_two_eq(1,3)
  by (simp add: gx_reconnected_def link_ok_def mem_ok_def off_defs part_defs)

theorem stale_uplink_end_witness:
  "\<exists>w'. cloud_uploaded gx_env GOLIOTH_OK 0 gx_reconnected = Some w' \<and> nd_uplink (w_node w') = None \<and>
     uplink_data_received_cb gx_env [9] False w' = Some (- ENOLINK, w')"
proof -
  have "nd_uplink (w_node gx_reconnected) = Some 1" "ups (w_up gx_reconnected) 0 =
      Some (up_ex_u\<lparr>up_block_idx := 2, up_rblock := Some 1, up_queue := []\<rparr>)"
    by (simp_all add: gx_reconnected_def gx_two_eq(2) gx_old_eq(2))
  from stale_uplink_end [OF gx_env_ok gx_reconnected_ok this(1) _ this(2), of 1 "[9]" False] show ?thesis
    by auto
qed

text \<open>A stop before the downlink's first block leaks it: until the cloud has data the
  downlink is not subscribed, so when the node is stopped and the stack ends the one
  subscription there is, the handler that frees the downlink does not run. When the next
  connection starts, the record of the node is cleared while the context, which no abort
  marks, the packetizer and the sender are still allocated and nothing points to them.\<close>

theorem stop_leaks_downlink:
  assumes env: "env_ok c e" and w: "link_ok c w" and a: "nd_downlink_ctx (w_node w) = Some a"
    and subs: "w_subs w = {POUCH_GATEWAY_GATT_ATTR_UPLINK}"
  shows "\<exists>w1 w2 k s i. bt_stop e w = Some w1 \<and>
     uplink_notify_end (ended POUCH_GATEWAY_GATT_ATTR_UPLINK w1) = Some (BT_GATT_ITER_STOP, w2) \<and> w_subs w2 = {} \<and>
     w_node (bt_start w2) = node_zero \<and> dl_state (w_dl (bt_start w2)) a = Some False \<and>
     w_objs (bt_start w2) k = Some (Packetizer (DownlinkFill (Some a))) \<and>
     w_objs (bt_start w2) s = Some (Sender i (Some k))"
proof -
  from w a obtain b where "linked POUCH_GATEWAY_GATT_ATTR_DOWNLINK (nd_downlink_sender (w_node w)) (DownlinkFill (Some b)) w"
      and d: "b = a" "dl_state (w_dl w) a = Some False"
    by (auto simp: link_ok_def downlink_part_def)
  then obtain s k where sk: "w_objs w k = Some (Packetizer (DownlinkFill (Some a)))"
      "w_objs w s = Some (Sender POUCH_GATEWAY_GATT_ATTR_DOWNLINK (Some k))"
    by (auto simp: linked_def)
  obtain w1 where stop: "bt_stop e w = Some w1" using bt_stop_ok [OF env w] by (auto simp: holds_def)
  note F = bt_stop_frame [OF env w stop]
  have keep: "w_objs w1 k = w_objs w k" "w_objs w1 s = w_objs w s" by (rule F(4), simp add: sk)+
  define v where "v = ended POUCH_GATEWAY_GATT_ATTR_UPLINK w1"
  have "uplink_notify_end v = Some (BT_GATT_ITER_STOP, on_node (\<lambda>n. n\<lparr>nd_uplink_receiver := None\<rparr>) (emit DestroyNull v))"
    using F(3) by (simp add: uplink_notify_end_def obj_destroy_def v_def ended_def emit_def on_node_def)
  then show ?thesis
    using stop keep sk d F(1,2) subs
    by (intro exI [of _ w1] exI [of _ "on_node (\<lambda>n. n\<lparr>nd_uplink_receiver := None\<rparr>) (emit DestroyNull v)"]
          exI [of _ k] exI [of _ s] exI [of _ POUCH_GATEWAY_GATT_ATTR_DOWNLINK])
       (simp add: bt_start_def v_def ended_def emit_def on_node_def)
qed

theorem stop_leaks_downlink_witness:
  "\<exists>w1 w2 k s i. bt_stop gx_env gx_linked = Some w1 \<and>
     uplink_notify_end (ended POUCH_GATEWAY_GATT_ATTR_UPLINK w1) = Some (BT_GATT_ITER_STOP, w2) \<and> w_subs w2 = {} \<and>
     w_node (bt_start w2) = node_zero \<and> dl_state (w_dl (bt_start w2)) 0 = Some False \<and>
     w_objs (bt_start w2) k = Some (Packetizer (DownlinkFill (Some 0))) \<and>
     w_objs (bt_start w2) s = Some (Sender i (Some k))"
  using stop_leaks_downlink [OF gx_env_ok gx_linked_ok, of 0] by simp

section \<open>A failed certificate finishes twice\<close>

text \<open>Where the device certificate does not fit, \<open>device_cert_data_received_cb\<close> reports the
  end of the connection, and \<open>device_cert_notify_cb\<close> reports it again.\<close>

lemma device_cert_error_finishes_twice:
  assumes env: "env_ok c e" and w: "device_ok c w" and r: "nd_device_cert_receiver (w_node w) = Some r"
    and a: "nd_device_cert_ctx (w_node w) = Some a" "w_dc w a = Some d"
    and push: "device_cert_push c d x = Some (err, d')" "err \<noteq> 0"
    and recv: "e_receive e = replay_chunks ((x, l) # cs) ret complete"
  shows "\<exists>w'. device_cert_notify_cb e fin w = Some (BT_GATT_ITER_STOP, w') \<and>
     w_log w' = w_log w @ [BtFinished, BtFinished]"
proof -
  have "w_objs w r = Some (Receiver POUCH_GATEWAY_GATT_ATTR_DEVICE_CERT)"
    using w r by (simp add: device_ok_def live_recv_def)
  then show ?thesis
    using r a push env_okD(1) [OF env]
    by (simp add: device_cert_notify_cb_def recv device_cert_data_received_cb_def device_cert_cleanup_def
        device_cert_abort_def clear_obj_def obj_destroy_def heap_free_def step_defs)
qed

end
