(* ===== verification/Gatt_Exchange.thy ===== *)
theory Gatt_Exchange
  imports Gatt_Properties
begin

text \<open>
  The exchange that precedes a pouch, end to end over the transports: what a notification of
  the information record or of the device certificate does with the chunks it carries, what
  the packets of the server certificate carry, and where the exchange goes on.
\<close>

section \<open>Device certificate\<close>

text \<open>The context of a node that collects, and what it holds.\<close>

definition device_holds :: "config \<Rightarrow> addr \<Rightarrow> byte list \<Rightarrow> world \<Rightarrow> bool" where
  "device_holds c a acc w \<longleftrightarrow> nd_device_cert_ctx (w_node w) = Some a \<and>
     (\<exists>d. w_dc w a = Some d \<and> dc_ok c d \<and> dc_data d = map Some acc)"

lemma dc_memcpy: "dc_ok c d \<Longrightarrow> memcpy_from (dc_buf d) 0 (unat (dc_len d)) = Some (dc_data d)"
  by (simp add: dc_ok_def buf_ok_def dc_data_def buf_data_def word_le_nat_alt)

lemma device_chunk:
  assumes env: "e_conf e = c" "e_cert_status e = GOLIOTH_OK" and cloud: "cloud c" and h: "device_holds c a acc w"
    and fits: "length acc + length x \<le> unat (device_cert_max c)"
  shows "\<exists>w'. device_cert_data_received_cb e x l w = Some (0, w') \<and>
    (if l then nd_device_cert_ctx (w_node w') = None \<and> w_dc w' a = None \<and>
        w_log w' = w_log w @ [DeviceCertSet (map Some (acc @ x))]
     else device_holds c a (acc @ x) w' \<and> w_log w' = w_log w)"
proof -
  obtain d where d: "nd_device_cert_ctx (w_node w) = Some a" "w_dc w a = Some d" "dc_ok c d" "dc_data d = map Some acc"
    using h by (auto simp: device_holds_def)
  obtain d' where d': "device_cert_push c d x = Some (0, d')" "dc_ok c d'" "dc_data d' = map Some (acc @ x)"
    using dcb.push_fits [OF d(3), of x] d(4) fits by auto
  show ?thesis
  proof (cases l)
    case True
    then show ?thesis using d d' env cloud dc_memcpy [OF d'(2)]
      by (simp add: device_cert_data_received_cb_def device_cert_finish_step_def device_cert_finish_def
          device_cert_abort_def emit_def on_node_def)
  next
    case False
    then show ?thesis using d d' env by (simp add: device_cert_data_received_cb_def device_holds_def)
  qed
qed

lemma device_chunks:
  assumes env: "e_conf e = c" "e_cert_status e = GOLIOTH_OK" and cloud: "cloud c" and cs: "chunks_ok cs"
    and h: "device_holds c a acc w" and fits: "length acc + length (concat (map fst cs)) \<le> unat (device_cert_max c)"
  shows "\<exists>w'. replay_chunks cs err complete (device_cert_data_received_cb e) w = Some (err, complete, w') \<and>
    (if True \<in> snd ` set cs
     then nd_device_cert_ctx (w_node w') = None \<and> w_dc w' a = None \<and>
        w_log w' = w_log w @ [DeviceCertSet (map Some (acc @ concat (map fst cs)))]
     else device_holds c a (acc @ concat (map fst cs)) w' \<and> w_log w' = w_log w)"
  using cs h fits
proof (induction cs arbitrary: w acc)
  case Nil
  then show ?case by simp
next
  case (Cons ch cs)
  obtain x l where ch: "ch = (x, l)" by (cases ch)
  have cs: "chunks_ok cs" using Cons.prems(1) by (cases cs) (auto simp: chunks_ok_def)
  have fx: "length acc + length x \<le> unat (device_cert_max c)" using Cons.prems(3) by (simp add: ch)
  obtain w1 where w1: "device_cert_data_received_cb e x l w = Some (0, w1)"
    "if l then nd_device_cert_ctx (w_node w1) = None \<and> w_dc w1 a = None \<and>
        w_log w1 = w_log w @ [DeviceCertSet (map Some (acc @ x))]
     else device_holds c a (acc @ x) w1 \<and> w_log w1 = w_log w"
    using device_chunk [OF env cloud Cons.prems(2) fx] by blast
  show ?case
  proof (cases l)
    case True
    then have "cs = []" using Cons.prems(1) by (cases cs) (auto simp: chunks_ok_def ch)
    then show ?thesis using w1 True by (simp add: ch)
  next
    case False
    then have "device_holds c a (acc @ x) w1" "w_log w1 = w_log w" using w1(2) by simp_all
    moreover obtain w' where "replay_chunks cs err complete (device_cert_data_received_cb e) w1 = Some (err, complete, w')"
      "if True \<in> snd ` set cs
       then nd_device_cert_ctx (w_node w') = None \<and> w_dc w' a = None \<and>
          w_log w' = w_log w1 @ [DeviceCertSet (map Some ((acc @ x) @ concat (map fst cs)))]
       else device_holds c a ((acc @ x) @ concat (map fst cs)) w' \<and> w_log w' = w_log w1"
      using Cons.IH [OF cs calculation(1)] Cons.prems(3) by (auto simp: ch)
    ultimately show ?thesis using w1(1) False by (auto simp: ch split: if_splits)
  qed
qed

section \<open>Information record\<close>

definition info_holds :: "addr \<Rightarrow> byte list \<Rightarrow> world \<Rightarrow> bool" where
  "info_holds a acc w \<longleftrightarrow> nd_info_ctx (w_node w) = Some a \<and>
     (\<exists>x. w_in w a = Some x \<and> in_ok x \<and> in_data x = map Some acc)"

text \<open>What the node is then taken to have: the serial number of its server certificate is the
  current one; bit 0 of its flags.\<close>

definition has_server_cert :: "env \<Rightarrow> server_crt \<Rightarrow> byte list \<Rightarrow> bool" where
  "has_server_cert e s bytes =
     (case e_decode e (map Some bytes) of None \<Rightarrow> False | Some info \<Rightarrow> map Some (server_cert_snr info) = crt_serial_bytes s)"

definition has_device_cert :: "env \<Rightarrow> byte list \<Rightarrow> bool" where
  "has_device_cert e bytes = (case e_decode e (map Some bytes) of None \<Rightarrow> False | Some info \<Rightarrow> odd (info_flags info))"

definition info_known :: "env \<Rightarrow> addr \<Rightarrow> byte list \<Rightarrow> world \<Rightarrow> world \<Rightarrow> bool" where
  "info_known e a bytes w w' \<longleftrightarrow> nd_info_ctx (w_node w') = None \<and> w_in w' a = None \<and> w_log w' = w_log w \<and>
     nd_server_cert_provisioned (w_node w') = (nd_server_cert_provisioned (w_node w) \<or> has_server_cert e (w_crt w) bytes) \<and>
     nd_device_cert_provisioned (w_node w') = (nd_device_cert_provisioned (w_node w) \<or> has_device_cert e bytes)"

definition info_same :: "world \<Rightarrow> world \<Rightarrow> bool" where
  "info_same w w' \<longleftrightarrow> w_log w' = w_log w \<and> w_crt w' = w_crt w \<and>
     nd_server_cert_provisioned (w_node w') = nd_server_cert_provisioned (w_node w) \<and>
     nd_device_cert_provisioned (w_node w') = nd_device_cert_provisioned (w_node w)"

lemma info_chunk:
  assumes crt: "crt_ok c (w_crt w)" "zcbor_ok (e_compare e)" and h: "info_holds a acc w"
    and fits: "length acc + length x \<le> unat INFO_MAX_SIZE"
  shows "\<exists>w'. info_data_received_cb e x l w = Some (0, w') \<and>
    (if l then info_known e a (acc @ x) w w' else info_holds a (acc @ x) w' \<and> info_same w w')"
proof -
  obtain d where d: "nd_info_ctx (w_node w) = Some a" "w_in w a = Some d" "in_ok d" "in_data d = map Some acc"
    using h by (auto simp: info_holds_def)
  obtain d' where d': "info_push d x = Some (0, d')" "in_ok d'" "in_data d' = map Some (acc @ x)"
    using inb.push_fits [OF d(3), of x] d(4) fits by auto
  show ?thesis
  proof (cases l)
    case True
    have "((w_in w)(a \<mapsto> d')) a = Some d'" by simp
    note F = info_finish_eq [where h = "(w_in w)(a \<mapsto> d')", OF crt this d'(2), of "e_decode e"]
    show ?thesis using True d d' F
      by (cases "e_decode e (map Some (acc @ x))")
         (simp_all add: info_data_received_cb_def info_known_def has_server_cert_def has_device_cert_def on_node_def)
  next
    case False
    then show ?thesis using d d' by (simp add: info_data_received_cb_def info_holds_def info_same_def)
  qed
qed

lemma info_chunks:
  assumes crt: "crt_ok c (w_crt w)" "zcbor_ok (e_compare e)" and cs: "chunks_ok cs" and h: "info_holds a acc w"
    and fits: "length acc + length (concat (map fst cs)) \<le> unat INFO_MAX_SIZE"
  shows "\<exists>w'. replay_chunks cs err complete (info_data_received_cb e) w = Some (err, complete, w') \<and>
    (if True \<in> snd ` set cs then info_known e a (acc @ concat (map fst cs)) w w'
     else info_holds a (acc @ concat (map fst cs)) w' \<and> info_same w w')"
  using crt(1) cs h fits
proof (induction cs arbitrary: w acc)
  case Nil
  then show ?case by (simp add: info_same_def)
next
  case (Cons ch cs)
  obtain x l where ch: "ch = (x, l)" by (cases ch)
  have cs: "chunks_ok cs" using Cons.prems(2) by (cases cs) (auto simp: chunks_ok_def)
  have fx: "length acc + length x \<le> unat INFO_MAX_SIZE" using Cons.prems(4) by (simp add: ch)
  obtain w1 where w1: "info_data_received_cb e x l w = Some (0, w1)"
    "if l then info_known e a (acc @ x) w w1 else info_holds a (acc @ x) w1 \<and> info_same w w1"
    using info_chunk [OF Cons.prems(1) crt(2) Cons.prems(3) fx] by blast
  show ?case
  proof (cases l)
    case True
    then have "cs = []" using Cons.prems(2) by (cases cs) (auto simp: chunks_ok_def ch)
    then show ?thesis using w1 True by (simp add: ch)
  next
    case False
    then have h1: "info_holds a (acc @ x) w1" "info_same w w1" using w1(2) by simp_all
    then have "crt_ok c (w_crt w1)" using Cons.prems(1) by (simp add: info_same_def)
    from Cons.IH [OF this cs h1(1)] Cons.prems(4) obtain w' where
      IH: "replay_chunks cs err complete (info_data_received_cb e) w1 = Some (err, complete, w')"
      "if True \<in> snd ` set cs then info_known e a ((acc @ x) @ concat (map fst cs)) w1 w'
       else info_holds a ((acc @ x) @ concat (map fst cs)) w' \<and> info_same w1 w'"
      by (auto simp: ch)
    then show ?thesis using w1(1) False h1(2)
      by (auto simp: ch info_same_def info_known_def split: if_splits)
  qed
qed

section \<open>Server certificate\<close>

text \<open>One packet of the server certificate; the end of it is reached exactly when nothing is
  pending any more.\<close>

lemma server_packet:
  assumes crt: "crt_ok c (w_crt w)" and a: "w_sc w a = Some x"
  obtains cs r x' where "server_cert_fill_cb e (Some a) n w =
       Some (r, w\<lparr>w_sc := (w_sc w)(a \<mapsto> x'), w_log := w_log w @ [Filled POUCH_GATEWAY_GATT_ATTR_SERVER_CERT cs r]\<rparr>)"
     "sc_id x' = sc_id x" "sc_pending (w_crt w) x = cs @ sc_pending (w_crt w) x'"
     "(r = POUCH_GATT_PACKETIZER_MORE_DATA) = (sc_pending (w_crt w) x' \<noteq> [])"
proof (cases "sc_offset x < crt_len (w_crt w)")
  case False
  then have "sc_pending (w_crt w) x = []"
    using length_crt_cert [OF crt] by (simp add: sc_pending_def word_less_nat_alt)
  moreover have "(w_sc w)(a \<mapsto> x) = w_sc w" using a by (simp add: fun_upd_idem)
  ultimately show ?thesis
    using that [of POUCH_GATT_PACKETIZER_ERROR "[]" x] a False server_cert_get_data_end [of "w_crt w" x n]
    by (simp add: server_cert_fill_cb_def emit_def errno_defs not_less)
next
  case True
  then have "sc_ok c (w_crt w) x" using crt by (simp add: sc_ok_def)
  from server_cert_get_data_eq [OF this True, of n] obtain k x' where
    E: "server_cert_get_data (w_crt w) x n =
         Some (0, k, take (unat n) (sc_pending (w_crt w) x), sc_offset x' = crt_len (w_crt w), x')"
       "sc_ok c (w_crt w) x'" "sc_id x' = sc_id x"
       "sc_pending (w_crt w) x' = drop (unat n) (sc_pending (w_crt w) x)" by blast
  have "(sc_offset x' = crt_len (w_crt w)) = (sc_pending (w_crt w) x' = [])"
    using E(2) length_crt_cert [OF crt] by (auto simp: sc_pending_def sc_ok_def word_le_nat_alt word_unat_eq_iff)
  then show ?thesis
    using that [of "if sc_pending (w_crt w) x' = [] then POUCH_GATT_PACKETIZER_NO_MORE_DATA
        else POUCH_GATT_PACKETIZER_MORE_DATA" "take (unat n) (sc_pending (w_crt w) x)" x'] a E
    by (simp add: server_cert_fill_cb_def emit_def errno_defs)
qed

lemma server_packets:
  assumes crt: "crt_ok c (w_crt w)" and a: "w_sc w a = Some x"
  shows "\<exists>fills x'. replay_fills ns ret complete (server_cert_fill_cb e (Some a)) w = Some (ret, complete,
       w\<lparr>w_sc := (w_sc w)(a \<mapsto> x'),
         w_log := w_log w @ map (\<lambda>(cs, r). Filled POUCH_GATEWAY_GATT_ATTR_SERVER_CERT cs r) fills\<rparr>) \<and>
     length fills = length ns \<and> sc_id x' = sc_id x \<and>
     sc_pending (w_crt w) x = concat (map fst fills) @ sc_pending (w_crt w) x' \<and>
     (if sc_pending (w_crt w) x' = [] then fills = [] \<or> snd (last fills) \<noteq> POUCH_GATT_PACKETIZER_MORE_DATA
      else snd ` set fills \<subseteq> {POUCH_GATT_PACKETIZER_MORE_DATA})"
  using assms
proof (induction ns arbitrary: w x)
  case Nil
  then show ?case by (intro exI [of _ "[]"] exI [of _ x]) (simp add: fun_upd_idem)
next
  case (Cons n ns)
  obtain cs r x1 where step: "server_cert_fill_cb e (Some a) n w =
       Some (r, w\<lparr>w_sc := (w_sc w)(a \<mapsto> x1), w_log := w_log w @ [Filled POUCH_GATEWAY_GATT_ATTR_SERVER_CERT cs r]\<rparr>)"
     "sc_id x1 = sc_id x" "sc_pending (w_crt w) x = cs @ sc_pending (w_crt w) x1"
     "(r = POUCH_GATT_PACKETIZER_MORE_DATA) = (sc_pending (w_crt w) x1 \<noteq> [])"
    using server_packet [OF Cons.prems, of e n] .
  define v where "v = w\<lparr>w_sc := (w_sc w)(a \<mapsto> x1), w_log := w_log w @ [Filled POUCH_GATEWAY_GATT_ATTR_SERVER_CERT cs r]\<rparr>"
  have v: "crt_ok c (w_crt v)" "w_sc v a = Some x1" "w_crt v = w_crt w" using Cons.prems(1) by (simp_all add: v_def)
  from Cons.IH [OF v(1,2)] obtain fills x' where
    IH: "replay_fills ns ret complete (server_cert_fill_cb e (Some a)) v = Some (ret, complete,
       v\<lparr>w_sc := (w_sc v)(a \<mapsto> x'),
         w_log := w_log v @ map (\<lambda>(cs, r). Filled POUCH_GATEWAY_GATT_ATTR_SERVER_CERT cs r) fills\<rparr>)"
     "length fills = length ns" "sc_id x' = sc_id x1"
     "sc_pending (w_crt w) x1 = concat (map fst fills) @ sc_pending (w_crt w) x'"
     "if sc_pending (w_crt w) x' = [] then fills = [] \<or> snd (last fills) \<noteq> POUCH_GATT_PACKETIZER_MORE_DATA
      else snd ` set fills \<subseteq> {POUCH_GATT_PACKETIZER_MORE_DATA}"
    unfolding v(3) by blast
  show ?case
  proof (intro exI conjI)
    show "replay_fills (n # ns) ret complete (server_cert_fill_cb e (Some a)) w = Some (ret, complete,
       w\<lparr>w_sc := (w_sc w)(a \<mapsto> x'),
         w_log := w_log w @ map (\<lambda>(cs, r). Filled POUCH_GATEWAY_GATT_ATTR_SERVER_CERT cs r) ((cs, r) # fills)\<rparr>)"
      using step(1) IH(1) by (simp add: v_def)
    show "if sc_pending (w_crt w) x' = []
      then (cs, r) # fills = [] \<or> snd (last ((cs, r) # fills)) \<noteq> POUCH_GATT_PACKETIZER_MORE_DATA
      else snd ` set ((cs, r) # fills) \<subseteq> {POUCH_GATT_PACKETIZER_MORE_DATA}"
      using step(4) IH(4,5) by auto
  qed (use step IH in simp_all)
qed

lemma clear_obj_next:
  assumes "clear_obj get upd w = Some w'" "\<And>f n. nd_server_cert_next (upd f n) = nd_server_cert_next n"
  shows "nd_server_cert_next (w_node w') = nd_server_cert_next (w_node w)"
  using assms by (auto simp: clear_obj_def obj_destroy_def on_node_def emit_def split: option.splits bind_splits)

lemma server_cert_cleanup_next:
  assumes "server_cert_cleanup w = Some w'"
  shows "nd_server_cert_next (w_node w') = nd_server_cert_next (w_node w)"
  using assms
  by (auto simp: server_cert_cleanup_def on_node_def split: bind_splits option.splits dest!: clear_obj_next)

section \<open>Properties\<close>

text \<open>C21. The device certificate reaches the cloud: the chunks of a notification are appended,
  in order, to what the node's context has collected; the last chunk hands the whole of it,
  byte for byte, to the cloud and frees the context; and when the receiver reports the end
  of the transfer, the resources are released and the uplink is started.\<close>

theorem device_cert_forwarded:
  assumes env: "env_ok c e" "e_cert_status e = GOLIOTH_OK" "cloud c" and w: "device_ok c w"
    and r: "nd_device_cert_receiver (w_node w) = Some r" and h: "device_holds c a acc w"
    and cs: "chunks_ok cs" "e_receive e = replay_chunks cs 0 complete"
    and fits: "length acc + length (concat (map fst cs)) \<le> unat (device_cert_max c)"
  shows "\<exists>w1 w2 w3. e_receive e (device_cert_data_received_cb e) w = Some (0, complete, w1) \<and>
     device_cert_notify_cb e fin w =
       Some (if complete then (BT_GATT_ITER_STOP, w3) else (BT_GATT_ITER_CONTINUE, w1)) \<and>
     (if True \<in> snd ` set cs
      then nd_device_cert_ctx (w_node w1) = None \<and> w_dc w1 a = None \<and>
         w_log w1 = w_log w @ [DeviceCertSet (map Some (acc @ concat (map fst cs)))]
      else device_holds c a (acc @ concat (map fst cs)) w1 \<and> w_log w1 = w_log w) \<and>
     device_cert_cleanup w1 = Some w2 \<and> idle_ok c w2 \<and> uplink_start e w2 = Some w3 \<and> link_ok c w3"
proof -
  obtain w1 where run: "replay_chunks cs 0 complete (device_cert_data_received_cb e) w = Some (0, complete, w1)"
    and res: "if True \<in> snd ` set cs
      then nd_device_cert_ctx (w_node w1) = None \<and> w_dc w1 a = None \<and>
         w_log w1 = w_log w @ [DeviceCertSet (map Some (acc @ concat (map fst cs)))]
      else device_holds c a (acc @ concat (map fst cs)) w1 \<and> w_log w1 = w_log w"
    using device_chunks [OF env_okD(1) [OF env(1)] env(2,3) cs(1) h fits] by blast
  have "nd_device_cert_ctx (w_node w) \<noteq> None" using h by (simp add: device_holds_def)
  then have "holds (\<lambda>(r, b, w'). device_ok c w') (replay_chunks cs 0 complete (device_cert_data_received_cb e) w)"
    using w env(1) by (intro dc_sink.receive_ready [OF cs(1)]) simp
  then have "device_ok c w1" by (simp add: run)
  then obtain w2 where w2: "device_cert_cleanup w1 = Some w2" "idle_ok c w2"
    using device_cert_cleanup_ok by (auto simp: holds_def)
  obtain w3 where w3: "uplink_start e w2 = Some w3" "link_ok c w3"
    using uplink_start_ok [OF env(1) w2(2)] by (auto simp: holds_def)
  show ?thesis
    using r run res w2 w3 by (intro exI [of _ w1] exI [of _ w2] exI [of _ w3]) (simp add: device_cert_notify_cb_def cs(2))
qed

definition gx_device :: world where
  "gx_device = (world_init up_ex_cfg)
     \<lparr>w_node := node_zero\<lparr>nd_device_cert_ctx := Some 0, nd_device_cert_receiver := Some 1\<rparr>,
      w_dc := [0 \<mapsto> \<lparr>dc_len = 0, dc_buf = replicate (unat (device_cert_max up_ex_cfg)) None\<rparr>],
      w_objs := [1 \<mapsto> Receiver POUCH_GATEWAY_GATT_ATTR_DEVICE_CERT], w_subs := {POUCH_GATEWAY_GATT_ATTR_DEVICE_CERT}\<rparr>"

lemma gx_device_ok: "device_ok up_ex_cfg gx_device" "device_holds up_ex_cfg 0 [] gx_device"
  using world_init_ok [of up_ex_cfg] dcb.init_ok [of up_ex_cfg]
  by (simp_all add: gx_device_def device_ok_def idle_ok_def mem_ok_def off_defs live_recv_def device_holds_def
      world_init_def node_zero_def)

theorem device_cert_forwarded_witness:
  "\<exists>w1 w2 w3. device_cert_notify_cb (gx_env\<lparr>e_receive := replay_chunks [([1, 2], False), ([3], True)] 0 True\<rparr>) False gx_device
       = Some (BT_GATT_ITER_STOP, w3) \<and> device_cert_cleanup w1 = Some w2 \<and>
     uplink_start (gx_env\<lparr>e_receive := replay_chunks [([1, 2], False), ([3], True)] 0 True\<rparr>) w2 = Some w3 \<and>
     w_log w1 = w_log gx_device @ [DeviceCertSet [Some 1, Some 2, Some 3]] \<and> link_ok up_ex_cfg w3"
proof -
  define e where "e = gx_env\<lparr>e_receive := replay_chunks [([1, 2], False), ([3], True)] 0 True\<rparr>"
  have env: "env_ok up_ex_cfg e" "e_cert_status e = GOLIOTH_OK"
    using gx_env_ok by (simp add: env_ok_def e_def ack_ok_def) (simp add: e_def gx_env_def)
  have cs: "chunks_ok [([1, 2], False), ([3 :: byte], True)]" "e_receive e = replay_chunks [([1, 2], False), ([3], True)] 0 True"
    by (simp_all add: chunks_ok_def e_def)
  have r: "nd_device_cert_receiver (w_node gx_device) = Some 1" by (simp add: gx_device_def)
  have "cloud up_ex_cfg" "3 \<le> unat (device_cert_max up_ex_cfg)" by (simp_all add: up_ex_cfg_def kconfig_default_def)
  then show ?thesis
    using device_cert_forwarded [OF env _ gx_device_ok(1) r gx_device_ok(2) cs, of False]
    unfolding e_def [symmetric] by simp blast
qed

text \<open>C22. The information record decides the exchange: the chunks of a notification are
  appended to what the context has; the last chunk decodes the whole record, adds to the
  node's two answers (its server certificate has the current serial number, bit 0 of its
  flags is set) and frees the context, also where the record does not decode; and when the
  receiver reports the end, the exchange goes on with the server certificate.\<close>

theorem info_exchange:
  assumes env: "env_ok c e" and w: "info_ok c w" and r: "nd_info_receiver (w_node w) = Some r"
    and h: "info_holds a acc w" and cs: "chunks_ok cs" "e_receive e = replay_chunks cs 0 complete"
    and fits: "length acc + length (concat (map fst cs)) \<le> unat INFO_MAX_SIZE"
  shows "\<exists>w1 w2 w3. e_receive e (info_data_received_cb e) w = Some (0, complete, w1) \<and>
     info_notify_cb e fin w =
       Some (if complete then (BT_GATT_ITER_STOP, w3) else (BT_GATT_ITER_CONTINUE, w1)) \<and>
     (if True \<in> snd ` set cs
      then nd_info_ctx (w_node w1) = None \<and> w_in w1 a = None \<and>
        nd_server_cert_provisioned (w_node w1) =
          (nd_server_cert_provisioned (w_node w) \<or> has_server_cert e (w_crt w) (acc @ concat (map fst cs))) \<and>
        nd_device_cert_provisioned (w_node w1) =
          (nd_device_cert_provisioned (w_node w) \<or> has_device_cert e (acc @ concat (map fst cs)))
      else info_holds a (acc @ concat (map fst cs)) w1) \<and>
     info_cleanup w1 = Some w2 \<and> idle_ok c w2 \<and> server_cert_write e w2 = Some w3 \<and> node_ok c w3"
proof -
  have crt: "crt_ok c (w_crt w)" "zcbor_ok (e_compare e)"
    using w env by (simp_all add: info_ok_def mem_ok_def env_ok_def)
  obtain w1 where run: "replay_chunks cs 0 complete (info_data_received_cb e) w = Some (0, complete, w1)"
    and res: "if True \<in> snd ` set cs then info_known e a (acc @ concat (map fst cs)) w w1
      else info_holds a (acc @ concat (map fst cs)) w1 \<and> info_same w w1"
    using info_chunks [OF crt cs(1) h fits] by blast
  have "nd_info_ctx (w_node w) \<noteq> None" using h by (simp add: info_holds_def)
  then have "holds (\<lambda>(r, b, w'). info_ok c w') (replay_chunks cs 0 complete (info_data_received_cb e) w)"
    using w env by (intro in_sink.receive_ready [OF cs(1)]) simp
  then have "info_ok c w1" by (simp add: run)
  then obtain w2 where w2: "info_cleanup w1 = Some w2" "idle_ok c w2"
    using info_cleanup_ok by (auto simp: holds_def)
  obtain w3 where w3: "server_cert_write e w2 = Some w3" "node_ok c w3"
    using server_cert_write_ok [OF env w2(2)] by (auto simp: holds_def)
  show ?thesis
    using r run res w2 w3
    by (intro exI [of _ w1] exI [of _ w2] exI [of _ w3])
       (simp add: info_notify_cb_def cs(2) info_known_def split: if_splits)
qed

definition gx_info :: world where
  "gx_info = (world_init up_ex_cfg)
     \<lparr>w_node := node_zero\<lparr>nd_info_ctx := Some 0, nd_info_receiver := Some 1\<rparr>,
      w_in := [0 \<mapsto> \<lparr>in_len = 0, in_buf = replicate (unat INFO_MAX_SIZE) None\<rparr>],
      w_objs := [1 \<mapsto> Receiver POUCH_GATEWAY_GATT_ATTR_INFO], w_subs := {POUCH_GATEWAY_GATT_ATTR_INFO}\<rparr>"

lemma gx_info_ok: "info_ok up_ex_cfg gx_info" "info_holds 0 [] gx_info"
  using world_init_ok [of up_ex_cfg] inb.init_ok
  by (simp_all add: gx_info_def info_ok_def idle_ok_def mem_ok_def off_defs live_recv_def info_holds_def
      world_init_def node_zero_def)

theorem info_exchange_witness:
  "\<exists>w1 w2 w3. info_notify_cb (gx_env\<lparr>e_receive := replay_chunks [([1], True)] 0 True, e_decode := info_ex_decode\<rparr>) False gx_info
       = Some (BT_GATT_ITER_STOP, w3) \<and> info_cleanup w1 = Some w2 \<and>
     server_cert_write (gx_env\<lparr>e_receive := replay_chunks [([1], True)] 0 True, e_decode := info_ex_decode\<rparr>) w2 = Some w3 \<and> nd_device_cert_provisioned (w_node w1) \<and> node_ok up_ex_cfg w3"
proof -
  define e where "e = gx_env\<lparr>e_receive := replay_chunks [([1], True)] 0 True, e_decode := info_ex_decode\<rparr>"
  have env: "env_ok up_ex_cfg e" using gx_env_ok by (simp add: env_ok_def e_def ack_ok_def)
  have cs: "chunks_ok [([1 :: byte], True)]" "e_receive e = replay_chunks [([1], True)] 0 True"
    by (simp_all add: chunks_ok_def e_def)
  have r: "nd_info_receiver (w_node gx_info) = Some 1" by (simp add: gx_info_def)
  have "has_device_cert e [1]" by (simp add: has_device_cert_def e_def info_ex_decode_def)
  then show ?thesis
    using info_exchange [OF env gx_info_ok(1) r gx_info_ok(2) cs, of False]
    unfolding e_def [symmetric] by (simp add: INFO_MAX_SIZE_def) blast
qed

text \<open>C20. The server certificate reaches the node: whenever its sender runs, the packets carry,
  in order and exactly once, the next of the bytes that are pending, and a packet is marked
  as the last exactly when nothing is left; and when the sender reports the end of the
  transfer, the end of the subscription goes on with the device certificate if the
  certificate sent is still the installed one, and sends the new one otherwise.\<close>

theorem server_cert_handover:
  assumes env: "env_ok c e" and w: "server_ok c w"
    and a: "nd_server_cert_ctx (w_node w) = Some a" "w_sc w a = Some x"
    and ack: "e_ack e = replay_fills ns 0 complete"
  shows "\<exists>fills x' w1 w2 w3. server_cert_notify_cb e is_ack w =
       Some (if complete then BT_GATT_ITER_STOP else BT_GATT_ITER_CONTINUE, w1) \<and>
     w_log w1 = w_log w @ map (\<lambda>(cs, r). Filled POUCH_GATEWAY_GATT_ATTR_SERVER_CERT cs r) fills \<and>
     w_sc w1 a = Some x' \<and> sc_pending (w_crt w) x = concat (map fst fills) @ sc_pending (w_crt w) x' \<and>
     (if sc_pending (w_crt w) x' = [] then fills = [] \<or> snd (last fills) \<noteq> POUCH_GATT_PACKETIZER_MORE_DATA
      else snd ` set fills \<subseteq> {POUCH_GATT_PACKETIZER_MORE_DATA}) \<and>
     server_cert_cleanup (ended POUCH_GATEWAY_GATT_ATTR_SERVER_CERT w1) = Some w2 \<and>
     (if server_cert_is_newest (w_crt w) x then device_cert_read e w2 else server_cert_write e w2) = Some w3 \<and>
     (if complete
      then server_cert_notify_end e (ended POUCH_GATEWAY_GATT_ATTR_SERVER_CERT w1) =
         Some (BT_GATT_ITER_STOP, set_next SERVER_CERT_NEXT_END w3)
      else nd_server_cert_next (w_node w1) = nd_server_cert_next (w_node w))"
proof -
  have crt: "crt_ok c (w_crt w)"
    and link: "linked POUCH_GATEWAY_GATT_ATTR_SERVER_CERT (nd_server_cert_sender (w_node w)) (ServerCertFill (Some a)) w"
    using w a(1) by (auto simp: server_ok_def mem_ok_def)
  obtain s where s: "nd_server_cert_sender (w_node w) = Some s" using link by (auto simp: linked_def)
  have src: "sender_source (nd_server_cert_sender (w_node w)) w = Some (ServerCertFill (Some a))"
    using link by (auto simp: linked_def sender_source_def)
  obtain fills x' where F: "replay_fills ns 0 complete (server_cert_fill_cb e (Some a)) w = Some (0, complete,
       w\<lparr>w_sc := (w_sc w)(a \<mapsto> x'),
         w_log := w_log w @ map (\<lambda>(cs, r). Filled POUCH_GATEWAY_GATT_ATTR_SERVER_CERT cs r) fills\<rparr>)"
     "sc_id x' = sc_id x" "sc_pending (w_crt w) x = concat (map fst fills) @ sc_pending (w_crt w) x'"
     "if sc_pending (w_crt w) x' = [] then fills = [] \<or> snd (last fills) \<noteq> POUCH_GATT_PACKETIZER_MORE_DATA
      else snd ` set fills \<subseteq> {POUCH_GATT_PACKETIZER_MORE_DATA}"
    using server_packets [OF crt a(2), of ns 0 complete e] by blast
  define v where "v = w\<lparr>w_sc := (w_sc w)(a \<mapsto> x'),
         w_log := w_log w @ map (\<lambda>(cs, r). Filled POUCH_GATEWAY_GATT_ATTR_SERVER_CERT cs r) fills\<rparr>"
  define nxt where "nxt = (if server_cert_is_newest (w_crt w) x then SERVER_CERT_NEXT_DEVICE_CERT
    else SERVER_CERT_NEXT_SERVER_CERT)"
  define w1 where "w1 = (if complete then set_next nxt v else v)"
  have n: "server_cert_notify_cb e is_ack w = Some (if complete then BT_GATT_ITER_STOP else BT_GATT_ITER_CONTINUE, w1)"
    using s src F(1,2) a ack
    by (simp add: server_cert_notify_cb_def server_cert_sender_run_def v_def [symmetric] w1_def nxt_def
        server_cert_is_newest_def) (simp add: v_def)
  have "server_ok c v" using w a by (auto simp: v_def server_ok_def mem_ok_def off_defs linked_def)
  then have "server_ok c w1" by (simp add: w1_def)
  then have "server_live c (ended POUCH_GATEWAY_GATT_ATTR_SERVER_CERT w1)"
    by (intro server_ok_live phase_ended(2) node_ended_server)
  then obtain w2 where w2: "server_cert_cleanup (ended POUCH_GATEWAY_GATT_ATTR_SERVER_CERT w1) = Some w2" "idle_ok c w2"
    using server_cert_cleanup_ok by (auto simp: holds_def)
  obtain w3 where w3: "(if server_cert_is_newest (w_crt w) x then device_cert_read e w2 else server_cert_write e w2) = Some w3"
    using device_cert_read_ok [OF env w2(2)] server_cert_write_ok [OF env w2(2)]
    by (cases "server_cert_is_newest (w_crt w) x") (auto simp: holds_def)
  have "nd_server_cert_next (w_node w2) = nd_server_cert_next (w_node w1)"
    using server_cert_cleanup_next [OF w2(1)] by (simp add: ended_def)
  then have "server_cert_notify_end e (ended POUCH_GATEWAY_GATT_ATTR_SERVER_CERT w1) =
         Some (BT_GATT_ITER_STOP, set_next SERVER_CERT_NEXT_END w3)" if complete
    using that w2 w3
    by (simp add: server_cert_notify_end_def w1_def nxt_def split: if_splits) (simp_all add: set_next_def on_node_def)
  then show ?thesis using n F w2 w3
    by (intro exI [of _ fills] exI [of _ x'] exI [of _ w1] exI [of _ w2] exI [of _ w3])
       (simp add: w1_def v_def set_next_def on_node_def)
qed

definition gx_server :: world where
  "gx_server = (world_init up_ex_cfg)
     \<lparr>w_crt := (server_crt_init up_ex_cfg)\<lparr>crt_buf := [Some 1, Some 2, Some 3] @
         replicate (unat (server_cert_max up_ex_cfg) - 3) (Some 0), crt_len := 3, crt_id := 1\<rparr>,
      w_node := node_zero\<lparr>nd_server_cert_ctx := Some 0, nd_packetizer := Some 0, nd_server_cert_sender := Some 1\<rparr>,
      w_sc := [0 \<mapsto> \<lparr>sc_id = 1, sc_offset = 0\<rparr>],
      w_objs := [0 \<mapsto> Packetizer (ServerCertFill (Some 0)), 1 \<mapsto> Sender POUCH_GATEWAY_GATT_ATTR_SERVER_CERT (Some 0)],
      w_subs := {POUCH_GATEWAY_GATT_ATTR_SERVER_CERT}\<rparr>"

lemma gx_server_ok:
  "server_ok up_ex_cfg gx_server" "sc_pending (w_crt gx_server) \<lparr>sc_id = 1, sc_offset = 0\<rparr> = [Some 1, Some 2, Some 3]"
proof -
  have max: "server_cert_max up_ex_cfg = 4096" by (simp add: up_ex_cfg_def kconfig_default_def)
  have "crt_ok up_ex_cfg (w_crt gx_server)"
    using server_crt_init_ok(1) [of up_ex_cfg] by (simp add: gx_server_def crt_ok_def max word_le_nat_alt)
  then show "server_ok up_ex_cfg gx_server"
    using world_init_ok [of up_ex_cfg]
    by (simp add: gx_server_def server_ok_def idle_ok_def mem_ok_def off_defs linked_def world_init_def node_zero_def)
  show "sc_pending (w_crt gx_server) \<lparr>sc_id = 1, sc_offset = 0\<rparr> = [Some 1, Some 2, Some 3]"
    by (simp add: gx_server_def sc_pending_def crt_cert_def)
qed

theorem server_cert_handover_witness:
  "\<exists>fills w1 w2 w3. server_cert_notify_cb (gx_env\<lparr>e_ack := replay_fills [2, 2] 0 True\<rparr>) True gx_server
       = Some (BT_GATT_ITER_STOP, w1) \<and>
     w_log w1 = w_log gx_server @ map (\<lambda>(cs, r). Filled POUCH_GATEWAY_GATT_ATTR_SERVER_CERT cs r) fills \<and>
     (\<exists>rest. [Some 1, Some 2, Some 3] = concat (map fst fills) @ rest) \<and>
     device_cert_read (gx_env\<lparr>e_ack := replay_fills [2, 2] 0 True\<rparr>) w2 = Some w3 \<and>
     server_cert_notify_end (gx_env\<lparr>e_ack := replay_fills [2, 2] 0 True\<rparr>) (ended POUCH_GATEWAY_GATT_ATTR_SERVER_CERT w1)
       = Some (BT_GATT_ITER_STOP, set_next SERVER_CERT_NEXT_END w3)"
proof -
  define e where "e = gx_env\<lparr>e_ack := replay_fills [2, 2] 0 True\<rparr>"
  have env: "env_ok up_ex_cfg e" "e_ack e = replay_fills [2, 2] 0 True"
    using gx_env_ok by (auto simp: env_ok_def e_def ack_ok_def)
  have a: "nd_server_cert_ctx (w_node gx_server) = Some 0" "w_sc gx_server 0 = Some \<lparr>sc_id = 1, sc_offset = 0\<rparr>"
    by (simp_all add: gx_server_def)
  have new: "server_cert_is_newest (w_crt gx_server) \<lparr>sc_id = 1, sc_offset = 0\<rparr>"
    by (simp add: server_cert_is_newest_def gx_server_def)
  show ?thesis
    using server_cert_handover [OF env(1) gx_server_ok(1) a env(2), of True] new gx_server_ok(2)
    unfolding e_def by auto
qed

end
