(* ===== verification/Gatt_Progress.thy ===== *)
theory Gatt_Progress
  imports Gatt_Exchange
begin

text \<open>
  No silent end: after every call for a connection the node waits for the stack on a
  subscription whose receiver or sender is there, or it has asked for the end of the
  connection, with the ends of three subscriptions as the exception.
\<close>

section \<open>Asking for the end\<close>

definition extends :: "world \<Rightarrow> world \<Rightarrow> bool" where
  "extends w w' \<longleftrightarrow> (\<exists>l. w_log w' = w_log w @ l)"

definition asks :: "world \<Rightarrow> world \<Rightarrow> bool" where
  "asks w w' \<longleftrightarrow> (\<exists>l. w_log w' = w_log w @ l \<and> BtFinished \<in> set l)"

definition awaits :: "world \<Rightarrow> bool" where
  "awaits w \<longleftrightarrow>
     POUCH_GATEWAY_GATT_ATTR_INFO \<in> w_subs w \<and> nd_info_receiver (w_node w) \<noteq> None \<or>
     POUCH_GATEWAY_GATT_ATTR_SERVER_CERT \<in> w_subs w \<and> nd_server_cert_sender (w_node w) \<noteq> None \<or>
     POUCH_GATEWAY_GATT_ATTR_DEVICE_CERT \<in> w_subs w \<and> nd_device_cert_receiver (w_node w) \<noteq> None \<or>
     POUCH_GATEWAY_GATT_ATTR_UPLINK \<in> w_subs w \<and> nd_uplink_receiver (w_node w) \<noteq> None \<or>
     POUCH_GATEWAY_GATT_ATTR_DOWNLINK \<in> w_subs w \<and> nd_downlink_sender (w_node w) \<noteq> None"

lemma extends_refl [simp]: "extends w w"
  by (simp add: extends_def)

lemma extends_trans: "extends w1 w2 \<Longrightarrow> extends w2 w3 \<Longrightarrow> extends w1 w3"
  by (auto simp: extends_def)

lemma asks_trans: "extends w1 w2 \<Longrightarrow> asks w2 w3 \<Longrightarrow> asks w1 w3"
  by (auto simp: extends_def asks_def)

lemma asks_extends: "asks w1 w2 \<Longrightarrow> extends w2 w3 \<Longrightarrow> asks w1 w3"
  by (auto simp: extends_def asks_def)

lemma extends_emit [simp]: "extends w w' \<Longrightarrow> extends w (emit ev w')"
  by (auto simp: extends_def emit_def)

lemma extends_same: "w_log w' = w_log w \<Longrightarrow> extends w w'"
  by (simp add: extends_def)

lemma extends_log: "w_log w'' = w_log w' \<Longrightarrow> extends w w'' = extends w w'"
  by (simp add: extends_def)

lemma asks_finished: "extends w w' \<Longrightarrow> asks w (bt_finished w')"
  by (auto simp: extends_def asks_def bt_finished_def emit_def)

section \<open>What the operations leave alone\<close>

text \<open>The clean-ups touch neither the log nor the subscriptions.\<close>

definition quiet :: "world \<Rightarrow> world \<Rightarrow> bool" where
  "quiet w w' \<longleftrightarrow> w_log w' = w_log w \<and> w_subs w' = w_subs w"

lemma quiet_extends: "quiet w w' \<Longrightarrow> extends w w'"
  by (simp add: quiet_def extends_same)

lemma quiet_on_node [simp]: "quiet w (on_node f w') = quiet w w'"
  by (simp add: quiet_def on_node_def)

lemma quiet_clear: "clear_obj get upd w = Some w' \<Longrightarrow> quiet w w'"
  by (auto simp: clear_obj_def obj_destroy_def quiet_def on_node_def split: option.splits bind_splits)

lemma quiet_trans: "quiet w1 w2 \<Longrightarrow> quiet w2 w3 \<Longrightarrow> quiet w1 w3"
  by (simp add: quiet_def)

lemma quiet_create: "obj_create e ob w = (p, w') \<Longrightarrow> quiet w w' \<and> w_node w' = w_node w"
  by (auto simp: obj_create_def quiet_def split: option.splits)

lemma bind_someE: "m \<bind> k = Some y \<Longrightarrow> (\<And>x. m = Some x \<Longrightarrow> k x = Some y \<Longrightarrow> P) \<Longrightarrow> P"
  by (cases m) auto

text \<open>The context is aborted first.\<close>

lemma quiet_abort:
  assumes "(case p of None \<Rightarrow> Some w | Some a \<Rightarrow> do { h \<leftarrow> f a; Some (g h w) }) = Some w'" "\<And>h. quiet w (g h w)"
  shows "quiet w w'"
  using assms by (auto simp: quiet_def split: option.splits bind_splits)

lemma info_cleanup_quiet: "info_cleanup w = Some w' \<Longrightarrow> quiet w w'"
  unfolding info_cleanup_def
  by (erule bind_someE, drule quiet_abort, simp add: quiet_def on_node_def, drule quiet_clear) (simp add: quiet_def)

lemma device_cert_cleanup_quiet: "device_cert_cleanup w = Some w' \<Longrightarrow> quiet w w'"
  unfolding device_cert_cleanup_def
  by (erule bind_someE, drule quiet_abort, simp add: quiet_def on_node_def, drule quiet_clear) (simp add: quiet_def)

lemma server_cert_cleanup_quiet: "server_cert_cleanup w = Some w' \<Longrightarrow> quiet w w'"
  unfolding server_cert_cleanup_def
  by (erule bind_someE, drule quiet_abort, simp add: quiet_def on_node_def, erule bind_someE, drule quiet_clear,
      drule quiet_clear) (simp add: quiet_def)

lemma cleanup_downlink_quiet: "cleanup_downlink w = Some w' \<Longrightarrow> quiet w w'"
  unfolding cleanup_downlink_def cleanup_downlink_ctx_def
  by (erule bind_someE, drule quiet_abort, simp add: quiet_def on_node_def, erule bind_someE, drule quiet_clear,
      drule quiet_clear) (simp add: quiet_def)

lemma fail_asks:
  "info_fail w = Some w' \<Longrightarrow> asks w w'" "device_cert_fail w = Some w' \<Longrightarrow> asks w w'"
  "server_cert_fail w = Some w' \<Longrightarrow> asks w w'"
  unfolding info_fail_def device_cert_fail_def server_cert_fail_def
  by (erule bind_someE, use info_cleanup_quiet device_cert_cleanup_quiet server_cert_cleanup_quiet asks_finished quiet_extends in fastforce)+

lemma subscribe_frame:
  "gatt_subscribe e i w = (err, w') \<Longrightarrow> extends w w' \<and> w_node w' = w_node w \<and> w_subs w \<subseteq> w_subs w' \<and> (err = 0 \<longrightarrow> i \<in> w_subs w')"
  by (auto simp: gatt_subscribe_def extends_def emit_def Let_def)

lemma quiet_then: "quiet w w1 \<Longrightarrow> w_log w' = w_log w1 \<Longrightarrow> w_subs w' = w_subs w1 \<Longrightarrow> quiet w w'"
  by (simp add: quiet_def)

lemma quiet_downlink_start:
  assumes "downlink_start e w = Some (p, w')"
  shows "quiet w w'"
proof -
  obtain ctx m where o: "downlink_open (e_mal e (ctxs (w_dl w))) (e_conn e) (w_dl w) = (ctx, m)" by fastforce
  define w1 where "w1 = on_node (\<lambda>n. n\<lparr>nd_downlink_ctx := ctx\<rparr>) (w\<lparr>w_dl := m\<rparr>)"
  obtain pk w2 where k: "obj_create e (Packetizer (DownlinkFill ctx)) w1 = (pk, w2)" by fastforce
  define w3 where "w3 = on_node (\<lambda>n. n\<lparr>nd_packetizer := pk\<rparr>) w2"
  obtain s w4 where s: "obj_create e (Sender POUCH_GATEWAY_GATT_ATTR_DOWNLINK pk) w3 = (s, w4)" by fastforce
  define w5 where "w5 = on_node (\<lambda>n. n\<lparr>nd_downlink_sender := s\<rparr>) w4"
  have 1: "quiet w w1" by (simp add: w1_def quiet_def on_node_def)
  have 3: "quiet w w3" using quiet_create [OF k] 1 by (simp add: w3_def quiet_def on_node_def)
  have 5: "quiet w w5" using quiet_create [OF s] 3 by (simp add: w5_def quiet_def on_node_def)
  have "w' = w \<or> w' = w1 \<or> cleanup_downlink w3 = Some w' \<or> cleanup_downlink w5 = Some w' \<or>
      w' = on_node (\<lambda>n. n\<lparr>nd_downlink_subscribed := False\<rparr>) w5"
    using assms unfolding downlink_start_def o Let_def prod.case w1_def [symmetric] k w3_def [symmetric] s w5_def [symmetric]
    by (auto split: if_splits bind_splits)
  then show ?thesis
    using 1 3 5 quiet_trans [OF 3 cleanup_downlink_quiet] quiet_trans [OF 5 cleanup_downlink_quiet]
    by (auto simp: quiet_def on_node_def)
qed

definition up_call :: "up_event \<Rightarrow> world \<Rightarrow> world" where
  "up_call ev w = (let w1 = emit (UpEvent ev) w in (case ev of UplinkEnd arg res \<Rightarrow> uplink_end_cb res w1 | _ \<Rightarrow> w1))"

lemma up_calls_Cons: "up_calls (ev # evs) w = up_calls evs (up_call ev w)"
  by (simp add: up_call_def)

lemma up_call_frame:
  "extends w (up_call ev w)" "w_subs (up_call ev w) = w_subs w"
  "nd_uplink_receiver (w_node (up_call ev w)) = nd_uplink_receiver (w_node w)"
  by (cases ev; simp add: up_call_def uplink_end_cb_def extends_def step_defs)+

lemma up_calls_extends: "extends w (up_calls evs w)"
proof (induction evs arbitrary: w)
  case (Cons ev evs)
  show ?case unfolding up_calls_Cons by (rule extends_trans [OF up_call_frame(1) Cons.IH])
qed simp

lemma up_calls_keep [simp]:
  "w_subs (up_calls evs w) = w_subs w" "nd_uplink_receiver (w_node (up_calls evs w)) = nd_uplink_receiver (w_node w)"
  by (induction evs arbitrary: w) (simp_all add: up_calls_Cons up_call_frame del: up_calls.simps(2))

section \<open>Starting a transport\<close>

text \<open>A start ends in a subscription with its receiver or sender, or asks for the end.\<close>

lemma uplink_start_progress:
  assumes "uplink_start e w = Some w'"
  shows "asks w w' \<or> awaits w'"
proof (cases "att_ccc POUCH_GATEWAY_GATT_ATTR_UPLINK w = 0")
  case True
  then have "w' = bt_finished w" using assms by (simp add: uplink_start_def)
  then show ?thesis by (simp add: asks_finished)
next
  case False
  then obtain dl w1 where d: "downlink_start e w = Some (dl, w1)" using assms by (auto simp: uplink_start_def elim!: bind_someE)
  have 1: "extends w w1" using quiet_downlink_start [OF d] by (rule quiet_extends)
  show ?thesis
  proof (cases dl)
    case None
    then have "w' = bt_finished w1" using assms False d by (simp add: uplink_start_def)
    then show ?thesis using 1 by (simp add: asks_finished)
  next
    case (Some a)
    then obtain p evs m where o: "uplink_open (e_conf e) (e_mal e (ups (w_up w1))) (e_mal e) (e_session e) dl
                            (e_conn e) (w_up w1) = Some (p, evs, m)"
      using assms False d by (auto simp: uplink_start_def elim!: bind_someE)
    define w2 where "w2 = on_node (\<lambda>n. n\<lparr>nd_uplink := p\<rparr>) (up_calls evs (w1\<lparr>w_up := m\<rparr>))"
    have "extends w1 (up_calls evs (w1\<lparr>w_up := m\<rparr>))"
      using up_calls_extends [of "w1\<lparr>w_up := m\<rparr>" evs] by (simp add: extends_def)
    then have 2: "extends w w2" using extends_trans [OF 1] by (simp add: w2_def extends_def on_node_def)
    obtain r w3 where c: "obj_create e (Receiver POUCH_GATEWAY_GATT_ATTR_UPLINK) w2 = (r, w3)" by fastforce
    define w4 where "w4 = on_node (\<lambda>n. n\<lparr>nd_uplink_receiver := r\<rparr>) w3"
    have 4: "extends w w4" using 2 quiet_create [OF c] by (simp add: w4_def extends_def on_node_def quiet_def)
    obtain err w5 where g: "gatt_subscribe e POUCH_GATEWAY_GATT_ATTR_UPLINK w4 = (err, w5)" by fastforce
    note G = subscribe_frame [OF g]
    have 5: "extends w w5" using extends_trans [OF 4] G by blast
    have "w' = bt_finished w2 \<or> w' = bt_finished w4 \<or> w' = bt_finished w5 \<or> (w' = w5 \<and> r \<noteq> None \<and> err = 0)"
      using assms unfolding uplink_start_def d Let_def bind.simps prod.case o w2_def [symmetric] c w4_def [symmetric] g
      by (auto simp: False Some split: if_splits)
    moreover have "awaits w5" if "r \<noteq> None" "err = 0"
      using G that by (simp add: awaits_def w4_def on_node_def)
    ultimately show ?thesis using asks_finished [OF 2] asks_finished [OF 4] asks_finished [OF 5] by blast
  qed
qed

lemma device_cert_read_progress:
  assumes "device_cert_read e w = Some w'"
  shows "asks w w' \<or> awaits w'"
proof (cases "nd_device_cert_provisioned (w_node w) \<or> att_ccc POUCH_GATEWAY_GATT_ATTR_DEVICE_CERT w = 0")
  case True
  then show ?thesis using assms uplink_start_progress [of e w w'] asks_finished [of w w]
    by (auto simp: device_cert_read_def split: if_splits)
next
  case False
  obtain p h where s: "device_cert_start (e_conf e) (e_mal e (w_dc w)) (w_dc w) = (p, h)" by fastforce
  define w1 where "w1 = on_node (\<lambda>n. n\<lparr>nd_device_cert_ctx := p\<rparr>) (w\<lparr>w_dc := h\<rparr>)"
  obtain r w2 where c: "obj_create e (Receiver POUCH_GATEWAY_GATT_ATTR_DEVICE_CERT) w1 = (r, w2)" by fastforce
  define w3 where "w3 = on_node (\<lambda>n. n\<lparr>nd_device_cert_receiver := r\<rparr>) w2"
  obtain err w4 where g: "gatt_subscribe e POUCH_GATEWAY_GATT_ATTR_DEVICE_CERT w3 = (err, w4)" by fastforce
  note G = subscribe_frame [OF g]
  have 1: "extends w w1" by (simp add: w1_def extends_def on_node_def)
  have 3: "extends w w3" using 1 quiet_create [OF c] by (simp add: w3_def extends_def on_node_def quiet_def)
  have 4: "extends w w4" using extends_trans [OF 3] G by blast
  have "device_cert_fail w1 = Some w' \<or> device_cert_fail w3 = Some w' \<or> device_cert_fail w4 = Some w' \<or>
      (w' = w4 \<and> r \<noteq> None \<and> err = 0)"
    using assms False unfolding device_cert_read_def s Let_def prod.case w1_def [symmetric] c w3_def [symmetric] g
    by (auto split: if_splits)
  moreover have "awaits w4" if "r \<noteq> None" "err = 0"
    using G that by (simp add: awaits_def w3_def on_node_def)
  ultimately show ?thesis
    using asks_trans [OF 1 fail_asks(2)] asks_trans [OF 3 fail_asks(2)] asks_trans [OF 4 fail_asks(2)] by blast
qed

lemma server_cert_write_progress:
  assumes "server_cert_write e w = Some w'"
  shows "asks w w' \<or> awaits w'"
proof (cases "nd_server_cert_provisioned (w_node w) \<or> att_value POUCH_GATEWAY_GATT_ATTR_SERVER_CERT w = 0")
  case True
  then show ?thesis using assms device_cert_read_progress fail_asks(3)
    by (auto simp: server_cert_write_def split: if_splits)
next
  case False
  obtain p h where s: "server_cert_start (w_crt w) (e_mal e (w_sc w)) (w_sc w) = (p, h)" by fastforce
  define w1 where "w1 = on_node (\<lambda>n. n\<lparr>nd_server_cert_ctx := p\<rparr>) (w\<lparr>w_sc := h\<rparr>)"
  obtain pk w2 where k: "obj_create e (Packetizer (ServerCertFill p)) w1 = (pk, w2)" by fastforce
  define w3 where "w3 = on_node (\<lambda>n. n\<lparr>nd_packetizer := pk\<rparr>) w2"
  obtain sd w4 where c: "obj_create e (Sender POUCH_GATEWAY_GATT_ATTR_SERVER_CERT pk) w3 = (sd, w4)" by fastforce
  define w5 where "w5 = on_node (\<lambda>n. n\<lparr>nd_server_cert_sender := sd\<rparr>) w4"
  define w6 where "w6 = on_node (\<lambda>n. n\<lparr>nd_server_cert_next := SERVER_CERT_NEXT_END\<rparr>) w5"
  obtain err w7 where g: "gatt_subscribe e POUCH_GATEWAY_GATT_ATTR_SERVER_CERT w6 = (err, w7)" by fastforce
  note G = subscribe_frame [OF g]
  have 1: "extends w w1" by (simp add: w1_def extends_def on_node_def)
  have 3: "extends w w3" using 1 quiet_create [OF k] by (simp add: w3_def extends_def on_node_def quiet_def)
  have 5: "extends w w5" using 3 quiet_create [OF c] by (simp add: w5_def extends_def on_node_def quiet_def)
  have 6: "extends w w6" using 5 by (simp add: w6_def extends_def on_node_def)
  have 7: "extends w w7" using extends_trans [OF 6] G by blast
  have "server_cert_fail w1 = Some w' \<or> server_cert_fail w3 = Some w' \<or> server_cert_fail w5 = Some w' \<or>
      server_cert_fail w7 = Some w' \<or> (w' = w7 \<and> sd \<noteq> None \<and> err = 0)"
    using assms False
    unfolding server_cert_write_def s Let_def prod.case w1_def [symmetric] k w3_def [symmetric] c w5_def [symmetric]
      w6_def [symmetric] g
    by (auto split: if_splits)
  moreover have "awaits w7" if "sd \<noteq> None" "err = 0"
    using G that by (simp add: awaits_def w6_def w5_def on_node_def)
  ultimately show ?thesis
    using asks_trans [OF 1 fail_asks(3)] asks_trans [OF 3 fail_asks(3)] asks_trans [OF 5 fail_asks(3)]
      asks_trans [OF 7 fail_asks(3)] by blast
qed

lemma info_read_start_progress:
  assumes "info_read_start e w = Some w'"
  shows "asks w w' \<or> awaits w'"
proof -
  define w0 where "w0 = on_node (\<lambda>n. n\<lparr>nd_server_cert_provisioned := False, nd_device_cert_provisioned := False\<rparr>) w"
  obtain p h where s: "info_start (e_mal e (w_in w0)) (w_in w0) = (p, h)" by fastforce
  define w1 where "w1 = on_node (\<lambda>n. n\<lparr>nd_info_ctx := p\<rparr>) (w0\<lparr>w_in := h\<rparr>)"
  obtain r w2 where c: "obj_create e (Receiver POUCH_GATEWAY_GATT_ATTR_INFO) w1 = (r, w2)" by fastforce
  define w3 where "w3 = on_node (\<lambda>n. n\<lparr>nd_info_receiver := r\<rparr>) w2"
  obtain err w4 where g: "gatt_subscribe e POUCH_GATEWAY_GATT_ATTR_INFO w3 = (err, w4)" by fastforce
  note G = subscribe_frame [OF g]
  have 1: "extends w w1" by (simp add: w1_def w0_def extends_def on_node_def)
  have 3: "extends w w3" using 1 quiet_create [OF c] by (simp add: w3_def extends_def on_node_def quiet_def)
  have 4: "extends w w4" using extends_trans [OF 3] G by blast
  have "w' = bt_finished w1 \<or> info_fail w3 = Some w' \<or> info_fail w4 = Some w' \<or> (w' = w4 \<and> r \<noteq> None \<and> err = 0)"
    using assms unfolding info_read_start_def w0_def [symmetric] s Let_def prod.case w1_def [symmetric] c w3_def [symmetric] g
    by (auto split: if_splits)
  moreover have "awaits w4" if "r \<noteq> None" "err = 0"
    using G that by (simp add: awaits_def w3_def on_node_def)
  ultimately show ?thesis
    using asks_finished [OF 1] asks_trans [OF 3 fail_asks(1)] asks_trans [OF 4 fail_asks(1)] by blast
qed

section \<open>Callbacks\<close>

text \<open>A data or fill callback that reports no error leaves the subscriptions, the receivers
  and the senders alone.\<close>

definition same_ends :: "world \<Rightarrow> world \<Rightarrow> bool" where
  "same_ends w w' \<longleftrightarrow> nd_info_receiver (w_node w') = nd_info_receiver (w_node w) \<and>
     nd_server_cert_sender (w_node w') = nd_server_cert_sender (w_node w) \<and>
     nd_device_cert_receiver (w_node w') = nd_device_cert_receiver (w_node w) \<and>
     nd_uplink_receiver (w_node w') = nd_uplink_receiver (w_node w) \<and>
     nd_downlink_sender (w_node w') = nd_downlink_sender (w_node w)"

definition calm :: "int \<Rightarrow> world \<Rightarrow> world \<Rightarrow> bool" where
  "calm err w w' \<longleftrightarrow> extends w w' \<and> w_subs w' = w_subs w \<and> (if err = 0 then same_ends w w' else True)"

lemma calm_refl [simp]: "calm err w w"
  by (simp add: calm_def same_ends_def)

lemma calm_trans: "calm 0 w1 w2 \<Longrightarrow> calm err w2 w3 \<Longrightarrow> calm err w1 w3"
  by (auto simp: calm_def same_ends_def intro: extends_trans split: if_splits)

lemma calm_awaits: "calm 0 w w' \<Longrightarrow> awaits w' = awaits w"
  by (simp add: calm_def same_ends_def awaits_def)

lemma replay_chunks_calm:
  assumes cb: "\<And>x l w r w'. cb x l w = Some (r, w') \<Longrightarrow> calm r w w'"
    and run: "replay_chunks cs ret complete cb w = Some (err, b, w')"
  shows "calm err w w'"
  using run
proof (induction cs arbitrary: w)
  case (Cons ch cs)
  obtain x l where ch: "ch = (x, l)" by (cases ch)
  obtain r w1 where r: "cb x l w = Some (r, w1)" using Cons.prems by (auto simp: ch elim: bind_someE)
  show ?case
  proof (cases "r = 0")
    case True
    then show ?thesis using Cons r calm_trans [OF cb [OF r, unfolded True]] by (simp add: ch)
  next
    case False
    then show ?thesis using Cons.prems r cb [OF r] by (simp add: ch)
  qed
qed simp

lemma replay_fills_calm:
  assumes fill: "\<And>n w r w'. fill n w = Some (r, w') \<Longrightarrow> calm 0 w w'"
    and run: "replay_fills ns ret complete fill w = Some (err, b, w')"
  shows "calm 0 w w'"
  using run
proof (induction ns arbitrary: w)
  case (Cons n ns)
  obtain r w1 where r: "fill n w = Some (r, w1)" using Cons.prems by (auto elim: bind_someE)
  then show ?case using Cons calm_trans [OF fill [OF r]] by simp
qed simp

lemma fill_calm:
  "downlink_packet_fill_cb e p n w = Some (r, w') \<Longrightarrow> calm 0 w w'"
  "server_cert_fill_cb e p n w = Some (r, w') \<Longrightarrow> calm 0 w w'"
  by (auto simp: downlink_packet_fill_cb_def server_cert_fill_cb_def calm_def same_ends_def Let_def extends_def emit_def
      elim!: bind_someE)

lemma info_data_calm: "info_data_received_cb e x l w = Some (r, w') \<Longrightarrow> calm r w w'"
  by (auto simp: info_data_received_cb_def calm_def same_ends_def Let_def extends_def on_node_def
      elim!: bind_someE split: if_splits)

lemma device_cert_data_calm:
  assumes "device_cert_data_received_cb e x l w = Some (r, w')"
  shows "calm r w w'"
proof -
  obtain a d err d' where d: "nd_device_cert_ctx (w_node w) = Some a" "w_dc w a = Some d"
      "device_cert_push (e_conf e) d x = Some (err, d')"
    using assms by (auto simp: device_cert_data_received_cb_def elim!: bind_someE)
  define w1 where "w1 = w\<lparr>w_dc := (w_dc w)(a \<mapsto> d')\<rparr>"
  have 1: "calm 0 w w1" by (simp add: w1_def calm_def same_ends_def extends_def)
  obtain err2 w2 where s: "(if err = 0 \<and> l then device_cert_finish_step e w1 else Some (err, w1)) = Some (err2, w2)"
    unfolding w1_def using assms d by (auto simp: device_cert_data_received_cb_def Let_def elim!: bind_someE)
  have "calm 0 w1 w2"
    using s by (auto simp: device_cert_finish_step_def calm_def same_ends_def extends_def emit_def on_node_def Let_def
        elim!: bind_someE split: if_splits option.splits)
  then have 2: "calm 0 w w2" by (rule calm_trans [OF 1])
  have "(if err2 \<noteq> 0 then do { w3 \<leftarrow> device_cert_cleanup w2; Some (err2, bt_finished w3) } else Some (err2, w2)) = Some (r, w')"
    using assms d s unfolding w1_def by (simp add: device_cert_data_received_cb_def Let_def)
  then consider "r = 0" "w' = w2" | w3 where "r \<noteq> 0" "device_cert_cleanup w2 = Some w3" "w' = bt_finished w3"
    by (auto elim!: bind_someE split: if_splits)
  then show ?thesis
  proof cases
    case (2 w3)
    then show ?thesis using \<open>calm 0 w w2\<close> device_cert_cleanup_quiet [OF 2(2)]
      by (auto simp: calm_def quiet_def extends_def bt_finished_def emit_def)
  qed (use 2 in simp)
qed

lemma up_calls_same_ends [simp]: "same_ends w (up_calls evs w)"
proof (induction evs arbitrary: w)
  case (Cons ev evs)
  have "same_ends w (up_call ev w)"
    by (cases ev; simp add: up_call_def uplink_end_cb_def same_ends_def step_defs)
  then show ?case using Cons.IH [of "up_call ev w"] unfolding up_calls_Cons by (simp add: same_ends_def)
qed (simp add: same_ends_def)

lemma up_calls_calm: "calm err w (up_calls evs (w\<lparr>w_up := m\<rparr>))"
  using up_calls_extends [of "w\<lparr>w_up := m\<rparr>" evs] up_calls_same_ends [of "w\<lparr>w_up := m\<rparr>" evs]
  by (simp add: calm_def same_ends_def extends_def)

lemma uplink_close_calm: "do_uplink_close e w = Some w' \<Longrightarrow> calm err w w'"
  by (auto simp: do_uplink_close_def up_calls_calm elim!: bind_someE)

lemma calm_on_node: "calm err w w' \<Longrightarrow> calm err w (on_node (\<lambda>n. n\<lparr>nd_uplink := p\<rparr>) w')"
  by (cases "err = 0") (simp_all add: calm_def same_ends_def extends_def on_node_def)

lemma uplink_data_calm: "uplink_data_received_cb e x l w = Some (r, w') \<Longrightarrow> calm r w w'"
  by (auto simp: uplink_data_received_cb_def Let_def elim!: bind_someE split: option.splits if_splits
      intro!: calm_on_node up_calls_calm intro: calm_trans [OF up_calls_calm uplink_close_calm])

section \<open>Every call\<close>

lemma recv_calm:
  assumes "recv_done_ok e b \<or> recv_ok e" "\<And>x l w r w'. cb x l w = Some (r, w') \<Longrightarrow> calm r w w'"
    "e_receive e cb w = Some (err, complete, w')"
  shows "calm err w w'"
  using assms(1,3) by (auto simp: recv_ok_def recv_done_ok_def intro: replay_chunks_calm [OF assms(2)])

lemma ack_calm:
  assumes "env_ok c e" "\<And>n w r w'. fill n w = Some (r, w') \<Longrightarrow> calm 0 w w'"
    "e_ack e fill w = Some (err, complete, w')"
  shows "calm 0 w w'"
  using assms(1,3) by (auto simp: env_ok_def ack_ok_def intro: replay_fills_calm [OF assms(2)])

lemma sender_calm:
  assumes "env_ok c e"
  shows "downlink_sender_run e w = Some (err, complete, w') \<Longrightarrow> calm 0 w w'"
    "server_cert_sender_run e w = Some (err, complete, w') \<Longrightarrow> calm 0 w w'"
proof -
  show "calm 0 w w'" if run: "downlink_sender_run e w = Some (err, complete, w')"
  proof -
    obtain p where "e_ack e (downlink_packet_fill_cb e p) w = Some (err, complete, w')"
      using run by (auto simp: downlink_sender_run_def elim!: bind_someE split: fill_source.splits)
    then show ?thesis using ack_calm [OF assms] fill_calm(1) by blast
  qed
  show "calm 0 w w'" if run: "server_cert_sender_run e w = Some (err, complete, w')"
  proof -
    obtain p where "e_ack e (server_cert_fill_cb e p) w = Some (err, complete, w')"
      using run by (auto simp: server_cert_sender_run_def elim!: bind_someE split: fill_source.splits)
    then show ?thesis using ack_calm [OF assms] fill_calm(2) by blast
  qed
qed

lemma info_call_progress:
  assumes "recv_done_ok e b" "info_notify_cb e fin w = Some (i, w')" "POUCH_GATEWAY_GATT_ATTR_INFO \<in> w_subs w" "awaits w"
  shows "asks w w' \<or> awaits w'"
proof (cases "nd_info_receiver (w_node w)")
  case None
  then have "calm 0 w w'"
    using assms(2) by (auto simp: info_notify_cb_def calm_def same_ends_def extends_def emit_def split: if_splits)
  then show ?thesis using assms(4) by (simp add: calm_awaits)
next
  case (Some r)
  then obtain err complete w1 where run: "e_receive e (info_data_received_cb e) w = Some (err, complete, w1)"
    and w': "(if err \<noteq> 0 then do { w2 \<leftarrow> info_cleanup w1; Some (BT_GATT_ITER_STOP, bt_finished w2) }
        else if complete then do { w2 \<leftarrow> info_cleanup w1; w3 \<leftarrow> server_cert_write e w2; Some (BT_GATT_ITER_STOP, w3) }
        else Some (BT_GATT_ITER_CONTINUE, w1)) = Some (i, w')"
    using assms(2) by (auto simp: info_notify_cb_def elim!: bind_someE)
  have c: "calm err w w1" using recv_calm [OF disjI1 [OF assms(1)] info_data_calm run] .
  then have x: "extends w w1" by (simp add: calm_def)
  consider "w' = w1" "err = 0" | w2 where "info_cleanup w1 = Some w2" "w' = bt_finished w2"
    | w2 where "info_cleanup w1 = Some w2" "server_cert_write e w2 = Some w'"
    using w' by (auto elim!: bind_someE split: if_splits)
  then show ?thesis
  proof cases
    case 1
    then show ?thesis using c assms(4) by (simp add: calm_awaits)
  next
    case (2 w2)
    then show ?thesis using extends_trans [OF x quiet_extends [OF info_cleanup_quiet]] asks_finished by blast
  next
    case (3 w2)
    then show ?thesis
      using extends_trans [OF x quiet_extends [OF info_cleanup_quiet [OF 3(1)]]] server_cert_write_progress [OF 3(2)] asks_trans
      by blast
  qed
qed

lemma device_call_progress:
  assumes "recv_done_ok e b" "device_cert_notify_cb e fin w = Some (i, w')" "awaits w"
  shows "asks w w' \<or> awaits w'"
proof (cases "nd_device_cert_receiver (w_node w)")
  case None
  then have "calm 0 w w'"
    using assms(2) by (auto simp: device_cert_notify_cb_def calm_def same_ends_def extends_def emit_def split: if_splits)
  then show ?thesis using assms(3) by (simp add: calm_awaits)
next
  case (Some r)
  then obtain err complete w1 where run: "e_receive e (device_cert_data_received_cb e) w = Some (err, complete, w1)"
    and w': "(if err \<noteq> 0 then do { w2 \<leftarrow> device_cert_cleanup w1; Some (BT_GATT_ITER_STOP, bt_finished w2) }
        else if complete then do { w2 \<leftarrow> device_cert_cleanup w1; w3 \<leftarrow> uplink_start e w2; Some (BT_GATT_ITER_STOP, w3) }
        else Some (BT_GATT_ITER_CONTINUE, w1)) = Some (i, w')"
    using assms(2) by (auto simp: device_cert_notify_cb_def elim!: bind_someE)
  have c: "calm err w w1" using recv_calm [OF disjI1 [OF assms(1)] device_cert_data_calm run] .
  then have x: "extends w w1" by (simp add: calm_def)
  consider "w' = w1" "err = 0" | w2 where "device_cert_cleanup w1 = Some w2" "w' = bt_finished w2"
    | w2 where "device_cert_cleanup w1 = Some w2" "uplink_start e w2 = Some w'"
    using w' by (auto elim!: bind_someE split: if_splits)
  then show ?thesis
  proof cases
    case 1
    then show ?thesis using c assms(3) by (simp add: calm_awaits)
  next
    case (2 w2)
    then show ?thesis using extends_trans [OF x quiet_extends [OF device_cert_cleanup_quiet]] asks_finished by blast
  next
    case (3 w2)
    then show ?thesis
      using extends_trans [OF x quiet_extends [OF device_cert_cleanup_quiet [OF 3(1)]]] uplink_start_progress [OF 3(2)] asks_trans
      by blast
  qed
qed

lemma uplink_call_progress:
  assumes "recv_ok e" "uplink_notify_cb e fin w = Some (i, w')" "awaits w"
  shows "asks w w' \<or> awaits w'"
proof (cases "nd_uplink_receiver (w_node w)")
  case None
  then have "calm 0 w w'"
    using assms(2) by (auto simp: uplink_notify_cb_def calm_def same_ends_def extends_def emit_def split: if_splits)
  then show ?thesis using assms(3) by (simp add: calm_awaits)
next
  case (Some r)
  then obtain err complete w1 where run: "e_receive e (uplink_data_received_cb e) w = Some (err, complete, w1)"
    and w': "w' = (if err \<noteq> 0 then bt_finished w1 else w1)"
    using assms(2) by (auto simp: uplink_notify_cb_def elim!: bind_someE split: if_splits)
  have c: "calm err w w1" using recv_calm [OF disjI2 [OF assms(1)] uplink_data_calm run] .
  then have "extends w w1" by (simp add: calm_def)
  then show ?thesis using w' c assms(3) by (auto simp: calm_awaits asks_finished)
qed

lemma calm_node:
  "calm 0 w w' \<Longrightarrow> calm 0 w (set_next x w')"
  "calm 0 w w' \<Longrightarrow> calm 0 w (on_node (\<lambda>n. n\<lparr>nd_downlink_ctx := p\<rparr>) (w'\<lparr>w_dl := m\<rparr>))"
  by (simp_all add: calm_def same_ends_def extends_def set_next_def on_node_def)

lemma server_call_progress:
  assumes "env_ok c e" "server_cert_notify_cb e ack w = Some (i, w')" "awaits w"
  shows "awaits w'"
proof -
  have "calm 0 w w'"
  proof (cases "nd_server_cert_sender (w_node w)")
    case None
    then have "w' = set_next SERVER_CERT_NEXT_END (if ack then send_idle (server_cert_send_data_cb e) (e_fin e) w else w)"
      using assms(2) by (simp add: server_cert_notify_cb_def)
    then show ?thesis by (auto simp: calm_def same_ends_def extends_def set_next_def on_node_def emit_def)
  next
    case (Some s)
    obtain ret complete w1 where run: "server_cert_sender_run e w = Some (ret, complete, w1)"
      using assms(2) Some by (cases "server_cert_sender_run e w") (auto simp: server_cert_notify_cb_def)
    have "w' = w1 \<or> (\<exists>x. w' = set_next x w1)"
      using assms(2) Some run by (auto simp: server_cert_notify_cb_def split: if_splits bind_splits)
    then show ?thesis using sender_calm(2) [OF assms(1) run] calm_node(1) by blast
  qed
  then show ?thesis using assms(3) by (simp add: calm_awaits)
qed

lemma downlink_call_progress:
  assumes "env_ok c e" "downlink_notify_cb e ack w = Some (i, w')" "awaits w"
  shows "awaits w'"
proof -
  have "calm 0 w w'"
  proof (cases "nd_downlink_sender (w_node w)")
    case None
    then show ?thesis using assms(2)
      by (auto simp: downlink_notify_cb_def calm_def same_ends_def extends_def emit_def split: if_splits)
  next
    case (Some s)
    obtain ret complete w1 where run: "downlink_sender_run e w = Some (ret, complete, w1)"
      using assms(2) Some by (cases "downlink_sender_run e w") (auto simp: downlink_notify_cb_def)
    have "w' = w1 \<or> (\<exists>m. w' = on_node (\<lambda>n. n\<lparr>nd_downlink_ctx := None\<rparr>) (w1\<lparr>w_dl := m\<rparr>))"
      using assms(2) Some run by (auto simp: downlink_notify_cb_def split: if_splits bind_splits)
    then show ?thesis using sender_calm(1) [OF assms(1) run] calm_node(2) by blast
  qed
  then show ?thesis using assms(3) by (simp add: calm_awaits)
qed

section \<open>Ends\<close>

lemma quiet_end: "quiet (ended i w) w' \<Longrightarrow> extends w w' \<and> w_subs w' = w_subs w - {i}"
  by (simp add: quiet_def ended_def extends_def)

lemma ended_extends: "extends (ended i w) w' = extends w w'" "asks (ended i w) w' = asks w w'"
  by (simp_all add: ended_def extends_def asks_def)

text \<open>The stack ends a subscription the transfer on which is not over.\<close>

definition cut_off :: "gatt_attr \<Rightarrow> ptr \<Rightarrow> world \<Rightarrow> world \<Rightarrow> bool" where
  "cut_off i p w w' \<longleftrightarrow> i \<in> w_subs w \<and> p \<noteq> None \<and> w_subs w' = w_subs w - {i}"

lemma clear_node: "clear_obj get upd w = Some w' \<Longrightarrow> w_node w' = w_node w \<or> w_node w' = upd (\<lambda>_. None) (w_node w)"
  by (auto simp: clear_obj_def obj_destroy_def on_node_def split: option.splits bind_splits)

lemma quiet_info_end:
  assumes "info_notify_end w = Some (i, w')"
  shows "quiet w w'" "nd_info_receiver (w_node w) = None \<Longrightarrow> same_ends w w'"
proof -
  have c: "info_cleanup w = Some w'" using assms by (auto simp: info_notify_end_def elim!: bind_someE)
  then show "quiet w w'" by (rule info_cleanup_quiet)
  show "same_ends w w'" if "nd_info_receiver (w_node w) = None"
    using c that by (auto simp: info_cleanup_def same_ends_def on_node_def elim!: bind_someE dest!: clear_node split: option.splits)
qed

lemma quiet_device_end:
  assumes "device_cert_notify_end w = Some (i, w')"
  shows "quiet w w'" "nd_device_cert_receiver (w_node w) = None \<Longrightarrow> same_ends w w'"
proof -
  have c: "device_cert_cleanup w = Some w'" using assms by (auto simp: device_cert_notify_end_def elim!: bind_someE)
  then show "quiet w w'" by (rule device_cert_cleanup_quiet)
  show "same_ends w w'" if "nd_device_cert_receiver (w_node w) = None"
    using c that
    by (auto simp: device_cert_cleanup_def same_ends_def on_node_def elim!: bind_someE dest!: clear_node split: option.splits)
qed

lemma info_end_progress:
  assumes "info_notify_end (ended POUCH_GATEWAY_GATT_ATTR_INFO w) = Some (i, w')"
    "POUCH_GATEWAY_GATT_ATTR_INFO \<in> w_subs w" "awaits w"
  shows "awaits w' \<or> cut_off POUCH_GATEWAY_GATT_ATTR_INFO (nd_info_receiver (w_node w)) w w'"
  using quiet_end [OF quiet_info_end(1) [OF assms(1)]] quiet_info_end(2) [OF assms(1)] assms(2,3)
  by (cases "nd_info_receiver (w_node w) = None") (auto simp: cut_off_def awaits_def same_ends_def ended_def)

lemma device_end_progress:
  assumes "device_cert_notify_end (ended POUCH_GATEWAY_GATT_ATTR_DEVICE_CERT w) = Some (i, w')"
    "POUCH_GATEWAY_GATT_ATTR_DEVICE_CERT \<in> w_subs w" "awaits w"
  shows "awaits w' \<or> cut_off POUCH_GATEWAY_GATT_ATTR_DEVICE_CERT (nd_device_cert_receiver (w_node w)) w w'"
  using quiet_end [OF quiet_device_end(1) [OF assms(1)]] quiet_device_end(2) [OF assms(1)] assms(2,3)
  by (cases "nd_device_cert_receiver (w_node w) = None") (auto simp: cut_off_def awaits_def same_ends_def ended_def)

lemma uplink_end_progress:
  assumes "uplink_notify_end (ended POUCH_GATEWAY_GATT_ATTR_UPLINK w) = Some (i, w')"
    "POUCH_GATEWAY_GATT_ATTR_UPLINK \<in> w_subs w" "awaits w"
  shows "awaits w' \<or> cut_off POUCH_GATEWAY_GATT_ATTR_UPLINK (nd_uplink_receiver (w_node w)) w w'"
  using assms
  by (cases "nd_uplink_receiver (w_node w)")
     (auto simp: uplink_notify_end_def obj_destroy_def cut_off_def awaits_def ended_def on_node_def emit_def elim!: bind_someE)

lemma server_end_progress:
  assumes "server_cert_notify_end e (ended POUCH_GATEWAY_GATT_ATTR_SERVER_CERT w) = Some (i, w')"
  shows "asks w w' \<or> awaits w'"
proof -
  obtain w1 where c: "server_cert_cleanup (ended POUCH_GATEWAY_GATT_ATTR_SERVER_CERT w) = Some w1"
    using assms by (auto simp: server_cert_notify_end_def elim!: bind_someE)
  then have x: "extends w w1" using quiet_end [OF server_cert_cleanup_quiet] by blast
  obtain w2 where w2: "(case nd_server_cert_next (w_node w1) of
              SERVER_CERT_NEXT_DEVICE_CERT \<Rightarrow> device_cert_read e w1
            | SERVER_CERT_NEXT_SERVER_CERT \<Rightarrow> server_cert_write e w1
            | SERVER_CERT_NEXT_END \<Rightarrow> Some (bt_finished w1)) = Some w2"
    and w': "w' = set_next SERVER_CERT_NEXT_END w2"
    using assms c by (auto simp: server_cert_notify_end_def elim!: bind_someE)
  have "asks w1 w2 \<or> awaits w2"
    using w2 device_cert_read_progress server_cert_write_progress asks_finished [of w1 w1]
    by (auto split: server_cert_next_state.splits)
  then show ?thesis using w' asks_trans [OF x]
    by (auto simp: set_next_def asks_def awaits_def on_node_def)
qed

lemma downlink_end_progress:
  assumes "downlink_notify_end (ended POUCH_GATEWAY_GATT_ATTR_DOWNLINK w) = Some (i, w')"
  shows "asks w w'"
  using assms quiet_end [OF cleanup_downlink_quiet]
  by (auto simp: downlink_notify_end_def elim!: bind_someE intro!: asks_finished)

lemma discovery_progress:
  assumes "after_discovery e h w = Some w'"
  shows "asks w w' \<or> awaits w'"
proof -
  have "asks (on_node f w) w' = asks w w'" for f by (simp add: asks_def on_node_def)
  then show ?thesis
    using assms info_read_start_progress [of e _ w'] uplink_start_progress [of e _ w']
    by (auto simp: after_discovery_def split: list.splits connect_call.splits)
qed

section \<open>Calls of the cloud\<close>

lemma data_available_progress:
  assumes "env_ok c e" "downlink_data_available e w = Some w'" "awaits w"
  shows "asks w w' \<or> awaits w'"
proof (cases "nd_downlink_subscribed (w_node w)")
  case True
  then obtain ret complete where "downlink_sender_run e w = Some (ret, complete, w')"
    using assms(2) by (auto simp: downlink_data_available_def elim!: bind_someE)
  then have "calm 0 w w'" using assms(1) by (rule sender_calm(1) [rotated])
  then show ?thesis using assms(3) by (simp add: calm_awaits)
next
  case False
  define w0 where "w0 = on_node (\<lambda>n. n\<lparr>nd_downlink_subscribed := True\<rparr>) w"
  obtain err w1 where g: "gatt_subscribe e POUCH_GATEWAY_GATT_ATTR_DOWNLINK w0 = (err, w1)" by fastforce
  have x: "extends w w1" using subscribe_frame [OF g] by (auto simp: w0_def extends_def on_node_def)
  show ?thesis
  proof (cases "err = 0")
    case True
    then have "w' = w1" using assms(2) False g by (simp add: downlink_data_available_def w0_def)
    then show ?thesis using subscribe_frame [OF g] assms(3) by (auto simp: awaits_def w0_def on_node_def)
  next
    case e: False
    then obtain w2 where "cleanup_downlink w1 = Some w2" "w' = bt_finished w2"
      using assms(2) False g by (auto simp: downlink_data_available_def w0_def elim!: bind_someE)
    then show ?thesis using extends_trans [OF x quiet_extends [OF cleanup_downlink_quiet]] asks_finished by blast
  qed
qed

lemma cloud_progress:
  assumes "cloud_call c w r" "r = Some w'" "awaits w"
  shows "asks w w' \<or> awaits w'"
proof -
  have m: "awaits (w\<lparr>w_dl := m\<rparr>) = awaits w" "asks (w\<lparr>w_dl := m\<rparr>) w' = asks w w'" for m
    by (simp_all add: awaits_def asks_def)
  have d: "asks w w' \<or> awaits w'"
    if "env_ok c e" "(if notify then downlink_data_available e (w\<lparr>w_dl := m\<rparr>) else Some (w\<lparr>w_dl := m\<rparr>)) = Some w'" for e notify m
    using that data_available_progress [OF that(1), of "w\<lparr>w_dl := m\<rparr>"] assms(3) m by (cases notify) auto
  show ?thesis
    using assms
  proof cases
    case (call_block e a slot bytes l)
    then obtain st where "cloud_downlink_block e a slot bytes l w = Some (st, w')"
      using assms(2) by (cases "cloud_downlink_block e a slot bytes l w") auto
    then obtain notify m where
      "(if notify then downlink_data_available e (w\<lparr>w_dl := m\<rparr>) else Some (w\<lparr>w_dl := m\<rparr>)) = Some w'"
      unfolding cloud_downlink_block_def by (auto elim!: bind_someE)
    then show ?thesis by (rule d [OF call_block(2)])
  next
    case (call_dl_end e a st)
    then have "cloud_downlink_end e st a w = Some w'" using assms(2) by simp
    then obtain notify m where
      "(if notify then downlink_data_available e (w\<lparr>w_dl := m\<rparr>) else Some (w\<lparr>w_dl := m\<rparr>)) = Some w'"
      unfolding cloud_downlink_end_def by (auto elim!: bind_someE)
    then show ?thesis by (rule d [OF call_dl_end(2)])
  next
    case (call_uploaded e p u st)
    then have "cloud_uploaded e st p w = Some w'" using assms(2) by simp
    then obtain evs m where "w' = up_calls evs (w\<lparr>w_up := m\<rparr>)" by (auto simp: cloud_uploaded_def elim!: bind_someE)
    then show ?thesis using calm_awaits [OF up_calls_calm] assms(3) by simp
  next
    case (call_refresh parse builtin dl)
    then obtain s where "w' = w\<lparr>w_crt := s\<rparr>"
      using assms(2) by (cases "cert_on_connected c parse builtin dl (w_crt w)") auto
    then show ?thesis using assms(3) by (simp add: awaits_def)
  qed
qed

section \<open>Properties\<close>

lemma stack_progress:
  assumes "stack_call c w r" "r = Some w'" "awaits w \<or> w_subs w = {}"
  shows "asks w w' \<or> awaits w' \<or>
     cut_off POUCH_GATEWAY_GATT_ATTR_INFO (nd_info_receiver (w_node w)) w w' \<or>
     cut_off POUCH_GATEWAY_GATT_ATTR_DEVICE_CERT (nd_device_cert_receiver (w_node w)) w w' \<or>
     cut_off POUCH_GATEWAY_GATT_ATTR_UPLINK (nd_uplink_receiver (w_node w)) w w'"
proof -
  have s: "\<exists>i. m = Some (i, w')" if "map_option snd m = Some w'" for m :: "(bt_iter \<times> world) option"
    using that by auto
  have a: "awaits w" if "i \<in> w_subs w" for i
    using assms(3) that by auto
  show ?thesis
    using assms(1)
  proof cases
    case (call_discovered e h)
    then show ?thesis using assms(2) discovery_progress [of e h w w'] by metis
  next
    case (call_info e fin)
    then obtain i where "info_notify_cb e fin w = Some (i, w')"
      using s [of "info_notify_cb e fin w"] assms(2) by auto
    then show ?thesis using call_info a info_call_progress by blast
  next
    case call_info_end
    then obtain i where "info_notify_end (ended POUCH_GATEWAY_GATT_ATTR_INFO w) = Some (i, w')"
      using s [of "info_notify_end (ended POUCH_GATEWAY_GATT_ATTR_INFO w)"] assms(2) by auto
    then show ?thesis using call_info_end a info_end_progress by blast
  next
    case (call_server e ack)
    then obtain i where "server_cert_notify_cb e ack w = Some (i, w')"
      using s [of "server_cert_notify_cb e ack w"] assms(2) by auto
    then show ?thesis using call_server a server_call_progress by blast
  next
    case (call_server_end e)
    then obtain i where "server_cert_notify_end e (ended POUCH_GATEWAY_GATT_ATTR_SERVER_CERT w) = Some (i, w')"
      using s [of "server_cert_notify_end e (ended POUCH_GATEWAY_GATT_ATTR_SERVER_CERT w)"] assms(2) by auto
    then show ?thesis using call_server_end a server_end_progress by blast
  next
    case (call_device e fin)
    then obtain i where "device_cert_notify_cb e fin w = Some (i, w')"
      using s [of "device_cert_notify_cb e fin w"] assms(2) by auto
    then show ?thesis using call_device a device_call_progress by blast
  next
    case call_device_end
    then obtain i where "device_cert_notify_end (ended POUCH_GATEWAY_GATT_ATTR_DEVICE_CERT w) = Some (i, w')"
      using s [of "device_cert_notify_end (ended POUCH_GATEWAY_GATT_ATTR_DEVICE_CERT w)"] assms(2) by auto
    then show ?thesis using call_device_end a device_end_progress by blast
  next
    case (call_uplink e fin)
    then obtain i where "uplink_notify_cb e fin w = Some (i, w')"
      using s [of "uplink_notify_cb e fin w"] assms(2) by auto
    then show ?thesis using call_uplink a uplink_call_progress by blast
  next
    case call_uplink_end
    then obtain i where "uplink_notify_end (ended POUCH_GATEWAY_GATT_ATTR_UPLINK w) = Some (i, w')"
      using s [of "uplink_notify_end (ended POUCH_GATEWAY_GATT_ATTR_UPLINK w)"] assms(2) by auto
    then show ?thesis using call_uplink_end a uplink_end_progress by blast
  next
    case (call_downlink e ack)
    then obtain i where "downlink_notify_cb e ack w = Some (i, w')"
      using s [of "downlink_notify_cb e ack w"] assms(2) by auto
    then show ?thesis using call_downlink a downlink_call_progress by blast
  next
    case call_downlink_end
    then obtain i where "downlink_notify_end (ended POUCH_GATEWAY_GATT_ATTR_DOWNLINK w) = Some (i, w')"
      using s [of "downlink_notify_end (ended POUCH_GATEWAY_GATT_ATTR_DOWNLINK w)"] assms(2) by auto
    then show ?thesis using call_downlink_end a downlink_end_progress by blast
  qed
qed



text \<open>\<open>subscribe_cb\<close> of \<open>lib/bt/info.c\<close>: the error of the write is logged.\<close>

definition info_subscribe_cb :: "8 word \<Rightarrow> world \<Rightarrow> world" where
  "info_subscribe_cb err w = w"

text \<open>A subscription the peer refuses stalls the gateway: the stack takes the subscription
  to the information record back with a notification without data and reports the error;
  both handlers release what the node has and return without asking for the end of the
  connection, and with no subscription left the stack has nothing more to call.\<close>

theorem refused_subscription_stalls:
  assumes w: "info_ok c w" "w_subs w = {POUCH_GATEWAY_GATT_ATTR_INFO}" "nd_attr_handles (w_node w) \<noteq> no_handles"
  shows "\<exists>w1. info_notify_end (ended POUCH_GATEWAY_GATT_ATTR_INFO w) = Some (BT_GATT_ITER_STOP, w1) \<and>
     w_log (info_subscribe_cb err w1) = w_log w \<and> idle_ok c (info_subscribe_cb err w1) \<and>
     w_subs (info_subscribe_cb err w1) = {} \<and> (\<nexists>r. stack_call c (info_subscribe_cb err w1) r)"
proof -
  obtain w1 where w1: "info_cleanup (ended POUCH_GATEWAY_GATT_ATTR_INFO w) = Some w1" "idle_ok c w1"
    using info_cleanup_ok [OF phase_ended(1) [OF w(1)]] by (auto simp: holds_def)
  have q: "w_log w1 = w_log w" "w_subs w1 = {}"
    using info_cleanup_quiet [OF w1(1)] w(2) by (auto simp: quiet_def ended_def)
  have "nd_attr_handles (w_node w1) = nd_attr_handles (w_node w)"
    using w1(1) by (auto simp: info_cleanup_def ended_def on_node_def elim!: bind_someE dest!: clear_node split: option.splits)
  then have "w_node w1 \<noteq> node_zero" using w(3) by (auto simp: node_zero_def)
  then have "\<not> stack_call c w1 r" for r using q(2) by (auto elim: stack_call.cases)
  then show ?thesis using w1 q by (intro exI [of _ w1]) (simp add: info_notify_end_def info_subscribe_cb_def)
qed

theorem refused_subscription_stalls_witness:
  "\<exists>w1. info_notify_end (ended POUCH_GATEWAY_GATT_ATTR_INFO (on_node (\<lambda>n. n\<lparr>nd_attr_handles := gx_handles\<rparr>) gx_info))
        = Some (BT_GATT_ITER_STOP, w1) \<and> w_log (info_subscribe_cb 5 w1) = []"
proof -
  let ?w = "on_node (\<lambda>n. n\<lparr>nd_attr_handles := gx_handles\<rparr>) gx_info"
  have "info_ok up_ex_cfg ?w"
    using gx_info_ok(1) by (simp add: info_ok_def mem_ok_def off_defs live_recv_def on_node_def)
  moreover have "w_subs ?w = {POUCH_GATEWAY_GATT_ATTR_INFO}" "w_log ?w = []"
    by (simp_all add: gx_info_def on_node_def world_init_def)
  moreover have "nd_attr_handles (w_node ?w) \<noteq> no_handles"
    by (auto simp: on_node_def gx_handles_def no_handles_def dest: fun_cong [where x = POUCH_GATEWAY_GATT_ATTR_DOWNLINK])
  ultimately show ?thesis using refused_subscription_stalls [of up_ex_cfg ?w 5] by auto
qed

end
