(* ===== verification/Gatt_Leaks.thy ===== *)
theory Gatt_Leaks
  imports Gatt_Progress
begin

text \<open>
  What a node holds and what it loses: the receivers, senders, packetizers and the contexts
  of the information record and of the certificates that are allocated although no pointer of
  the node leads to them any more.
\<close>

section \<open>Lost objects\<close>

datatype resource = Object addr | InfoContext addr | DeviceCertContext addr | ServerCertContext addr

fun held :: "node \<Rightarrow> resource \<Rightarrow> bool" where
  "held n (Object a) \<longleftrightarrow> nd_info_receiver n = Some a \<or> nd_server_cert_sender n = Some a \<or>
     nd_device_cert_receiver n = Some a \<or> nd_downlink_sender n = Some a \<or> nd_uplink_receiver n = Some a \<or>
     nd_packetizer n = Some a"
| "held n (InfoContext a) \<longleftrightarrow> nd_info_ctx n = Some a"
| "held n (DeviceCertContext a) \<longleftrightarrow> nd_device_cert_ctx n = Some a"
| "held n (ServerCertContext a) \<longleftrightarrow> nd_server_cert_ctx n = Some a"

fun allocated :: "world \<Rightarrow> resource \<Rightarrow> bool" where
  "allocated w (Object a) \<longleftrightarrow> w_objs w a \<noteq> None"
| "allocated w (InfoContext a) \<longleftrightarrow> w_in w a \<noteq> None"
| "allocated w (DeviceCertContext a) \<longleftrightarrow> w_dc w a \<noteq> None"
| "allocated w (ServerCertContext a) \<longleftrightarrow> w_sc w a \<noteq> None"

definition lost :: "world \<Rightarrow> resource set" where
  "lost w = {r. allocated w r \<and> \<not> held (w_node w) r}"

definition tidy :: "world \<Rightarrow> world \<Rightarrow> bool" where
  "tidy w w' \<longleftrightarrow> lost w' \<subseteq> lost w"

lemma tidyI: "(\<And>r. allocated w' r \<Longrightarrow> \<not> held (w_node w') r \<Longrightarrow> allocated w r \<and> \<not> held (w_node w) r) \<Longrightarrow> tidy w w'"
  by (auto simp: tidy_def lost_def)

lemma tidy_refl [simp]: "tidy w w"
  by (simp add: tidy_def)

lemma tidy_trans: "tidy w1 w2 \<Longrightarrow> tidy w2 w3 \<Longrightarrow> tidy w1 w3"
  by (auto simp: tidy_def)

text \<open>What changes neither the stores nor the pointers to them.\<close>

lemma tidy_frame:
  assumes "w_objs w' = w_objs w" "w_in w' = w_in w" "w_dc w' = w_dc w" "w_sc w' = w_sc w"
    "\<And>r. held (w_node w') r = held (w_node w) r"
  shows "tidy w w'"
proof -
  have "allocated w' r = allocated w r" for r using assms(1-4) by (cases r) auto
  then show ?thesis using assms(5) by (simp add: tidy_def lost_def)
qed

lemma tidy_emit [simp]: "tidy w (emit ev w') = tidy w w'" "tidy w (bt_finished w') = tidy w w'"
proof -
  have "allocated (emit ev w') = allocated w'" for ev w'
    by (rule ext, rename_tac r, case_tac r) (simp_all add: emit_def)
  then show "tidy w (emit ev w') = tidy w w'" "tidy w (bt_finished w') = tidy w w'"
    by (simp_all add: tidy_def lost_def bt_finished_def) (simp_all add: emit_def)
qed

lemma tidy_mem [simp]: "tidy w (w\<lparr>w_dl := m\<rparr>)" "tidy w (w\<lparr>w_crt := s\<rparr>)" "tidy w (w\<lparr>w_subs := S\<rparr>)"
  by (rule tidy_frame; simp)+

lemma clear_tidy:
  assumes "clear_obj get upd w = Some w'"
    and h: "\<And>r. held (w_node w) r \<Longrightarrow> held (upd (\<lambda>_. None) (w_node w)) r \<or> r \<in> Object ` set_option (get (w_node w))"
  shows "tidy w w'"
proof (cases "get (w_node w)")
  case None
  then show ?thesis using assms(1) by (simp add: clear_obj_def)
next
  case (Some a)
  then have w': "w' = w\<lparr>w_objs := (w_objs w)(a := None), w_node := upd (\<lambda>_. None) (w_node w)\<rparr>"
    using assms(1) by (auto simp: clear_obj_def obj_destroy_def on_node_def heap_free_def split: option.splits)
  have "allocated w r \<and> r \<noteq> Object a" if "allocated w' r" for r
    using that by (cases r) (auto simp: w' split: if_splits)
  moreover have "held (w_node w') r" if "held (w_node w) r" "r \<noteq> Object a" for r
    using h [OF that(1)] that(2) Some by (simp add: w')
  ultimately show ?thesis by (blast intro: tidyI)
qed

lemma create_tidy:
  assumes "obj_create e ob w = (p, w1)"
    and "\<And>r. held (w_node w) r \<or> r \<in> Object ` set_option p \<Longrightarrow> held (f (w_node w)) r"
  shows "tidy w (on_node f w1)"
proof (rule tidyI)
  fix r assume "allocated (on_node f w1) r" "\<not> held (w_node (on_node f w1)) r"
  then show "allocated w r \<and> \<not> held (w_node w) r"
    using assms(1) assms(2) [of r]
    by (cases r) (auto simp: obj_create_def on_node_def split: option.splits if_splits)
qed

section \<open>The clean-ups\<close>

lemma abort_tidy:
  "(case nd_info_ctx (w_node w) of None \<Rightarrow> Some w
     | Some a \<Rightarrow> do { h \<leftarrow> info_abort (Some a) (w_in w); Some (on_node (\<lambda>n. n\<lparr>nd_info_ctx := None\<rparr>) (w\<lparr>w_in := h\<rparr>)) })
   = Some w' \<Longrightarrow> tidy w w'"
  "(case nd_device_cert_ctx (w_node w) of None \<Rightarrow> Some w
     | Some a \<Rightarrow> do { h \<leftarrow> device_cert_abort (Some a) (w_dc w);
         Some (on_node (\<lambda>n. n\<lparr>nd_device_cert_ctx := None\<rparr>) (w\<lparr>w_dc := h\<rparr>)) })
   = Some w' \<Longrightarrow> tidy w w'"
  "(case nd_server_cert_ctx (w_node w) of None \<Rightarrow> Some w
     | Some a \<Rightarrow> do { h \<leftarrow> server_cert_abort (Some a) (w_sc w);
         Some (on_node (\<lambda>n. n\<lparr>nd_server_cert_ctx := None\<rparr>) (w\<lparr>w_sc := h\<rparr>)) })
   = Some w' \<Longrightarrow> tidy w w'"
  by (rule tidyI, rename_tac r, case_tac r;
      auto simp: info_abort_def device_cert_abort_def server_cert_abort_def heap_free_def on_node_def
        split: option.splits bind_splits if_splits)+

lemma held_clear:
  "held n r \<Longrightarrow> held (nd_info_receiver_update (\<lambda>_. None) n) r \<or> r \<in> Object ` set_option (nd_info_receiver n)"
  "held n r \<Longrightarrow> held (nd_server_cert_sender_update (\<lambda>_. None) n) r \<or> r \<in> Object ` set_option (nd_server_cert_sender n)"
  "held n r \<Longrightarrow> held (nd_device_cert_receiver_update (\<lambda>_. None) n) r \<or> r \<in> Object ` set_option (nd_device_cert_receiver n)"
  "held n r \<Longrightarrow> held (nd_downlink_sender_update (\<lambda>_. None) n) r \<or> r \<in> Object ` set_option (nd_downlink_sender n)"
  "held n r \<Longrightarrow> held (nd_uplink_receiver_update (\<lambda>_. None) n) r \<or> r \<in> Object ` set_option (nd_uplink_receiver n)"
  "held n r \<Longrightarrow> held (nd_packetizer_update (\<lambda>_. None) n) r \<or> r \<in> Object ` set_option (nd_packetizer n)"
  by (cases r; auto)+

lemma clears_tidy:
  "clear_obj nd_info_receiver nd_info_receiver_update w = Some w' \<Longrightarrow> tidy w w'"
  "clear_obj nd_server_cert_sender nd_server_cert_sender_update w = Some w' \<Longrightarrow> tidy w w'"
  "clear_obj nd_device_cert_receiver nd_device_cert_receiver_update w = Some w' \<Longrightarrow> tidy w w'"
  "clear_obj nd_downlink_sender nd_downlink_sender_update w = Some w' \<Longrightarrow> tidy w w'"
  "clear_obj nd_uplink_receiver nd_uplink_receiver_update w = Some w' \<Longrightarrow> tidy w w'"
  "clear_obj nd_packetizer nd_packetizer_update w = Some w' \<Longrightarrow> tidy w w'"
  by (erule clear_tidy, erule held_clear)+

lemma info_cleanup_tidy: "info_cleanup w = Some w' \<Longrightarrow> tidy w w'"
  unfolding info_cleanup_def by (erule bind_someE, drule abort_tidy, drule clears_tidy, erule tidy_trans)

lemma device_cert_cleanup_tidy: "device_cert_cleanup w = Some w' \<Longrightarrow> tidy w w'"
  unfolding device_cert_cleanup_def by (erule bind_someE, drule abort_tidy, drule clears_tidy, erule tidy_trans)

lemma server_cert_cleanup_tidy: "server_cert_cleanup w = Some w' \<Longrightarrow> tidy w w'"
  unfolding server_cert_cleanup_def
  by (erule bind_someE, erule bind_someE, drule abort_tidy, drule clears_tidy, drule clears_tidy) (blast intro: tidy_trans)

lemma held_uplink [simp]: "held (nd_uplink_update f n) r = held n r" "held (nd_downlink_ctx_update g n) r = held n r"
  "held (nd_downlink_subscribed_update b n) r = held n r" "held (nd_server_cert_next_update x n) r = held n r"
  "held (nd_attr_handles_update h n) r = held n r" "held (nd_server_cert_provisioned_update b n) r = held n r"
  "held (nd_device_cert_provisioned_update b n) r = held n r"
  by (cases r; simp)+

lemma cleanup_downlink_ctx_tidy: "cleanup_downlink_ctx w = Some w' \<Longrightarrow> tidy w w'"
  by (auto simp: cleanup_downlink_ctx_def on_node_def split: option.splits elim!: bind_someE intro!: tidy_frame)

lemma cleanup_downlink_tidy: "cleanup_downlink w = Some w' \<Longrightarrow> tidy w w'"
  unfolding cleanup_downlink_def
  by (erule bind_someE, erule bind_someE, drule cleanup_downlink_ctx_tidy, drule clears_tidy, drule clears_tidy)
     (blast intro: tidy_trans)

text \<open>The pointers of the exchange that precedes the pouch.\<close>

definition same_certs :: "world \<Rightarrow> world \<Rightarrow> bool" where
  "same_certs w w' \<longleftrightarrow> nd_info_receiver (w_node w') = nd_info_receiver (w_node w) \<and>
     nd_info_ctx (w_node w') = nd_info_ctx (w_node w) \<and>
     nd_server_cert_sender (w_node w') = nd_server_cert_sender (w_node w) \<and>
     nd_server_cert_ctx (w_node w') = nd_server_cert_ctx (w_node w) \<and>
     nd_device_cert_receiver (w_node w') = nd_device_cert_receiver (w_node w) \<and>
     nd_device_cert_ctx (w_node w') = nd_device_cert_ctx (w_node w)"

lemma same_certs_trans: "same_certs w1 w2 \<Longrightarrow> same_certs w2 w3 \<Longrightarrow> same_certs w1 w3"
  by (simp add: same_certs_def)

section \<open>Callbacks\<close>

lemma replay_chunks_tidy:
  assumes cb: "\<And>x l w r w'. cb x l w = Some (r, w') \<Longrightarrow> tidy w w'"
    and run: "replay_chunks cs ret complete cb w = Some (err, b, w')"
  shows "tidy w w'"
  using run
proof (induction cs arbitrary: w)
  case (Cons ch cs)
  obtain x l where ch: "ch = (x, l)" by (cases ch)
  obtain r w1 where r: "cb x l w = Some (r, w1)" using Cons.prems by (auto simp: ch elim: bind_someE)
  then show ?case using Cons tidy_trans [OF cb [OF r]] by (auto simp: ch split: if_splits)
qed simp

lemma replay_fills_tidy:
  assumes fill: "\<And>n w r w'. fill n w = Some (r, w') \<Longrightarrow> tidy w w'"
    and run: "replay_fills ns ret complete fill w = Some (err, b, w')"
  shows "tidy w w'"
  using run
proof (induction ns arbitrary: w)
  case (Cons n ns)
  obtain r w1 where r: "fill n w = Some (r, w1)" using Cons.prems by (auto elim: bind_someE)
  then show ?case using Cons tidy_trans [OF fill [OF r]] by simp
qed simp

lemma recv_tidy:
  assumes "recv_done_ok e b \<or> recv_ok e" "\<And>x l w r w'. cb x l w = Some (r, w') \<Longrightarrow> tidy w w'"
    "e_receive e cb w = Some (err, complete, w')"
  shows "tidy w w'"
  using assms(1,3) by (auto simp: recv_ok_def recv_done_ok_def intro: replay_chunks_tidy [OF assms(2)])

lemma ack_tidy:
  assumes "env_ok c e" "\<And>n w r w'. fill n w = Some (r, w') \<Longrightarrow> tidy w w'"
    "e_ack e fill w = Some (err, complete, w')"
  shows "tidy w w'"
  using assms(1,3) by (auto simp: env_ok_def ack_ok_def intro: replay_fills_tidy [OF assms(2)])

lemma downlink_fill_tidy: "downlink_packet_fill_cb e p n w = Some (r, w') \<Longrightarrow> tidy w w'"
  by (auto simp: downlink_packet_fill_cb_def Let_def elim!: bind_someE)

lemma server_fill_tidy:
  assumes "server_cert_fill_cb e p n w = Some (r, w')"
  shows "tidy w w'"
proof -
  obtain a x x' where x: "w_sc w a = Some x" "tidy w w' = tidy w (w\<lparr>w_sc := (w_sc w)(a \<mapsto> x')\<rparr>)"
    using assms by (auto simp: server_cert_fill_cb_def Let_def elim!: bind_someE)
  have "tidy w (w\<lparr>w_sc := (w_sc w)(a \<mapsto> x')\<rparr>)"
    by (rule tidyI, rename_tac r, case_tac r) (use x(1) in \<open>auto split: if_splits\<close>)
  then show ?thesis using x(2) by simp
qed

lemma sender_tidy:
  assumes "env_ok c e"
  shows "downlink_sender_run e w = Some (err, complete, w') \<Longrightarrow> tidy w w'"
    "server_cert_sender_run e w = Some (err, complete, w') \<Longrightarrow> tidy w w'"
proof -
  show "tidy w w'" if run: "downlink_sender_run e w = Some (err, complete, w')"
  proof -
    obtain p where "e_ack e (downlink_packet_fill_cb e p) w = Some (err, complete, w')"
      using run by (auto simp: downlink_sender_run_def elim!: bind_someE split: fill_source.splits)
    then show ?thesis using ack_tidy [OF assms] downlink_fill_tidy by blast
  qed
  show "tidy w w'" if run: "server_cert_sender_run e w = Some (err, complete, w')"
  proof -
    obtain p where "e_ack e (server_cert_fill_cb e p) w = Some (err, complete, w')"
      using run by (auto simp: server_cert_sender_run_def elim!: bind_someE split: fill_source.splits)
    then show ?thesis using ack_tidy [OF assms] server_fill_tidy by blast
  qed
qed

lemma up_call_same: "w_objs (up_call ev w) = w_objs w" "w_in (up_call ev w) = w_in w" "w_dc (up_call ev w) = w_dc w"
  "w_sc (up_call ev w) = w_sc w" "held (w_node (up_call ev w)) r = held (w_node w) r"
  by (cases ev; simp add: up_call_def uplink_end_cb_def step_defs)+

lemma up_calls_tidy: "tidy w (up_calls evs w)"
proof (induction evs arbitrary: w)
  case (Cons ev evs)
  show ?case unfolding up_calls_Cons by (rule tidy_trans [OF tidy_frame Cons.IH]) (simp_all add: up_call_same)
qed simp

lemma up_call_certs:
  "same_certs w (up_calls evs w) \<and> nd_uplink_receiver (w_node (up_calls evs w)) = nd_uplink_receiver (w_node w)"
proof (induction evs arbitrary: w)
  case (Cons ev evs)
  have "same_certs w (up_call ev w)"
    by (cases ev; simp add: up_call_def uplink_end_cb_def same_certs_def step_defs)
  then show ?case using Cons.IH [of "up_call ev w"] unfolding up_calls_Cons by (simp add: same_certs_def up_call_frame)
qed (simp add: same_certs_def)

lemma up_calls_mem_tidy: "tidy w (up_calls evs (w\<lparr>w_up := m\<rparr>))"
  by (rule tidy_trans [OF tidy_frame up_calls_tidy]) simp_all

lemma on_node_tidy: "(\<And>r. held (f (w_node w')) r = held (w_node w') r) \<Longrightarrow> tidy w w' \<Longrightarrow> tidy w (on_node f w')"
  by (rule tidy_trans [OF _ tidy_frame]) (simp_all add: on_node_def)

lemma uplink_close_tidy: "do_uplink_close e w = Some w' \<Longrightarrow> tidy w w'"
  by (auto simp: do_uplink_close_def up_calls_mem_tidy elim!: bind_someE)

lemma uplink_data_tidy: "uplink_data_received_cb e x l w = Some (r, w') \<Longrightarrow> tidy w w'"
  by (auto simp: uplink_data_received_cb_def Let_def elim!: bind_someE split: option.splits if_splits
      intro!: on_node_tidy up_calls_mem_tidy intro: tidy_trans [OF up_calls_mem_tidy uplink_close_tidy])

lemma info_data_tidy:
  assumes "info_data_received_cb e x l w = Some (r, w')"
  shows "tidy w w'"
proof -
  obtain a d err d' where d: "nd_info_ctx (w_node w) = Some a" "w_in w a = Some d" "info_push d x = Some (err, d')"
    using assms by (auto simp: info_data_received_cb_def elim!: bind_someE)
  define w1 where "w1 = w\<lparr>w_in := (w_in w)(a \<mapsto> d')\<rparr>"
  have 1: "tidy w w1"
    by (rule tidyI, rename_tac r, case_tac r) (use d(2) in \<open>auto simp: w1_def split: if_splits\<close>)
  consider "w' = w1" | err2 sp dp h where "info_finish (e_decode e) (e_compare e) (w_crt w1) (Some a)
        (nd_server_cert_provisioned (w_node w1)) (nd_device_cert_provisioned (w_node w1)) (w_in w1) = Some (err2, sp, dp, h)"
      "w' = on_node (\<lambda>n. n\<lparr>nd_server_cert_provisioned := sp, nd_device_cert_provisioned := dp, nd_info_ctx := None\<rparr>)
          (w1\<lparr>w_in := h\<rparr>)"
    using assms d unfolding w1_def by (auto simp: info_data_received_cb_def Let_def elim!: bind_someE split: if_splits)
  then show ?thesis
  proof cases
    case 2
    have n: "nd_info_ctx (w_node w1) = Some a" using d(1) by (simp add: w1_def)
    have "h = (w_in w1)(a := None)"
      using 2(1) by (auto simp: info_finish_def info_abort_def Let_def elim!: bind_someE split: option.splits dest!: heap_free_eq_SomeD)
    then have "tidy w1 w'"
      by (intro tidyI, rename_tac r, case_tac r) (use n 2(2) in \<open>auto simp: on_node_def split: if_splits\<close>)
    then show ?thesis by (rule tidy_trans [OF 1])
  qed (use 1 in simp)
qed

lemma device_finish_tidy:
  assumes "device_cert_finish_step e w = Some (err, w')"
  shows "tidy w w'"
proof -
  obtain err2 sent h where f: "device_cert_finish (e_conf e) (e_cert_status e) (nd_device_cert_ctx (w_node w)) (w_dc w) = Some (err2, sent, h)"
    using assms by (auto simp: device_cert_finish_step_def elim!: bind_someE)
  then obtain a d where a: "nd_device_cert_ctx (w_node w) = Some a" "w_dc w a = Some d"
    by (cases "nd_device_cert_ctx (w_node w)") (auto simp: device_cert_finish_def deref_def elim!: bind_someE)
  have h: "h = (if err2 = 0 then (w_dc w)(a := None) else w_dc w)"
    using f a by (auto simp: device_cert_finish_def device_cert_abort_def errno_defs elim!: bind_someE split: if_splits
        dest!: heap_free_eq_SomeD)
  define v where "v = (w\<lparr>w_dc := h\<rparr>)\<lparr>w_node := if err2 = 0 then (w_node w)\<lparr>nd_device_cert_ctx := None\<rparr> else w_node w\<rparr>"
  have "tidy w v"
    by (intro tidyI, rename_tac r, case_tac r) (use h a in \<open>auto simp: v_def split: if_splits\<close>)
  moreover have "tidy v w'"
    using assms f by (intro tidy_frame) (auto simp: device_cert_finish_step_def v_def on_node_def emit_def Let_def split: option.splits)
  ultimately show ?thesis by (rule tidy_trans)
qed

lemma device_cert_data_tidy:
  assumes "device_cert_data_received_cb e x l w = Some (r, w')"
  shows "tidy w w'"
proof -
  obtain a d err d' where d: "nd_device_cert_ctx (w_node w) = Some a" "w_dc w a = Some d"
      "device_cert_push (e_conf e) d x = Some (err, d')"
    using assms by (auto simp: device_cert_data_received_cb_def elim!: bind_someE)
  define w1 where "w1 = w\<lparr>w_dc := (w_dc w)(a \<mapsto> d')\<rparr>"
  have 1: "tidy w w1"
    by (rule tidyI, rename_tac r, case_tac r) (use d(2) in \<open>auto simp: w1_def split: if_splits\<close>)
  obtain err2 w2 where s: "(if err = 0 \<and> l then device_cert_finish_step e w1 else Some (err, w1)) = Some (err2, w2)"
    unfolding w1_def using assms d by (auto simp: device_cert_data_received_cb_def Let_def elim!: bind_someE)
  then have 2: "tidy w w2" using tidy_trans [OF 1 device_finish_tidy] 1 by (auto split: if_splits)
  have "(if err2 \<noteq> 0 then do { w3 \<leftarrow> device_cert_cleanup w2; Some (err2, bt_finished w3) } else Some (err2, w2)) = Some (r, w')"
    using assms d s unfolding w1_def by (simp add: device_cert_data_received_cb_def Let_def)
  then show ?thesis using 2 tidy_trans [OF 2 device_cert_cleanup_tidy] by (auto elim!: bind_someE split: if_splits)
qed

section \<open>Starting\<close>

text \<open>Nothing is held.\<close>

definition none_held :: "world \<Rightarrow> bool" where
  "none_held w \<longleftrightarrow> (\<forall>r. \<not> held (w_node w) r)"

lemma none_heldD:
  assumes "none_held w"
  shows "nd_info_receiver (w_node w) = None" "nd_server_cert_sender (w_node w) = None"
    "nd_device_cert_receiver (w_node w) = None" "nd_downlink_sender (w_node w) = None"
    "nd_uplink_receiver (w_node w) = None" "nd_packetizer (w_node w) = None" "nd_info_ctx (w_node w) = None"
    "nd_device_cert_ctx (w_node w) = None" "nd_server_cert_ctx (w_node w) = None"
proof -
  have "\<not> held (w_node w) (Object a)" "\<not> held (w_node w) (InfoContext a)" "\<not> held (w_node w) (DeviceCertContext a)"
      "\<not> held (w_node w) (ServerCertContext a)" for a
    using assms by (simp_all add: none_held_def del: held.simps)
  then show "nd_info_receiver (w_node w) = None" "nd_server_cert_sender (w_node w) = None"
    "nd_device_cert_receiver (w_node w) = None" "nd_downlink_sender (w_node w) = None"
    "nd_uplink_receiver (w_node w) = None" "nd_packetizer (w_node w) = None" "nd_info_ctx (w_node w) = None"
    "nd_device_cert_ctx (w_node w) = None" "nd_server_cert_ctx (w_node w) = None"
    by (simp_all flip: not_Some_eq)
qed

lemma none_heldI:
  assumes "nd_info_receiver (w_node w) = None" "nd_server_cert_sender (w_node w) = None"
    "nd_device_cert_receiver (w_node w) = None" "nd_downlink_sender (w_node w) = None"
    "nd_uplink_receiver (w_node w) = None" "nd_packetizer (w_node w) = None" "nd_info_ctx (w_node w) = None"
    "nd_device_cert_ctx (w_node w) = None" "nd_server_cert_ctx (w_node w) = None"
  shows "none_held w"
  unfolding none_held_def
proof
  fix r show "\<not> held (w_node w) r" using assms by (cases r) auto
qed

lemma idle_none_held: "idle_ok c w \<Longrightarrow> none_held w"
  by (rule none_heldI) (simp_all add: idle_ok_def off_defs)

lemma cleanup_downlink_node:
  assumes "cleanup_downlink w = Some w'"
  shows "same_certs w w' \<and> nd_uplink_receiver (w_node w') = nd_uplink_receiver (w_node w)"
proof -
  obtain w1 w2 where w: "cleanup_downlink_ctx w = Some w1" "clear_obj nd_packetizer nd_packetizer_update w1 = Some w2"
      "clear_obj nd_downlink_sender nd_downlink_sender_update w2 = Some w'"
    using assms unfolding cleanup_downlink_def by (auto elim!: bind_someE)
  have "same_certs w w1 \<and> nd_uplink_receiver (w_node w1) = nd_uplink_receiver (w_node w)"
    using w(1) by (auto simp: cleanup_downlink_ctx_def same_certs_def on_node_def elim!: bind_someE split: option.splits)
  moreover have "same_certs w1 w' \<and> nd_uplink_receiver (w_node w') = nd_uplink_receiver (w_node w1)"
    using clear_node [OF w(2)] clear_node [OF w(3)] by (auto simp: same_certs_def)
  ultimately show ?thesis using same_certs_trans by auto
qed

lemma create_node: "obj_create e ob w = (p, w') \<Longrightarrow> w_node w' = w_node w"
  by (auto simp: obj_create_def split: option.splits)

lemma held_set:
  "nd_info_receiver n = None \<Longrightarrow> held n r \<or> r \<in> Object ` set_option p \<Longrightarrow> held (nd_info_receiver_update (\<lambda>_. p) n) r"
  "nd_server_cert_sender n = None \<Longrightarrow> held n r \<or> r \<in> Object ` set_option p \<Longrightarrow> held (nd_server_cert_sender_update (\<lambda>_. p) n) r"
  "nd_device_cert_receiver n = None \<Longrightarrow> held n r \<or> r \<in> Object ` set_option p \<Longrightarrow> held (nd_device_cert_receiver_update (\<lambda>_. p) n) r"
  "nd_downlink_sender n = None \<Longrightarrow> held n r \<or> r \<in> Object ` set_option p \<Longrightarrow> held (nd_downlink_sender_update (\<lambda>_. p) n) r"
  "nd_uplink_receiver n = None \<Longrightarrow> held n r \<or> r \<in> Object ` set_option p \<Longrightarrow> held (nd_uplink_receiver_update (\<lambda>_. p) n) r"
  "nd_packetizer n = None \<Longrightarrow> held n r \<or> r \<in> Object ` set_option p \<Longrightarrow> held (nd_packetizer_update (\<lambda>_. p) n) r"
  by (cases r; auto)+

lemma creates_tidy:
  assumes "obj_create e ob w = (p, w1)"
  shows "nd_info_receiver (w_node w) = None \<Longrightarrow> tidy w (on_node (nd_info_receiver_update (\<lambda>_. p)) w1)"
    "nd_server_cert_sender (w_node w) = None \<Longrightarrow> tidy w (on_node (nd_server_cert_sender_update (\<lambda>_. p)) w1)"
    "nd_device_cert_receiver (w_node w) = None \<Longrightarrow> tidy w (on_node (nd_device_cert_receiver_update (\<lambda>_. p)) w1)"
    "nd_downlink_sender (w_node w) = None \<Longrightarrow> tidy w (on_node (nd_downlink_sender_update (\<lambda>_. p)) w1)"
    "nd_uplink_receiver (w_node w) = None \<Longrightarrow> tidy w (on_node (nd_uplink_receiver_update (\<lambda>_. p)) w1)"
    "nd_packetizer (w_node w) = None \<Longrightarrow> tidy w (on_node (nd_packetizer_update (\<lambda>_. p)) w1)"
  by (rule create_tidy [OF assms], erule held_set, assumption)+

lemma downlink_start_tidy:
  assumes start: "downlink_start e w = Some (p, w')" and none: "nd_packetizer (w_node w) = None" "nd_downlink_sender (w_node w) = None"
  shows "tidy w w' \<and> same_certs w w' \<and> nd_uplink_receiver (w_node w') = nd_uplink_receiver (w_node w)"
proof -
  obtain ctx m where o: "downlink_open (e_mal e (ctxs (w_dl w))) (e_conn e) (w_dl w) = (ctx, m)" by fastforce
  define w1 where "w1 = on_node (\<lambda>n. n\<lparr>nd_downlink_ctx := ctx\<rparr>) (w\<lparr>w_dl := m\<rparr>)"
  obtain pk w2 where k: "obj_create e (Packetizer (DownlinkFill ctx)) w1 = (pk, w2)" by fastforce
  define w3 where "w3 = on_node (\<lambda>n. n\<lparr>nd_packetizer := pk\<rparr>) w2"
  obtain s w4 where s: "obj_create e (Sender POUCH_GATEWAY_GATT_ATTR_DOWNLINK pk) w3 = (s, w4)" by fastforce
  define w5 where "w5 = on_node (\<lambda>n. n\<lparr>nd_downlink_sender := s\<rparr>) w4"
  define same where "same v = (same_certs w v \<and> nd_uplink_receiver (w_node v) = nd_uplink_receiver (w_node w))" for v
  have n: "w_node w2 = w_node w1" "w_node w4 = w_node w3" using create_node k s by blast+
  have t1: "tidy w w1" by (simp add: w1_def on_node_tidy)
  have "tidy w1 w3" unfolding w3_def by (rule creates_tidy(6) [OF k]) (simp add: w1_def on_node_def none)
  then have t3: "tidy w w3" by (rule tidy_trans [OF t1])
  have "tidy w3 w5" unfolding w5_def by (rule creates_tidy(4) [OF s]) (simp add: w3_def n w1_def on_node_def none)
  then have t5: "tidy w w5" by (rule tidy_trans [OF t3])
  have s: "same w" "same w1" "same w3" "same w5" "same (on_node (\<lambda>n. n\<lparr>nd_downlink_subscribed := False\<rparr>) w5)"
    by (simp_all add: same_def same_certs_def w5_def w3_def w1_def n on_node_def)
  have "w' = w \<or> w' = w1 \<or> cleanup_downlink w3 = Some w' \<or> cleanup_downlink w5 = Some w' \<or>
      w' = on_node (\<lambda>n. n\<lparr>nd_downlink_subscribed := False\<rparr>) w5"
    using start unfolding downlink_start_def o Let_def prod.case w1_def [symmetric] k w3_def [symmetric] \<open>obj_create _ _ w3 = _\<close> w5_def [symmetric]
    by (auto split: if_splits bind_splits)
  moreover have "tidy w w' \<and> same w'" if "cleanup_downlink v = Some w'" "tidy w v" "same v" for v
    using that cleanup_downlink_node [OF that(1)] tidy_trans [OF that(2) cleanup_downlink_tidy [OF that(1)]]
    by (auto simp: same_def intro: same_certs_trans)
  moreover have "tidy w (on_node (\<lambda>n. n\<lparr>nd_downlink_subscribed := False\<rparr>) w5)" by (rule on_node_tidy) (simp_all add: t5)
  ultimately have "tidy w w' \<and> same w'" using s t1 t3 t5 by auto
  then show ?thesis by (simp add: same_def)
qed

lemma subscribe_tidy:
  assumes "gatt_subscribe e i w = (err, w')"
  shows "tidy w w'" "w_node w' = w_node w" "w_subs w \<subseteq> w_subs w'" "err = 0 \<Longrightarrow> i \<in> w_subs w'"
  using subscribe_frame [OF assms] assms
  by (auto simp: gatt_subscribe_def Let_def intro!: tidy_trans [OF _ tidy_mem(3)] split: if_splits)

lemma uplink_start_tidy:
  assumes start: "uplink_start e w = Some w'" and none: "none_held w"
  shows "tidy w w' \<and> same_certs w w'"
proof (cases "att_ccc POUCH_GATEWAY_GATT_ATTR_UPLINK w = 0")
  case True
  then have "w' = bt_finished w" using assms by (simp add: uplink_start_def)
  then show ?thesis by (simp add: same_certs_def) (simp add: bt_finished_def emit_def)
next
  case False
  then obtain dl w1 where d: "downlink_start e w = Some (dl, w1)" using assms by (auto simp: uplink_start_def elim!: bind_someE)
  have 1: "tidy w w1" "same_certs w w1" "nd_uplink_receiver (w_node w1) = None"
    using downlink_start_tidy [OF d none_heldD(6,4) [OF none]] none_heldD(5) [OF none] by auto
  have fin: "same_certs w (bt_finished v) = same_certs w v" for v by (simp add: same_certs_def bt_finished_def emit_def)
  show ?thesis
  proof (cases dl)
    case None
    then have "w' = bt_finished w1" using start False d by (simp add: uplink_start_def)
    then show ?thesis using 1 by (simp add: fin)
  next
    case (Some a)
    then obtain p evs m where o: "uplink_open (e_conf e) (e_mal e (ups (w_up w1))) (e_mal e) (e_session e) dl
                            (e_conn e) (w_up w1) = Some (p, evs, m)"
      using start False d by (auto simp: uplink_start_def elim!: bind_someE)
    define v where "v = up_calls evs (w1\<lparr>w_up := m\<rparr>)"
    define w2 where "w2 = on_node (\<lambda>n. n\<lparr>nd_uplink := p\<rparr>) v"
    obtain r w3 where c: "obj_create e (Receiver POUCH_GATEWAY_GATT_ATTR_UPLINK) w2 = (r, w3)" by fastforce
    define w4 where "w4 = on_node (\<lambda>n. n\<lparr>nd_uplink_receiver := r\<rparr>) w3"
    obtain err w5 where g: "gatt_subscribe e POUCH_GATEWAY_GATT_ATTR_UPLINK w4 = (err, w5)" by fastforce
    note G = subscribe_tidy [OF g]
    have v: "same_certs w1 v \<and> nd_uplink_receiver (w_node v) = None"
      using up_call_certs [of "w1\<lparr>w_up := m\<rparr>" evs] 1(3) by (simp add: v_def same_certs_def)
    have t2: "tidy w w2" unfolding w2_def v_def
      by (rule on_node_tidy) (simp_all add: tidy_trans [OF 1(1) up_calls_mem_tidy])
    have s2: "same_certs w w2 \<and> nd_uplink_receiver (w_node w2) = None"
      using v 1(2) by (simp add: w2_def on_node_def same_certs_def)
    have t4: "tidy w w4" unfolding w4_def by (rule tidy_trans [OF t2 creates_tidy(5) [OF c]]) (simp add: s2)
    have s4: "same_certs w w4" using s2 create_node [OF c] by (simp add: w4_def on_node_def same_certs_def)
    have "w' = bt_finished w2 \<or> w' = bt_finished w4 \<or> w' = bt_finished w5 \<or> w' = w5"
      using start unfolding uplink_start_def d Let_def bind.simps prod.case o v_def [symmetric] w2_def [symmetric] c
        w4_def [symmetric] g
      by (auto simp: False Some split: if_splits)
    moreover have "tidy w w5" "same_certs w w5" using tidy_trans [OF t4 G(1)] s4 by (simp_all add: same_certs_def G(2))
    ultimately show ?thesis using t2 s2 t4 s4 by (auto simp: fin)
  qed
qed

section \<open>Held until the subscription ends\<close>

definition engaged :: "world \<Rightarrow> bool" where
  "engaged w \<longleftrightarrow>
     (POUCH_GATEWAY_GATT_ATTR_INFO \<in> w_subs w \<or> nd_info_receiver (w_node w) = None \<and> nd_info_ctx (w_node w) = None) \<and>
     (POUCH_GATEWAY_GATT_ATTR_SERVER_CERT \<in> w_subs w \<or>
        nd_server_cert_sender (w_node w) = None \<and> nd_server_cert_ctx (w_node w) = None) \<and>
     (POUCH_GATEWAY_GATT_ATTR_DEVICE_CERT \<in> w_subs w \<or>
        nd_device_cert_receiver (w_node w) = None \<and> nd_device_cert_ctx (w_node w) = None)"

lemma engaged_none: "none_held w \<Longrightarrow> same_certs w w' \<Longrightarrow> engaged w'"
  by (simp add: engaged_def same_certs_def none_heldD)

lemma engaged_emit [simp]: "engaged (emit ev w) = engaged w" "engaged (bt_finished w) = engaged w"
  by (simp_all add: engaged_def bt_finished_def emit_def)

lemma device_cert_cleanup_node:
  assumes "device_cert_cleanup w = Some w'"
  shows "nd_device_cert_receiver (w_node w') = None" "nd_device_cert_ctx (w_node w') = None"
    "nd_info_receiver (w_node w') = nd_info_receiver (w_node w)" "nd_info_ctx (w_node w') = nd_info_ctx (w_node w)"
    "nd_server_cert_sender (w_node w') = nd_server_cert_sender (w_node w)"
    "nd_server_cert_ctx (w_node w') = nd_server_cert_ctx (w_node w)"
  using assms
  by (auto simp: device_cert_cleanup_def clear_obj_def on_node_def obj_destroy_def elim!: bind_someE split: option.splits)

lemma device_cert_read_tidy:
  assumes read: "device_cert_read e w = Some w'" and none: "none_held w"
  shows "tidy w w' \<and> engaged w'"
proof (cases "nd_device_cert_provisioned (w_node w) \<or> att_ccc POUCH_GATEWAY_GATT_ATTR_DEVICE_CERT w = 0")
  case True
  then consider "uplink_start e w = Some w'" | "w' = bt_finished w" using read by (auto simp: device_cert_read_def split: if_splits)
  then show ?thesis
    using uplink_start_tidy [OF _ none] engaged_none [OF none] engaged_none [OF none, of w] by cases (auto simp: same_certs_def)
next
  case False
  obtain p h where s: "device_cert_start (e_conf e) (e_mal e (w_dc w)) (w_dc w) = (p, h)" by fastforce
  define w1 where "w1 = on_node (\<lambda>n. n\<lparr>nd_device_cert_ctx := p\<rparr>) (w\<lparr>w_dc := h\<rparr>)"
  obtain r w2 where c: "obj_create e (Receiver POUCH_GATEWAY_GATT_ATTR_DEVICE_CERT) w1 = (r, w2)" by fastforce
  define w3 where "w3 = on_node (\<lambda>n. n\<lparr>nd_device_cert_receiver := r\<rparr>) w2"
  obtain err w4 where g: "gatt_subscribe e POUCH_GATEWAY_GATT_ATTR_DEVICE_CERT w3 = (err, w4)" by fastforce
  note G = subscribe_tidy [OF g] and N = none_heldD [OF none]
  have 1: "tidy w w1"
    by (intro tidyI, rename_tac r, case_tac r)
       (use s N in \<open>auto simp: w1_def on_node_def device_cert_start_def split: option.splits if_splits\<close>)
  have 3: "tidy w w3" unfolding w3_def by (rule tidy_trans [OF 1 creates_tidy(3) [OF c]]) (simp add: w1_def on_node_def N)
  have 4: "tidy w w4" by (rule tidy_trans [OF 3 G(1)])
  have n: "w_node w2 = w_node w1" by (rule create_node [OF c])
  have "device_cert_fail w1 = Some w' \<or> device_cert_fail w3 = Some w' \<or> device_cert_fail w4 = Some w' \<or> (w' = w4 \<and> err = 0)"
    using read False unfolding device_cert_read_def s Let_def prod.case w1_def [symmetric] c w3_def [symmetric] g
    by (auto split: if_splits)
  moreover have "tidy w w' \<and> engaged w'"
    if f: "device_cert_fail v = Some w'" "tidy w v" "v = w1 \<or> v = w3 \<or> v = w4" for v
  proof -
    obtain u where u: "device_cert_cleanup v = Some u" "w' = bt_finished u"
      using f(1) by (auto simp: device_cert_fail_def elim!: bind_someE)
    have "engaged u" using device_cert_cleanup_node [OF u(1)] f(3) N G(2)
      by (auto simp: engaged_def w3_def w1_def n on_node_def)
    then show ?thesis using u(2) tidy_trans [OF f(2) device_cert_cleanup_tidy [OF u(1)]] by simp
  qed
  moreover have "engaged w4" if "err = 0" using G(4) [OF that] G(2) N by (simp add: engaged_def w3_def w1_def n on_node_def)
  ultimately show ?thesis using 1 3 4 by blast
qed

lemma server_cert_cleanup_node:
  assumes "server_cert_cleanup w = Some w'"
  shows "nd_server_cert_sender (w_node w') = None" "nd_server_cert_ctx (w_node w') = None" "nd_packetizer (w_node w') = None"
    "nd_info_receiver (w_node w') = nd_info_receiver (w_node w)" "nd_info_ctx (w_node w') = nd_info_ctx (w_node w)"
    "nd_device_cert_receiver (w_node w') = nd_device_cert_receiver (w_node w)"
    "nd_device_cert_ctx (w_node w') = nd_device_cert_ctx (w_node w)"
proof -
  obtain w1 w2 where a: "(case nd_server_cert_ctx (w_node w) of None \<Rightarrow> Some w
      | Some a \<Rightarrow> do { h \<leftarrow> server_cert_abort (Some a) (w_sc w);
          Some (on_node (\<lambda>n. n\<lparr>nd_server_cert_ctx := None\<rparr>) (w\<lparr>w_sc := h\<rparr>)) }) = Some w1"
    and w: "clear_obj nd_packetizer nd_packetizer_update w1 = Some w2"
      "clear_obj nd_server_cert_sender nd_server_cert_sender_update w2 = Some w'"
    using assms unfolding server_cert_cleanup_def by (elim bind_someE)
  have 1: "nd_server_cert_ctx (w_node w1) = None" "nd_info_receiver (w_node w1) = nd_info_receiver (w_node w)"
      "nd_info_ctx (w_node w1) = nd_info_ctx (w_node w)"
      "nd_device_cert_receiver (w_node w1) = nd_device_cert_receiver (w_node w)"
      "nd_device_cert_ctx (w_node w1) = nd_device_cert_ctx (w_node w)"
    using a by (auto simp: on_node_def elim!: bind_someE split: option.splits)
  have 2: "nd_packetizer (w_node w2) = None" "nd_server_cert_sender (w_node w') = None"
    using w by (auto simp: clear_obj_def on_node_def elim!: bind_someE split: option.splits)
  then show "nd_server_cert_sender (w_node w') = None" "nd_server_cert_ctx (w_node w') = None" "nd_packetizer (w_node w') = None"
    "nd_info_receiver (w_node w') = nd_info_receiver (w_node w)" "nd_info_ctx (w_node w') = nd_info_ctx (w_node w)"
    "nd_device_cert_receiver (w_node w') = nd_device_cert_receiver (w_node w)"
    "nd_device_cert_ctx (w_node w') = nd_device_cert_ctx (w_node w)"
    using 1 clear_node [OF w(1)] clear_node [OF w(2)] by auto
qed

lemma server_cert_write_tidy:
  assumes start: "server_cert_write e w = Some w'" and none: "none_held w"
  shows "tidy w w' \<and> engaged w'"
proof -
  note N = none_heldD [OF none]
  obtain p h where s: "server_cert_start (w_crt w) (e_mal e (w_sc w)) (w_sc w) = (p, h)" by fastforce
  define w1 where "w1 = on_node (\<lambda>n. n\<lparr>nd_server_cert_ctx := p\<rparr>) (w\<lparr>w_sc := h\<rparr>)"
  obtain pk w2 where k: "obj_create e (Packetizer (ServerCertFill p)) w1 = (pk, w2)" by fastforce
  define w3 where "w3 = on_node (\<lambda>n. n\<lparr>nd_packetizer := pk\<rparr>) w2"
  obtain sd w4 where c: "obj_create e (Sender POUCH_GATEWAY_GATT_ATTR_SERVER_CERT pk) w3 = (sd, w4)" by fastforce
  define w5 where "w5 = on_node (\<lambda>n. n\<lparr>nd_server_cert_sender := sd\<rparr>) w4"
  define w6 where "w6 = on_node (\<lambda>n. n\<lparr>nd_server_cert_next := SERVER_CERT_NEXT_END\<rparr>) w5"
  obtain err w7 where g: "gatt_subscribe e POUCH_GATEWAY_GATT_ATTR_SERVER_CERT w6 = (err, w7)" by fastforce
  note G = subscribe_tidy [OF g]
  have n: "w_node w2 = w_node w1" "w_node w4 = w_node w3" using create_node k c by blast+
  have 1: "tidy w w1"
    by (intro tidyI, rename_tac r, case_tac r)
       (use s N in \<open>auto simp: w1_def on_node_def server_cert_start_def split: option.splits if_splits\<close>)
  have 3: "tidy w w3" unfolding w3_def by (rule tidy_trans [OF 1 creates_tidy(6) [OF k]]) (simp add: w1_def on_node_def N)
  have 5: "tidy w w5" unfolding w5_def
    by (rule tidy_trans [OF 3 creates_tidy(2) [OF c]]) (simp add: w3_def n w1_def on_node_def N)
  have 6: "tidy w w6" unfolding w6_def by (rule on_node_tidy) (simp_all add: 5)
  have 7: "tidy w w7" by (rule tidy_trans [OF 6 G(1)])
  have "device_cert_read e w = Some w' \<or> server_cert_fail w = Some w' \<or> server_cert_fail w1 = Some w' \<or>
      server_cert_fail w3 = Some w' \<or> server_cert_fail w5 = Some w' \<or> server_cert_fail w7 = Some w' \<or> (w' = w7 \<and> err = 0)"
    using start unfolding server_cert_write_def s Let_def prod.case w1_def [symmetric] k w3_def [symmetric] c w5_def [symmetric]
      w6_def [symmetric] g
    by (auto split: if_splits)
  moreover have "tidy w w' \<and> engaged w'"
    if f: "server_cert_fail v = Some w'" "tidy w v" "v = w \<or> v = w1 \<or> v = w3 \<or> v = w5 \<or> v = w7" for v
  proof -
    obtain u where u: "server_cert_cleanup v = Some u" "w' = bt_finished u"
      using f(1) by (auto simp: server_cert_fail_def elim!: bind_someE)
    have "nd_info_receiver (w_node v) = None" "nd_info_ctx (w_node v) = None" "nd_device_cert_receiver (w_node v) = None"
        "nd_device_cert_ctx (w_node v) = None"
      using f(3) N by (auto simp: G(2) w6_def w5_def w3_def w1_def n on_node_def)
    then have "engaged u" using server_cert_cleanup_node [OF u(1)] by (simp add: engaged_def)
    then show ?thesis using u(2) tidy_trans [OF f(2) server_cert_cleanup_tidy [OF u(1)]] by simp
  qed
  moreover have "engaged w7" if "err = 0"
    using G(4) [OF that] by (simp add: G(2) engaged_def w6_def w5_def w3_def w1_def n on_node_def N)
  ultimately show ?thesis using device_cert_read_tidy [OF _ none] 1 3 5 7 by auto
qed

lemma info_cleanup_node:
  assumes "info_cleanup w = Some w'"
  shows "nd_info_receiver (w_node w') = None" "nd_info_ctx (w_node w') = None"
    "nd_server_cert_sender (w_node w') = nd_server_cert_sender (w_node w)"
    "nd_server_cert_ctx (w_node w') = nd_server_cert_ctx (w_node w)"
    "nd_device_cert_receiver (w_node w') = nd_device_cert_receiver (w_node w)"
    "nd_device_cert_ctx (w_node w') = nd_device_cert_ctx (w_node w)"
  using assms
  by (auto simp: info_cleanup_def clear_obj_def on_node_def obj_destroy_def elim!: bind_someE split: option.splits)

lemma info_read_start_tidy:
  assumes read: "info_read_start e w = Some w'" and none: "none_held w"
  shows "tidy w w' \<and> engaged w'"
proof -
  note N = none_heldD [OF none]
  define w0 where "w0 = on_node (\<lambda>n. n\<lparr>nd_server_cert_provisioned := False, nd_device_cert_provisioned := False\<rparr>) w"
  obtain p h where s: "info_start (e_mal e (w_in w0)) (w_in w0) = (p, h)" by fastforce
  define w1 where "w1 = on_node (\<lambda>n. n\<lparr>nd_info_ctx := p\<rparr>) (w0\<lparr>w_in := h\<rparr>)"
  obtain r w2 where c: "obj_create e (Receiver POUCH_GATEWAY_GATT_ATTR_INFO) w1 = (r, w2)" by fastforce
  define w3 where "w3 = on_node (\<lambda>n. n\<lparr>nd_info_receiver := r\<rparr>) w2"
  obtain err w4 where g: "gatt_subscribe e POUCH_GATEWAY_GATT_ATTR_INFO w3 = (err, w4)" by fastforce
  note G = subscribe_tidy [OF g]
  have n: "w_node w2 = w_node w1" by (rule create_node [OF c])
  have 1: "tidy w w1"
    by (intro tidyI, rename_tac r, case_tac r)
       (use s N in \<open>auto simp: w1_def w0_def on_node_def info_start_def split: option.splits if_splits\<close>)
  have 3: "tidy w w3" unfolding w3_def
    by (rule tidy_trans [OF 1 creates_tidy(1) [OF c]]) (simp add: w1_def w0_def on_node_def N)
  have 4: "tidy w w4" by (rule tidy_trans [OF 3 G(1)])
  have "(w' = bt_finished w1 \<and> p = None) \<or> info_fail w3 = Some w' \<or> info_fail w4 = Some w' \<or> (w' = w4 \<and> err = 0)"
    using read unfolding info_read_start_def w0_def [symmetric] s Let_def prod.case w1_def [symmetric] c w3_def [symmetric] g
    by (auto split: if_splits)
  moreover have "tidy w w' \<and> engaged w'" if f: "info_fail v = Some w'" "tidy w v" "v = w3 \<or> v = w4" for v
  proof -
    obtain u where u: "info_cleanup v = Some u" "w' = bt_finished u"
      using f(1) by (auto simp: info_fail_def elim!: bind_someE)
    have "engaged u" using info_cleanup_node [OF u(1)] f(3) N
      by (auto simp: engaged_def G(2) w3_def w1_def w0_def n on_node_def)
    then show ?thesis using u(2) tidy_trans [OF f(2) info_cleanup_tidy [OF u(1)]] by simp
  qed
  moreover have "engaged w4" if "err = 0"
    using G(4) [OF that] by (simp add: G(2) engaged_def w3_def w1_def w0_def n on_node_def N)
  moreover have "engaged w1" if "p = None" using that N by (simp add: engaged_def w1_def w0_def on_node_def)
  ultimately show ?thesis using 1 3 4 by auto
qed

section \<open>Every call\<close>

lemma engaged_phase:
  "link_ok c w \<Longrightarrow> engaged w" "idle_ok c w \<Longrightarrow> engaged w"
  "info_ok c w \<Longrightarrow> POUCH_GATEWAY_GATT_ATTR_INFO \<in> w_subs w \<Longrightarrow> engaged w"
  "server_ok c w \<Longrightarrow> POUCH_GATEWAY_GATT_ATTR_SERVER_CERT \<in> w_subs w \<Longrightarrow> engaged w"
  "device_ok c w \<Longrightarrow> POUCH_GATEWAY_GATT_ATTR_DEVICE_CERT \<in> w_subs w \<Longrightarrow> engaged w"
  by (simp_all add: engaged_def phase_defs off_defs)

lemma tidy_ended: "tidy (ended i w) w' = tidy w w'"
proof -
  have "allocated (ended i w) r = allocated w r \<and> held (w_node (ended i w)) r = held (w_node w) r" for r
    by (cases r) (simp_all add: ended_def)
  then show ?thesis by (simp add: tidy_def lost_def)
qed

lemma log_tidy: "tidy w (send_idle (info_send_ack_cb e) x w)" "tidy w (send_idle (device_cert_send_ack_cb e) x w)"
  "tidy w (send_idle (uplink_send_ack_cb e) x w)" "tidy w (send_idle (server_cert_send_data_cb e) x w)"
  "tidy w (send_idle (downlink_send_data_cb e) x w)"
  by simp_all

lemma info_recv_ok:
  assumes env: "env_ok c e" and recv: "recv_done_ok e (nd_info_ctx (w_node w) = None)" and w: "info_ok c w"
    and run: "e_receive e (info_data_received_cb e) w = Some (err, complete, w1)"
  shows "info_ok c w1"
proof -
  obtain cs ret b where cs: "chunks_ok cs" "nd_info_ctx (w_node w) = None \<longrightarrow> cs = []" "e_receive e = replay_chunks cs ret b"
    using recv by (auto simp: recv_done_ok_def)
  have "holds (\<lambda>(r, b, w'). info_ok c w') (replay_chunks cs ret b (info_data_received_cb e) w)"
    using w env cs(2) by (intro in_sink.receive_ok [OF cs(1)]) auto
  then show ?thesis using run by (simp add: cs(3))
qed

lemma device_recv_ok:
  assumes env: "env_ok c e" and recv: "recv_done_ok e (nd_device_cert_ctx (w_node w) = None)" and w: "device_ok c w"
    and run: "e_receive e (device_cert_data_received_cb e) w = Some (err, complete, w1)"
  shows "device_ok c w1"
proof -
  obtain cs ret b where cs: "chunks_ok cs" "nd_device_cert_ctx (w_node w) = None \<longrightarrow> cs = []" "e_receive e = replay_chunks cs ret b"
    using recv by (auto simp: recv_done_ok_def)
  have "holds (\<lambda>(r, b, w'). device_ok c w') (replay_chunks cs ret b (device_cert_data_received_cb e) w)"
    using w env cs(2) by (intro dc_sink.receive_ok [OF cs(1)]) auto
  then show ?thesis using run by (simp add: cs(3))
qed

lemma info_call_tidy:
  assumes w: "node_ok c w" "engaged w" and env: "env_ok c e" and sub: "POUCH_GATEWAY_GATT_ATTR_INFO \<in> w_subs w"
    and recv: "recv_done_ok e (nd_info_ctx (w_node w) = None)" and run: "info_notify_cb e fin w = Some (i, w')"
  shows "tidy w w' \<and> engaged w'"
proof (cases "nd_info_receiver (w_node w)")
  case None
  then have "w' = w \<or> w' = send_idle (info_send_ack_cb e) (e_nack e) w"
    using run by (auto simp: info_notify_cb_def split: if_splits)
  then show ?thesis using w(2) by auto
next
  case (Some x)
  then have i: "info_ok c w" using w(1) by (auto simp: node_ok_def server_ok_def device_ok_def link_ok_def info_off_def)
  obtain err complete w1 where r: "e_receive e (info_data_received_cb e) w = Some (err, complete, w1)"
    using run Some by (cases "e_receive e (info_data_received_cb e) w") (auto simp: info_notify_cb_def)
  have w1: "tidy w w1" "info_ok c w1" "w_subs w1 = w_subs w"
    using recv_tidy [OF disjI1 [OF recv] info_data_tidy r] info_recv_ok [OF env recv i r]
      recv_calm [OF disjI1 [OF recv] info_data_calm r] by (simp_all add: calm_def)
  consider "w' = w1" | w2 where "info_cleanup w1 = Some w2" "w' = bt_finished w2"
    | w2 where "info_cleanup w1 = Some w2" "server_cert_write e w2 = Some w'"
    using run Some r by (auto simp: info_notify_cb_def elim!: bind_someE split: if_splits)
  then show ?thesis
  proof cases
    case 1
    then show ?thesis using w1 engaged_phase(3) [OF w1(2)] sub by simp
  next
    case (2 w2)
    then show ?thesis
      using tidy_trans [OF w1(1) info_cleanup_tidy [OF 2(1)]] info_cleanup_ok [OF w1(2)] engaged_phase(2) by auto
  next
    case (3 w2)
    then have "none_held w2" using info_cleanup_ok [OF w1(2)] idle_none_held by auto
    then show ?thesis
      using server_cert_write_tidy [OF 3(2)] tidy_trans [OF tidy_trans [OF w1(1) info_cleanup_tidy [OF 3(1)]]] by blast
  qed
qed

lemma device_call_tidy:
  assumes w: "node_ok c w" "engaged w" and env: "env_ok c e" and sub: "POUCH_GATEWAY_GATT_ATTR_DEVICE_CERT \<in> w_subs w"
    and recv: "recv_done_ok e (nd_device_cert_ctx (w_node w) = None)" and run: "device_cert_notify_cb e fin w = Some (i, w')"
  shows "tidy w w' \<and> engaged w'"
proof (cases "nd_device_cert_receiver (w_node w)")
  case None
  then have "w' = w \<or> w' = send_idle (device_cert_send_ack_cb e) (e_nack e) w"
    using run by (auto simp: device_cert_notify_cb_def split: if_splits)
  then show ?thesis using w(2) by auto
next
  case (Some x)
  then have i: "device_ok c w" using w(1) by (auto simp: node_ok_def server_ok_def info_ok_def link_ok_def device_off_def)
  obtain err complete w1 where r: "e_receive e (device_cert_data_received_cb e) w = Some (err, complete, w1)"
    using run Some by (cases "e_receive e (device_cert_data_received_cb e) w") (auto simp: device_cert_notify_cb_def)
  have w1: "tidy w w1" "device_ok c w1" "w_subs w1 = w_subs w"
    using recv_tidy [OF disjI1 [OF recv] device_cert_data_tidy r] device_recv_ok [OF env recv i r]
      recv_calm [OF disjI1 [OF recv] device_cert_data_calm r] by (simp_all add: calm_def)
  consider "w' = w1" | w2 where "device_cert_cleanup w1 = Some w2" "w' = bt_finished w2"
    | w2 where "device_cert_cleanup w1 = Some w2" "uplink_start e w2 = Some w'"
    using run Some r by (auto simp: device_cert_notify_cb_def elim!: bind_someE split: if_splits)
  then show ?thesis
  proof cases
    case 1
    then show ?thesis using w1 engaged_phase(5) [OF w1(2)] sub by simp
  next
    case (2 w2)
    then show ?thesis
      using tidy_trans [OF w1(1) device_cert_cleanup_tidy [OF 2(1)]] device_cert_cleanup_ok [OF w1(2)] engaged_phase(2) by auto
  next
    case (3 w2)
    then have "none_held w2" using device_cert_cleanup_ok [OF w1(2)] idle_none_held by auto
    then show ?thesis
      using uplink_start_tidy [OF 3(2)] engaged_none tidy_trans [OF tidy_trans [OF w1(1) device_cert_cleanup_tidy [OF 3(1)]]]
      by blast
  qed
qed

lemma set_next_tidy: "tidy w (set_next x w') = tidy w w'" "engaged (set_next x w') = engaged w'"
proof -
  have "allocated (set_next x w') r = allocated w' r \<and> held (w_node (set_next x w')) r = held (w_node w') r" for r
    by (cases r) (simp_all add: set_next_def on_node_def)
  then show "tidy w (set_next x w') = tidy w w'" by (simp add: tidy_def lost_def)
  show "engaged (set_next x w') = engaged w'" by (simp add: engaged_def set_next_def on_node_def)
qed

lemma server_call_tidy:
  assumes w: "server_ok c w" and env: "env_ok c e" and sub: "POUCH_GATEWAY_GATT_ATTR_SERVER_CERT \<in> w_subs w"
    and run: "server_cert_notify_cb e ack w = Some (i, w')"
  shows "tidy w w' \<and> engaged w'"
proof -
  obtain s where s: "nd_server_cert_sender (w_node w) = Some s" using w by (auto simp: server_ok_def linked_def)
  obtain ret complete w1 where r: "server_cert_sender_run e w = Some (ret, complete, w1)"
    using run s by (cases "server_cert_sender_run e w") (auto simp: server_cert_notify_cb_def)
  have "w' = w1 \<or> (\<exists>x. w' = set_next x w1)"
    using run s r by (auto simp: server_cert_notify_cb_def split: if_splits bind_splits)
  moreover have "w_subs (set_next x w1) = w_subs w1" for x by (simp add: set_next_def on_node_def)
  ultimately have "tidy w w' \<and> w_subs w' = w_subs w1"
    using sender_tidy(2) [OF env r] by (elim disjE exE) (simp_all add: set_next_tidy)
  moreover have "w_subs w1 = w_subs w" using sender_calm(2) [OF env r] by (simp add: calm_def)
  moreover have "server_ok c w'" using server_notify_ok [OF env w, of ack] run by simp
  ultimately show ?thesis using engaged_phase(4) [of c w'] sub by simp
qed

lemma server_end_tidy:
  assumes w: "server_ok c w" and env: "env_ok c e"
    and run: "server_cert_notify_end e (ended POUCH_GATEWAY_GATT_ATTR_SERVER_CERT w) = Some (i, w')"
  shows "tidy w w' \<and> engaged w'"
proof -
  let ?v = "ended POUCH_GATEWAY_GATT_ATTR_SERVER_CERT w"
  obtain w1 where w1: "server_cert_cleanup ?v = Some w1" "idle_ok c w1"
    using server_cert_cleanup_ok [OF server_ok_live [OF phase_ended(2) [OF w] node_ended_server]] by (auto simp: holds_def)
  have t: "tidy w w1" using server_cert_cleanup_tidy [OF w1(1)] by (simp add: tidy_ended)
  obtain w2 where w2: "(case nd_server_cert_next (w_node w1) of
              SERVER_CERT_NEXT_DEVICE_CERT \<Rightarrow> device_cert_read e w1
            | SERVER_CERT_NEXT_SERVER_CERT \<Rightarrow> server_cert_write e w1
            | SERVER_CERT_NEXT_END \<Rightarrow> Some (bt_finished w1)) = Some w2"
    and w': "w' = set_next SERVER_CERT_NEXT_END w2"
    using run w1(1) by (auto simp: server_cert_notify_end_def elim!: bind_someE)
  have "tidy w1 w2 \<and> engaged w2"
    using w2 device_cert_read_tidy [OF _ idle_none_held [OF w1(2)]] server_cert_write_tidy [OF _ idle_none_held [OF w1(2)]]
      engaged_phase(2) [OF w1(2)]
    by (auto split: server_cert_next_state.splits)
  then show ?thesis using w' t tidy_trans by (auto simp: set_next_tidy)
qed

lemma info_end_tidy:
  assumes w: "node_ok c w" "engaged w" and run: "info_notify_end (ended POUCH_GATEWAY_GATT_ATTR_INFO w) = Some (i, w')"
  shows "tidy w w' \<and> engaged w'"
proof -
  have c: "info_cleanup (ended POUCH_GATEWAY_GATT_ATTR_INFO w) = Some w'"
    using run by (auto simp: info_notify_end_def elim!: bind_someE)
  have "w_subs w' = w_subs w - {POUCH_GATEWAY_GATT_ATTR_INFO}" using quiet_end [OF info_cleanup_quiet [OF c]] by simp
  then have "engaged w'" using info_cleanup_node [OF c] w(2) by (auto simp: engaged_def ended_def)
  then show ?thesis using info_cleanup_tidy [OF c] by (simp add: tidy_ended)
qed

lemma device_end_tidy:
  assumes w: "node_ok c w" "engaged w" and run: "device_cert_notify_end (ended POUCH_GATEWAY_GATT_ATTR_DEVICE_CERT w) = Some (i, w')"
  shows "tidy w w' \<and> engaged w'"
proof -
  have c: "device_cert_cleanup (ended POUCH_GATEWAY_GATT_ATTR_DEVICE_CERT w) = Some w'"
    using run by (auto simp: device_cert_notify_end_def elim!: bind_someE)
  have "w_subs w' = w_subs w - {POUCH_GATEWAY_GATT_ATTR_DEVICE_CERT}" using quiet_end [OF device_cert_cleanup_quiet [OF c]] by simp
  then have "engaged w'" using device_cert_cleanup_node [OF c] w(2) by (auto simp: engaged_def ended_def)
  then show ?thesis using device_cert_cleanup_tidy [OF c] by (simp add: tidy_ended)
qed

lemma engaged_same: "same_certs w w' \<Longrightarrow> w_subs w \<subseteq> w_subs w' \<union> {POUCH_GATEWAY_GATT_ATTR_UPLINK, POUCH_GATEWAY_GATT_ATTR_DOWNLINK} \<Longrightarrow>
    engaged w \<Longrightarrow> engaged w'"
  by (auto simp: engaged_def same_certs_def)

lemma engaged_eq: "same_certs w w' \<Longrightarrow> w_subs w' = w_subs w \<Longrightarrow> engaged w' = engaged w"
  by (simp add: engaged_def same_certs_def)

lemma uplink_call_tidy:
  assumes w: "node_ok c w" "engaged w" and env: "env_ok c e" and recv: "recv_ok e" "e_block_status e = GOLIOTH_OK"
    and run: "uplink_notify_cb e fin w = Some (i, w')"
  shows "tidy w w' \<and> engaged w'"
proof (cases "nd_uplink_receiver (w_node w)")
  case None
  then have "w' = w \<or> w' = send_idle (uplink_send_ack_cb e) (e_nack e) w"
    using run by (auto simp: uplink_notify_cb_def split: if_splits)
  then show ?thesis using w(2) by auto
next
  case (Some x)
  then have i: "link_ok c w" using w(1) by (auto simp: node_ok_def server_ok_def info_ok_def device_ok_def link_off_def)
  obtain err complete w1 where r: "e_receive e (uplink_data_received_cb e) w = Some (err, complete, w1)"
    using run Some by (cases "e_receive e (uplink_data_received_cb e) w") (auto simp: uplink_notify_cb_def)
  have "tidy w w1" using recv_tidy [OF disjI2 [OF recv(1)] uplink_data_tidy r] .
  then have "tidy w w'" using run Some r by (auto simp: uplink_notify_cb_def split: if_splits)
  moreover have "link_ok c w'" using uplink_notify_ok [OF env recv(2,1) i, of fin] run by simp
  ultimately show ?thesis using engaged_phase(1) by blast
qed

lemma uplink_end_tidy:
  assumes w: "engaged w" and run: "uplink_notify_end (ended POUCH_GATEWAY_GATT_ATTR_UPLINK w) = Some (i, w')"
  shows "tidy w w' \<and> engaged w'"
proof -
  let ?v = "ended POUCH_GATEWAY_GATT_ATTR_UPLINK w"
  have t: "tidy ?v w'"
  proof (cases "nd_uplink_receiver (w_node ?v)")
    case None
    then have "w' = emit DestroyNull ?v"
      using run by (auto simp: uplink_notify_end_def obj_destroy_def on_node_def emit_def clear_same)
    then show ?thesis by simp
  next
    case (Some a)
    then have "clear_obj nd_uplink_receiver nd_uplink_receiver_update ?v = Some w'"
      using run by (auto simp: uplink_notify_end_def clear_obj_def obj_destroy_def elim!: bind_someE)
    then show ?thesis by (rule clears_tidy)
  qed
  have "same_certs w w' \<and> w_subs w' = w_subs ?v"
    using run by (auto simp: uplink_notify_end_def obj_destroy_def same_certs_def on_node_def emit_def ended_def
        elim!: bind_someE split: option.splits)
  then have c: "same_certs w w'" "w_subs w' = w_subs w - {POUCH_GATEWAY_GATT_ATTR_UPLINK}" by (simp_all add: ended_def)
  have "engaged w'" by (rule engaged_same [OF c(1) _ w]) (use c(2) in blast)
  then show ?thesis using t by (simp add: tidy_ended)
qed

lemma downlink_call_tidy:
  assumes w: "link_ok c w" and env: "env_ok c e" and going: "nd_downlink_ctx (w_node w) = None \<Longrightarrow> nd_downlink_sender (w_node w) = None"
    and run: "downlink_notify_cb e ack w = Some (i, w')"
  shows "tidy w w' \<and> engaged w'"
proof -
  have "tidy w w'"
  proof (cases "nd_downlink_sender (w_node w)")
    case None
    then have "w' = w \<or> w' = send_idle (downlink_send_data_cb e) (e_fin e) w"
      using run by (auto simp: downlink_notify_cb_def split: if_splits)
    then show ?thesis by auto
  next
    case (Some s)
    obtain ret complete w1 where r: "downlink_sender_run e w = Some (ret, complete, w1)"
      using run Some by (cases "downlink_sender_run e w") (auto simp: downlink_notify_cb_def)
    have "w' = w1 \<or> (\<exists>m. w' = on_node (\<lambda>n. n\<lparr>nd_downlink_ctx := None\<rparr>) (w1\<lparr>w_dl := m\<rparr>))"
      using run Some r by (auto simp: downlink_notify_cb_def split: if_splits bind_splits)
    then show ?thesis using sender_tidy(1) [OF env r] tidy_trans [OF _ tidy_mem(1)]
      by (auto intro!: on_node_tidy)
  qed
  moreover have "link_ok c w'" using downlink_notify_ok [OF env w going, of ack] run by simp
  ultimately show ?thesis using engaged_phase(1) by blast
qed

lemma downlink_end_tidy:
  assumes w: "link_ok c w" and run: "downlink_notify_end (ended POUCH_GATEWAY_GATT_ATTR_DOWNLINK w) = Some (i, w')"
  shows "tidy w w' \<and> engaged w'"
proof -
  obtain v where "cleanup_downlink (ended POUCH_GATEWAY_GATT_ATTR_DOWNLINK w) = Some v" "w' = bt_finished v"
    using run by (auto simp: downlink_notify_end_def elim!: bind_someE)
  then have "tidy w w'" using cleanup_downlink_tidy by (simp add: tidy_ended) (metis tidy_ended)
  moreover have "link_ok c w'" using downlink_notify_end_ok [OF phase_ended(4) [OF w, of POUCH_GATEWAY_GATT_ATTR_DOWNLINK]] run by simp
  ultimately show ?thesis using engaged_phase(1) by blast
qed

lemma data_available_tidy:
  assumes env: "env_ok c e" and run: "downlink_data_available e w = Some w'"
  shows "tidy w w'"
proof (cases "nd_downlink_subscribed (w_node w)")
  case True
  then obtain ret complete where "downlink_sender_run e w = Some (ret, complete, w')"
    using run by (auto simp: downlink_data_available_def elim!: bind_someE)
  then show ?thesis by (rule sender_tidy(1) [OF env])
next
  case False
  define w0 where "w0 = on_node (\<lambda>n. n\<lparr>nd_downlink_subscribed := True\<rparr>) w"
  obtain err w1 where g: "gatt_subscribe e POUCH_GATEWAY_GATT_ATTR_DOWNLINK w0 = (err, w1)" by fastforce
  have "tidy w w0" unfolding w0_def by (rule on_node_tidy) simp_all
  then have 1: "tidy w w1" by (rule tidy_trans [OF _ subscribe_tidy(1) [OF g]])
  have "w' = w1 \<or> (\<exists>v. cleanup_downlink w1 = Some v \<and> w' = bt_finished v)"
    using run False g by (auto simp: downlink_data_available_def w0_def elim!: bind_someE split: if_splits)
  then show ?thesis using 1 tidy_trans [OF 1 cleanup_downlink_tidy] by auto
qed

lemma block_call_tidy:
  assumes w: "node_ok c w" "engaged w" and env: "env_ok c e" and a: "dl_target w a"
    and slot: "slab_slot_ok c (slab (w_dl w)) slot" and len: "length bytes \<le> unat (block_max c)"
  shows "cloud_downlink_block e a slot bytes l w = Some (st, w') \<Longrightarrow> tidy w w' \<and> engaged w'"
    and "cloud_downlink_end e st' a w = Some w' \<Longrightarrow> tidy w w' \<and> engaged w'"
proof -
  have inv: "dl_inv c (w_dl w)"
    using w by (auto simp: node_ok_def info_ok_def server_ok_def device_ok_def link_ok_def mem_ok_def)
  have t: "tidy w w'" if "(if n then downlink_data_available e (w\<lparr>w_dl := m\<rparr>) else Some (w\<lparr>w_dl := m\<rparr>)) = Some w'" for n m
    using that tidy_trans [OF tidy_mem(1) data_available_tidy [OF env]] by (auto split: if_splits)
  have off: "engaged (w\<lparr>w_dl := m\<rparr>)" for m using w(2) by (simp add: engaged_def)
  show "tidy w w' \<and> engaged w'" if run: "cloud_downlink_block e a slot bytes l w = Some (st, w')"
  proof
    obtain n m where "(if n then downlink_data_available e (w\<lparr>w_dl := m\<rparr>) else Some (w\<lparr>w_dl := m\<rparr>)) = Some w'"
      using run unfolding cloud_downlink_block_def by (auto elim!: bind_someE)
    then show "tidy w w'" by (rule t)
    from off_or_link [OF w(1)] show "engaged w'"
    proof
      assume "link_ok c w"
      from cloud_downlink_block_ok [OF env this a slot len, of l] show ?thesis using run engaged_phase(1) by simp
    next
      assume "link_off w"
      from cloud_downlink_off(1) [OF env inv this a slot len, of l] show ?thesis using run off by auto
    qed
  qed
  show "tidy w w' \<and> engaged w'" if run: "cloud_downlink_end e st' a w = Some w'"
  proof
    obtain n m where "(if n then downlink_data_available e (w\<lparr>w_dl := m\<rparr>) else Some (w\<lparr>w_dl := m\<rparr>)) = Some w'"
      using run unfolding cloud_downlink_end_def by (auto elim!: bind_someE)
    then show "tidy w w'" by (rule t)
    from off_or_link [OF w(1)] show "engaged w'"
    proof
      assume "link_ok c w"
      from cloud_downlink_end_ok [OF env this a, of st'] show ?thesis using run engaged_phase(1) by simp
    next
      assume "link_off w"
      from cloud_downlink_off(2) [OF env inv this a slot len, of st'] show ?thesis using run off by auto
    qed
  qed
qed

lemma uploaded_tidy:
  assumes "cloud_uploaded e st p w = Some w'" "engaged w"
  shows "tidy w w' \<and> engaged w'"
proof -
  obtain evs m where w': "w' = up_calls evs (w\<lparr>w_up := m\<rparr>)"
    using assms(1) by (auto simp: cloud_uploaded_def elim!: bind_someE)
  have "same_certs w w'" using up_call_certs [of "w\<lparr>w_up := m\<rparr>" evs] by (simp add: w' same_certs_def)
  then show ?thesis using engaged_eq [of w w'] assms(2) by (simp add: w' up_calls_mem_tidy)
qed

lemma cloud_call_tidy:
  assumes call: "cloud_call c w r" "r = Some w'" and w: "node_ok c w" "engaged w"
  shows "tidy w w' \<and> engaged w'"
  using call
proof (cases rule: cloud_call.cases)
  case (call_block e a slot bytes l)
  then obtain st where "cloud_downlink_block e a slot bytes l w = Some (st, w')"
    using call(2) by (cases "cloud_downlink_block e a slot bytes l w") auto
  then show ?thesis using block_call_tidy(1) [OF w call_block(2-5)] by blast
next
  case (call_dl_end e a st)
  have "slab_slot_ok c (slab (w_dl w)) None" by (simp add: slab_slot_ok_def)
  then show ?thesis using block_call_tidy(2) [OF w call_dl_end(2,3), of None "[]"] call_dl_end(1) call(2) by simp
next
  case (call_uploaded e p u st)
  then show ?thesis using uploaded_tidy [of e st p w w'] call(2) w(2) by simp
next
  case (call_refresh parse builtin dl)
  then obtain s where "w' = w\<lparr>w_crt := s\<rparr>"
    using call(2) by (cases "cert_on_connected c parse builtin dl (w_crt w)") auto
  then show ?thesis using w(2) by (simp add: engaged_def)
qed

lemma stack_call_tidy:
  assumes call: "stack_call c w r" "r = Some w'" and w: "node_ok c w" "engaged w"
  shows "tidy w w' \<and> engaged w'"
proof -
  have s: "\<exists>i. m = Some (i, w')" if "map_option snd m = Some w'" for m :: "(bt_iter \<times> world) option"
    using that by auto
  show ?thesis using call(1)
  proof (cases rule: stack_call.cases)
    case (call_discovered e h)
    let ?v = "on_node (\<lambda>n. n\<lparr>nd_attr_handles := h\<rparr>) w"
    have n: "none_held ?v" using call_discovered(3) by (intro none_heldI) (simp_all add: on_node_def node_zero_def)
    have t: "tidy w ?v" by (rule on_node_tidy) simp_all
    have "info_read_start e ?v = Some w' \<or> uplink_start e ?v = Some w'"
      using call_discovered(1) call(2) by (auto simp: after_discovery_def split: list.splits connect_call.splits)
    then show ?thesis
      using info_read_start_tidy [OF _ n] uplink_start_tidy [OF _ n] engaged_none [OF n] tidy_trans [OF t] by blast
  next
    case (call_info e fin)
    then obtain i where "info_notify_cb e fin w = Some (i, w')" using s [of "info_notify_cb e fin w"] call(2) by auto
    then show ?thesis using info_call_tidy [OF w] call_info by blast
  next
    case call_info_end
    then obtain i where "info_notify_end (ended POUCH_GATEWAY_GATT_ATTR_INFO w) = Some (i, w')"
      using s [of "info_notify_end (ended POUCH_GATEWAY_GATT_ATTR_INFO w)"] call(2) by auto
    then show ?thesis by (rule info_end_tidy [OF w])
  next
    case (call_server e ack)
    then obtain i where "server_cert_notify_cb e ack w = Some (i, w')"
      using s [of "server_cert_notify_cb e ack w"] call(2) by auto
    then show ?thesis using server_call_tidy [OF server_subscribed [OF w(1)]] call_server by blast
  next
    case (call_server_end e)
    then obtain i where "server_cert_notify_end e (ended POUCH_GATEWAY_GATT_ATTR_SERVER_CERT w) = Some (i, w')"
      using s [of "server_cert_notify_end e (ended POUCH_GATEWAY_GATT_ATTR_SERVER_CERT w)"] call(2) by auto
    then show ?thesis using server_end_tidy [OF server_subscribed [OF w(1)]] call_server_end by blast
  next
    case (call_device e fin)
    then obtain i where "device_cert_notify_cb e fin w = Some (i, w')"
      using s [of "device_cert_notify_cb e fin w"] call(2) by auto
    then show ?thesis using device_call_tidy [OF w] call_device by blast
  next
    case call_device_end
    then obtain i where "device_cert_notify_end (ended POUCH_GATEWAY_GATT_ATTR_DEVICE_CERT w) = Some (i, w')"
      using s [of "device_cert_notify_end (ended POUCH_GATEWAY_GATT_ATTR_DEVICE_CERT w)"] call(2) by auto
    then show ?thesis by (rule device_end_tidy [OF w])
  next
    case (call_uplink e fin)
    then obtain i where "uplink_notify_cb e fin w = Some (i, w')" using s [of "uplink_notify_cb e fin w"] call(2) by auto
    then show ?thesis using uplink_call_tidy [OF w] call_uplink by blast
  next
    case call_uplink_end
    then obtain i where "uplink_notify_end (ended POUCH_GATEWAY_GATT_ATTR_UPLINK w) = Some (i, w')"
      using s [of "uplink_notify_end (ended POUCH_GATEWAY_GATT_ATTR_UPLINK w)"] call(2) by auto
    then show ?thesis by (rule uplink_end_tidy [OF w(2)])
  next
    case (call_downlink e ack)
    then obtain i where "downlink_notify_cb e ack w = Some (i, w')" using s [of "downlink_notify_cb e ack w"] call(2) by auto
    then show ?thesis using downlink_call_tidy [OF downlink_subscribed [OF w(1) call_downlink(3)] call_downlink(2,4)] by blast
  next
    case call_downlink_end
    then obtain i where "downlink_notify_end (ended POUCH_GATEWAY_GATT_ATTR_DOWNLINK w) = Some (i, w')"
      using s [of "downlink_notify_end (ended POUCH_GATEWAY_GATT_ATTR_DOWNLINK w)"] call(2) by auto
    then show ?thesis using downlink_end_tidy [OF downlink_subscribed [OF w(1)]] call_downlink_end by blast
  qed
qed

lemma stop_call_tidy:
  assumes run: "bt_stop e w = Some w'"
  shows "tidy w w' \<and> same_certs w w' \<and> w_subs w' = w_subs w \<and> nd_uplink_receiver (w_node w') = None"
proof -
  let ?v = "emit (BtGattUnsubscribe POUCH_GATEWAY_GATT_ATTR_UPLINK) w"
  obtain w1 w2 where 1: "clear_obj nd_uplink_receiver nd_uplink_receiver_update ?v = Some w1"
    and 2: "(case nd_uplink (w_node w1) of None \<Rightarrow> Some w1
       | Some p \<Rightarrow> do { w2 \<leftarrow> do_uplink_close e w1; Some (on_node (\<lambda>n. n\<lparr>nd_uplink := None\<rparr>) w2) }) = Some w2"
    and w': "w' = downlink_cleanup w2"
    using run unfolding bt_stop_def uplink_cleanup_def by (auto elim!: bind_someE)
  have t1: "tidy w w1" using clears_tidy(5) [OF 1] tidy_trans [of w ?v w1] by simp
  have n1: "same_certs w w1 \<and> w_subs w1 = w_subs w \<and> nd_uplink_receiver (w_node w1) = None"
    using 1 by (auto simp: clear_obj_def obj_destroy_def same_certs_def on_node_def emit_def elim!: bind_someE split: option.splits)
  have "tidy w w2 \<and> same_certs w w2 \<and> w_subs w2 = w_subs w \<and> nd_uplink_receiver (w_node w2) = None"
  proof (cases "nd_uplink (w_node w1)")
    case None
    then show ?thesis using 2 t1 n1 by simp
  next
    case (Some p)
    then obtain evs m where u: "w2 = on_node (\<lambda>n. n\<lparr>nd_uplink := None\<rparr>) (up_calls evs (w1\<lparr>w_up := m\<rparr>))"
      using 2 by (auto simp: do_uplink_close_def elim!: bind_someE)
    have "tidy w w2" unfolding u by (rule on_node_tidy) (simp_all add: tidy_trans [OF t1 up_calls_mem_tidy])
    moreover have "same_certs w w2 \<and> w_subs w2 = w_subs w \<and> nd_uplink_receiver (w_node w2) = None"
      using n1 up_call_certs [of "w1\<lparr>w_up := m\<rparr>" evs] by (simp add: u same_certs_def on_node_def)
    ultimately show ?thesis by blast
  qed
  then show ?thesis by (simp add: w' downlink_cleanup_def) (simp add: same_certs_def emit_def)
qed

text \<open>A new connection forgets what the last one has left behind.\<close>

lemma lost_start: "lost (bt_start w) \<subseteq> lost w \<union> {r. held (w_node w) r}"
proof
  fix r assume "r \<in> lost (bt_start w)"
  then show "r \<in> lost w \<union> {r. held (w_node w) r}" by (cases r) (auto simp: lost_def bt_start_def)
qed

lemma engaged_start: "engaged (bt_start w)"
  by (simp add: engaged_def bt_start_def node_zero_def)

lemma gatt_reach_engaged: "gatt_reach c w \<Longrightarrow> engaged w"
proof (induction rule: gatt_reach.induct)
  case reach_init
  then show ?case by (simp add: engaged_def world_init_def node_zero_def)
next
  case (reach_call w w')
  from reach_call(2) show ?case
  proof (cases rule: gatt_call.cases)
    case call_start
    then show ?thesis by (simp add: engaged_start)
  next
    case (call_stop e)
    then have "same_certs w w' \<and> w_subs w' = w_subs w" using stop_call_tidy [of e w w'] by simp
    then show ?thesis using engaged_eq [of w w'] reach_call.IH by simp
  next
    case call_stack
    then show ?thesis using stack_call_tidy gatt_reach_ok [OF reach_call(1)] reach_call.IH by blast
  next
    case call_cloud
    then show ?thesis using cloud_call_tidy gatt_reach_ok [OF reach_call(1)] reach_call.IH by blast
  qed
qed

section \<open>Property\<close>

text \<open>C24. No leak but one: in every reachable world, no call of the Bluetooth stack or of the
  cloud client and no stop loses a receiver, sender, packetizer or context of the exchange (each
  that is allocated and not held by the node was so before); and when the subscriptions of a
  connection are gone, stopping the node and starting it again for the next connection loses
  at most the sender and the packetizer of a downlink.\<close>

theorem connection_loses_downlink_only:
  assumes reach: "gatt_reach c w" and env: "env_ok c e"
    and call: "stack_call c w (Some w') \<or> cloud_call c w (Some w') \<or> bt_stop e w = Some w'"
  shows "lost w' \<subseteq> lost w \<and>
     (if w_subs w' = {} then \<exists>w2. bt_stop e w' = Some w2 \<and>
        lost (bt_start w2) \<subseteq> lost w' \<union>
          (case nd_downlink_sender (w_node w2) of None \<Rightarrow> {}
           | Some s \<Rightarrow> Object ` ({s} \<union> set_option (nd_packetizer (w_node w2))))
      else True)"
proof -
  have w: "node_ok c w" "engaged w" using gatt_reach_ok [OF reach] gatt_reach_engaged [OF reach] by simp_all
  have g: "gatt_call c w (Some w')" using call call_stop [OF env, of w] call_stack call_cloud by auto
  then have w': "node_ok c w'" "engaged w'"
    using reach_call [OF reach] gatt_reach_ok gatt_reach_engaged by blast+
  have t: "lost w' \<subseteq> lost w"
    using call stack_call_tidy [OF _ refl w] cloud_call_tidy [OF _ refl w] stop_call_tidy [of e w w']
    unfolding tidy_def by blast
  have "\<exists>w2. bt_stop e w' = Some w2 \<and> lost (bt_start w2) \<subseteq> lost w' \<union>
          (case nd_downlink_sender (w_node w2) of None \<Rightarrow> {}
           | Some s \<Rightarrow> Object ` ({s} \<union> set_option (nd_packetizer (w_node w2))))" if none: "w_subs w' = {}"
  proof -
    obtain w2 where w2: "bt_stop e w' = Some w2" "node_ok c w2" using stop_call_ok [OF w'(1) env] by (auto simp: holds_def)
    note S = stop_call_tidy [OF w2(1)]
    have c: "nd_info_receiver (w_node w2) = None" "nd_info_ctx (w_node w2) = None" "nd_server_cert_sender (w_node w2) = None"
        "nd_server_cert_ctx (w_node w2) = None" "nd_device_cert_receiver (w_node w2) = None"
        "nd_device_cert_ctx (w_node w2) = None" "nd_uplink_receiver (w_node w2) = None"
      using S w'(2) none by (auto simp: engaged_def same_certs_def)
    have p: "nd_packetizer (w_node w2) = None" if "nd_downlink_sender (w_node w2) = None"
      using w2(2) that c(3) by (auto simp: node_ok_def info_ok_def device_ok_def server_ok_def link_ok_def downlink_part_def linked_def)
    have "r \<in> (case nd_downlink_sender (w_node w2) of None \<Rightarrow> {}
           | Some s \<Rightarrow> Object ` ({s} \<union> set_option (nd_packetizer (w_node w2))))" if "held (w_node w2) r" for r
      using that c p by (cases r; cases "nd_downlink_sender (w_node w2)") auto
    moreover have "lost w2 \<subseteq> lost w'" using S by (simp add: tidy_def)
    ultimately have "lost (bt_start w2) \<subseteq> lost w' \<union> (case nd_downlink_sender (w_node w2) of None \<Rightarrow> {}
           | Some s \<Rightarrow> Object ` ({s} \<union> set_option (nd_packetizer (w_node w2))))"
      using lost_start [of w2] by blast
    then show ?thesis using w2(1) by blast
  qed
  then show ?thesis using t by simp
qed

theorem connection_loses_downlink_only_witness:
  "lost gx_linked = {} \<and> (\<exists>w'. bt_stop gx_env gx_linked = Some w' \<and> lost w' = {})"
proof -
  have i: "lost gx_linked = {}"
  proof -
    have "r \<notin> lost gx_linked" for r
      by (cases r) (use gx_linked_ex in \<open>auto simp: lost_def gx_linked_def split: if_splits\<close>)
    then show ?thesis by blast
  qed
  obtain w' where w': "bt_stop gx_env gx_linked = Some w'"
    using stop_call_ok [OF gatt_reach_ok [OF gx_reach] gx_env_ok] by (auto simp: holds_def)
  from connection_loses_downlink_only [OF gx_reach gx_env_ok disjI2 [OF disjI2 [OF w']]] i w' show ?thesis by auto
qed

end
