(* ===== verification/Scan.thy ===== *)
theory Scan
  imports Gateway_Prelude
begin

text \<open>
  The pairing window of \<open>lib/bt/bond.c\<close> and the scanner of \<open>lib/bt/scan.c\<close>, which
  decides which advertising devices the gateway connects to.

  The service UUIDs, the layout of the advertised data and its masks come from headers of
  the pouch module, which is not in the repository: they are the record \<open>pouch_gatt\<close>, an
  argument. An advertisement is the list of its elements (\<open>bt_data_parse\<close> hands them to the
  callback until it returns false), the stored bonds are a list of addresses, and the return
  values of the Bluetooth stack are the record \<open>scan_env\<close>. Calls into the stack are the
  list an operation returns.
\<close>

section \<open>The pairing window\<close>

text \<open>The flag, and the timeout with which the delayable work is scheduled, if it is;
  \<open>K_FOREVER\<close> never expires.\<close>

datatype k_timeout = K_FOREVER | K_TICKS nat

record bond_state =
  bonding :: bool
  bonding_timeout_work :: "k_timeout option"

definition bond_init :: bond_state where
  "bond_init = \<lparr>bonding = False, bonding_timeout_work = None\<rparr>"

text \<open>The work handler runs when the work item has expired: it is no longer scheduled.\<close>

definition bonding_timeout_handle :: "bond_state \<Rightarrow> bond_state" where
  "bonding_timeout_handle b = b\<lparr>bonding := False, bonding_timeout_work := None\<rparr>"

definition bonding_enable :: "k_timeout \<Rightarrow> bond_state \<Rightarrow> bond_state" where
  "bonding_enable timeout b = b\<lparr>bonding := True, bonding_timeout_work := Some timeout\<rparr>"

definition bonding_disable :: "bond_state \<Rightarrow> bond_state" where
  "bonding_disable b = b\<lparr>bonding_timeout_work := None, bonding := False\<rparr>"

definition bonding_is_enabled :: "bond_state \<Rightarrow> bool" where
  "bonding_is_enabled b = bonding b"

section \<open>Advertisements\<close>

type_synonym bt_addr = "byte list"

datatype ad_type = BT_DATA_SVC_DATA16 | BT_DATA_SVC_DATA128 | BT_DATA_OTHER nat

datatype adv_type =
  BT_GAP_ADV_TYPE_ADV_IND
| BT_GAP_ADV_TYPE_ADV_DIRECT_IND
| BT_GAP_ADV_TYPE_SCAN_RSP
| BT_GAP_ADV_TYPE_OTHER nat

record bt_data =
  bt_type :: ad_type
  bt_bytes :: "byte list"

record pouch_gatt =
  svc_uuid_128 :: "byte list"
  svc_uuid_16 :: "byte list"
  adv_size :: nat
  adv_version :: "byte list \<Rightarrow> byte"
  adv_flags :: "byte list \<Rightarrow> byte"
  version_self_mask :: "32 word"
  version_self_shift :: nat
  gatt_version :: byte
  flag_sync_request :: byte

record tf_data =
  tf_addr :: "bt_addr option"
  is_tf :: bool
  is_bonded :: bool
  adv_data :: "byte list"

text \<open>In C, \<open>>>\<close> binds tighter than \<open>&\<close>: the mask is shifted, not the masked
  version; the result is cut to a byte.\<close>

definition version_is_compatible :: "pouch_gatt \<Rightarrow> byte list \<Rightarrow> bool" where
  "version_is_compatible g adv =
     (let self_ver = (ucast ((ucast (adv_version g adv) :: 32 word)
                        AND drop_bit (version_self_shift g) (version_self_mask g)) :: byte)
      in gatt_version g = self_ver)"

definition sync_requested :: "pouch_gatt \<Rightarrow> byte list \<Rightarrow> bool" where
  "sync_requested g adv = (adv_flags g adv AND flag_sync_request g \<noteq> 0)"

text \<open>\<open>data_cb\<close>: whether the parse goes on, and the updated \<open>tf_data\<close>.\<close>

definition svc_data :: "pouch_gatt \<Rightarrow> byte list \<Rightarrow> byte list \<Rightarrow> tf_data \<Rightarrow> bool \<times> tf_data" where
  "svc_data g uuid bytes tf =
     (if length bytes \<ge> length uuid + adv_size g \<and> take (length uuid) bytes = uuid
      then (False, tf\<lparr>is_tf := True, adv_data := take (adv_size g) (drop (length uuid) bytes)\<rparr>)
      else (True, tf))"

definition data_cb :: "pouch_gatt \<Rightarrow> bt_data \<Rightarrow> tf_data \<Rightarrow> bool \<times> tf_data" where
  "data_cb g d tf =
     (case bt_type d of
        BT_DATA_SVC_DATA128 \<Rightarrow> svc_data g (svc_uuid_128 g) (bt_bytes d) tf
      | BT_DATA_SVC_DATA16 \<Rightarrow> svc_data g (svc_uuid_16 g) (bt_bytes d) tf
      | BT_DATA_OTHER _ \<Rightarrow> (True, tf))"

fun bt_data_parse :: "(bt_data \<Rightarrow> 'a \<Rightarrow> bool \<times> 'a) \<Rightarrow> bt_data list \<Rightarrow> 'a \<Rightarrow> 'a" where
  "bt_data_parse cb [] a = a"
| "bt_data_parse cb (d # ds) a = (case cb d a of (go, a') \<Rightarrow> if go then bt_data_parse cb ds a' else a')"

text \<open>\<open>bond_filter\<close> compares with \<open>*tf->addr\<close>: undefined when that is \<open>NULL\<close>.\<close>

definition bond_filter :: "bt_addr \<Rightarrow> tf_data \<Rightarrow> tf_data option" where
  "bond_filter info_addr tf = do {
     a \<leftarrow> tf_addr tf;
     Some (if info_addr = a then tf\<lparr>is_bonded := True\<rparr> else tf) }"

fun bt_foreach_bond :: "(bt_addr \<Rightarrow> 'a \<Rightarrow> 'a option) \<Rightarrow> bt_addr list \<Rightarrow> 'a \<Rightarrow> 'a option" where
  "bt_foreach_bond f [] a = Some a"
| "bt_foreach_bond f (b # bs) a = do { a' \<leftarrow> f b a; bt_foreach_bond f bs a' }"

section \<open>The scanner\<close>

datatype scan_call = BtScanStart | BtScanStop | BtConnCreate bt_addr

record scan_env =
  scan_stop_ret :: int
  conn_create_ret :: int

definition scan_start :: "scan_call list" where
  "scan_start = [BtScanStart]"

definition connectable :: "adv_type \<Rightarrow> bool" where
  "connectable ty \<longleftrightarrow> \<not> (ty \<noteq> BT_GAP_ADV_TYPE_ADV_IND \<and> ty \<noteq> BT_GAP_ADV_TYPE_ADV_DIRECT_IND \<and>
     ty \<noteq> BT_GAP_ADV_TYPE_SCAN_RSP)"

definition device_found ::
  "config \<Rightarrow> pouch_gatt \<Rightarrow> bt_addr list \<Rightarrow> scan_env \<Rightarrow> bt_addr \<Rightarrow> adv_type \<Rightarrow> bt_data list \<Rightarrow>
   bond_state \<Rightarrow> (scan_call list \<times> bond_state) option" where
  "device_found c g bonds env addr ty ad b =
     (let tf = \<lparr>tf_addr = Some addr, is_tf = False,
                is_bonded = (if scan_filter_bonded c then False else True), adv_data = []\<rparr> in
      if \<not> connectable ty then Some ([], b)
      else let tf1 = bt_data_parse (data_cb g) ad tf in
      if \<not> is_tf tf1 then Some ([], b)
      else do {
        tf2 \<leftarrow> (if scan_filter_bonded c then bt_foreach_bond bond_filter bonds tf1 else Some tf1);
        if \<not> version_is_compatible g (adv_data tf2) then Some ([], b)
        else if \<not> is_bonded tf2 \<and> \<not> bonding_is_enabled b then Some ([], b)
        else if is_bonded tf2 \<and> \<not> sync_requested g (adv_data tf2) then Some ([], b)
        else if scan_stop_ret env \<noteq> 0 then Some ([BtScanStop], b)
        else if conn_create_ret env \<noteq> 0 then Some ([BtScanStop, BtConnCreate addr] @ scan_start, b)
        else if \<not> is_bonded tf2 then Some ([BtScanStop, BtConnCreate addr], bonding_disable b)
        else Some ([BtScanStop, BtConnCreate addr], b) })"

section \<open>What the scanner decides\<close>

text \<open>The advertised data of the first element that carries it, and when an address counts as
  bonded: the specification of the parse and of the filter.\<close>

fun svc_match :: "pouch_gatt \<Rightarrow> bt_data \<Rightarrow> byte list option" where
  "svc_match g d =
     (let uuid = (case bt_type d of BT_DATA_SVC_DATA128 \<Rightarrow> Some (svc_uuid_128 g)
                  | BT_DATA_SVC_DATA16 \<Rightarrow> Some (svc_uuid_16 g) | BT_DATA_OTHER _ \<Rightarrow> None) in
      case uuid of None \<Rightarrow> None
      | Some u \<Rightarrow> if \<exists>adv rest. bt_bytes d = u @ adv @ rest \<and> length adv = adv_size g
                  then Some (take (adv_size g) (drop (length u) (bt_bytes d))) else None)"

fun first_adv :: "pouch_gatt \<Rightarrow> bt_data list \<Rightarrow> byte list option" where
  "first_adv g [] = None"
| "first_adv g (d # ds) = (case svc_match g d of None \<Rightarrow> first_adv g ds | Some adv \<Rightarrow> Some adv)"

declare svc_match.simps [simp del]

definition counts_as_bonded :: "config \<Rightarrow> bt_addr list \<Rightarrow> bt_addr \<Rightarrow> bool" where
  "counts_as_bonded c bonds addr \<longleftrightarrow> (scan_filter_bonded c \<longrightarrow> addr \<in> set bonds)"

definition accepts :: "config \<Rightarrow> pouch_gatt \<Rightarrow> bt_addr list \<Rightarrow> bt_addr \<Rightarrow> adv_type \<Rightarrow> bt_data list \<Rightarrow> bond_state \<Rightarrow> bool" where
  "accepts c g bonds addr ty ad b \<longleftrightarrow> connectable ty \<and>
     (case first_adv g ad of
        None \<Rightarrow> False
      | Some adv \<Rightarrow> version_is_compatible g adv \<and>
          (if counts_as_bonded c bonds addr then sync_requested g adv else bonding b))"

lemma svc_split:
  "(length u + n \<le> length bs \<and> take (length u) bs = u) \<longleftrightarrow> (\<exists>adv rest. bs = u @ adv @ rest \<and> length adv = n)"
proof
  assume h: "length u + n \<le> length bs \<and> take (length u) bs = u"
  then have "bs = u @ take n (drop (length u) bs) @ drop n (drop (length u) bs)"
    by (metis append_take_drop_id)
  moreover have "length (take n (drop (length u) bs)) = n" using h by auto
  ultimately show "\<exists>adv rest. bs = u @ adv @ rest \<and> length adv = n" by blast
qed auto

lemma data_cb_match:
  "data_cb g d tf = (case svc_match g d of None \<Rightarrow> (True, tf) | Some adv \<Rightarrow> (False, tf\<lparr>is_tf := True, adv_data := adv\<rparr>))"
  by (cases "bt_type d") (simp_all add: data_cb_def svc_data_def svc_match.simps svc_split)

lemma bt_data_parse_first:
  "bt_data_parse (data_cb g) ad tf =
     (case first_adv g ad of None \<Rightarrow> tf | Some adv \<Rightarrow> tf\<lparr>is_tf := True, adv_data := adv\<rparr>)"
  by (induction ad) (simp_all add: data_cb_match split: option.split)

lemma bond_filter_all:
  "tf_addr tf = Some addr \<Longrightarrow>
   bt_foreach_bond bond_filter bonds tf = Some (tf\<lparr>is_bonded := is_bonded tf \<or> addr \<in> set bonds\<rparr>)"
  by (induction bonds arbitrary: tf) (auto simp: bond_filter_def)

lemma device_found_eq:
  "device_found c g bonds env addr ty ad b =
     Some (if \<not> accepts c g bonds addr ty ad b then ([], b)
           else if scan_stop_ret env \<noteq> 0 then ([BtScanStop], b)
           else if conn_create_ret env \<noteq> 0 then ([BtScanStop, BtConnCreate addr, BtScanStart], b)
           else ([BtScanStop, BtConnCreate addr], if counts_as_bonded c bonds addr then b else bonding_disable b))"
proof (cases "connectable ty \<and> first_adv g ad \<noteq> None")
  case False
  then show ?thesis by (auto simp: device_found_def accepts_def bt_data_parse_first Let_def split: option.splits)
next
  case True
  then obtain adv where adv: "connectable ty" "first_adv g ad = Some adv" by auto
  define tf where "tf = \<lparr>tf_addr = Some addr, is_tf = True,
      is_bonded = (if scan_filter_bonded c then False else True), adv_data = adv\<rparr>"
  have parse: "bt_data_parse (data_cb g) ad \<lparr>tf_addr = Some addr, is_tf = False,
      is_bonded = (if scan_filter_bonded c then False else True), adv_data = []\<rparr> = tf"
    by (simp add: bt_data_parse_first adv tf_def)
  have bonded: "(if scan_filter_bonded c then bt_foreach_bond bond_filter bonds tf else Some tf)
      = Some (tf\<lparr>is_bonded := counts_as_bonded c bonds addr\<rparr>)"
    by (simp add: bond_filter_all tf_def counts_as_bonded_def)
  have "is_tf tf" "adv_data tf = adv" by (simp_all add: tf_def)
  then show ?thesis
    using adv unfolding device_found_def Let_def parse bonded
    by (simp add: accepts_def bonding_is_enabled_def scan_start_def)
qed

section \<open>Runs of the scanner\<close>

text \<open>Reports of the stack, one after the other, with the pairing timeout in between; pairing
  is not enabled again.\<close>

datatype scan_event =
  Report scan_env bt_addr adv_type "bt_data list"
| PairingTimeout

fun scan_run ::
  "config \<Rightarrow> pouch_gatt \<Rightarrow> bt_addr list \<Rightarrow> scan_event list \<Rightarrow> bond_state \<Rightarrow> (bt_addr list \<times> bond_state) option" where
  "scan_run c g bonds [] b = Some ([], b)"
| "scan_run c g bonds (PairingTimeout # es) b = scan_run c g bonds es (bonding_timeout_handle b)"
| "scan_run c g bonds (Report env addr ty ad # es) b = do {
     (calls, b1) \<leftarrow> device_found c g bonds env addr ty ad b;
     (conns, b2) \<leftarrow> scan_run c g bonds es b1;
     Some ((if BtConnCreate addr \<in> set calls \<and> conn_create_ret env = 0 then addr # conns else conns), b2) }"

lemma scan_run_disabled:
  "\<not> bonding b \<Longrightarrow> \<exists>conns b'. scan_run c g bonds es b = Some (conns, b') \<and> \<not> bonding b' \<and>
     (\<forall>a \<in> set conns. counts_as_bonded c bonds a)"
proof (induction es arbitrary: b)
  case Nil
  then show ?case by simp
next
  case (Cons e es)
  show ?case
  proof (cases e)
    case PairingTimeout
    then show ?thesis using Cons.IH [of "bonding_timeout_handle b"] by (simp add: bonding_timeout_handle_def)
  next
    case (Report env addr ty ad)
    obtain calls b1 where r: "device_found c g bonds env addr ty ad b = Some (calls, b1)"
      by (metis device_found_eq surj_pair)
    then have b1: "\<not> bonding b1" and a: "BtConnCreate addr \<in> set calls \<longrightarrow> counts_as_bonded c bonds addr"
      using Cons.prems by (auto simp: device_found_eq accepts_def bonding_disable_def split: if_splits option.splits)
    show ?thesis using Cons.IH [OF b1] r a Report by fastforce
  qed
qed

section \<open>Properties\<close>


text \<open>Pairing is one-shot: however many devices advertise, while pairing is not enabled
  again at most one device without a bond is connected, and afterwards pairing is off.\<close>

theorem scan_pairs_once:
  "case scan_run c g bonds es b of
     None \<Rightarrow> False
   | Some (conns, b') \<Rightarrow>
       length (filter (\<lambda>a. \<not> counts_as_bonded c bonds a) conns) \<le> (if bonding b then 1 else 0) \<and>
       (if filter (\<lambda>a. \<not> counts_as_bonded c bonds a) conns = [] then True else \<not> bonding b')"
proof (induction es arbitrary: b)
  case Nil
  then show ?case by simp
next
  case (Cons e es)
  show ?case
  proof (cases e)
    case PairingTimeout
    then show ?thesis
      using scan_run_disabled [of "bonding_timeout_handle b" c g bonds es]
      by (auto simp: bonding_timeout_handle_def filter_empty_conv)
  next
    case (Report env addr ty ad)
    define new where "new = (accepts c g bonds addr ty ad b \<and> scan_stop_ret env = 0 \<and> conn_create_ret env = 0 \<and>
        \<not> counts_as_bonded c bonds addr)"
    show ?thesis
    proof (cases new)
      case True
      then have "bonding b" by (auto simp: new_def accepts_def split: option.splits)
      moreover have "device_found c g bonds env addr ty ad b = Some ([BtScanStop, BtConnCreate addr], bonding_disable b)"
        using True by (simp add: device_found_eq new_def)
      moreover obtain conns b' where "scan_run c g bonds es (bonding_disable b) = Some (conns, b')" "\<not> bonding b'"
        "\<forall>a \<in> set conns. counts_as_bonded c bonds a"
        using scan_run_disabled [of "bonding_disable b" c g bonds es] by (auto simp: bonding_disable_def)
      ultimately show ?thesis using Report by (simp add: filter_empty_conv)
    next
      case False
      obtain calls b1 where r1: "device_found c g bonds env addr ty ad b = Some (calls, b1)"
        by (metis device_found_eq surj_pair)
      then have r: "device_found c g bonds env addr ty ad b = Some (calls, b)"
        and n: "BtConnCreate addr \<in> set calls \<and> conn_create_ret env = 0 \<longrightarrow> counts_as_bonded c bonds addr"
        using False by (auto simp: device_found_eq new_def split: if_splits)
      have "filter (\<lambda>a. \<not> counts_as_bonded c bonds a)
          (if BtConnCreate addr \<in> set calls \<and> conn_create_ret env = 0 then addr # conns else conns)
        = filter (\<lambda>a. \<not> counts_as_bonded c bonds a) conns" for conns using n by simp
      with r show ?thesis
        using Cons.IH [of b] Report by (simp split: option.splits prod.splits) (auto split: if_splits)
    qed
  qed
qed

text \<open>What can happen to the pairing window.\<close>

datatype bond_event = BondEnable k_timeout | BondDisable | BondExpire

fun bond_step :: "bond_event \<Rightarrow> bond_state \<Rightarrow> bond_state" where
  "bond_step (BondEnable t) b = bonding_enable t b"
| "bond_step BondDisable b = bonding_disable b"
| "bond_step BondExpire b = bonding_timeout_handle b"

text \<open>The pairing window: after any sequence of calls and timeouts, pairing is enabled
  exactly when the last of them enabled it, and exactly then the timeout that will close the
  window is scheduled.\<close>

theorem bonding_window:
  "bonding_is_enabled (fold bond_step es bond_init) = (case rev es of BondEnable t # _ \<Rightarrow> True | _ \<Rightarrow> False) \<and>
   bonding_timeout_work (fold bond_step es bond_init) = (case rev es of BondEnable t # _ \<Rightarrow> Some t | _ \<Rightarrow> None)"
proof (cases es rule: rev_cases)
  case Nil
  then show ?thesis by (simp add: bond_init_def bonding_is_enabled_def)
next
  case (snoc es' e)
  then show ?thesis
    by (cases e) (simp_all add: bonding_is_enabled_def bonding_enable_def bonding_disable_def bonding_timeout_handle_def)
qed

text \<open>The version check ignores the shift: where the sender's version is the field of \<open>w\<close>
  bits above the lowest \<open>s\<close>, which the mask selects and the shift is to bring down, the
  check compares the lowest \<open>w\<close> bits of the byte, whatever \<open>s\<close> is.\<close>

theorem scan_version_bits:
  assumes "version_self_mask g = push_bit s (mask w)" and "version_self_shift g = s" and "s + w \<le> 8"
  shows "version_is_compatible g adv = (gatt_version g = adv_version g adv AND mask w)"
proof -
  have "(ucast ((ucast (v :: byte) :: 32 word) AND drop_bit s (push_bit s (mask w))) :: byte) = v AND mask w" for v
    using assms(3) by (intro bit_word_eqI) (auto simp: bit_simps)
  then show ?thesis using assms by (simp add: version_is_compatible_def)
qed

definition scan_ex_gatt :: pouch_gatt where
  "scan_ex_gatt = \<lparr>svc_uuid_128 = replicate 16 7, svc_uuid_16 = [1, 2], adv_size = 2, adv_version = (\<lambda>bs. hd bs),
     adv_flags = (\<lambda>bs. bs ! 1), version_self_mask = 0xF0, version_self_shift = 4, gatt_version = 1, flag_sync_request = 1\<rparr>"

theorem scan_version_bits_witness:
  "version_is_compatible scan_ex_gatt [0x21, 0] \<and> \<not> version_is_compatible scan_ex_gatt [0x12, 0]"
proof -
  have m: "version_self_mask scan_ex_gatt = push_bit 4 (mask 4)" "version_self_shift scan_ex_gatt = 4"
    by (simp_all add: scan_ex_gatt_def mask_numeral push_bit_eq_mult)
  show ?thesis
    using scan_version_bits [OF m, of "[0x21, 0]"] scan_version_bits [OF m, of "[0x12, 0]"]
    by (simp add: scan_ex_gatt_def mask_numeral)
qed

end
