(* ===== verification/Gateway_App.thy ===== *)
theory Gateway_App
  imports Scan
begin

text \<open>
  The gateway application, \<open>gateway/src/main.c\<close>: the button, the cloud client, the
  callbacks of the Bluetooth stack and \<open>main\<close>, and the system they form with the scanner.

  A handler returns the calls it makes, in order, and the new state. \<open>main\<close> blocks on
  semaphores: it is given by what it does up to the next wait, and its program counter.
  Preprocessor conditions and \<open>IS_ENABLED\<close> are fields of the configuration.
\<close>

section \<open>State\<close>

datatype bt_security = BT_SECURITY_L2 | BT_SECURITY_L4

datatype hci_reason =
  BT_HCI_ERR_REMOTE_USER_TERM_CONN
| BT_HCI_ERR_INSUFFICIENT_SECURITY
| BT_HCI_ERR_PAIRING_NOT_ALLOWED
| BT_HCI_ERR_AUTH_FAIL

datatype sys_reboot_type = SYS_REBOOT_WARM | SYS_REBOOT_COLD

datatype app_call =
  GpioConfigure | GpioInterrupt | GpioAddCallback
| LteConnectAsync | NetDhcpv4Start | NetMgmtAddCallback | ConnMgrResendStatus
| GoliothClientCreate | GoliothRegisterEventCallback ptr
| CertOnConnected ptr | UplinkModuleInit ptr | DownlinkModuleInit ptr
| BtEnable | AuthCbRegister | AuthInfoCbRegister
| LogPasskey nat "byte list"
| BtConnAuthPasskeyConfirm nat | BtConnSetSecurity nat bt_security | BtUnpair nat
| BtConnDisconnect nat hci_reason | BtConnUnref nat
| PouchBtStart nat | PouchBtStop nat
| ScanCall scan_call
| SysReboot sys_reboot_type

record app_config =
  ac_base :: config
  ac_has_sw0 :: bool
  ac_nrf_modem :: bool
  ac_ethernet_dhcp :: bool
  ac_hl7800 :: bool
  ac_bt_smp :: bool
  ac_auto_bond :: bool
  ac_auto_confirm :: bool
  ac_ticks_per_sec :: nat

text \<open>The two semaphores have the limit 1.\<close>

record app =
  ap_client :: ptr
  ap_default_conn :: ptr
  ap_bond :: bond_state
  ap_connected :: nat
  ap_network_connected :: nat

definition app_init :: app where
  "app_init = \<lparr>ap_client = None, ap_default_conn = None, ap_bond = bond_init, ap_connected = 0,
     ap_network_connected = 0\<rparr>"

definition k_sem_give :: "nat \<Rightarrow> nat" where
  "k_sem_give n = min 1 (n + 1)"

definition bonding_timeout :: "app_config \<Rightarrow> k_timeout" where
  "bonding_timeout a = K_TICKS (30 * ac_ticks_per_sec a)"

definition bt_security :: "app_config \<Rightarrow> bt_security" where
  "bt_security a = (if scan_filter_bonded (ac_base a) then BT_SECURITY_L4 else BT_SECURITY_L2)"

section \<open>The button\<close>

definition button_pressed :: "app_config \<Rightarrow> app \<Rightarrow> app_call list \<times> app" where
  "button_pressed a s =
     (case ap_default_conn s of
        Some conn \<Rightarrow> ([BtConnAuthPasskeyConfirm conn], s)
      | None \<Rightarrow>
          if bonding_is_enabled (ap_bond s) then ([], s)
          else ([], s\<lparr>ap_bond := bonding_enable (bonding_timeout a) (ap_bond s)\<rparr>))"

text \<open>\<open>gateway/src/fatal_error.c\<close>: the kernel's handler of fatal errors, whatever the reason.\<close>

definition k_sys_fatal_error_handler :: "32 word \<Rightarrow> ptr \<Rightarrow> app_call list" where
  "k_sys_fatal_error_handler reason esf = [SysReboot SYS_REBOOT_COLD]"

section \<open>The cloud client\<close>

datatype client_event = GOLIOTH_CLIENT_EVENT_CONNECTED | GOLIOTH_CLIENT_EVENT_DISCONNECTED

definition on_client_event :: "client_event \<Rightarrow> app \<Rightarrow> app" where
  "on_client_event ev s =
     (let is_connected = (ev = GOLIOTH_CLIENT_EVENT_CONNECTED) in
      if is_connected then s\<lparr>ap_connected := k_sem_give (ap_connected s)\<rparr> else s)"

text \<open>The credentials of the settings (the lengths of id and key), and the client that is
  created.\<close>

definition connect_golioth_client :: "(nat \<times> nat) option \<Rightarrow> ptr \<Rightarrow> app \<Rightarrow> app_call list \<times> app" where
  "connect_golioth_client creds created s =
     (case creds of
        None \<Rightarrow> ([], s)
      | Some (psk_id_len, psk_len) \<Rightarrow>
          if psk_id_len = 0 \<or> psk_len = 0 then ([], s)
          else ([GoliothClientCreate, GoliothRegisterEventCallback created], s\<lparr>ap_client := created\<rparr>))"

datatype lte_status = LTE_LC_NW_REG_REGISTERED_HOME | LTE_LC_NW_REG_REGISTERED_ROAMING | LTE_LC_NW_REG_OTHER
datatype lte_evt = LTE_LC_EVT_NW_REG_STATUS lte_status | LTE_LC_EVT_OTHER

definition lte_handler :: "(nat \<times> nat) option \<Rightarrow> ptr \<Rightarrow> lte_evt \<Rightarrow> app \<Rightarrow> app_call list \<times> app" where
  "lte_handler creds created evt s =
     (case evt of
        LTE_LC_EVT_NW_REG_STATUS st \<Rightarrow>
          if st = LTE_LC_NW_REG_REGISTERED_HOME \<or> st = LTE_LC_NW_REG_REGISTERED_ROAMING then
            (if ap_client s = None then connect_golioth_client creds created s else ([], s))
          else ([], s)
      | LTE_LC_EVT_OTHER \<Rightarrow> ([], s))"

datatype net_event = NET_EVENT_DNS_SERVER_ADD | NET_EVENT_L4_DISCONNECTED | NET_EVENT_OTHER

definition net_mgmt_cb :: "net_event \<Rightarrow> app \<Rightarrow> app" where
  "net_mgmt_cb ev s =
     (case ev of
        NET_EVENT_DNS_SERVER_ADD \<Rightarrow> s\<lparr>ap_network_connected := k_sem_give (ap_network_connected s)\<rparr>
      | NET_EVENT_L4_DISCONNECTED \<Rightarrow> s
      | NET_EVENT_OTHER \<Rightarrow> s)"

definition wait_for_network :: "app_call list" where
  "wait_for_network = [NetMgmtAddCallback, ConnMgrResendStatus]"

text \<open>Where \<open>main\<close> waits: for the network, for the first connection to the cloud, or for
  the next ones.\<close>

datatype main_pc = MainWaitNetwork | MainWaitCloud | MainLoop | MainReturned int

definition connect_to_cloud ::
  "app_config \<Rightarrow> (nat \<times> nat) option \<Rightarrow> ptr \<Rightarrow> app \<Rightarrow> app_call list \<times> main_pc option \<times> app" where
  "connect_to_cloud a creds created s =
     (if \<not> cloud (ac_base a) then ([], None, s)
      else if ac_nrf_modem a then ([LteConnectAsync], Some MainWaitCloud, s)
      else if ac_ethernet_dhcp a then
        (let (cs, s') = connect_golioth_client creds created s in (NetDhcpv4Start # cs, Some MainWaitCloud, s'))
      else if ac_hl7800 a then (wait_for_network, Some MainWaitNetwork, s)
      else (let (cs, s') = connect_golioth_client creds created s in (cs, Some MainWaitCloud, s')))"

section \<open>Callbacks of the Bluetooth stack\<close>

definition bt_connected :: "app_config \<Rightarrow> int \<Rightarrow> nat \<Rightarrow> int \<Rightarrow> app \<Rightarrow> app_call list \<times> app" where
  "bt_connected a set_security_ret conn err s =
     (if err \<noteq> 0 then (BtConnUnref conn # map ScanCall scan_start, s)
      else
        let s' = s\<lparr>ap_default_conn := Some conn\<rparr> in
        if set_security_ret \<noteq> 0
        then ([BtConnSetSecurity conn (bt_security a), BtConnDisconnect conn BT_HCI_ERR_REMOTE_USER_TERM_CONN], s')
        else ([BtConnSetSecurity conn (bt_security a)], s'))"

definition bt_disconnected :: "nat \<Rightarrow> app \<Rightarrow> app_call list \<times> app" where
  "bt_disconnected conn s =
     ([PouchBtStop conn, BtConnUnref conn] @ map ScanCall scan_start, s\<lparr>ap_default_conn := None\<rparr>)"

definition security_changed :: "nat \<Rightarrow> int \<Rightarrow> app_call list" where
  "security_changed conn err =
     (if err \<noteq> 0 then [BtUnpair conn, BtConnDisconnect conn BT_HCI_ERR_INSUFFICIENT_SECURITY]
      else [PouchBtStart conn])"

text \<open>\<open>auth_cancel\<close> and \<open>pairing_complete\<close> only log. What the log says of a passkey is
  what the user compares: the text of \<open>%06u\<close>, cut to the buffer by \<open>snprintk\<close>, with its
  NUL.\<close>

definition auth_cancel :: "nat \<Rightarrow> app_call list" where
  "auth_cancel conn = []"

fun dec_digits :: "nat \<Rightarrow> byte list" where
  "dec_digits n = (if n < 10 then [48 + of_nat n] else dec_digits (n div 10) @ [48 + of_nat (n mod 10)])"

definition fmt_06u :: "32 word \<Rightarrow> byte list" where
  "fmt_06u x = (let ds = dec_digits (unat x) in replicate (6 - length ds) 48 @ ds)"

definition snprintk :: "nat \<Rightarrow> byte list \<Rightarrow> byte list" where
  "snprintk n str = (if n = 0 then [] else take (n - 1) str @ [0])"

definition auth_passkey_confirm :: "app_config \<Rightarrow> nat \<Rightarrow> 32 word \<Rightarrow> app_call list" where
  "auth_passkey_confirm a conn passkey =
     (let passkey_str = snprintk 7 (fmt_06u passkey) in
      LogPasskey conn passkey_str # (if ac_auto_confirm a then [BtConnAuthPasskeyConfirm conn] else []))"

definition auth_passkey_display :: "nat \<Rightarrow> 32 word \<Rightarrow> app_call list" where
  "auth_passkey_display conn passkey =
     (let passkey_str = snprintk 7 (fmt_06u passkey) in [LogPasskey conn passkey_str])"

text \<open>A null entry is \<open>None\<close>.\<close>

record auth_cbs =
  acb_cancel :: "nat \<Rightarrow> app_call list"
  acb_passkey_confirm :: "(nat \<Rightarrow> 32 word \<Rightarrow> app_call list) option"
  acb_passkey_display :: "(nat \<Rightarrow> 32 word \<Rightarrow> app_call list) option"

definition auth_cb :: "app_config \<Rightarrow> auth_cbs" where
  "auth_cb a = \<lparr>acb_cancel = auth_cancel,
     acb_passkey_confirm = (if scan_filter_bonded (ac_base a) then Some (auth_passkey_confirm a) else None),
     acb_passkey_display = (if scan_filter_bonded (ac_base a) then Some auth_passkey_display else None)\<rparr>"

definition pairing_complete :: "nat \<Rightarrow> bool \<Rightarrow> app_call list" where
  "pairing_complete conn bonded = []"

datatype security_err = BT_SECURITY_ERR_PAIR_NOT_ALLOWED | BT_SECURITY_ERR_OTHER

definition pairing_failed :: "nat \<Rightarrow> security_err \<Rightarrow> app_call list" where
  "pairing_failed conn reason =
     [BtConnDisconnect conn (if reason = BT_SECURITY_ERR_PAIR_NOT_ALLOWED then BT_HCI_ERR_PAIRING_NOT_ALLOWED
                             else BT_HCI_ERR_AUTH_FAIL)]"

record auth_info_cbs =
  aicb_pairing_complete :: "nat \<Rightarrow> bool \<Rightarrow> app_call list"
  aicb_pairing_failed :: "nat \<Rightarrow> security_err \<Rightarrow> app_call list"

definition auth_info_cb :: auth_info_cbs where
  "auth_info_cb = \<lparr>aicb_pairing_complete = pairing_complete, aicb_pairing_failed = pairing_failed\<rparr>"

definition app_bt_finished :: "nat \<Rightarrow> app_call list" where
  "app_bt_finished conn = [BtConnDisconnect conn BT_HCI_ERR_REMOTE_USER_TERM_CONN]"

section \<open>main\<close>

definition main_setup :: "app_config \<Rightarrow> int \<Rightarrow> app \<Rightarrow> app_call list \<times> main_pc \<times> app" where
  "main_setup a bt_enable_ret s =
     (let calls = [CertOnConnected (ap_client s), UplinkModuleInit (ap_client s), DownlinkModuleInit (ap_client s),
                   BtEnable] in
      if bt_enable_ret \<noteq> 0 then (calls, MainReturned bt_enable_ret, s)
      else
        let s' = (if ac_auto_bond a then s\<lparr>ap_bond := bonding_enable K_FOREVER (ap_bond s)\<rparr> else s) in
        (calls @ (if ac_bt_smp a then [AuthCbRegister, AuthInfoCbRegister] else []) @ map ScanCall scan_start,
         if cloud (ac_base a) then MainLoop else MainReturned 0, s'))"

text \<open>What \<open>main\<close> asks of the platform.\<close>

record main_env =
  me_gpio_interrupt_ret :: int
  me_bt_enable_ret :: int
  me_creds :: "(nat \<times> nat) option"
  me_created :: ptr

definition main_begin :: "app_config \<Rightarrow> main_env \<Rightarrow> app \<Rightarrow> app_call list \<times> main_pc \<times> app" where
  "main_begin a e s =
     (if ac_has_sw0 a \<and> me_gpio_interrupt_ret e \<noteq> 0 then ([GpioConfigure, GpioInterrupt], MainReturned 0, s)
      else
        let gpio = (if ac_has_sw0 a then [GpioConfigure, GpioInterrupt, GpioAddCallback] else []);
            (cs, wait, s1) = connect_to_cloud a (me_creds e) (me_created e) s in
        case wait of
          Some pc \<Rightarrow> (gpio @ cs, pc, s1)
        | None \<Rightarrow> (let (cs', pc, s2) = main_setup a (me_bt_enable_ret e) s1 in (gpio @ cs @ cs', pc, s2)))"

text \<open>What follows a wait; \<open>None\<close> while the semaphore is not available.\<close>

definition main_resume :: "app_config \<Rightarrow> main_env \<Rightarrow> main_pc \<Rightarrow> app \<Rightarrow> (app_call list \<times> main_pc \<times> app) option" where
  "main_resume a e pc s =
     (case pc of
        MainWaitNetwork \<Rightarrow>
          if ap_network_connected s = 0 then None
          else (let (cs, s') = connect_golioth_client (me_creds e) (me_created e)
                                 (s\<lparr>ap_network_connected := ap_network_connected s - 1\<rparr>) in
                Some (cs, MainWaitCloud, s'))
      | MainWaitCloud \<Rightarrow>
          if ap_connected s = 0 then None
          else Some (main_setup a (me_bt_enable_ret e) (s\<lparr>ap_connected := ap_connected s - 1\<rparr>))
      | MainLoop \<Rightarrow>
          if ap_connected s = 0 then None
          else Some ([CertOnConnected (ap_client s)], MainLoop, s\<lparr>ap_connected := ap_connected s - 1\<rparr>)
      | MainReturned _ \<Rightarrow> None)"

section \<open>The system\<close>

text \<open>The Bluetooth stack as the applications see it: the link (there is one connection at a
  time: the scanner stops before it connects), the references the application holds to the
  connection object, and whether the scanner runs. A call on a connection the application
  holds no reference to is undefined.\<close>

datatype link = NoLink | Connecting nat | Up nat

record radio =
  rd_link :: link
  rd_refs :: nat
  rd_scanning :: bool
  rd_scan_failed :: bool
  rd_trace :: "app_call list"

record radio_env =
  re_scan :: scan_env
  re_scan_start_ret :: int
  re_conn :: nat

definition radio_init :: radio where
  "radio_init = \<lparr>rd_link = NoLink, rd_refs = 0, rd_scanning = False, rd_scan_failed = False, rd_trace = []\<rparr>"

definition scan_effect :: "radio_env \<Rightarrow> scan_call \<Rightarrow> radio \<Rightarrow> radio" where
  "scan_effect re sc r =
     (case sc of
        BtScanStart \<Rightarrow> if re_scan_start_ret re = 0 then r\<lparr>rd_scanning := True\<rparr> else r\<lparr>rd_scan_failed := True\<rparr>
      | BtScanStop \<Rightarrow> if scan_stop_ret (re_scan re) = 0 then r\<lparr>rd_scanning := False\<rparr> else r
      | BtConnCreate addr \<Rightarrow>
          if conn_create_ret (re_scan re) = 0
          then r\<lparr>rd_link := Connecting (re_conn re), rd_refs := rd_refs r + 1\<rparr> else r)"

definition on_conn :: "app_call \<Rightarrow> bool" where
  "on_conn cl = (case cl of
      BtConnAuthPasskeyConfirm _ \<Rightarrow> True | BtConnSetSecurity _ _ \<Rightarrow> True | BtUnpair _ \<Rightarrow> True
    | BtConnDisconnect _ _ \<Rightarrow> True | BtConnUnref _ \<Rightarrow> True | PouchBtStart _ \<Rightarrow> True | PouchBtStop _ \<Rightarrow> True | _ \<Rightarrow> False)"

definition apply_call :: "radio_env \<Rightarrow> app_call \<Rightarrow> radio \<Rightarrow> radio option" where
  "apply_call re cl r =
     (if on_conn cl \<and> rd_refs r = 0 then None
      else
        let r1 = r\<lparr>rd_trace := rd_trace r @ [cl]\<rparr> in
        Some (case cl of
            BtConnUnref _ \<Rightarrow> r1\<lparr>rd_refs := rd_refs r1 - 1\<rparr>
          | ScanCall sc \<Rightarrow> scan_effect re sc r1
          | _ \<Rightarrow> r1))"

fun apply_calls :: "radio_env \<Rightarrow> app_call list \<Rightarrow> radio \<Rightarrow> radio option" where
  "apply_calls re [] r = Some r"
| "apply_calls re (cl # cls) r = do { r' \<leftarrow> apply_call re cl r; apply_calls re cls r' }"

record gw =
  gw_app :: app
  gw_pc :: main_pc
  gw_radio :: radio

definition run_gw :: "radio_env \<Rightarrow> link \<Rightarrow> main_pc \<Rightarrow> app_call list \<times> app \<Rightarrow> gw \<Rightarrow> gw option" where
  "run_gw re l pc h s = do {
     r \<leftarrow> apply_calls re (fst h) ((gw_radio s)\<lparr>rd_link := l\<rparr>);
     Some \<lparr>gw_app = snd h, gw_pc = pc, gw_radio = r\<rparr> }"

text \<open>What may happen next, and what becomes of it. The stack calls back for the connection
  there is, the authentication callbacks once they are registered and where they are not null; the cloud client once it has been created and its callback registered; the LTE
  modem once it was asked to connect.\<close>

inductive gw_step :: "app_config \<Rightarrow> gw \<Rightarrow> gw option \<Rightarrow> bool" for a where
  gw_adv: "rd_scanning (gw_radio s) \<Longrightarrow> gw_step a s (do {
     (cs, b) \<leftarrow> device_found (ac_base a) g bonds (re_scan re) addr ty ad (ap_bond (gw_app s));
     run_gw re (rd_link (gw_radio s)) (gw_pc s) (map ScanCall cs, (gw_app s)\<lparr>ap_bond := b\<rparr>) s })"
| gw_connected: "rd_link (gw_radio s) = Connecting conn \<Longrightarrow>
     gw_step a s (run_gw re (if err = 0 then Up conn else NoLink) (gw_pc s) (bt_connected a ret conn err (gw_app s)) s)"
| gw_disconnected: "rd_link (gw_radio s) = Up conn \<Longrightarrow>
     gw_step a s (run_gw re NoLink (gw_pc s) (bt_disconnected conn (gw_app s)) s)"
| gw_security: "rd_link (gw_radio s) = Up conn \<Longrightarrow>
     gw_step a s (run_gw re (Up conn) (gw_pc s) (security_changed conn err, gw_app s) s)"
| gw_pairing_complete: "rd_link (gw_radio s) = Up conn \<Longrightarrow> AuthInfoCbRegister \<in> set (rd_trace (gw_radio s)) \<Longrightarrow>
     gw_step a s (run_gw re (Up conn) (gw_pc s) (aicb_pairing_complete auth_info_cb conn bonded, gw_app s) s)"
| gw_pairing_failed: "rd_link (gw_radio s) = Up conn \<Longrightarrow> AuthInfoCbRegister \<in> set (rd_trace (gw_radio s)) \<Longrightarrow>
     gw_step a s (run_gw re (Up conn) (gw_pc s) (aicb_pairing_failed auth_info_cb conn reason, gw_app s) s)"
| gw_cancel: "rd_link (gw_radio s) = Up conn \<Longrightarrow> AuthCbRegister \<in> set (rd_trace (gw_radio s)) \<Longrightarrow>
     gw_step a s (run_gw re (Up conn) (gw_pc s) (acb_cancel (auth_cb a) conn, gw_app s) s)"
| gw_passkey: "rd_link (gw_radio s) = Up conn \<Longrightarrow> AuthCbRegister \<in> set (rd_trace (gw_radio s)) \<Longrightarrow>
     acb_passkey_confirm (auth_cb a) = Some f \<or> acb_passkey_display (auth_cb a) = Some f \<Longrightarrow>
     gw_step a s (run_gw re (Up conn) (gw_pc s) (f conn passkey, gw_app s) s)"
| gw_finished: "rd_link (gw_radio s) = Up conn \<Longrightarrow>
     gw_step a s (run_gw re (Up conn) (gw_pc s) (app_bt_finished conn, gw_app s) s)"
| gw_button: "gw_step a s (run_gw re (rd_link (gw_radio s)) (gw_pc s) (button_pressed a (gw_app s)) s)"
| gw_bond_timeout: "gw_step a s (run_gw re (rd_link (gw_radio s)) (gw_pc s)
     ([], (gw_app s)\<lparr>ap_bond := bonding_timeout_handle (ap_bond (gw_app s))\<rparr>) s)"
| gw_client: "ap_client (gw_app s) = Some cl \<Longrightarrow>
     gw_step a s (run_gw re (rd_link (gw_radio s)) (gw_pc s) ([], on_client_event ev (gw_app s)) s)"
| gw_network: "gw_step a s (run_gw re (rd_link (gw_radio s)) (gw_pc s) ([], net_mgmt_cb nev (gw_app s)) s)"
| gw_lte: "cloud (ac_base a) \<Longrightarrow> ac_nrf_modem a \<Longrightarrow>
     gw_step a s (run_gw re (rd_link (gw_radio s)) (gw_pc s) (lte_handler creds created evt (gw_app s)) s)"
| gw_main: "main_resume a e (gw_pc s) (gw_app s) = Some (cs, pc, s') \<Longrightarrow>
     gw_step a s (run_gw re (rd_link (gw_radio s)) pc (cs, s') s)"

inductive gw_reach :: "app_config \<Rightarrow> gw \<Rightarrow> bool" for a where
  gw_boot: "main_begin a e app_init = (cs, pc, s') \<Longrightarrow> apply_calls re cs radio_init = Some r \<Longrightarrow>
     gw_reach a \<lparr>gw_app = s', gw_pc = pc, gw_radio = r\<rparr>"
| gw_next: "gw_reach a s \<Longrightarrow> gw_step a s (Some s') \<Longrightarrow> gw_reach a s'"

section \<open>Its invariant\<close>

definition booted :: "radio \<Rightarrow> bool" where
  "booted r \<longleftrightarrow> ScanCall BtScanStart \<in> set (rd_trace r)"

definition radio_ok :: "ptr \<Rightarrow> radio \<Rightarrow> bool" where
  "radio_ok conn r \<longleftrightarrow>
     rd_refs r = (case rd_link r of NoLink \<Rightarrow> 0 | _ \<Rightarrow> 1) \<and>
     conn = (case rd_link r of Up c \<Rightarrow> Some c | _ \<Rightarrow> None) \<and>
     (rd_scanning r \<longrightarrow> rd_link r = NoLink) \<and>
     (\<not> booted r \<longrightarrow> \<not> rd_scanning r \<and> rd_link r = NoLink) \<and>
     (booted r \<longrightarrow> rd_scanning r \<or> rd_link r \<noteq> NoLink \<or> rd_scan_failed r)"

text \<open>Before the setup there was no scan; behind it the modules got the client there is, which
  in a build with the cloud has connected.\<close>

definition main_ok :: "app_config \<Rightarrow> main_pc \<Rightarrow> app \<Rightarrow> radio \<Rightarrow> bool" where
  "main_ok a pc s r \<longleftrightarrow>
     (booted r \<longrightarrow> {CertOnConnected (ap_client s), UplinkModuleInit (ap_client s), DownlinkModuleInit (ap_client s),
         BtEnable} \<subseteq> set (rd_trace r)) \<and>
     (booted r \<longrightarrow> cloud (ac_base a) \<longrightarrow> ap_client s \<noteq> None) \<and>
     (booted r \<longrightarrow> pc = MainLoop \<or> pc = MainReturned 0) \<and>
     (ap_connected s \<noteq> 0 \<longrightarrow> ap_client s \<noteq> None) \<and>
     (\<not> cloud (ac_base a) \<longrightarrow> ap_client s = None) \<and>
     (pc = MainWaitNetwork \<longrightarrow> ap_client s = None \<and> \<not> ac_nrf_modem a) \<and>
     (pc = MainWaitNetwork \<or> pc = MainWaitCloud \<or> pc = MainLoop \<longrightarrow> cloud (ac_base a))"

definition gw_ok :: "app_config \<Rightarrow> gw \<Rightarrow> bool" where
  "gw_ok a s \<longleftrightarrow> radio_ok (ap_default_conn (gw_app s)) (gw_radio s) \<and> main_ok a (gw_pc s) (gw_app s) (gw_radio s)"


lemmas auth_defs = auth_cb_def auth_info_cb_def auth_cancel_def auth_passkey_confirm_def auth_passkey_display_def
  pairing_complete_def pairing_failed_def
lemmas radio_defs = radio_ok_def booted_def apply_call_def scan_effect_def on_conn_def scan_start_def Let_def

lemma apply_calls_trace: "apply_calls re cs r = Some r' \<Longrightarrow> rd_trace r' = rd_trace r @ cs"
proof (induction cs arbitrary: r)
  case Nil
  then show ?case by simp
next
  case (Cons cl cs)
  then obtain r1 where r1: "apply_call re cl r = Some r1" "apply_calls re cs r1 = Some r'"
    by (auto split: bind_splits)
  have "rd_trace r1 = rd_trace r @ [cl]"
    using r1(1) by (auto simp: apply_call_def scan_effect_def Let_def split: if_splits app_call.splits scan_call.splits)
  then show ?case using Cons.IH [OF r1(2)] by simp
qed

lemma main_ok_frame:
  assumes "main_ok a pc s r" "ap_client s' = ap_client s" "ap_connected s' = ap_connected s"
    "rd_trace r' = rd_trace r @ cs" "booted r \<or> ScanCall BtScanStart \<notin> set cs"
  shows "main_ok a pc s' r'"
  using assms by (auto simp: main_ok_def booted_def)

text \<open>A handler that leaves the client alone.\<close>

lemma run_gw_ok:
  assumes w: "main_ok a (gw_pc s) (gw_app s) (gw_radio s)"
    and s': "ap_client s' = ap_client (gw_app s)" "ap_connected s' = ap_connected (gw_app s)"
    and b: "booted (gw_radio s) \<or> ScanCall BtScanStart \<notin> set cs"
    and r: "holds (radio_ok (ap_default_conn s')) (apply_calls re cs ((gw_radio s)\<lparr>rd_link := l\<rparr>))"
  shows "holds (gw_ok a) (run_gw re l (gw_pc s) (cs, s') s)"
proof -
  obtain r' where r': "apply_calls re cs ((gw_radio s)\<lparr>rd_link := l\<rparr>) = Some r'" "radio_ok (ap_default_conn s') r'"
    using r by (auto simp: holds_def)
  have "main_ok a (gw_pc s) s' r'"
    using main_ok_frame [OF w s'] apply_calls_trace [OF r'(1)] b by simp
  then show ?thesis using r' by (simp add: run_gw_def gw_ok_def)
qed

lemma up_booted: "radio_ok conn r \<Longrightarrow> rd_link r = Up c \<or> rd_link r = Connecting c \<Longrightarrow> booted r"
  by (auto simp: radio_ok_def)

text \<open>Calls that neither scan nor use the connection.\<close>

definition neutral :: "app_call list \<Rightarrow> bool" where
  "neutral cs \<longleftrightarrow> list_all (\<lambda>cl. \<not> on_conn cl \<and> (case cl of ScanCall _ \<Rightarrow> False | _ \<Rightarrow> True)) cs"

lemma neutral_simps [simp]:
  "neutral []" "neutral (cl # cs) \<longleftrightarrow> \<not> on_conn cl \<and> (case cl of ScanCall _ \<Rightarrow> False | _ \<Rightarrow> True) \<and> neutral cs"
  "neutral (cs @ cs') \<longleftrightarrow> neutral cs \<and> neutral cs'"
  by (auto simp: neutral_def)

lemma neutral_no_scan: "neutral cs \<Longrightarrow> ScanCall sc \<notin> set cs"
  by (induction cs) (auto split: app_call.splits)

lemma apply_neutral: "neutral cs \<Longrightarrow> apply_calls re (cs @ cs') r = apply_calls re cs' (r\<lparr>rd_trace := rd_trace r @ cs\<rparr>)"
  by (induction cs arbitrary: r) (auto simp: apply_call_def on_conn_def split: app_call.splits)

lemma apply_neutral_only: "neutral cs \<Longrightarrow> apply_calls re cs r = Some (r\<lparr>rd_trace := rd_trace r @ cs\<rparr>)"
  using apply_neutral [of cs re "[]" r] by simp

lemma radio_neutral:
  "radio_ok conn r \<Longrightarrow> neutral cs \<Longrightarrow> radio_ok conn (r\<lparr>rd_trace := rd_trace r @ cs\<rparr>)"
  using neutral_no_scan [of cs BtScanStart] by (auto simp: radio_ok_def booted_def)

lemma radio_scan:
  assumes "radio_ok conn r" "\<not> booted r"
  shows "holds (radio_ok conn) (apply_calls re (map ScanCall scan_start) r)"
  using assms by (auto simp: radio_defs)

lemma main_setup_ok:
  assumes R: "radio_ok (ap_default_conn s) r" and b: "\<not> booted r"
    and client: "cloud (ac_base a) \<longleftrightarrow> ap_client s \<noteq> None" and sem: "ap_client s = None \<longrightarrow> ap_connected s = 0"
    and run: "main_setup a ret s = (cs, pc, s')"
  shows "holds (\<lambda>r'. radio_ok (ap_default_conn s') r' \<and> main_ok a pc s' r') (apply_calls re cs r)"
proof -
  define pre where "pre = [CertOnConnected (ap_client s), UplinkModuleInit (ap_client s), DownlinkModuleInit (ap_client s),
      BtEnable] @ (if ret = 0 \<and> ac_bt_smp a then [AuthCbRegister, AuthInfoCbRegister] else [])"
  have pre: "neutral pre" by (simp add: pre_def on_conn_def)
  have s': "ap_client s' = ap_client s" "ap_connected s' = ap_connected s" "ap_default_conn s' = ap_default_conn s"
    using run by (auto simp: main_setup_def Let_def split: if_splits)
  define r1 where "r1 = r\<lparr>rd_trace := rd_trace r @ pre\<rparr>"
  have r1: "radio_ok (ap_default_conn s) r1" "\<not> booted r1" "set pre \<subseteq> set (rd_trace r1)"
    using radio_neutral [OF R pre] b neutral_no_scan [OF pre] by (auto simp: r1_def booted_def)
  show ?thesis
  proof (cases "ret = 0")
    case False
    then have "cs = pre" "pc = MainReturned ret" using run by (auto simp: main_setup_def pre_def)
    then show ?thesis using r1 s' client sem False
      by (auto simp: apply_neutral_only [OF pre] r1_def [symmetric] main_ok_def)
  next
    case True
    then have cs: "cs = pre @ map ScanCall scan_start" and pc: "pc = (if cloud (ac_base a) then MainLoop else MainReturned 0)"
      using run by (auto simp: main_setup_def pre_def Let_def)
    obtain r2 where r2: "apply_calls re (map ScanCall scan_start) r1 = Some r2" "radio_ok (ap_default_conn s) r2"
      using radio_scan [OF r1(1,2)] by (auto simp: holds_def)
    have "set pre \<subseteq> set (rd_trace r2)" using apply_calls_trace [OF r2(1)] r1(3) by auto
    then have "main_ok a pc s' r2" using s' client sem pc by (auto simp: main_ok_def pre_def)
    then show ?thesis using r2 s' by (simp add: cs apply_neutral [OF pre] r1_def [symmetric])
  qed
qed

lemma connect_client_neutral:
  "connect_golioth_client creds created s = (cs, s') \<Longrightarrow> neutral cs \<and>
     (\<exists>cl. s' = s\<lparr>ap_client := cl\<rparr>)"
  by (cases s) (auto simp: connect_golioth_client_def on_conn_def split: option.splits if_splits)

lemma gw_main_ok:
  assumes R: "radio_ok (ap_default_conn (gw_app s)) (gw_radio s)" and M: "main_ok a (gw_pc s) (gw_app s) (gw_radio s)"
    and run: "main_resume a e (gw_pc s) (gw_app s) = Some (cs, pc, s')"
  shows "holds (gw_ok a) (run_gw re (rd_link (gw_radio s)) pc (cs, s') s)"
proof (cases "gw_pc s")
  case MainWaitNetwork
  then obtain s1 where c: "connect_golioth_client (me_creds e) (me_created e) s1 = (cs, s')" "pc = MainWaitCloud"
      "ap_client s1 = ap_client (gw_app s)" "ap_connected s1 = ap_connected (gw_app s)"
      "ap_default_conn s1 = ap_default_conn (gw_app s)"
    using run by (auto simp: main_resume_def split: if_splits prod.splits)
  obtain cl where n: "neutral cs" "s' = s1\<lparr>ap_client := cl\<rparr>" using connect_client_neutral [OF c(1)] by blast
  have "ap_connected (gw_app s) = 0" "\<not> booted (gw_radio s)" "cloud (ac_base a)"
    using M MainWaitNetwork by (auto simp: main_ok_def)
  then have "main_ok a pc s' ((gw_radio s)\<lparr>rd_trace := rd_trace (gw_radio s) @ cs\<rparr>)"
    using c n neutral_no_scan [OF n(1)] by (simp add: main_ok_def booted_def)
  then show ?thesis using radio_neutral [OF R n(1)] n(2) c(5)
    by (simp add: run_gw_def apply_neutral_only [OF n(1)] gw_ok_def)
next
  case MainWaitCloud
  define s1 where "s1 = (gw_app s)\<lparr>ap_connected := ap_connected (gw_app s) - 1\<rparr>"
  have c: "main_setup a (me_bt_enable_ret e) s1 = (cs, pc, s')" "ap_connected (gw_app s) \<noteq> 0"
    using run MainWaitCloud by (auto simp: main_resume_def s1_def split: if_splits)
  have "\<not> booted (gw_radio s)" "cloud (ac_base a) \<longleftrightarrow> ap_client s1 \<noteq> None" "ap_client s1 = None \<longrightarrow> ap_connected s1 = 0"
      "radio_ok (ap_default_conn s1) (gw_radio s)"
    using M R MainWaitCloud c(2) by (auto simp: main_ok_def s1_def)
  from main_setup_ok [OF this(4,1,2,3) c(1)]
  obtain r where "apply_calls re cs (gw_radio s) = Some r" "radio_ok (ap_default_conn s') r" "main_ok a pc s' r"
    by (auto simp: holds_def)
  then show ?thesis by (simp add: run_gw_def gw_ok_def)
next
  case MainLoop
  then show ?thesis using R M run
    by (auto simp: main_resume_def run_gw_def gw_ok_def main_ok_def radio_defs split: if_splits)
next
  case (MainReturned x)
  then show ?thesis using run by (simp add: main_resume_def)
qed

lemma gw_step_ok:
  assumes ok: "gw_ok a s" and step: "gw_step a s r"
  shows "holds (gw_ok a) r"
proof -
  have R: "radio_ok (ap_default_conn (gw_app s)) (gw_radio s)" and M: "main_ok a (gw_pc s) (gw_app s) (gw_radio s)"
    using ok by (simp_all add: gw_ok_def)
  show ?thesis using step
  proof (cases rule: gw_step.cases)
    case (gw_adv g bonds re addr ty ad)
    have "booted (gw_radio s)" "rd_link (gw_radio s) = NoLink" using R gw_adv(2) by (auto simp: radio_ok_def)
    then show ?thesis unfolding gw_adv(1) device_found_eq
      by (simp split: if_splits) (intro conjI impI run_gw_ok [OF M]; use R gw_adv(2) in \<open>simp add: radio_defs\<close>)
  next
    case (gw_connected conn re err ret)
    have b: "booted (gw_radio s)" using up_booted [OF R] gw_connected(2) by blast
    show ?thesis unfolding gw_connected(1)
      by (cases "err = 0"; cases "ret = 0"; simp add: bt_connected_def; intro run_gw_ok [OF M];
          use gw_connected(2) b R in \<open>simp add: radio_defs\<close>)
  next
    case (gw_disconnected conn re)
    then show ?thesis using up_booted [OF R] R
      by (auto simp: bt_disconnected_def intro!: run_gw_ok [OF M]) (auto simp: radio_defs)
  next
    case (gw_security conn re err)
    then show ?thesis using up_booted [OF R] R
      by (auto simp: security_changed_def intro!: run_gw_ok [OF M]) (auto simp: radio_defs)
  next
    case (gw_pairing_complete conn re bonded)
    then show ?thesis using up_booted [OF R] R
      by (auto simp: auth_defs intro!: run_gw_ok [OF M]) (auto simp: radio_defs)
  next
    case (gw_pairing_failed conn re reason)
    then show ?thesis using up_booted [OF R] R
      by (auto simp: auth_defs intro!: run_gw_ok [OF M]) (auto simp: radio_defs)
  next
    case (gw_cancel conn re)
    then show ?thesis using up_booted [OF R] R
      by (auto simp: auth_defs intro!: run_gw_ok [OF M]) (auto simp: radio_defs)
  next
    case (gw_passkey conn f re passkey)
    then show ?thesis using up_booted [OF R] R
      by (auto simp: auth_defs intro!: run_gw_ok [OF M] split: if_splits) (auto simp: radio_defs)
  next
    case (gw_finished conn re)
    then show ?thesis using up_booted [OF R] R
      by (auto simp: app_bt_finished_def intro!: run_gw_ok [OF M]) (auto simp: radio_defs)
  next
    case (gw_button re)
    then show ?thesis using R
      by (auto simp: button_pressed_def intro!: run_gw_ok [OF M] split: option.split) (auto simp: radio_defs split: link.splits)
  next
    case (gw_bond_timeout re)
    then show ?thesis using R by (auto intro!: run_gw_ok [OF M])
  next
    case (gw_client cl re ev)
    then show ?thesis using R M by (auto simp: run_gw_def gw_ok_def main_ok_def on_client_event_def)
  next
    case (gw_network re nev)
    then show ?thesis using R M by (auto simp: run_gw_def gw_ok_def main_ok_def net_mgmt_cb_def split: net_event.split)
  next
    case (gw_lte re creds created evt)
    have client: "ap_client (gw_app s) = None \<Longrightarrow> \<not> booted (gw_radio s) \<and> ap_connected (gw_app s) = 0 \<and>
        gw_pc s \<noteq> MainWaitNetwork"
      using M gw_lte(2,3) by (auto simp: main_ok_def)
    have "lte_handler creds created evt (gw_app s) = ([], gw_app s) \<or> ap_client (gw_app s) = None \<and>
        lte_handler creds created evt (gw_app s) =
          ([GoliothClientCreate, GoliothRegisterEventCallback created], (gw_app s)\<lparr>ap_client := created\<rparr>)"
      by (auto simp: lte_handler_def connect_golioth_client_def split: lte_evt.split option.split)
    then show ?thesis
    proof (elim disjE conjE)
      assume "lte_handler creds created evt (gw_app s) = ([], gw_app s)"
      then show ?thesis using ok by (simp add: gw_lte(1) run_gw_def gw_ok_def)
    next
      assume "ap_client (gw_app s) = None" "lte_handler creds created evt (gw_app s) =
          ([GoliothClientCreate, GoliothRegisterEventCallback created], (gw_app s)\<lparr>ap_client := created\<rparr>)"
      then show ?thesis using client R M gw_lte(2)
        by (simp add: gw_lte(1) run_gw_def gw_ok_def main_ok_def radio_defs)
    qed
  next
    case (gw_main e cs pc s' re)
    then show ?thesis using gw_main_ok [OF R M] by (simp add: gw_ok_def)
  qed
qed

text \<open>The first steps of \<open>main\<close>, and every reachable state.\<close>

lemma gw_boot_ok:
  assumes run: "main_begin a e app_init = (cs, pc, s')"
  shows "holds (\<lambda>r. radio_ok (ap_default_conn s') r \<and> main_ok a pc s' r) (apply_calls re cs radio_init)"
proof (cases "ac_has_sw0 a \<and> me_gpio_interrupt_ret e \<noteq> 0")
  case True
  then show ?thesis using run by (auto simp: main_begin_def radio_defs main_ok_def radio_init_def app_init_def)
next
  case False
  define gpio where "gpio = (if ac_has_sw0 a then [GpioConfigure, GpioInterrupt, GpioAddCallback] else [])"
  have gpio: "neutral gpio" by (simp add: gpio_def on_conn_def)
  have init: "radio_ok (ap_default_conn app_init) (radio_init\<lparr>rd_trace := gpio\<rparr>)" "\<not> booted (radio_init\<lparr>rd_trace := gpio\<rparr>)"
    using neutral_no_scan [OF gpio] by (simp_all add: radio_ok_def radio_init_def app_init_def booted_def)
  obtain cs1 wait s1 where c: "connect_to_cloud a (me_creds e) (me_created e) app_init = (cs1, wait, s1)"
    by (cases "connect_to_cloud a (me_creds e) (me_created e) app_init")
  show ?thesis
  proof (cases wait)
    case None
    then have "\<not> cloud (ac_base a)" "cs1 = []" "s1 = app_init"
      using c by (auto simp: connect_to_cloud_def split: if_splits prod.splits)
    moreover obtain cs2 where "main_setup a (me_bt_enable_ret e) s1 = (cs2, pc, s')" "cs = gpio @ cs1 @ cs2"
      using run False c None by (auto simp: main_begin_def gpio_def Let_def split: prod.splits)
    ultimately show ?thesis
      using main_setup_ok [OF init, of a "me_bt_enable_ret e" cs2 pc s' re]
      by (simp add: apply_neutral [OF gpio]) (simp add: app_init_def radio_init_def)
  next
    case (Some pc')
    then have cs: "cs = gpio @ cs1" "pc = pc'" "s' = s1"
      using run False c by (auto simp: main_begin_def gpio_def Let_def)
    have w: "cloud (ac_base a)" "neutral cs1" "\<exists>cl. s1 = app_init\<lparr>ap_client := cl\<rparr>"
        "pc' = MainWaitCloud \<or> pc' = MainWaitNetwork \<and> s1 = app_init \<and> \<not> ac_nrf_modem a"
      using c Some connect_client_neutral [of "me_creds e" "me_created e" app_init]
      by (auto simp: connect_to_cloud_def wait_for_network_def on_conn_def app_init_def split: if_splits prod.splits)
    then show ?thesis using radio_neutral [OF init(1) w(2)] init(2) neutral_no_scan [OF w(2)]
      by (auto simp: cs apply_neutral [OF gpio] apply_neutral_only main_ok_def booted_def radio_init_def app_init_def)
  qed
qed

lemma gw_reach_ok: "gw_reach a s \<Longrightarrow> gw_ok a s"
proof (induction rule: gw_reach.induct)
  case (gw_boot e cs pc s' re r)
  then show ?case using gw_boot_ok [OF gw_boot(1), of re] by (simp add: gw_ok_def)
next
  case (gw_next s s')
  then show ?case using gw_step_ok [of a s "Some s'"] by simp
qed

section \<open>The client of the modules\<close>

text \<open>The static \<open>client\<close> of \<open>lib/uplink.c\<close> and of \<open>lib/downlink.c\<close>.\<close>

record modules =
  md_uplink :: ptr
  md_downlink :: ptr

definition uplink_module_init :: "ptr \<Rightarrow> modules \<Rightarrow> modules" where
  "uplink_module_init c m = m\<lparr>md_uplink := c\<rparr>"

definition downlink_module_init :: "ptr \<Rightarrow> modules \<Rightarrow> modules" where
  "downlink_module_init c m = m\<lparr>md_downlink := c\<rparr>"

fun run_modules :: "app_call list \<Rightarrow> modules \<Rightarrow> modules" where
  "run_modules [] m = m"
| "run_modules (cl # cs) m = run_modules cs
     (case cl of UplinkModuleInit c \<Rightarrow> uplink_module_init c m | DownlinkModuleInit c \<Rightarrow> downlink_module_init c m | _ \<Rightarrow> m)"

definition inits :: "app_call list \<Rightarrow> ptr set" where
  "inits cs = {c. UplinkModuleInit c \<in> set cs \<or> DownlinkModuleInit c \<in> set cs}"

lemma inits_simps [simp]:
  "inits [] = {}" "inits (cs @ cs') = inits cs \<union> inits cs'"
  "inits (cl # cs) = (case cl of UplinkModuleInit c \<Rightarrow> {c} | DownlinkModuleInit c \<Rightarrow> {c} | _ \<Rightarrow> {}) \<union> inits cs"
  "inits (map ScanCall scs) = {}"
  by (auto simp: inits_def split: app_call.splits)

lemma run_modules_inits:
  assumes "inits cs \<subseteq> {c}"
  shows "md_uplink (run_modules cs m) = (if \<exists>c. UplinkModuleInit c \<in> set cs then c else md_uplink m)"
    "md_downlink (run_modules cs m) = (if \<exists>c. DownlinkModuleInit c \<in> set cs then c else md_downlink m)"
  using assms
  by (induction cs arbitrary: m) (auto simp: uplink_module_init_def downlink_module_init_def split: app_call.splits)

definition mods_ok :: "app_config \<Rightarrow> gw \<Rightarrow> bool" where
  "mods_ok a s \<longleftrightarrow> inits (rd_trace (gw_radio s)) \<subseteq> {ap_client (gw_app s)} \<and>
     (inits (rd_trace (gw_radio s)) \<noteq> {} \<longrightarrow> gw_pc s \<noteq> MainWaitNetwork \<and> gw_pc s \<noteq> MainWaitCloud \<and>
        (cloud (ac_base a) \<longrightarrow> ap_client (gw_app s) \<noteq> None))"

lemma mods_run:
  assumes "mods_ok a s" "run_gw re l (gw_pc s) (cs, s1) s = Some s'" "ap_client s1 = ap_client (gw_app s)" "inits cs = {}"
  shows "mods_ok a s'"
  using assms by (auto simp: run_gw_def mods_ok_def dest!: apply_calls_trace split: bind_splits)

lemma connect_client_inits: "connect_golioth_client creds created s = (cs, s') \<Longrightarrow> inits cs = {}"
  by (auto simp: connect_golioth_client_def split: option.splits if_splits)

lemma gw_step_mods:
  assumes ok: "gw_ok a s" and m: "mods_ok a s" and step: "gw_step a s (Some s')"
  shows "mods_ok a s'"
  using step
proof (cases rule: gw_step.cases)
  case (gw_adv g bonds re addr ty ad)
  then obtain cs b where "run_gw re (rd_link (gw_radio s)) (gw_pc s) (map ScanCall cs, (gw_app s)\<lparr>ap_bond := b\<rparr>) s = Some s'"
    by (auto split: bind_splits)
  then show ?thesis by (rule mods_run [OF m]) simp_all
next
  case (gw_connected conn re err ret)
  obtain cs s1 where c: "bt_connected a ret conn err (gw_app s) = (cs, s1)" by fastforce
  have "ap_client s1 = ap_client (gw_app s)" "inits cs = {}"
    using c by (auto simp: bt_connected_def Let_def split: if_splits)
  then show ?thesis using gw_connected(1) c mods_run [OF m] by metis
next
  case (gw_disconnected conn re)
  then show ?thesis by (intro mods_run [OF m gw_disconnected(1) [symmetric, unfolded bt_disconnected_def]]) simp_all
next
  case (gw_security conn re err)
  then show ?thesis by (intro mods_run [OF m gw_security(1) [symmetric]]) (simp_all add: security_changed_def)
next
  case (gw_pairing_complete conn re bonded)
  then show ?thesis by (intro mods_run [OF m gw_pairing_complete(1) [symmetric]]) (simp_all add: auth_defs)
next
  case (gw_pairing_failed conn re reason)
  then show ?thesis by (intro mods_run [OF m gw_pairing_failed(1) [symmetric]]) (simp_all add: auth_defs)
next
  case (gw_cancel conn re)
  then show ?thesis by (intro mods_run [OF m gw_cancel(1) [symmetric]]) (simp_all add: auth_defs)
next
  case (gw_passkey conn f re passkey)
  have "inits (f conn passkey) = {}" using gw_passkey(4) by (auto simp: auth_defs Let_def split: if_splits)
  then show ?thesis by (intro mods_run [OF m gw_passkey(1) [symmetric]]) simp_all
next
  case (gw_finished conn re)
  then show ?thesis by (intro mods_run [OF m gw_finished(1) [symmetric]]) (simp_all add: app_bt_finished_def)
next
  case (gw_button re)
  obtain cs s1 where c: "button_pressed a (gw_app s) = (cs, s1)" by fastforce
  have "ap_client s1 = ap_client (gw_app s)" "inits cs = {}"
    using c by (auto simp: button_pressed_def split: option.splits if_splits)
  then show ?thesis using gw_button(1) c mods_run [OF m] by metis
next
  case (gw_bond_timeout re)
  then show ?thesis by (intro mods_run [OF m gw_bond_timeout(1) [symmetric]]) simp_all
next
  case (gw_client cl re ev)
  then show ?thesis by (intro mods_run [OF m gw_client(1) [symmetric]]) (simp_all add: on_client_event_def)
next
  case (gw_network re nev)
  then show ?thesis by (intro mods_run [OF m gw_network(1) [symmetric]]) (simp_all add: net_mgmt_cb_def split: net_event.split)
next
  case (gw_lte re creds created evt)
  obtain cs s1 where c: "lte_handler creds created evt (gw_app s) = (cs, s1)" by fastforce
  have i: "inits cs = {}" "ap_client s1 = ap_client (gw_app s) \<or> ap_client (gw_app s) = None"
    using c connect_client_inits by (auto simp: lte_handler_def split: lte_evt.splits if_splits)
  show ?thesis
  proof (cases "ap_client (gw_app s) = None")
    case True
    then have "inits (rd_trace (gw_radio s)) = {}" using m gw_lte(2) by (auto simp: mods_ok_def)
    then show ?thesis using gw_lte(1) c i(1) by (auto simp: run_gw_def mods_ok_def dest!: apply_calls_trace split: bind_splits)
  next
    case False
    then show ?thesis using gw_lte(1) c i mods_run [OF m] by metis
  qed
next
  case (gw_main e cs pc s1 re)
  have M: "main_ok a (gw_pc s) (gw_app s) (gw_radio s)" using ok by (simp add: gw_ok_def)
  have t: "rd_trace (gw_radio s') = rd_trace (gw_radio s) @ cs" "gw_app s' = s1" "gw_pc s' = pc"
    using gw_main(1) by (auto simp: run_gw_def dest!: apply_calls_trace split: bind_splits)
  consider "gw_pc s = MainWaitNetwork" "inits cs = {}"
    | "gw_pc s = MainWaitCloud" "inits cs \<subseteq> {ap_client s1}" "pc \<noteq> MainWaitNetwork" "pc \<noteq> MainWaitCloud"
        "ap_client s1 \<noteq> None"
    | "gw_pc s = MainLoop" "pc = MainLoop" "inits cs = {}" "ap_client s1 = ap_client (gw_app s)"
    using gw_main(2) M connect_client_inits
    by (cases "gw_pc s") (auto simp: main_resume_def main_setup_def main_ok_def Let_def split: if_splits prod.splits)
  then show ?thesis using m by cases (auto simp: mods_ok_def t)
qed

lemma gw_reach_mods: "gw_reach a s \<Longrightarrow> mods_ok a s"
proof (induction rule: gw_reach.induct)
  case (gw_boot e cs pc s' re r)
  have t: "rd_trace r = cs" using apply_calls_trace [OF gw_boot(2)] by (simp add: radio_init_def)
  have "inits cs \<subseteq> {ap_client s'} \<and> (inits cs \<noteq> {} \<longrightarrow> pc \<noteq> MainWaitNetwork \<and> pc \<noteq> MainWaitCloud \<and> \<not> cloud (ac_base a))"
    using gw_boot(1) connect_client_inits
    by (auto simp: main_begin_def connect_to_cloud_def wait_for_network_def main_setup_def app_init_def Let_def
        split: if_splits prod.splits)
  then show ?case by (auto simp: mods_ok_def t)
next
  case (gw_next s s')
  then show ?case using gw_step_mods gw_reach_ok by blast
qed

lemma gw_modules:
  assumes "gw_reach a s" "ScanCall BtScanStart \<in> set (rd_trace (gw_radio s))"
  shows "run_modules (rd_trace (gw_radio s)) m = \<lparr>md_uplink = ap_client (gw_app s), md_downlink = ap_client (gw_app s)\<rparr>"
proof -
  have "inits (rd_trace (gw_radio s)) \<subseteq> {ap_client (gw_app s)}" using gw_reach_mods [OF assms(1)] by (simp add: mods_ok_def)
  moreover have "UplinkModuleInit (ap_client (gw_app s)) \<in> set (rd_trace (gw_radio s))"
      "DownlinkModuleInit (ap_client (gw_app s)) \<in> set (rd_trace (gw_radio s))"
    using gw_reach_ok [OF assms(1)] assms(2) by (auto simp: gw_ok_def main_ok_def booted_def)
  ultimately have "md_uplink (run_modules (rd_trace (gw_radio s)) m) = ap_client (gw_app s)"
      "md_downlink (run_modules (rd_trace (gw_radio s)) m) = ap_client (gw_app s)"
    using run_modules_inits [of "rd_trace (gw_radio s)" "ap_client (gw_app s)" m] by auto
  then show ?thesis by (cases "run_modules (rd_trace (gw_radio s)) m") simp
qed

section \<open>Properties\<close>

text \<open>C17. The life of the gateway application: in every reachable state every event (a report
  of the scanner, the callbacks of the Bluetooth stack, the cloud client, the button, a
  timeout, the next step of \<open>main\<close>) is handled without a call on a released connection. The
  application holds exactly one reference while a connection is made or up and none
  otherwise, \<open>default_conn\<close> is the connection that is up; the scanner never runs during a
  connection, and once \<open>main\<close> has started it, it runs whenever there is none, unless the
  stack refused to start it. It is started only behind the setup of the modules; from then on
  uplink and downlink module hold the client there is, in a build with the cloud one that has
  been created.\<close>

theorem gateway_lifecycle:
  assumes "gw_reach a s" and "gw_step a s r"
  shows "\<exists>s' rd. r = Some s' \<and> rd = gw_radio s' \<and>
     rd_refs rd = (case rd_link rd of NoLink \<Rightarrow> 0 | _ \<Rightarrow> 1) \<and>
     ap_default_conn (gw_app s') = (case rd_link rd of Up c \<Rightarrow> Some c | _ \<Rightarrow> None) \<and>
     (if ScanCall BtScanStart \<in> set (rd_trace rd)
      then (if rd_link rd = NoLink then rd_scanning rd \<or> rd_scan_failed rd else \<not> rd_scanning rd) \<and>
        {CertOnConnected (ap_client (gw_app s')), BtEnable} \<subseteq> set (rd_trace rd) \<and>
        run_modules (rd_trace rd) m = \<lparr>md_uplink = ap_client (gw_app s'), md_downlink = ap_client (gw_app s')\<rparr> \<and>
        (if cloud (ac_base a) then ap_client (gw_app s') \<noteq> None else ap_client (gw_app s') = None)
      else \<not> rd_scanning rd \<and> rd_link rd = NoLink)"
proof -
  from gw_step_ok [OF gw_reach_ok [OF assms(1)] assms(2)] obtain s' where s': "r = Some s'" "gw_ok a s'"
    by (auto simp: holds_def)
  then have "gw_reach a s'" using assms gw_next by simp
  from gw_modules [OF this] s' show ?thesis
    by (intro exI [of _ s'] exI [of _ "gw_radio s'"]) (auto simp: gw_ok_def radio_ok_def main_ok_def booted_def)
qed

text \<open>What a reader makes of decimal digits.\<close>

definition dec_value :: "byte list \<Rightarrow> nat" where
  "dec_value ds = foldl (\<lambda>n d. 10 * n + unat (d - 48)) 0 ds"

definition dec_digit :: "byte \<Rightarrow> bool" where
  "dec_digit d \<longleftrightarrow> 48 \<le> d \<and> d \<le> 57"

lemma dec_value_append: "dec_value (ds @ [d]) = 10 * dec_value ds + unat (d - 48)"
  by (simp add: dec_value_def)

lemma dec_value_zeros: "dec_value (replicate n 48 @ ds) = dec_value ds"
  by (induction n) (simp_all add: dec_value_def)

lemma digit_of:
  assumes "n < 10"
  shows "unat ((48 + of_nat n :: byte) - 48) = n" "dec_digit (48 + of_nat n)"
proof -
  have "n = 0 \<or> n = 1 \<or> n = 2 \<or> n = 3 \<or> n = 4 \<or> n = 5 \<or> n = 6 \<or> n = 7 \<or> n = 8 \<or> n = 9"
    using assms by presburger
  then show "unat ((48 + of_nat n :: byte) - 48) = n" "dec_digit (48 + of_nat n)"
    by (auto simp: dec_digit_def)
qed

declare dec_digits.simps [simp del]

lemma dec_digits_value: "dec_value (dec_digits n) = n \<and> list_all dec_digit (dec_digits n)"
proof (induction n rule: dec_digits.induct)
  case (1 n)
  then show ?case
    using digit_of [of n] digit_of [of "n mod 10"]
    by (subst (1 2) dec_digits.simps) (auto simp: dec_value_append dec_value_def)
qed

lemma dec_digits_length: "n < 10 ^ Suc k \<Longrightarrow> length (dec_digits n) \<le> Suc k"
proof (induction k arbitrary: n)
  case 0
  then show ?case by (simp add: dec_digits.simps)
next
  case (Suc k)
  then show ?case by (cases "n < 10") (simp_all add: dec_digits.simps [of n] div_less_iff_less_mult)
qed

text \<open>The passkey the user compares is the one of the stack: for each passkey of the
  Bluetooth specification (at most 999999) both callbacks, which only a build that filters by
  bonds registers, log exactly six decimal digits with their NUL, and the digits read back as
  the passkey.\<close>

theorem passkey_shown:
  assumes "passkey < 1000000"
    and "acb_passkey_confirm (auth_cb a) = Some f \<or> acb_passkey_display (auth_cb a) = Some f"
  shows "\<exists>ds rest. f conn passkey = LogPasskey conn (ds @ [0]) # rest \<and> length ds = 6 \<and>
     list_all dec_digit ds \<and> dec_value ds = unat passkey \<and>
     rest = (if acb_passkey_confirm (auth_cb a) = Some f \<and> ac_auto_confirm a then [BtConnAuthPasskeyConfirm conn] else [])"
proof -
  have "unat passkey < 10 ^ Suc 5" using assms(1) by (simp add: word_less_nat_alt)
  then have l: "length (fmt_06u passkey) = 6" using dec_digits_length [of "unat passkey" 5] by (simp add: fmt_06u_def Let_def)
  have v: "dec_value (fmt_06u passkey) = unat passkey" "list_all dec_digit (fmt_06u passkey)"
    using dec_digits_value [of "unat passkey"]
    by (auto simp: fmt_06u_def Let_def dec_value_zeros list_all_iff dec_digit_def)
  have "snprintk 7 (fmt_06u passkey) = fmt_06u passkey @ [0]" using l by (simp add: snprintk_def)
  moreover have "auth_passkey_confirm a \<noteq> auth_passkey_display" if "ac_auto_confirm a"
    using that by (auto simp: fun_eq_iff auth_passkey_confirm_def auth_passkey_display_def)
  ultimately show ?thesis
    using assms(2) l v
    by (intro exI [of _ "fmt_06u passkey"])
       (auto simp: auth_cb_def auth_passkey_confirm_def auth_passkey_display_def split: if_splits)
qed

theorem passkey_shown_witness:
  "\<exists>ds. auth_passkey_display 7 1234 = [LogPasskey 7 (ds @ [0])] \<and> length ds = 6 \<and> dec_value ds = 1234"
proof -
  have "acb_passkey_display (auth_cb (a\<lparr>ac_base := (ac_base a)\<lparr>scan_filter_bonded := True\<rparr>\<rparr>)) = Some auth_passkey_display" for a
    by (simp add: auth_cb_def)
  from passkey_shown [OF _ disjI2 [OF this], where passkey = 1234 and conn = 7] show ?thesis
    by (auto simp: auth_passkey_display_def)
qed

definition gw_ex_cfg :: app_config where
  "gw_ex_cfg = \<lparr>ac_base = (kconfig_default 512)\<lparr>cloud := False\<rparr>, ac_has_sw0 = True, ac_nrf_modem = False, ac_ethernet_dhcp = False,
     ac_hl7800 = False, ac_bt_smp = True, ac_auto_bond = False, ac_auto_confirm = False, ac_ticks_per_sec = 100\<rparr>"

definition gw_ex_env :: radio_env where
  "gw_ex_env = \<lparr>re_scan = \<lparr>scan_stop_ret = 0, conn_create_ret = 0\<rparr>, re_scan_start_ret = 0, re_conn = 7\<rparr>"

lemma gw_ex_boot:
  "\<exists>s. gw_reach gw_ex_cfg s \<and> rd_scanning (gw_radio s) \<and> gw_app s = app_init"
proof -
  define e where "e = \<lparr>me_gpio_interrupt_ret = 0, me_bt_enable_ret = 0, me_creds = None, me_created = None\<rparr>"
  have "\<exists>cs pc. main_begin gw_ex_cfg e app_init = (cs, pc, app_init) \<and>
      (\<exists>r. apply_calls gw_ex_env cs radio_init = Some r \<and> rd_scanning r)"
    by (simp add: main_begin_def e_def gw_ex_cfg_def connect_to_cloud_def main_setup_def scan_start_def app_init_def
        gw_ex_env_def apply_call_def on_conn_def scan_effect_def)
  then obtain cs pc r where "main_begin gw_ex_cfg e app_init = (cs, pc, app_init)"
      "apply_calls gw_ex_env cs radio_init = Some r" "rd_scanning r" by blast
  then show ?thesis using gw_boot [of gw_ex_cfg e cs pc app_init gw_ex_env r]
    by (intro exI [of _ "\<lparr>gw_app = app_init, gw_pc = pc, gw_radio = r\<rparr>"]) simp
qed

theorem gateway_lifecycle_witness:
  "\<exists>s s'. gw_reach gw_ex_cfg s \<and> run_gw gw_ex_env (rd_link (gw_radio s)) (gw_pc s) (button_pressed gw_ex_cfg app_init) s
     = Some s' \<and> (rd_scanning (gw_radio s') \<or> rd_scan_failed (gw_radio s') \<or> rd_link (gw_radio s') \<noteq> NoLink \<or>
       ScanCall BtScanStart \<notin> set (rd_trace (gw_radio s')))"
proof -
  obtain s where s: "gw_reach gw_ex_cfg s" "gw_app s = app_init" using gw_ex_boot by blast
  from gateway_lifecycle [OF s(1) gw_button [of gw_ex_cfg s gw_ex_env], of "\<lparr>md_uplink = None, md_downlink = None\<rparr>"] s show ?thesis
    by (auto split: if_splits)
qed

end
