(* ===== verification/Gateway_System.thy ===== *)
theory Gateway_System
  imports Gateway_App Gatt_Properties
begin

text \<open>
  The gateway as a whole: the application (\<open>gw_step\<close>), the node its connection runs
  (\<open>stack_call\<close>) and the cloud client (\<open>cloud_call\<close>). The application starts and stops
  the node, the node asks the application to end the connection
  (\<open>pouch_gateway_bt_finished\<close>), and the stack, the cloud client and the application take
  turns in any order.
\<close>

section \<open>The composition\<close>

record sys =
  sy_gw :: gw
  sy_world :: world

text \<open>How often an operation of the node called \<open>pouch_gateway_bt_finished\<close>, and what the
  application does then. It is undefined when it holds no reference to the connection.\<close>

definition asked_end :: "world \<Rightarrow> world \<Rightarrow> nat" where
  "asked_end w w' = length (filter (\<lambda>ev. ev = BtFinished) (drop (length (w_log w)) (w_log w')))"

definition finish_gw :: "radio_env \<Rightarrow> nat \<Rightarrow> nat \<Rightarrow> gw \<Rightarrow> gw option" where
  "finish_gw re conn n g =
     run_gw re (rd_link (gw_radio g)) (gw_pc g) (concat (replicate n (app_bt_finished conn)), gw_app g) g"

text \<open>The calls of a handler of the application to the node. \<open>pouch_gateway_bt_start\<close> clears
  the record of the node and in it the subscription parameters, which the stack uses as long
  as the subscription lasts: it is undefined while there is one.\<close>

fun node_calls :: "env \<Rightarrow> app_call list \<Rightarrow> world \<Rightarrow> world option" where
  "node_calls e [] w = Some w"
| "node_calls e (cl # cs) w =
     (case cl of
        PouchBtStart _ \<Rightarrow> if w_subs w = {} then node_calls e cs (bt_start w) else None
      | PouchBtStop _ \<Rightarrow> do { w' \<leftarrow> bt_stop e w; node_calls e cs w' }
      | _ \<Rightarrow> node_calls e cs w)"

definition new_calls :: "gw \<Rightarrow> gw \<Rightarrow> app_call list" where
  "new_calls g g' = drop (length (rd_trace (gw_radio g))) (rd_trace (gw_radio g'))"

text \<open>The subscriptions are volatile: the stack ends them before it reports that the
  connection is gone. A handler that stops the node does so before it releases the
  connection, so what the node asks for in between finds the reference still held.\<close>

definition sys_after :: "radio_env \<Rightarrow> nat \<Rightarrow> (gw \<Rightarrow> gw) \<Rightarrow> world option \<Rightarrow> sys \<Rightarrow> sys option" where
  "sys_after re conn f r s = do {
     w \<leftarrow> r;
     g \<leftarrow> finish_gw re conn (asked_end (sy_world s) w) (sy_gw s);
     Some \<lparr>sy_gw = f g, sy_world = w\<rparr> }"

inductive sys_step :: "app_config \<Rightarrow> sys \<Rightarrow> sys option \<Rightarrow> bool" for a where
  sys_app: "gw_step a (sy_gw s) (Some g) \<Longrightarrow> env_ok (ac_base a) e \<Longrightarrow>
     (\<And>conn. PouchBtStop conn \<in> set (new_calls (sy_gw s) g) \<Longrightarrow> w_subs (sy_world s) = {}) \<Longrightarrow>
     sys_step a s (sys_after re conn (\<lambda>_. g) (node_calls e (new_calls (sy_gw s) g) (sy_world s)) s)"
| sys_stack: "rd_link (gw_radio (sy_gw s)) = Up conn \<Longrightarrow> stack_call (ac_base a) (sy_world s) r \<Longrightarrow>
     sys_step a s (sys_after re conn (\<lambda>g. g) r s)"
| sys_cloud: "cloud_call (ac_base a) (sy_world s) r \<Longrightarrow> sys_step a s (sys_after re conn (\<lambda>g. g) r s)"

inductive sys_reach :: "app_config \<Rightarrow> sys \<Rightarrow> bool" for a where
  sys_boot: "main_begin a e app_init = (cs, pc, s') \<Longrightarrow> apply_calls re cs radio_init = Some r \<Longrightarrow>
     sys_reach a \<lparr>sy_gw = \<lparr>gw_app = s', gw_pc = pc, gw_radio = r\<rparr>, sy_world = world_init (ac_base a)\<rparr>"
| sys_next: "sys_reach a s \<Longrightarrow> sys_step a s (Some s') \<Longrightarrow> sys_reach a s'"

section \<open>Its invariant\<close>

definition sys_ok :: "app_config \<Rightarrow> sys \<Rightarrow> bool" where
  "sys_ok a s \<longleftrightarrow> gw_ok a (sy_gw s) \<and> node_ok (ac_base a) (sy_world s)"

lemma apply_disconnects:
  "apply_calls re (concat (replicate n (app_bt_finished conn))) r =
     (if n \<noteq> 0 \<and> rd_refs r = 0 then None
      else Some (r\<lparr>rd_trace := rd_trace r @ concat (replicate n (app_bt_finished conn))\<rparr>))"
  by (induction n arbitrary: r) (simp_all add: app_bt_finished_def apply_call_def on_conn_def Let_def)

lemma finish_gw_eq:
  "finish_gw re conn n g =
     (if n \<noteq> 0 \<and> rd_refs (gw_radio g) = 0 then None
      else Some (g\<lparr>gw_radio := (gw_radio g)\<lparr>rd_trace := rd_trace (gw_radio g) @ concat (replicate n (app_bt_finished conn))\<rparr>\<rparr>))"
  by (simp add: finish_gw_def run_gw_def apply_disconnects)

lemma radio_no_scan:
  "radio_ok conn r \<Longrightarrow> ScanCall BtScanStart \<notin> set cs \<Longrightarrow> radio_ok conn (r\<lparr>rd_trace := rd_trace r @ cs\<rparr>)"
  by (auto simp: radio_ok_def booted_def)

lemma finish_gw_ok:
  assumes ok: "gw_ok a g" and run: "finish_gw re conn n g = Some g'"
  shows "gw_ok a g'"
proof -
  define cs where "cs = concat (replicate n (app_bt_finished conn))"
  have no: "ScanCall BtScanStart \<notin> set cs" unfolding cs_def by (induction n) (simp_all add: app_bt_finished_def)
  define r where "r = (gw_radio g)\<lparr>rd_trace := rd_trace (gw_radio g) @ cs\<rparr>"
  have g': "g' = g\<lparr>gw_radio := r\<rparr>" using run by (simp add: finish_gw_eq r_def cs_def split: if_splits)
  have "radio_ok (ap_default_conn (gw_app g)) r"
    unfolding r_def by (rule radio_no_scan [OF _ no]) (use ok in \<open>simp add: gw_ok_def\<close>)
  moreover have "main_ok a (gw_pc g) (gw_app g) r"
    by (rule main_ok_frame [where r = "gw_radio g" and s = "gw_app g" and cs = cs]) (use ok no in \<open>simp_all add: gw_ok_def r_def\<close>)
  ultimately show ?thesis by (simp add: gw_ok_def g')
qed

lemma finish_gw_total:
  "gw_ok a g \<Longrightarrow> rd_link (gw_radio g) = Up conn' \<Longrightarrow> \<exists>g'. finish_gw re conn n g = Some g'"
  by (simp add: finish_gw_eq gw_ok_def radio_ok_def)

text \<open>A handler calls the node at most once, and only for the connection that is up.\<close>

definition node_part :: "app_call list \<Rightarrow> app_call list" where
  "node_part cs = filter (\<lambda>cl. case cl of PouchBtStart _ \<Rightarrow> True | PouchBtStop _ \<Rightarrow> True | _ \<Rightarrow> False) cs"

lemma node_part_simps [simp]:
  "node_part [] = []"
  "node_part (cl # cs) = (case cl of PouchBtStart _ \<Rightarrow> cl # node_part cs | PouchBtStop _ \<Rightarrow> cl # node_part cs | _ \<Rightarrow> node_part cs)"
  "node_part (cs @ cs') = node_part cs @ node_part cs'"
  by (simp_all add: node_part_def split: app_call.split)

lemma node_part_mem: "cl \<in> set (node_part cs) \<Longrightarrow> cl \<in> set cs"
  by (simp add: node_part_def)

lemma node_part_neutral: "neutral cs \<Longrightarrow> node_part cs = []"
  by (induction cs) (auto simp: on_conn_def split: app_call.splits)

lemma node_part_scan: "node_part (map ScanCall cs) = []"
  by (induction cs) simp_all

lemma node_calls_part: "node_calls e cs w = node_calls e (node_part cs) w"
  by (induction e cs w rule: node_calls.induct) (auto split: app_call.split bind_splits)

lemma run_gw_calls: "run_gw re l pc h g = Some g' \<Longrightarrow> new_calls g g' = fst h"
  by (auto simp: run_gw_def new_calls_def dest!: apply_calls_trace split: bind_splits)

lemma main_setup_calls: "main_setup a ret s = (cs, pc, s') \<Longrightarrow> node_part cs = []"
  by (auto simp: main_setup_def Let_def node_part_scan split: if_splits)

lemma main_resume_calls: "main_resume a e pc s = Some (cs, pc', s') \<Longrightarrow> node_part cs = []"
  using connect_client_neutral node_part_neutral main_setup_calls
  by (fastforce simp: main_resume_def split: main_pc.splits if_splits prod.splits)

lemma gw_step_node_part:
  assumes ok: "gw_ok a g" and step: "gw_step a g (Some g')"
  shows "node_part (new_calls g g') = [] \<or>
     (\<exists>conn. rd_link (gw_radio g) = Up conn \<and>
        (node_part (new_calls g g') = [PouchBtStart conn] \<or> node_part (new_calls g g') = [PouchBtStop conn]))"
  using step
proof (cases rule: gw_step.cases)
  case (gw_adv gt bonds re addr ty ad)
  then obtain cs b where "run_gw re (rd_link (gw_radio g)) (gw_pc g) (map ScanCall cs, (gw_app g)\<lparr>ap_bond := b\<rparr>) g = Some g'"
    by (auto split: bind_splits)
  then show ?thesis using run_gw_calls node_part_scan by fastforce
next
  case (gw_connected conn re err ret)
  then show ?thesis using run_gw_calls [OF gw_connected(1) [symmetric]]
    by (auto simp: bt_connected_def Let_def node_part_scan split: if_splits)
next
  case (gw_disconnected conn re)
  then show ?thesis using run_gw_calls [OF gw_disconnected(1) [symmetric]]
    by (auto simp: bt_disconnected_def node_part_scan)
next
  case (gw_security conn re err)
  then show ?thesis using run_gw_calls [OF gw_security(1) [symmetric]]
    by (auto simp: security_changed_def)
next
  case (gw_pairing_complete conn re bonded)
  then show ?thesis using run_gw_calls [OF gw_pairing_complete(1) [symmetric]] by (simp add: auth_defs)
next
  case (gw_pairing_failed conn re reason)
  then show ?thesis using run_gw_calls [OF gw_pairing_failed(1) [symmetric]] by (simp add: auth_defs)
next
  case (gw_cancel conn re)
  then show ?thesis using run_gw_calls [OF gw_cancel(1) [symmetric]] by (simp add: auth_defs)
next
  case (gw_passkey conn f re passkey)
  then show ?thesis using run_gw_calls [OF gw_passkey(1) [symmetric]] by (auto simp: auth_defs Let_def split: if_splits)
next
  case (gw_finished conn re)
  then show ?thesis using run_gw_calls [OF gw_finished(1) [symmetric]] by (simp add: app_bt_finished_def)
next
  case (gw_button re)
  then show ?thesis using run_gw_calls [OF gw_button(1) [symmetric]]
    by (auto simp: button_pressed_def split: option.splits if_splits)
next
  case (gw_bond_timeout re)
  then show ?thesis using run_gw_calls [OF gw_bond_timeout(1) [symmetric]] by simp
next
  case (gw_client cl re ev)
  then show ?thesis using run_gw_calls [OF gw_client(1) [symmetric]] by simp
next
  case (gw_network re nev)
  then show ?thesis using run_gw_calls [OF gw_network(1) [symmetric]] by simp
next
  case (gw_lte re creds created evt)
  then show ?thesis using run_gw_calls [OF gw_lte(1) [symmetric]]
    by (auto simp: lte_handler_def connect_golioth_client_def split: lte_evt.splits option.splits if_splits)
next
  case (gw_main e cs pc s' re)
  then show ?thesis using run_gw_calls [OF gw_main(1) [symmetric]] main_resume_calls by fastforce
qed

lemma failed_upload_asks:
  assumes env: "env_ok c e" and inv: "up_inv c (w_up w)" and u: "ups (w_up w) p = Some u" "up_rblock u = Some r"
    and bad: "status \<noteq> GOLIOTH_OK"
  shows "\<exists>w'. cloud_uploaded e status p w = Some w' \<and> asked_end w w' = 1"
  using block_upload_callback_eq(1) [OF inv u, of status "e_block_status e"] bad
  by (simp add: cloud_uploaded_def env_okD(1) [OF env] end_events_def asked_end_def uplink_end_cb_def step_defs)

section \<open>Properties\<close>

lemma asked_end_emit [simp]: "w_log w' = w_log w \<Longrightarrow> asked_end w w' = 0"
  by (simp add: asked_end_def)

lemma sys_after_some:
  "r = Some w \<Longrightarrow> finish_gw re conn (asked_end (sy_world s) w) (sy_gw s) = Some g \<Longrightarrow>
   sys_after re conn f r s = Some \<lparr>sy_gw = f g, sy_world = w\<rparr>"
  by (simp add: sys_after_def)

lemma sys_step_cases:
  assumes ok: "sys_ok a s" and step: "sys_step a s r"
  shows "(case r of
       Some s' \<Rightarrow> sys_ok a s'
     | None \<Rightarrow> w_subs (sy_world s) \<noteq> {} \<and> (\<exists>conn g. rd_link (gw_radio (sy_gw s)) = Up conn \<and>
           gw_step a (sy_gw s) (Some g) \<and> PouchBtStart conn \<in> set (new_calls (sy_gw s) g)) \<or>
         rd_refs (gw_radio (sy_gw s)) = 0 \<and>
         (\<exists>w. cloud_call (ac_base a) (sy_world s) (Some w) \<and> asked_end (sy_world s) w \<noteq> 0))"
proof -
  have gw: "gw_ok a (sy_gw s)" and w: "node_ok (ac_base a) (sy_world s)" using ok by (simp_all add: sys_ok_def)
  have refs: "rd_refs (gw_radio (sy_gw s)) \<noteq> 0" if "rd_link (gw_radio (sy_gw s)) = Up conn" for conn
    using that gw by (simp add: gw_ok_def radio_ok_def)
  have fin: "\<exists>g. finish_gw re conn' n (sy_gw s) = Some g \<and> gw_ok a g"
    if "rd_link (gw_radio (sy_gw s)) = Up conn \<or> n = 0" for re conn conn' n
  proof -
    have "finish_gw re conn' n (sy_gw s) \<noteq> None" using that refs by (auto simp: finish_gw_eq)
    then show ?thesis using finish_gw_ok [OF gw] by auto
  qed
  show ?thesis using step
  proof (cases rule: sys_step.cases)
    case (sys_app g e re conn)
    have g: "gw_ok a g" using gw_step_ok [OF gw sys_app(2)] by simp
    consider (none) "node_part (new_calls (sy_gw s) g) = []"
      | (start) conn' where "node_part (new_calls (sy_gw s) g) = [PouchBtStart conn']" "rd_link (gw_radio (sy_gw s)) = Up conn'"
      | (stop) conn' where "node_part (new_calls (sy_gw s) g) = [PouchBtStop conn']" "rd_link (gw_radio (sy_gw s)) = Up conn'"
      using gw_step_node_part [OF gw sys_app(2)] by blast
    then show ?thesis
    proof cases
      case none
      then have "node_calls e (new_calls (sy_gw s) g) (sy_world s) = Some (sy_world s)" by (simp add: node_calls_part [of e "new_calls (sy_gw s) g"])
      moreover obtain g0 where "finish_gw re conn (asked_end (sy_world s) (sy_world s)) (sy_gw s) = Some g0"
        using fin [of conn 0 re conn] by auto
      ultimately show ?thesis using g w by (simp add: sys_app(1) sys_after_some sys_ok_def)
    next
      case start
      show ?thesis
      proof (cases "w_subs (sy_world s) = {}")
        case False
        moreover have "PouchBtStart conn' \<in> set (new_calls (sy_gw s) g)"
          using node_part_mem [of "PouchBtStart conn'"] start(1) by simp
        ultimately show ?thesis using start sys_app(2)
          by (auto simp: sys_app(1) sys_after_def node_calls_part [of e "new_calls (sy_gw s) g"])
      next
        case True
        then have "node_calls e (new_calls (sy_gw s) g) (sy_world s) = Some (bt_start (sy_world s))"
          using start by (simp add: node_calls_part [of e "new_calls (sy_gw s) g"])
        moreover have "node_ok (ac_base a) (bt_start (sy_world s))" using bt_start_ok [OF w True] by (rule node_okI)
        moreover have "w_log (bt_start (sy_world s)) = w_log (sy_world s)" by (simp add: bt_start_def)
        moreover obtain g0 where "finish_gw re conn (asked_end (sy_world s) (bt_start (sy_world s))) (sy_gw s) = Some g0"
          using fin [OF disjI1 [OF start(2)]] by blast
        ultimately show ?thesis using g by (simp add: sys_app(1) sys_after_some sys_ok_def)
      qed
    next
      case stop
      obtain w' where "bt_stop e (sy_world s) = Some w'" "node_ok (ac_base a) w'"
        using stop_call_ok [OF w sys_app(3)] by (auto simp: holds_def)
      moreover have "node_calls e (new_calls (sy_gw s) g) (sy_world s) = Some w'"
        using stop(1) calculation(1) by (simp add: node_calls_part [of e "new_calls (sy_gw s) g"])
      moreover obtain g0 where "finish_gw re conn (asked_end (sy_world s) w') (sy_gw s) = Some g0"
        using fin [OF disjI1 [OF stop(2)]] by blast
      ultimately show ?thesis using g by (simp add: sys_app(1) sys_after_some sys_ok_def)
    qed
  next
    case (sys_stack conn r' re)
    obtain w' where "r' = Some w'" "node_ok (ac_base a) w'"
      using stack_call_holds [OF w sys_stack(3)] by (auto simp: holds_def)
    moreover obtain g0 where "finish_gw re conn (asked_end (sy_world s) w') (sy_gw s) = Some g0" "gw_ok a g0"
      using fin [OF disjI1 [OF sys_stack(2)]] by blast
    ultimately show ?thesis by (simp add: sys_stack(1) sys_after_some sys_ok_def)
  next
    case (sys_cloud r' re conn)
    obtain w' where w': "r' = Some w'" "node_ok (ac_base a) w'"
      using cloud_call_holds [OF w sys_cloud(2)] by (auto simp: holds_def)
    show ?thesis
    proof (cases "asked_end (sy_world s) w' \<noteq> 0 \<and> rd_refs (gw_radio (sy_gw s)) = 0")
      case True
      then have "r = None" using w' by (simp add: sys_cloud(1) sys_after_def finish_gw_eq)
      then show ?thesis using True sys_cloud(2) w'(1) by auto
    next
      case False
      then obtain g where g: "finish_gw re conn (asked_end (sy_world s) w') (sy_gw s) = Some g" by (auto simp: finish_gw_eq)
      then show ?thesis using w' finish_gw_ok [OF gw g] by (simp add: sys_cloud(1) sys_after_def sys_ok_def)
    qed
  qed
qed

lemma sys_reach_ok: "sys_reach a s \<Longrightarrow> sys_ok a s"
proof (induction rule: sys_reach.induct)
  case (sys_boot e cs pc s' re r)
  then show ?case using gw_boot_ok [OF sys_boot(1), of re] node_okI(1) [OF world_init_ok]
    by (simp add: sys_ok_def gw_ok_def)
next
  case (sys_next s s')
  then show ?case using sys_step_cases [of a s "Some s'"] by simp
qed

text \<open>As long as the application has not called the node, the system runs as the
  application alone does.\<close>

lemma gw_step_trace:
  assumes "gw_ok a g" "gw_step a g (Some g')"
  shows "rd_trace (gw_radio g') = rd_trace (gw_radio g) @ new_calls g g'"
  using assms(2)
proof (cases rule: gw_step.cases)
  case (gw_adv gt bonds re addr ty ad)
  then show ?thesis
    by (auto simp: run_gw_def new_calls_def dest!: apply_calls_trace split: bind_splits)
qed (auto simp: run_gw_def new_calls_def dest!: apply_calls_trace split: bind_splits)

lemma sys_reach_quiet:
  assumes env: "env_ok (ac_base a) e"
  shows "gw_reach a g \<Longrightarrow> node_part (rd_trace (gw_radio g)) = [] \<Longrightarrow>
    sys_reach a \<lparr>sy_gw = g, sy_world = world_init (ac_base a)\<rparr>"
proof (induction rule: gw_reach.induct)
  case (gw_boot e cs pc s' re r)
  then show ?case by (intro sys_boot)
next
  case (gw_next g g')
  define s where "s = \<lparr>sy_gw = g, sy_world = world_init (ac_base a)\<rparr>"
  have t: "rd_trace (gw_radio g') = rd_trace (gw_radio g) @ new_calls g g'"
    using gw_step_trace [OF gw_reach_ok [OF gw_next.hyps(1)] gw_next.hyps(2)] .
  then have n: "node_part (rd_trace (gw_radio g)) = []" "node_part (new_calls g g') = []" using gw_next.prems by simp_all
  have "PouchBtStop conn \<notin> set (new_calls g g')" for conn
    using n(2) by (auto simp: node_part_def filter_empty_conv)
  then have step: "sys_step a s (sys_after re conn (\<lambda>_. g') (node_calls e (new_calls g g') (sy_world s)) s)" for re conn
    using sys_app [of a s g' e re conn] gw_next.hyps(2) env by (simp add: s_def)
  have "node_calls e (new_calls g g') (sy_world s) = Some (sy_world s)"
    using n(2) by (simp add: node_calls_part [of e "new_calls g g'"])
  then have "sys_after undefined undefined (\<lambda>_. g') (node_calls e (new_calls g g') (sy_world s)) s = Some \<lparr>sy_gw = g', sy_world = sy_world s\<rparr>"
    by (simp add: sys_after_def finish_gw_eq)
  then have "sys_step a s (Some \<lparr>sy_gw = g', sy_world = sy_world s\<rparr>)" using step by metis
  moreover have "sys_reach a s" using gw_next.IH n(1) by (simp add: s_def)
  ultimately show ?case using sys_next by (fastforce simp: s_def)
qed

section \<open>A connection that comes up\<close>

definition sys_ex_cfg :: app_config where
  "sys_ex_cfg = gw_ex_cfg\<lparr>ac_base := up_ex_cfg\<rparr>"

definition sys_ex_ad :: "bt_data list" where
  "sys_ex_ad = [\<lparr>bt_type = BT_DATA_SVC_DATA16, bt_bytes = [1, 2, 0x21, 1]\<rparr>]"

lemma sys_ex_cfg_simps [simp]: "ac_base sys_ex_cfg = up_ex_cfg"
  by (simp add: sys_ex_cfg_def)

lemma sys_ex_bonded: "counts_as_bonded up_ex_cfg bonds addr"
  by (simp add: counts_as_bonded_def up_ex_cfg_def kconfig_default_def)

lemma sys_ex_accepts: "accepts up_ex_cfg scan_ex_gatt [] addr BT_GAP_ADV_TYPE_ADV_IND sys_ex_ad b"
proof -
  have "svc_match scan_ex_gatt \<lparr>bt_type = BT_DATA_SVC_DATA16, bt_bytes = [1, 2, 0x21, 1]\<rparr> = Some [0x21, 1]"
    by (simp add: svc_match.simps scan_ex_gatt_def) (intro exI [of _ "[0x21, 1]"], simp)
  then have "first_adv scan_ex_gatt sys_ex_ad = Some [0x21, 1]" by (simp add: sys_ex_ad_def)
  then show ?thesis
    by (simp add: accepts_def connectable_def sys_ex_bonded version_is_compatible_def sync_requested_def scan_ex_gatt_def)
qed

lemma gw_then: "gw_reach a s \<Longrightarrow> gw_step a s r \<Longrightarrow> r = Some s' \<Longrightarrow> gw_reach a s'"
  by (simp add: gw_next)

lemma sys_ex_up:
  "\<exists>g. gw_reach sys_ex_cfg g \<and> node_part (rd_trace (gw_radio g)) = [] \<and> rd_link (gw_radio g) = Up 7"
proof -
  define a1 where "a1 = app_init\<lparr>ap_client := Some 0\<rparr>"
  define e where "e = \<lparr>me_gpio_interrupt_ret = 0, me_bt_enable_ret = 0, me_creds = Some (1, 1), me_created = Some 0\<rparr>"
  obtain cs where b: "main_begin sys_ex_cfg e app_init = (cs, MainWaitCloud, a1)" "neutral cs"
    by (simp add: main_begin_def e_def sys_ex_cfg_def gw_ex_cfg_def connect_to_cloud_def connect_golioth_client_def a1_def on_conn_def)
  define r1 where "r1 = radio_init\<lparr>rd_trace := cs\<rparr>"
  have "apply_calls gw_ex_env cs radio_init = Some r1"
    by (simp add: apply_neutral_only [OF b(2)] r1_def) (simp add: radio_init_def)
  then have g1: "gw_reach sys_ex_cfg \<lparr>gw_app = a1, gw_pc = MainWaitCloud, gw_radio = r1\<rparr>" by (rule gw_boot [OF b(1)])
  define a2 where "a2 = a1\<lparr>ap_connected := 1\<rparr>"
  have g2: "gw_reach sys_ex_cfg \<lparr>gw_app = a2, gw_pc = MainWaitCloud, gw_radio = r1\<rparr>"
    by (rule gw_then [OF g1 gw_client [where cl = 0 and re = gw_ex_env and ev = GOLIOTH_CLIENT_EVENT_CONNECTED]])
       (simp_all add: run_gw_def a1_def a2_def on_client_event_def k_sem_give_def app_init_def)
  obtain cs2 where m: "main_resume sys_ex_cfg e MainWaitCloud a2 = Some (cs2 @ [ScanCall BtScanStart], MainLoop, a1)" "neutral cs2"
    by (simp add: main_resume_def main_setup_def a1_def a2_def e_def sys_ex_cfg_def gw_ex_cfg_def scan_start_def on_conn_def
        app_init_def)
  define r3 where "r3 = r1\<lparr>rd_scanning := True, rd_trace := cs @ cs2 @ [ScanCall BtScanStart]\<rparr>"
  have g3: "gw_reach sys_ex_cfg \<lparr>gw_app = a1, gw_pc = MainLoop, gw_radio = r3\<rparr>"
    by (rule gw_then [OF g2 gw_main [where e = e and re = gw_ex_env and cs = "cs2 @ [ScanCall BtScanStart]" and pc = MainLoop
          and s' = a1]])
       (simp_all add: m(1) run_gw_def apply_neutral [OF m(2)] apply_call_def on_conn_def scan_effect_def gw_ex_env_def
          r3_def r1_def radio_init_def)
  define r4 where "r4 = r3\<lparr>rd_scanning := False, rd_link := Connecting 7, rd_refs := 1,
    rd_trace := rd_trace r3 @ [ScanCall BtScanStop, ScanCall (BtConnCreate [5])]\<rparr>"
  have g4: "gw_reach sys_ex_cfg \<lparr>gw_app = a1, gw_pc = MainLoop, gw_radio = r4\<rparr>"
    by (rule gw_then [OF g3 gw_adv [where g = scan_ex_gatt and bonds = "[]" and re = gw_ex_env and addr = "[5]" and
          ty = BT_GAP_ADV_TYPE_ADV_IND and ad = sys_ex_ad]])
       (simp_all add: device_found_eq sys_ex_accepts run_gw_def apply_call_def on_conn_def scan_effect_def gw_ex_env_def
          r4_def r3_def r1_def radio_init_def sys_ex_bonded)
  define g5 where "g5 = \<lparr>gw_app = a1\<lparr>ap_default_conn := Some 7\<rparr>, gw_pc = MainLoop, gw_radio = r4\<lparr>rd_link := Up 7,
    rd_trace := rd_trace r4 @ [BtConnSetSecurity 7 (bt_security sys_ex_cfg)]\<rparr>\<rparr>"
  have "gw_reach sys_ex_cfg g5"
    by (rule gw_then [OF g4 gw_connected [where conn = 7 and re = gw_ex_env and err = 0 and ret = 0]])
       (simp_all add: bt_connected_def run_gw_def apply_call_def on_conn_def g5_def r4_def)
  moreover have "node_part (rd_trace (gw_radio g5)) = []" "rd_link (gw_radio g5) = Up 7"
    by (simp_all add: g5_def r4_def r3_def node_part_neutral [OF b(2)] node_part_neutral [OF m(2)])
  ultimately show ?thesis by blast
qed

text \<open>Security is established, the node is started and discovered, and its pouch is linked.\<close>

lemma gw_security_start:
  assumes ok: "gw_ok a g" and up: "rd_link (gw_radio g) = Up conn"
  obtains g' where "gw_step a g (Some g')" "new_calls g g' = [PouchBtStart conn]" "rd_link (gw_radio g') = Up conn"
proof -
  have "rd_refs (gw_radio g) \<noteq> 0" using ok up by (simp add: gw_ok_def radio_ok_def)
  then obtain g' where run: "run_gw undefined (Up conn) (gw_pc g) (security_changed conn 0, gw_app g) g = Some g'"
      "rd_link (gw_radio g') = Up conn"
    by (simp add: security_changed_def run_gw_def apply_call_def)
  have "new_calls g g' = [PouchBtStart conn]" using run_gw_calls [OF run(1)] by (simp add: security_changed_def)
  with that gw_security [OF up, of a undefined 0, unfolded run(1)] run(2) show ?thesis by blast
qed

lemma sys_start:
  assumes reach: "sys_reach a s" and env: "env_ok (ac_base a) e" and up: "rd_link (gw_radio (sy_gw s)) = Up conn"
  obtains g where "rd_link (gw_radio g) = Up conn" "gw_step a (sy_gw s) (Some g)" "new_calls (sy_gw s) g = [PouchBtStart conn]"
    "sys_step a s (if w_subs (sy_world s) = {} then Some \<lparr>sy_gw = g, sy_world = bt_start (sy_world s)\<rparr> else None)"
proof -
  have ok: "gw_ok a (sy_gw s)" using sys_reach_ok [OF reach] by (simp add: sys_ok_def)
  obtain g where g: "gw_step a (sy_gw s) (Some g)" "new_calls (sy_gw s) g = [PouchBtStart conn]" "rd_link (gw_radio g) = Up conn"
    using gw_security_start [OF ok up] .
  have "sys_step a s (sys_after undefined conn (\<lambda>_. g) (node_calls e (new_calls (sy_gw s) g) (sy_world s)) s)"
    by (rule sys_app [OF g(1) env]) (simp add: g(2))
  moreover have "sys_after undefined conn (\<lambda>_. g) (node_calls e (new_calls (sy_gw s) g) (sy_world s)) s =
      (if w_subs (sy_world s) = {} then Some \<lparr>sy_gw = g, sy_world = bt_start (sy_world s)\<rparr> else None)"
    by (simp add: g(2) sys_after_def finish_gw_eq) (simp add: bt_start_def)
  ultimately show ?thesis using that [OF g(3,1,2)] by simp
qed

lemma sys_stack_step:
  assumes reach: "sys_reach a s" and up: "rd_link (gw_radio (sy_gw s)) = Up conn"
    and call: "stack_call (ac_base a) (sy_world s) (Some w)"
  obtains g where "sys_reach a \<lparr>sy_gw = g, sy_world = w\<rparr>" "rd_link (gw_radio g) = Up conn"
proof -
  have "rd_refs (gw_radio (sy_gw s)) \<noteq> 0" using sys_reach_ok [OF reach] up by (simp add: sys_ok_def gw_ok_def radio_ok_def)
  then obtain g where g: "finish_gw undefined conn (asked_end (sy_world s) w) (sy_gw s) = Some g" "rd_link (gw_radio g) = Up conn"
    using up by (simp add: finish_gw_eq)
  have "sys_step a s (Some \<lparr>sy_gw = g, sy_world = w\<rparr>)"
    using sys_stack [OF up call, of undefined] g(1) by (simp add: sys_after_def)
  then show ?thesis using sys_next [OF reach] g(2) that by blast
qed

lemma sys_stopped:
  assumes reach: "sys_reach a s" and env: "env_ok (ac_base a) e" and up: "rd_link (gw_radio (sy_gw s)) = Up conn"
    and subs: "w_subs (sy_world s) = {}" and stop: "bt_stop e (sy_world s) = Some w"
  obtains g where "sys_reach a \<lparr>sy_gw = g, sy_world = w\<rparr>" "rd_link (gw_radio g) = NoLink"
proof -
  have ok: "gw_ok a (sy_gw s)" using sys_reach_ok [OF reach] by (simp add: sys_ok_def)
  then have refs: "rd_refs (gw_radio (sy_gw s)) \<noteq> 0" using up by (simp add: gw_ok_def radio_ok_def)
  obtain g where run: "run_gw gw_ex_env NoLink (gw_pc (sy_gw s)) (bt_disconnected conn (gw_app (sy_gw s))) (sy_gw s) = Some g"
      "rd_link (gw_radio g) = NoLink"
    using refs by (simp add: bt_disconnected_def run_gw_def apply_call_def on_conn_def scan_start_def scan_effect_def
        gw_ex_env_def Let_def)
  have step: "gw_step a (sy_gw s) (Some g)" using gw_disconnected [OF up, of a gw_ex_env] run(1) by simp
  have calls: "new_calls (sy_gw s) g = [PouchBtStop conn, BtConnUnref conn, ScanCall BtScanStart]"
    using run_gw_calls [OF run(1)] by (simp add: bt_disconnected_def scan_start_def)
  have "sys_step a s (sys_after undefined conn (\<lambda>_. g) (node_calls e (new_calls (sy_gw s) g) (sy_world s)) s)"
    by (rule sys_app [OF step env]) (rule subs)
  then have "sys_step a s (Some \<lparr>sy_gw = g, sy_world = w\<rparr>)"
    using refs stop by (simp add: calls sys_after_def finish_gw_eq)
  then show ?thesis using sys_next [OF reach] run(2) that by blast
qed

lemma sys_ex_connected:
  "\<exists>s. sys_reach sys_ex_cfg s \<and> rd_link (gw_radio (sy_gw s)) = Up 7 \<and> sy_world s = world_init up_ex_cfg"
proof -
  have env: "env_ok (ac_base sys_ex_cfg) gx_env" using gx_env_ok by simp
  obtain g where g: "gw_reach sys_ex_cfg g" "node_part (rd_trace (gw_radio g)) = []" "rd_link (gw_radio g) = Up 7"
    using sys_ex_up by blast
  from sys_reach_quiet [OF env g(1,2)] g(3) show ?thesis
    by (intro exI [of _ "\<lparr>sy_gw = g, sy_world = world_init up_ex_cfg\<rparr>"]) simp
qed

lemma sys_ex_linked:
  "\<exists>g. sys_reach sys_ex_cfg \<lparr>sy_gw = g, sy_world = gx_linked\<rparr> \<and> rd_link (gw_radio g) = Up 7"
proof -
  have env: "env_ok (ac_base sys_ex_cfg) gx_env" using gx_env_ok by simp
  obtain s where s: "sys_reach sys_ex_cfg s" "rd_link (gw_radio (sy_gw s)) = Up 7" "sy_world s = world_init up_ex_cfg"
    using sys_ex_connected by blast
  then have n: "w_subs (sy_world s) = {}" "bt_start (sy_world s) = world_init up_ex_cfg"
    by (simp_all add: world_init_def bt_start_def)
  obtain g' where g': "rd_link (gw_radio g') = Up 7" "sys_step sys_ex_cfg s (Some \<lparr>sy_gw = g', sy_world = world_init up_ex_cfg\<rparr>)"
    using sys_start [OF s(1) env s(2)] n by metis
  have "stack_call up_ex_cfg (world_init up_ex_cfg) (Some gx_linked)"
    using call_discovered [OF gx_env_ok, of "world_init up_ex_cfg" gx_handles] by (simp add: gx_linked_eq) (simp add: world_init_def)
  then show ?thesis using sys_stack_step [OF sys_next [OF s(1) g'(2)], of 7 gx_linked] g'(1) by auto
qed

text \<open>The node sends a pouch of six bytes, of which two blocks are made; the connection ends
  while the first of them is under way.\<close>

definition gx_pouch_env :: env where
  "gx_pouch_env = gx_env\<lparr>e_receive := replay_chunks [([1, 2, 3, 4, 5, 6], True)] 0 True\<rparr>"

lemma gx_pouch_env_ok: "env_ok up_ex_cfg gx_pouch_env" "recv_ok gx_pouch_env" "e_block_status gx_pouch_env = GOLIOTH_OK"
proof -
  have "chunks_ok [([1, 2, 3, 4, 5, 6 :: byte], True)]" by (simp add: chunks_ok_def)
  then show "recv_ok gx_pouch_env" by (auto simp: recv_ok_def gx_pouch_env_def)
  show "env_ok up_ex_cfg gx_pouch_env" "e_block_status gx_pouch_env = GOLIOTH_OK"
    using gx_env_ok by (simp_all add: gx_pouch_env_def env_ok_def ack_ok_def)
qed

lemma gx_pouch_sent:
  "\<exists>w. uplink_notify_cb gx_pouch_env False gx_linked = Some (BT_GATT_ITER_STOP, w) \<and> w_up w = up_ex_closed \<and>
     w_subs w = {POUCH_GATEWAY_GATT_ATTR_UPLINK} \<and> nd_uplink (w_node w) = None \<and> nd_downlink_ctx (w_node w) = Some 0"
proof -
  have e: "e_conf gx_pouch_env = up_ex_cfg" "e_mal gx_pouch_env = up_ex_mal" "e_block_status gx_pouch_env = GOLIOTH_OK"
      "e_receive gx_pouch_env = replay_chunks [([1, 2, 3, 4, 5, 6], True)] 0 True"
    by (simp_all add: gx_pouch_env_def e_mal_def fun_eq_iff flip: gx_mal)
  have e': "e_mal gx_pouch_env = up_ex_mal"
    by (simp add: gx_pouch_env_def e_mal_def fun_eq_iff flip: gx_mal)
  show ?thesis
    by (simp add: uplink_notify_cb_def uplink_data_received_cb_def e e' up_ex_written_eq(1) uplink_end_cb_def
        do_uplink_close_def up_ex_closed_eq emit_def on_node_def)
qed

lemma sys_ex_released:
  "\<exists>s. sys_reach sys_ex_cfg s \<and> rd_link (gw_radio (sy_gw s)) = NoLink \<and> w_up (sy_world s) = up_ex_closed"
proof -
  obtain g where g: "sys_reach sys_ex_cfg \<lparr>sy_gw = g, sy_world = gx_linked\<rparr>" "rd_link (gw_radio g) = Up 7"
    using sys_ex_linked by blast
  obtain w1 where w1: "uplink_notify_cb gx_pouch_env False gx_linked = Some (BT_GATT_ITER_STOP, w1)" "w_up w1 = up_ex_closed"
     "w_subs w1 = {POUCH_GATEWAY_GATT_ATTR_UPLINK}" "nd_uplink (w_node w1) = None" "nd_downlink_ctx (w_node w1) = Some 0"
    using gx_pouch_sent by blast
  have "stack_call up_ex_cfg gx_linked (Some w1)"
    using call_uplink [OF gx_pouch_env_ok(1) _ gx_pouch_env_ok(2,3), of gx_linked False] w1(1) by simp
  then obtain g1 where g1: "sys_reach sys_ex_cfg \<lparr>sy_gw = g1, sy_world = w1\<rparr>" "rd_link (gw_radio g1) = Up 7"
    using sys_stack_step [OF g(1), of 7 w1] g(2) by auto
  have call: "stack_call up_ex_cfg w1 (map_option snd (uplink_notify_end (ended POUCH_GATEWAY_GATT_ATTR_UPLINK w1)))"
    by (rule call_uplink_end) (simp add: w1)
  have "node_ok up_ex_cfg w1" using sys_reach_ok [OF g1(1)] by (simp add: sys_ok_def)
  from stack_call_holds [OF this call] obtain i w2 where
    w2: "uplink_notify_end (ended POUCH_GATEWAY_GATT_ATTR_UPLINK w1) = Some (i, w2)" "node_ok up_ex_cfg w2"
    by (auto simp: holds_def)
  obtain v where "obj_destroy (nd_uplink_receiver (w_node w1)) (ended POUCH_GATEWAY_GATT_ATTR_UPLINK w1) = Some v"
      "w2 = on_node (\<lambda>n. n\<lparr>nd_uplink_receiver := None\<rparr>) v"
    using w2(1) by (auto simp: uplink_notify_end_def ended_def split: bind_splits)
  moreover from this(1) have "w_up v = w_up w1" "w_subs v = w_subs w1 - {POUCH_GATEWAY_GATT_ATTR_UPLINK}" "w_node v = w_node w1"
    by (auto simp: obj_destroy_def ended_def emit_def split: option.splits bind_splits)
  ultimately have w2': "w_up w2 = up_ex_closed" "w_subs w2 = {}" "nd_uplink (w_node w2) = None"
      "nd_downlink_ctx (w_node w2) = Some 0"
    by (simp_all add: on_node_def w1(2-5))
  obtain g2 where g2: "sys_reach sys_ex_cfg \<lparr>sy_gw = g2, sy_world = w2\<rparr>" "rd_link (gw_radio g2) = Up 7"
    using sys_stack_step [OF g1(1), of 7 w2] call w2(1) g1(2) by auto
  have link: "link_ok up_ex_cfg w2" using off_or_link [OF w2(2)] w2'(4) by (auto simp: link_off_def)
  obtain w3 where w3: "bt_stop gx_env w2 = Some w3" using bt_stop_ok [OF gx_env_ok link] by (auto simp: holds_def)
  then have "w_up w3 = up_ex_closed" using bt_stop_frame(5) [OF gx_env_ok link w3] w2' by simp
  moreover obtain g3 where "sys_reach sys_ex_cfg \<lparr>sy_gw = g3, sy_world = w3\<rparr>" "rd_link (gw_radio g3) = NoLink"
    using sys_stopped [OF g2(1), of gx_env 7 w3] gx_env_ok g2(2) w2'(2) w3 by auto
  ultimately show ?thesis by (intro exI [of _ "\<lparr>sy_gw = g3, sy_world = w3\<rparr>"]) simp
qed

section \<open>Properties\<close>



text \<open>Security that changes again restarts a running node: the application starts the node
  whenever security changes without an error, also on a connection whose node is already
  started; the record with the subscription parameters is cleared while the stack uses
  them.\<close>

theorem security_change_restarts:
  assumes reach: "sys_reach a s" and env: "env_ok (ac_base a) e"
    and up: "rd_link (gw_radio (sy_gw s)) = Up conn" and subs: "w_subs (sy_world s) \<noteq> {}"
  shows "\<exists>g. gw_step a (sy_gw s) (Some g) \<and> new_calls (sy_gw s) g = [PouchBtStart conn] \<and> sys_step a s None"
  using sys_start [OF reach env up] subs by metis

theorem security_change_restarts_witness:
  "\<exists>s. sys_reach sys_ex_cfg s \<and> sy_world s = gx_linked \<and> sys_step sys_ex_cfg s None"
proof -
  obtain g where g: "sys_reach sys_ex_cfg \<lparr>sy_gw = g, sy_world = gx_linked\<rparr>" "rd_link (gw_radio g) = Up 7"
    using sys_ex_linked by blast
  then show ?thesis
    using security_change_restarts [OF g(1), of gx_env 7] gx_env_ok by (intro exI [of _ "\<lparr>sy_gw = g, sy_world = gx_linked\<rparr>"]) auto
qed

text \<open>A pouch that fails late ends a released connection: where the cloud client reports an
  error for a block whose connection is gone, the end callback of the uplink calls
  \<open>pouch_gateway_bt_finished\<close> with the connection the application has released.\<close>

theorem late_failure_released:
  assumes reach: "sys_reach a s" and env: "env_ok (ac_base a) e"
    and down: "rd_link (gw_radio (sy_gw s)) = NoLink"
    and u: "ups (w_up (sy_world s)) p = Some u" "up_rblock u \<noteq> None" and bad: "status \<noteq> GOLIOTH_OK"
  shows "\<exists>w. cloud_uploaded e status p (sy_world s) = Some w \<and> asked_end (sy_world s) w = 1 \<and> sys_step a s None"
proof -
  have ok: "gw_ok a (sy_gw s)" "node_ok (ac_base a) (sy_world s)" using sys_reach_ok [OF reach] by (simp_all add: sys_ok_def)
  have inv: "up_inv (ac_base a) (w_up (sy_world s))"
    using ok(2) by (auto simp: node_ok_def info_ok_def server_ok_def device_ok_def link_ok_def mem_ok_def)
  obtain r where r: "up_rblock u = Some r" using u(2) by blast
  obtain w where w: "cloud_uploaded e status p (sy_world s) = Some w" "asked_end (sy_world s) w = 1"
    using failed_upload_asks [OF env inv u(1) r bad] by blast
  have "rd_refs (gw_radio (sy_gw s)) = 0" using ok(1) down by (simp add: gw_ok_def radio_ok_def)
  then have "sys_after re conn (\<lambda>g. g) (Some w) s = None" for re conn using w(2) by (simp add: sys_after_def finish_gw_eq)
  moreover have "sys_step a s (sys_after undefined undefined (\<lambda>g. g) (Some w) s)"
    using sys_cloud [OF call_uploaded [OF env u(1), of status]] w(1) by metis
  ultimately show ?thesis using w by simp
qed

theorem late_failure_released_witness:
  "\<exists>s. sys_reach sys_ex_cfg s \<and> rd_link (gw_radio (sy_gw s)) = NoLink \<and> sys_step sys_ex_cfg s None"
proof -
  obtain s where s: "sys_reach sys_ex_cfg s" "rd_link (gw_radio (sy_gw s)) = NoLink" "w_up (sy_world s) = up_ex_closed"
    using sys_ex_released by blast
  have u: "ups (w_up (sy_world s)) 0 = Some up_ex_u" by (simp add: s(3) up_ex_closed_eq(2))
  show ?thesis
    using late_failure_released [OF s(1) _ s(2) u, of gx_env GOLIOTH_ERR_NACK] gx_env_ok s(1,2) by auto
qed

end
