(* ===== verification/Custom_Scan.thy ===== *)
theory Custom_Scan
  imports Scan "HOL-Library.Sublist"
begin

text \<open>
  The scanner of the sample application, \<open>samples/custom_connect/src/scan.c\<close>. It asks in
  addition for the name and the signal strength of the device. Differently from
  \<open>lib/bt/scan.c\<close> its \<open>tf_data\<close> is initialised with \<open>is_tf\<close> alone: the address is
  \<open>NULL\<close>, and no device counts as bonded before the stored bonds are searched.
\<close>

section \<open>Operations\<close>

definition BT_DATA_NAME_COMPLETE :: ad_type where
  "BT_DATA_NAME_COMPLETE = BT_DATA_OTHER 9"

record custom_tf =
  ct_addr :: "bt_addr option"
  ct_is_tf :: bool
  ct_is_bonded :: bool
  ct_name_is_golioth :: bool
  ct_adv_data :: "byte list"

definition custom_version_is_compatible :: "pouch_gatt \<Rightarrow> byte list \<Rightarrow> bool" where
  "custom_version_is_compatible g adv =
     (let self_ver = (ucast ((ucast (adv_version g adv) :: 32 word)
                        AND drop_bit (version_self_shift g) (version_self_mask g)) :: byte)
      in gatt_version g = self_ver)"

definition custom_sync_requested :: "pouch_gatt \<Rightarrow> byte list \<Rightarrow> bool" where
  "custom_sync_requested g adv = (adv_flags g adv AND flag_sync_request g \<noteq> 0)"

text \<open>\<open>strncmp\<close> compares at most \<open>n\<close> characters and stops behind a NUL; \<open>None\<close> is a read
  beyond one of the buffers. The result is whether it returns 0.\<close>

fun strncmp_eq :: "byte list \<Rightarrow> byte list \<Rightarrow> nat \<Rightarrow> bool option" where
  "strncmp_eq xs ys 0 = Some True"
| "strncmp_eq (x # xs) (y # ys) (Suc n) =
     (if x \<noteq> y then Some False else if x = 0 then Some True else strncmp_eq xs ys n)"
| "strncmp_eq _ _ (Suc n) = None"

text \<open>The literal \<open>"Golioth"\<close>, with its NUL.\<close>

definition golioth_name :: "byte list" where
  "golioth_name = [0x47, 0x6F, 0x6C, 0x69, 0x6F, 0x74, 0x68, 0]"

definition custom_data_cb :: "pouch_gatt \<Rightarrow> bt_data \<Rightarrow> custom_tf \<Rightarrow> (bool \<times> custom_tf) option" where
  "custom_data_cb g d tf =
     (if bt_type d = BT_DATA_NAME_COMPLETE then do {
        eq \<leftarrow> strncmp_eq (bt_bytes d) golioth_name (length (bt_bytes d));
        Some (True, if eq then tf\<lparr>ct_name_is_golioth := True\<rparr> else tf) }
      else if bt_type d = BT_DATA_SVC_DATA16 then
        (if length (bt_bytes d) \<ge> length (svc_uuid_16 g) + adv_size g \<and>
            take (length (svc_uuid_16 g)) (bt_bytes d) = svc_uuid_16 g
         then Some (True, tf\<lparr>ct_is_tf := True,
                ct_adv_data := take (adv_size g) (drop (length (svc_uuid_16 g)) (bt_bytes d))\<rparr>)
         else Some (True, tf))
      else Some (True, tf))"

fun custom_data_parse :: "(bt_data \<Rightarrow> 'a \<Rightarrow> (bool \<times> 'a) option) \<Rightarrow> bt_data list \<Rightarrow> 'a \<Rightarrow> 'a option" where
  "custom_data_parse cb [] a = Some a"
| "custom_data_parse cb (d # ds) a = do {
     (go, a') \<leftarrow> cb d a;
     if go then custom_data_parse cb ds a' else Some a' }"

definition custom_bond_filter :: "bt_addr \<Rightarrow> custom_tf \<Rightarrow> custom_tf option" where
  "custom_bond_filter info_addr tf = do {
     a \<leftarrow> ct_addr tf;
     Some (if info_addr = a then tf\<lparr>ct_is_bonded := True\<rparr> else tf) }"

definition custom_scan_start :: "scan_call list" where
  "custom_scan_start = [BtScanStart]"

definition custom_device_found ::
  "config \<Rightarrow> pouch_gatt \<Rightarrow> bt_addr list \<Rightarrow> scan_env \<Rightarrow> bt_addr \<Rightarrow> int \<Rightarrow> adv_type \<Rightarrow> bt_data list \<Rightarrow>
   bond_state \<Rightarrow> (scan_call list \<times> bond_state) option" where
  "custom_device_found c g bonds env addr rssi ty ad b =
     (let tf = \<lparr>ct_addr = None, ct_is_tf = False, ct_is_bonded = False, ct_name_is_golioth = False, ct_adv_data = []\<rparr> in
      if ty \<noteq> BT_GAP_ADV_TYPE_ADV_IND \<and> ty \<noteq> BT_GAP_ADV_TYPE_ADV_DIRECT_IND \<and> ty \<noteq> BT_GAP_ADV_TYPE_SCAN_RSP
      then Some ([], b)
      else do {
        tf1 \<leftarrow> custom_data_parse (custom_data_cb g) ad tf;
        if \<not> ct_is_tf tf1 then Some ([], b)
        else do {
          tf2 \<leftarrow> (if scan_filter_bonded c then bt_foreach_bond custom_bond_filter bonds tf1 else Some tf1);
          if \<not> custom_version_is_compatible g (ct_adv_data tf2) \<or> \<not> ct_name_is_golioth tf2 \<or> rssi \<le> - 70
          then Some ([], b)
          else if \<not> ct_is_bonded tf2 \<and> \<not> bonding_is_enabled b then Some ([], b)
          else if ct_is_bonded tf2 \<and> \<not> custom_sync_requested g (ct_adv_data tf2) then Some ([], b)
          else if scan_stop_ret env \<noteq> 0 then Some ([BtScanStop], b)
          else if conn_create_ret env \<noteq> 0 then Some ([BtScanStop, BtConnCreate addr] @ custom_scan_start, b)
          else if \<not> ct_is_bonded tf2 then Some ([BtScanStop, BtConnCreate addr], bonding_disable b)
          else Some ([BtScanStop, BtConnCreate addr], b) } })"

section \<open>What it decides\<close>

text \<open>A name is taken for \<open>"Golioth"\<close> if it is one of its prefixes, the empty one included,
  or goes on behind a NUL.\<close>

definition golioth_text :: "byte list" where
  "golioth_text = butlast golioth_name"

definition name_matches :: "byte list \<Rightarrow> bool" where
  "name_matches xs \<longleftrightarrow> prefix xs golioth_text \<or> prefix golioth_name xs"

lemma strncmp_prefix:
  assumes "0 \<notin> set ys"
  shows "strncmp_eq xs (ys @ [0]) (length xs) = Some (prefix xs ys \<or> prefix (ys @ [0]) xs)"
  using assms
proof (induction ys arbitrary: xs)
  case Nil
  then show ?case by (cases xs) auto
next
  case (Cons y ys)
  then show ?case by (cases xs) auto
qed

lemma golioth_name_eq: "golioth_name = golioth_text @ [0]" "0 \<notin> set golioth_text"
  by (simp_all add: golioth_name_def golioth_text_def)

lemma strncmp_name: "strncmp_eq xs golioth_name (length xs) = Some (name_matches xs)"
  using strncmp_prefix [OF golioth_name_eq(2), of xs] by (simp add: name_matches_def golioth_name_eq(1))

text \<open>The parse goes through all elements: any matching name, the last service data.\<close>

definition svc_data_of :: "pouch_gatt \<Rightarrow> bt_data \<Rightarrow> byte list option" where
  "svc_data_of g d =
     (if bt_type d = BT_DATA_SVC_DATA16 \<and> length (svc_uuid_16 g) + adv_size g \<le> length (bt_bytes d) \<and>
         prefix (svc_uuid_16 g) (bt_bytes d)
      then Some (take (adv_size g) (drop (length (svc_uuid_16 g)) (bt_bytes d))) else None)"

fun last_adv :: "pouch_gatt \<Rightarrow> bt_data list \<Rightarrow> byte list option" where
  "last_adv g [] = None"
| "last_adv g (d # ds) = (case last_adv g ds of Some adv \<Rightarrow> Some adv | None \<Rightarrow> svc_data_of g d)"

definition golioth_named :: "bt_data list \<Rightarrow> bool" where
  "golioth_named ad \<longleftrightarrow> (\<exists>d \<in> set ad. bt_type d = BT_DATA_NAME_COMPLETE \<and> name_matches (bt_bytes d))"

lemma prefix_take: "prefix xs ys \<longleftrightarrow> take (length xs) ys = xs"
  by (metis append_eq_conv_conj append_take_drop_id prefix_def)

lemma custom_data_cb_eq:
  "custom_data_cb g d tf = Some (True, tf\<lparr>
     ct_name_is_golioth := ct_name_is_golioth tf \<or> bt_type d = BT_DATA_NAME_COMPLETE \<and> name_matches (bt_bytes d),
     ct_is_tf := ct_is_tf tf \<or> svc_data_of g d \<noteq> None,
     ct_adv_data := (case svc_data_of g d of None \<Rightarrow> ct_adv_data tf | Some adv \<Rightarrow> adv)\<rparr>)"
  by (cases tf) (auto simp: custom_data_cb_def svc_data_of_def strncmp_name BT_DATA_NAME_COMPLETE_def prefix_take)

lemma custom_parse_eq:
  "custom_data_parse (custom_data_cb g) ad tf = Some (tf\<lparr>
     ct_name_is_golioth := ct_name_is_golioth tf \<or> golioth_named ad,
     ct_is_tf := ct_is_tf tf \<or> last_adv g ad \<noteq> None,
     ct_adv_data := (case last_adv g ad of None \<Rightarrow> ct_adv_data tf | Some adv \<Rightarrow> adv)\<rparr>)"
proof (induction ad arbitrary: tf)
  case Nil
  then show ?case by (cases tf) (simp add: golioth_named_def)
next
  case (Cons d ad)
  then show ?case by (auto simp: custom_data_cb_eq golioth_named_def split: option.split)
qed

definition custom_accepts ::
  "pouch_gatt \<Rightarrow> int \<Rightarrow> adv_type \<Rightarrow> bt_data list \<Rightarrow> bool" where
  "custom_accepts g rssi ty ad \<longleftrightarrow> connectable ty \<and> golioth_named ad \<and> rssi > - 70 \<and>
     (case last_adv g ad of None \<Rightarrow> False | Some adv \<Rightarrow> custom_version_is_compatible g adv)"

lemma custom_device_found_eq:
  "custom_device_found c g bonds env addr rssi ty ad b =
     (if connectable ty \<and> last_adv g ad \<noteq> None \<and> scan_filter_bonded c \<and> bonds \<noteq> [] then None
      else Some (if custom_accepts g rssi ty ad \<and> bonding b then
          (if scan_stop_ret env \<noteq> 0 then ([BtScanStop], b)
           else if conn_create_ret env \<noteq> 0 then ([BtScanStop, BtConnCreate addr, BtScanStart], b)
           else ([BtScanStop, BtConnCreate addr], bonding_disable b))
        else ([], b)))"
proof (cases "connectable ty \<and> last_adv g ad \<noteq> None")
  case False
  then show ?thesis
    by (auto simp: custom_device_found_def connectable_def custom_accepts_def custom_parse_eq Let_def split: option.splits)
next
  case True
  then obtain adv where adv: "connectable ty" "last_adv g ad = Some adv" by auto
  show ?thesis
  proof (cases "scan_filter_bonded c \<and> bonds \<noteq> []")
    case True
    then obtain x bs where "bonds = x # bs" by (cases bonds) auto
    then show ?thesis using True adv
      by (simp add: custom_device_found_def connectable_def custom_parse_eq custom_bond_filter_def)
  next
    case False
    then have none: "(if scan_filter_bonded c then bt_foreach_bond custom_bond_filter bonds tf else Some tf) = Some tf" for tf
      by auto
    show ?thesis using False adv unfolding custom_device_found_def none custom_parse_eq
      by (simp add: connectable_def custom_accepts_def bonding_is_enabled_def custom_scan_start_def Let_def)
  qed
qed

section \<open>Properties\<close>


end
