(* ===== verification/Custom_App.thy ===== *)
theory Custom_App
  imports Gateway_App Custom_Scan
begin

text \<open>
  The sample application, \<open>samples/custom_connect/src/main.c\<close>: the application of
  \<open>Gateway_App\<close> with another scanner, and with two synchronisations per connection. The
  second one is started by a delayable work item, five seconds after the first has ended.
\<close>

section \<open>State\<close>

record sync_data =
  sd_work :: "k_timeout option"
  sd_conn :: ptr
  sd_counter :: int

definition sync_init :: sync_data where
  "sync_init = \<lparr>sd_work = None, sd_conn = None, sd_counter = 0\<rparr>"

text \<open>\<open>k_work_schedule\<close> leaves a work item alone that is already scheduled.\<close>

definition k_work_schedule :: "k_timeout \<Rightarrow> sync_data \<Rightarrow> sync_data" where
  "k_work_schedule t d = (case sd_work d of None \<Rightarrow> d\<lparr>sd_work := Some t\<rparr> | Some _ \<Rightarrow> d)"

definition K_NO_WAIT :: k_timeout where
  "K_NO_WAIT = K_TICKS 0"

definition K_SECONDS :: "app_config \<Rightarrow> nat \<Rightarrow> k_timeout" where
  "K_SECONDS a n = K_TICKS (n * ac_ticks_per_sec a)"

section \<open>Functions as in the gateway\<close>

text \<open>The text of these functions is that of \<open>gateway/src/main.c\<close>; the last lemma compares the
  models.\<close>

definition custom_bonding_timeout :: "app_config \<Rightarrow> k_timeout" where
  "custom_bonding_timeout a = K_SECONDS a 30"

definition custom_bt_security :: "app_config \<Rightarrow> bt_security" where
  "custom_bt_security a = (if scan_filter_bonded (ac_base a) then BT_SECURITY_L4 else BT_SECURITY_L2)"

definition custom_button_pressed :: "app_config \<Rightarrow> app \<Rightarrow> app_call list \<times> app" where
  "custom_button_pressed a s =
     (case ap_default_conn s of
        Some conn \<Rightarrow> ([BtConnAuthPasskeyConfirm conn], s)
      | None \<Rightarrow>
          if bonding_is_enabled (ap_bond s) then ([], s)
          else ([], s\<lparr>ap_bond := bonding_enable (custom_bonding_timeout a) (ap_bond s)\<rparr>))"

definition custom_on_client_event :: "client_event \<Rightarrow> app \<Rightarrow> app" where
  "custom_on_client_event ev s =
     (let is_connected = (ev = GOLIOTH_CLIENT_EVENT_CONNECTED) in
      if is_connected then s\<lparr>ap_connected := k_sem_give (ap_connected s)\<rparr> else s)"

definition custom_connect_golioth_client :: "(nat \<times> nat) option \<Rightarrow> ptr \<Rightarrow> app \<Rightarrow> app_call list \<times> app" where
  "custom_connect_golioth_client creds created s =
     (case creds of
        None \<Rightarrow> ([], s)
      | Some (psk_id_len, psk_len) \<Rightarrow>
          if psk_id_len = 0 \<or> psk_len = 0 then ([], s)
          else ([GoliothClientCreate, GoliothRegisterEventCallback created], s\<lparr>ap_client := created\<rparr>))"

definition custom_lte_handler :: "(nat \<times> nat) option \<Rightarrow> ptr \<Rightarrow> lte_evt \<Rightarrow> app \<Rightarrow> app_call list \<times> app" where
  "custom_lte_handler creds created evt s =
     (case evt of
        LTE_LC_EVT_NW_REG_STATUS st \<Rightarrow>
          if st = LTE_LC_NW_REG_REGISTERED_HOME \<or> st = LTE_LC_NW_REG_REGISTERED_ROAMING then
            (if ap_client s = None then custom_connect_golioth_client creds created s else ([], s))
          else ([], s)
      | LTE_LC_EVT_OTHER \<Rightarrow> ([], s))"

definition custom_auth_cancel :: "nat \<Rightarrow> app_call list" where
  "custom_auth_cancel conn = []"

definition custom_auth_passkey_confirm :: "app_config \<Rightarrow> nat \<Rightarrow> 32 word \<Rightarrow> app_call list" where
  "custom_auth_passkey_confirm a conn passkey =
     (let passkey_str = snprintk 7 (fmt_06u passkey) in
      LogPasskey conn passkey_str # (if ac_auto_confirm a then [BtConnAuthPasskeyConfirm conn] else []))"

definition custom_auth_passkey_display :: "nat \<Rightarrow> 32 word \<Rightarrow> app_call list" where
  "custom_auth_passkey_display conn passkey =
     (let passkey_str = snprintk 7 (fmt_06u passkey) in [LogPasskey conn passkey_str])"

definition custom_auth_cb :: "app_config \<Rightarrow> auth_cbs" where
  "custom_auth_cb a = \<lparr>acb_cancel = custom_auth_cancel,
     acb_passkey_confirm = (if scan_filter_bonded (ac_base a) then Some (custom_auth_passkey_confirm a) else None),
     acb_passkey_display = (if scan_filter_bonded (ac_base a) then Some custom_auth_passkey_display else None)\<rparr>"

definition custom_pairing_complete :: "nat \<Rightarrow> bool \<Rightarrow> app_call list" where
  "custom_pairing_complete conn bonded = []"

definition custom_pairing_failed :: "nat \<Rightarrow> security_err \<Rightarrow> app_call list" where
  "custom_pairing_failed conn reason =
     [BtConnDisconnect conn (if reason = BT_SECURITY_ERR_PAIR_NOT_ALLOWED then BT_HCI_ERR_PAIRING_NOT_ALLOWED
                             else BT_HCI_ERR_AUTH_FAIL)]"

definition custom_auth_info_cb :: auth_info_cbs where
  "custom_auth_info_cb = \<lparr>aicb_pairing_complete = custom_pairing_complete, aicb_pairing_failed = custom_pairing_failed\<rparr>"

lemma custom_copies_basic:
  "custom_bonding_timeout = bonding_timeout" "custom_connect_golioth_client = connect_golioth_client"
  by (simp_all add: fun_eq_iff custom_bonding_timeout_def K_SECONDS_def bonding_timeout_def
      custom_connect_golioth_client_def connect_golioth_client_def)

lemma custom_copies:
  "custom_bt_security = bt_security" "custom_button_pressed = button_pressed" "custom_on_client_event = on_client_event"
  "custom_lte_handler = lte_handler" "custom_auth_cb = auth_cb" "custom_auth_info_cb = auth_info_cb"
  unfolding fun_eq_iff custom_bt_security_def bt_security_def custom_button_pressed_def button_pressed_def
    custom_on_client_event_def on_client_event_def custom_lte_handler_def lte_handler_def custom_copies_basic
    custom_auth_cb_def custom_auth_cancel_def custom_auth_passkey_confirm_def custom_auth_passkey_display_def
    custom_auth_info_cb_def custom_pairing_complete_def custom_pairing_failed_def auth_defs
  by simp_all

section \<open>Callbacks of the Bluetooth stack\<close>

definition custom_bt_connected :: "app_config \<Rightarrow> int \<Rightarrow> nat \<Rightarrow> int \<Rightarrow> app \<Rightarrow> app_call list \<times> app" where
  "custom_bt_connected a set_security_ret conn err s =
     (if err \<noteq> 0 then (BtConnUnref conn # map ScanCall custom_scan_start, s)
      else
        let s' = s\<lparr>ap_default_conn := Some conn\<rparr> in
        if set_security_ret \<noteq> 0
        then ([BtConnSetSecurity conn (custom_bt_security a), BtConnDisconnect conn BT_HCI_ERR_REMOTE_USER_TERM_CONN], s')
        else ([BtConnSetSecurity conn (custom_bt_security a)], s'))"

definition custom_bt_disconnected :: "nat \<Rightarrow> app \<Rightarrow> app_call list \<times> app" where
  "custom_bt_disconnected conn s =
     ([PouchBtStop conn, BtConnUnref conn] @ map ScanCall custom_scan_start, s\<lparr>ap_default_conn := None\<rparr>)"

definition custom_security_changed :: "nat \<Rightarrow> int \<Rightarrow> sync_data \<Rightarrow> app_call list \<times> sync_data" where
  "custom_security_changed conn err d =
     (if err \<noteq> 0 then ([BtUnpair conn, BtConnDisconnect conn BT_HCI_ERR_INSUFFICIENT_SECURITY], d)
      else ([], k_work_schedule K_NO_WAIT (d\<lparr>sd_conn := Some conn, sd_counter := 0\<rparr>)))"

text \<open>The work item is no longer scheduled when its handler runs; without a connection the
  handler would start on a null pointer.\<close>

definition sync_start_handler :: "sync_data \<Rightarrow> (app_call list \<times> sync_data) option" where
  "sync_start_handler d = do {
     conn \<leftarrow> sd_conn d;
     Some ([PouchBtStart conn], d\<lparr>sd_work := None\<rparr>) }"

definition custom_bt_finished :: "app_config \<Rightarrow> nat \<Rightarrow> sync_data \<Rightarrow> app_call list \<times> sync_data" where
  "custom_bt_finished a conn d =
     (let d1 = d\<lparr>sd_counter := sd_counter d + 1\<rparr> in
      if sd_counter d1 > 1 then ([BtConnDisconnect conn BT_HCI_ERR_REMOTE_USER_TERM_CONN], d1)
      else ([], k_work_schedule (K_SECONDS a 5) d1))"

section \<open>main\<close>

definition custom_connect_to_cloud ::
  "app_config \<Rightarrow> (nat \<times> nat) option \<Rightarrow> ptr \<Rightarrow> app \<Rightarrow> app_call list \<times> main_pc option \<times> app" where
  "custom_connect_to_cloud a creds created s =
     (if \<not> cloud (ac_base a) then ([], None, s)
      else if ac_nrf_modem a then ([LteConnectAsync], Some MainWaitCloud, s)
      else
        let (cs, s') = custom_connect_golioth_client creds created s in
        ((if ac_ethernet_dhcp a then [NetDhcpv4Start] else []) @ cs, Some MainWaitCloud, s'))"

definition custom_main_setup :: "app_config \<Rightarrow> int \<Rightarrow> app \<Rightarrow> app_call list \<times> main_pc \<times> app" where
  "custom_main_setup a bt_enable_ret s =
     (let calls = [CertOnConnected (ap_client s), UplinkModuleInit (ap_client s), DownlinkModuleInit (ap_client s),
                   BtEnable] in
      if bt_enable_ret \<noteq> 0 then (calls, MainReturned bt_enable_ret, s)
      else
        let s' = (if ac_auto_bond a then s\<lparr>ap_bond := bonding_enable K_FOREVER (ap_bond s)\<rparr> else s) in
        (calls @ (if ac_bt_smp a then [AuthCbRegister, AuthInfoCbRegister] else []) @ map ScanCall custom_scan_start,
         if cloud (ac_base a) then MainLoop else MainReturned 0, s'))"

text \<open>\<open>k_work_init_delayable\<close>: the work item is idle.\<close>

definition custom_main_begin ::
  "app_config \<Rightarrow> main_env \<Rightarrow> app \<Rightarrow> sync_data \<Rightarrow> app_call list \<times> main_pc \<times> app \<times> sync_data" where
  "custom_main_begin a e s d =
     (let d' = d\<lparr>sd_work := None\<rparr> in
      if ac_has_sw0 a \<and> me_gpio_interrupt_ret e \<noteq> 0 then ([GpioConfigure, GpioInterrupt], MainReturned 0, s, d')
      else
        let gpio = (if ac_has_sw0 a then [GpioConfigure, GpioInterrupt, GpioAddCallback] else []);
            (cs, wait, s1) = custom_connect_to_cloud a (me_creds e) (me_created e) s in
        case wait of
          Some pc \<Rightarrow> (gpio @ cs, pc, s1, d')
        | None \<Rightarrow> (let (cs', pc, s2) = custom_main_setup a (me_bt_enable_ret e) s1 in (gpio @ cs @ cs', pc, s2, d')))"

definition custom_main_resume ::
  "app_config \<Rightarrow> main_env \<Rightarrow> main_pc \<Rightarrow> app \<Rightarrow> (app_call list \<times> main_pc \<times> app) option" where
  "custom_main_resume a e pc s =
     (case pc of
        MainWaitCloud \<Rightarrow>
          if ap_connected s = 0 then None
          else Some (custom_main_setup a (me_bt_enable_ret e) (s\<lparr>ap_connected := ap_connected s - 1\<rparr>))
      | MainLoop \<Rightarrow>
          if ap_connected s = 0 then None
          else Some ([CertOnConnected (ap_client s)], MainLoop, s\<lparr>ap_connected := ap_connected s - 1\<rparr>)
      | _ \<Rightarrow> None)"

section \<open>Synchronisations\<close>

text \<open>The events that change \<open>sync_data\<close>, with the number of starts since
  security was last established (a ghost) and the calls made. The library reports an end only
  behind a first start.\<close>

inductive sync_step :: "app_config \<Rightarrow> nat \<times> sync_data \<Rightarrow> app_call list \<Rightarrow> nat \<times> sync_data \<Rightarrow> bool" for a where
  sync_secured: "custom_security_changed conn 0 d = (cs, d') \<Longrightarrow> sync_step a (n, d) cs (0, d')"
| sync_insecure: "err \<noteq> 0 \<Longrightarrow> custom_security_changed conn err d = (cs, d') \<Longrightarrow> sync_step a (n, d) cs (n, d')"
| sync_work: "sd_work d = Some t \<Longrightarrow> sync_start_handler d = Some (cs, d') \<Longrightarrow> sync_step a (n, d) cs (n + 1, d')"
| sync_finished: "sd_conn d \<noteq> None \<Longrightarrow> custom_bt_finished a conn d = (cs, d') \<Longrightarrow> sync_step a (n, d) cs (n, d')"

inductive sync_reach :: "app_config \<Rightarrow> nat \<times> sync_data \<Rightarrow> bool" for a where
  sync_boot: "sync_reach a (0, sync_init)"
| sync_next: "sync_reach a s \<Longrightarrow> sync_step a s cs s' \<Longrightarrow> sync_reach a s'"

inductive_cases sync_stepE: "sync_step a s cs s'"

definition pending :: "sync_data \<Rightarrow> nat" where
  "pending d = (case sd_work d of None \<Rightarrow> 0 | Some _ \<Rightarrow> 1)"

lemma pending_schedule: "pending (k_work_schedule t d) = 1"
  by (simp add: k_work_schedule_def pending_def split: option.split)

lemma k_work_schedule_other [simp]:
  "sd_conn (k_work_schedule t d) = sd_conn d" "sd_counter (k_work_schedule t d) = sd_counter d"
  by (simp_all add: k_work_schedule_def split: option.split)

definition sync_ok :: "nat \<times> sync_data \<Rightarrow> bool" where
  "sync_ok s \<longleftrightarrow> (case s of (n, d) \<Rightarrow> 0 \<le> sd_counter d \<and> n + pending d \<le> 2 \<and> int (n + pending d) \<le> sd_counter d + 1 \<and>
     (sd_work d \<noteq> None \<longrightarrow> sd_conn d \<noteq> None))"

lemma sync_step_ok:
  assumes ok: "sync_ok s" and step: "sync_step a s cs s'"
  shows "sync_ok s'"
  using step
proof (cases rule: sync_step.cases)
  case (sync_secured conn d d' n)
  then show ?thesis using ok by (auto simp: sync_ok_def custom_security_changed_def pending_schedule)
next
  case (sync_insecure err conn d d' n)
  then show ?thesis using ok by (auto simp: sync_ok_def custom_security_changed_def)
next
  case (sync_work d t d' n)
  then show ?thesis using ok by (auto simp: sync_ok_def sync_start_handler_def pending_def)
next
  case (sync_finished d conn d' n)
  show ?thesis
  proof (cases "sd_counter d > 0")
    case True
    then have "d' = d\<lparr>sd_counter := sd_counter d + 1\<rparr>" using sync_finished(4) by (auto simp: custom_bt_finished_def)
    then show ?thesis using ok sync_finished(1-3) by (simp add: sync_ok_def pending_def)
  next
    case False
    then have "d' = k_work_schedule (K_SECONDS a 5) (d\<lparr>sd_counter := sd_counter d + 1\<rparr>)"
      using sync_finished(4) by (auto simp: custom_bt_finished_def)
    then show ?thesis using ok sync_finished(1-3) False by (auto simp: sync_ok_def pending_schedule)
  qed
qed

lemma sync_reach_ok: "sync_reach a s \<Longrightarrow> sync_ok s"
proof (induction rule: sync_reach.induct)
  case sync_boot
  then show ?case by (simp add: sync_ok_def sync_init_def pending_def)
next
  case (sync_next s cs s')
  then show ?case by (blast intro: sync_step_ok)
qed

section \<open>Properties\<close>

text \<open>C18. Two synchronisations and no more: however the events of the stack, the reports that a
  synchronisation has finished and the runs of the work item follow each other, since
  security was last established at most two synchronisations were started or are scheduled;
  a scheduled one has a connection to run on; and once the second one was started, the next
  report that it has finished disconnects.\<close>

theorem custom_two_syncs:
  assumes "sync_reach a (n, d)"
  shows "n + (if sd_work d = None then 0 else 1) \<le> 2 \<and>
     (if sd_work d = None then True else sync_start_handler d \<noteq> None) \<and>
     (if n = 2 then fst (custom_bt_finished a conn d) = [BtConnDisconnect conn BT_HCI_ERR_REMOTE_USER_TERM_CONN]
      else True)"
  using sync_reach_ok [OF assms]
  by (auto simp: sync_ok_def pending_def sync_start_handler_def custom_bt_finished_def Let_def)

theorem custom_two_syncs_witness:
  "\<exists>d. sync_reach gw_ex_cfg (2, d) \<and>
     fst (custom_bt_finished gw_ex_cfg 7 d) = [BtConnDisconnect 7 BT_HCI_ERR_REMOTE_USER_TERM_CONN]"
proof -
  define d1 where "d1 = k_work_schedule K_NO_WAIT (sync_init\<lparr>sd_conn := Some 7, sd_counter := 0\<rparr>)"
  define d2 where "d2 = d1\<lparr>sd_work := None\<rparr>"
  define d3 where "d3 = k_work_schedule (K_SECONDS gw_ex_cfg 5) (d2\<lparr>sd_counter := 1\<rparr>)"
  have "sync_reach gw_ex_cfg (0, d1)"
    by (rule sync_next [OF sync_boot sync_secured [of 7 sync_init "[]"]]) (simp add: custom_security_changed_def d1_def)
  then have "sync_reach gw_ex_cfg (0 + 1, d2)"
    by (rule sync_next [OF _ sync_work]) (simp_all add: sync_start_handler_def d1_def d2_def k_work_schedule_def sync_init_def)
  then have "sync_reach gw_ex_cfg (0 + 1, d3)"
    by (rule sync_next [OF _ sync_finished [where conn = 7 and cs = "[]"]])
       (simp_all add: custom_bt_finished_def d3_def d2_def d1_def k_work_schedule_def sync_init_def)
  then have r: "sync_reach gw_ex_cfg (0 + 1 + 1, d3\<lparr>sd_work := None\<rparr>)"
    by (rule sync_next [OF _ sync_work])
       (simp_all add: sync_start_handler_def d1_def d2_def d3_def k_work_schedule_def sync_init_def)
  from custom_two_syncs [OF r, of 7] r show ?thesis by (auto simp: numeral_2_eq_2)
qed

end
