(* ===== verification/Custom_System.thy ===== *)
theory Custom_System
  imports Custom_App
begin

text \<open>
  The sample application as a whole: its handlers, \<open>main\<close> and its work item with its scanner
  and the radio, in any order. Where its steps are those of the gateway application, so are
  the invariants.
\<close>

section \<open>The system\<close>

record csys =
  cy_gw :: gw
  cy_sync :: sync_data

definition run_custom ::
  "radio_env \<Rightarrow> link \<Rightarrow> main_pc \<Rightarrow> app_call list \<times> app \<Rightarrow> sync_data \<Rightarrow> csys \<Rightarrow> csys option" where
  "run_custom re l pc h d s = map_option (\<lambda>g. \<lparr>cy_gw = g, cy_sync = d\<rparr>) (run_gw re l pc h (cy_gw s))"

abbreviation cy_app :: "csys \<Rightarrow> app" where
  "cy_app s \<equiv> gw_app (cy_gw s)"

abbreviation cy_pc :: "csys \<Rightarrow> main_pc" where
  "cy_pc s \<equiv> gw_pc (cy_gw s)"

abbreviation cy_link :: "csys \<Rightarrow> link" where
  "cy_link s \<equiv> rd_link (gw_radio (cy_gw s))"

abbreviation cy_trace :: "csys \<Rightarrow> app_call list" where
  "cy_trace s \<equiv> rd_trace (gw_radio (cy_gw s))"

text \<open>The library reports the end for a connection on which it has been started. The work item
  runs once it is scheduled.\<close>

inductive custom_step :: "app_config \<Rightarrow> csys \<Rightarrow> csys option \<Rightarrow> bool" for a where
  c_adv: "rd_scanning (gw_radio (cy_gw s)) \<Longrightarrow> custom_step a s (do {
     (cs, b) \<leftarrow> custom_device_found (ac_base a) g bonds (re_scan re) addr rssi ty ad (ap_bond (cy_app s));
     run_custom re (cy_link s) (cy_pc s) (map ScanCall cs, (cy_app s)\<lparr>ap_bond := b\<rparr>) (cy_sync s) s })"
| c_connected: "cy_link s = Connecting conn \<Longrightarrow>
     custom_step a s (run_custom re (if err = 0 then Up conn else NoLink) (cy_pc s)
       (custom_bt_connected a ret conn err (cy_app s)) (cy_sync s) s)"
| c_disconnected: "cy_link s = Up conn \<Longrightarrow>
     custom_step a s (run_custom re NoLink (cy_pc s) (custom_bt_disconnected conn (cy_app s)) (cy_sync s) s)"
| c_security: "cy_link s = Up conn \<Longrightarrow> custom_security_changed conn err (cy_sync s) = (cs, d) \<Longrightarrow>
     custom_step a s (run_custom re (Up conn) (cy_pc s) (cs, cy_app s) d s)"
| c_pairing_complete: "cy_link s = Up conn \<Longrightarrow> AuthInfoCbRegister \<in> set (cy_trace s) \<Longrightarrow>
     custom_step a s (run_custom re (Up conn) (cy_pc s) (aicb_pairing_complete custom_auth_info_cb conn bonded, cy_app s)
       (cy_sync s) s)"
| c_pairing_failed: "cy_link s = Up conn \<Longrightarrow> AuthInfoCbRegister \<in> set (cy_trace s) \<Longrightarrow>
     custom_step a s (run_custom re (Up conn) (cy_pc s) (aicb_pairing_failed custom_auth_info_cb conn reason, cy_app s)
       (cy_sync s) s)"
| c_cancel: "cy_link s = Up conn \<Longrightarrow> AuthCbRegister \<in> set (cy_trace s) \<Longrightarrow>
     custom_step a s (run_custom re (Up conn) (cy_pc s) (acb_cancel (custom_auth_cb a) conn, cy_app s) (cy_sync s) s)"
| c_passkey: "cy_link s = Up conn \<Longrightarrow> AuthCbRegister \<in> set (cy_trace s) \<Longrightarrow>
     acb_passkey_confirm (custom_auth_cb a) = Some f \<or> acb_passkey_display (custom_auth_cb a) = Some f \<Longrightarrow>
     custom_step a s (run_custom re (Up conn) (cy_pc s) (f conn passkey, cy_app s) (cy_sync s) s)"
| c_finished: "cy_link s = Up conn \<Longrightarrow> PouchBtStart conn \<in> set (cy_trace s) \<Longrightarrow>
     custom_bt_finished a conn (cy_sync s) = (cs, d) \<Longrightarrow>
     custom_step a s (run_custom re (Up conn) (cy_pc s) (cs, cy_app s) d s)"
| c_work: "sd_work (cy_sync s) \<noteq> None \<Longrightarrow> custom_step a s (do {
     (cs, d) \<leftarrow> sync_start_handler (cy_sync s);
     run_custom re (cy_link s) (cy_pc s) (cs, cy_app s) d s })"
| c_button: "custom_step a s (run_custom re (cy_link s) (cy_pc s) (custom_button_pressed a (cy_app s)) (cy_sync s) s)"
| c_bond_timeout: "custom_step a s (run_custom re (cy_link s) (cy_pc s)
     ([], (cy_app s)\<lparr>ap_bond := bonding_timeout_handle (ap_bond (cy_app s))\<rparr>) (cy_sync s) s)"
| c_client: "ap_client (cy_app s) = Some cl \<Longrightarrow>
     custom_step a s (run_custom re (cy_link s) (cy_pc s) ([], custom_on_client_event ev (cy_app s)) (cy_sync s) s)"
| c_lte: "cloud (ac_base a) \<Longrightarrow> ac_nrf_modem a \<Longrightarrow>
     custom_step a s (run_custom re (cy_link s) (cy_pc s) (custom_lte_handler creds created evt (cy_app s)) (cy_sync s) s)"
| c_main: "custom_main_resume a e (cy_pc s) (cy_app s) = Some (cs, pc, s') \<Longrightarrow>
     custom_step a s (run_custom re (cy_link s) pc (cs, s') (cy_sync s) s)"

inductive custom_reach :: "app_config \<Rightarrow> csys \<Rightarrow> bool" for a where
  c_boot: "custom_main_begin a e app_init sync_init = (cs, pc, s', d) \<Longrightarrow> apply_calls re cs radio_init = Some r \<Longrightarrow>
     custom_reach a \<lparr>cy_gw = \<lparr>gw_app = s', gw_pc = pc, gw_radio = r\<rparr>, cy_sync = d\<rparr>"
| c_next: "custom_reach a s \<Longrightarrow> custom_step a s (Some s') \<Longrightarrow> custom_reach a s'"

section \<open>What it shares with the gateway application\<close>

lemma custom_handlers:
  "custom_scan_start = scan_start" "custom_bt_connected = bt_connected" "custom_bt_disconnected = bt_disconnected"
  "custom_main_setup = main_setup"
  unfolding fun_eq_iff custom_scan_start_def scan_start_def custom_bt_connected_def bt_connected_def
    custom_bt_disconnected_def bt_disconnected_def custom_main_setup_def main_setup_def custom_copies
  by simp_all

definition no_hl7800 :: "app_config \<Rightarrow> app_config" where
  "no_hl7800 a = a\<lparr>ac_hl7800 := False\<rparr>"

lemma no_hl7800_simps:
  "ac_base (no_hl7800 a) = ac_base a" "ac_has_sw0 (no_hl7800 a) = ac_has_sw0 a"
  by (simp_all add: no_hl7800_def)

lemma custom_connect_eq: "custom_connect_to_cloud a creds created s = connect_to_cloud (no_hl7800 a) creds created s"
  by (cases "custom_connect_golioth_client creds created s")
     (simp add: custom_connect_to_cloud_def connect_to_cloud_def no_hl7800_def custom_copies_basic)

lemma custom_setup_cfg: "main_setup (no_hl7800 a) ret s = main_setup a ret s"
  by (simp add: main_setup_def no_hl7800_def)

lemma custom_begin_eq:
  "custom_main_begin a e s d = (let (cs, pc, s') = main_begin (no_hl7800 a) e s in (cs, pc, s', d\<lparr>sd_work := None\<rparr>))"
  by (cases "connect_to_cloud (no_hl7800 a) (me_creds e) (me_created e) s")
     (auto simp: custom_main_begin_def main_begin_def custom_connect_eq custom_handlers custom_setup_cfg Let_def
       no_hl7800_simps split: option.split prod.split)

lemma custom_resume_eq:
  "custom_main_resume a e pc s = Some r \<Longrightarrow> main_resume a e pc s = Some r"
  by (auto simp: custom_main_resume_def main_resume_def custom_handlers split: main_pc.splits if_splits)

lemma main_ok_cfg: "main_ok (no_hl7800 a) pc s r = main_ok a pc s r"
  by (simp add: main_ok_def no_hl7800_def)

section \<open>Its invariant\<close>

definition custom_ok :: "app_config \<Rightarrow> csys \<Rightarrow> bool" where
  "custom_ok a s \<longleftrightarrow> gw_ok a (cy_gw s) \<and> (\<exists>n. sync_reach a (n, cy_sync s)) \<and>
     (\<forall>conn. PouchBtStart conn \<in> set (cy_trace s) \<longrightarrow> sd_conn (cy_sync s) \<noteq> None)"

text \<open>A step of the gateway application that does not start the node.\<close>

lemma run_gw_trace: "run_gw re l pc (cs, s') g = Some g' \<Longrightarrow> rd_trace (gw_radio g') = rd_trace (gw_radio g) @ cs"
  by (auto simp: run_gw_def dest!: apply_calls_trace split: bind_splits)

lemma custom_run:
  assumes ok: "custom_ok a s" and run: "holds (gw_ok a) (run_gw re l pc (cs, s') (cy_gw s))"
    and cs: "\<And>conn. PouchBtStart conn \<notin> set cs"
  shows "holds (custom_ok a) (run_custom re l pc (cs, s') (cy_sync s) s)"
proof -
  obtain g where g: "run_gw re l pc (cs, s') (cy_gw s) = Some g" "gw_ok a g"
    using run by (auto simp: holds_def)
  then show ?thesis using ok cs run_gw_trace [OF g(1)] by (auto simp: run_custom_def custom_ok_def)
qed

lemma custom_gw_step:
  assumes ok: "custom_ok a s" and step: "gw_step a (cy_gw s) (run_gw re l pc (cs, s') (cy_gw s))"
    and cs: "\<And>conn. PouchBtStart conn \<notin> set cs"
  shows "holds (custom_ok a) (run_custom re l pc (cs, s') (cy_sync s) s)"
  using ok gw_step_ok [OF _ step] cs by (intro custom_run) (auto simp: custom_ok_def)

text \<open>A step of the synchronisations.\<close>

lemma custom_sync_step:
  assumes ok: "custom_ok a s" and step: "\<And>n. \<exists>n'. sync_step a (n, cy_sync s) cs (n', d)"
    and run: "holds (gw_ok a) (run_gw re l pc (cs, cy_app s) (cy_gw s))"
    and conn: "sd_conn d \<noteq> None \<or> (sd_conn d = sd_conn (cy_sync s) \<and> (\<forall>conn. PouchBtStart conn \<notin> set cs))"
  shows "holds (custom_ok a) (run_custom re l pc (cs, cy_app s) d s)"
proof -
  obtain n where "sync_reach a (n, cy_sync s)" using ok by (auto simp: custom_ok_def)
  then have r: "\<exists>n. sync_reach a (n, d)" using step sync_next by blast
  obtain g where g: "run_gw re l pc (cs, cy_app s) (cy_gw s) = Some g" "gw_ok a g"
    using run by (auto simp: holds_def)
  then show ?thesis using ok conn r run_gw_trace [OF g(1)] by (auto simp: run_custom_def custom_ok_def)
qed

lemma custom_step_ok:
  assumes ok: "custom_ok a s" and step: "custom_step a s r"
  shows "(case r of Some s' \<Rightarrow> custom_ok a s'
    | None \<Rightarrow> cy_link s = NoLink \<and> (sd_work (cy_sync s) \<noteq> None \<or> scan_filter_bonded (ac_base a) \<and> rd_scanning (gw_radio (cy_gw s))))"
proof -
  have G: "gw_ok a (cy_gw s)" using ok by (simp add: custom_ok_def)
  have R: "radio_ok (ap_default_conn (cy_app s)) (gw_radio (cy_gw s))" and M: "main_ok a (cy_pc s) (cy_app s) (gw_radio (cy_gw s))"
    using G by (simp_all add: gw_ok_def)
  note run = custom_gw_step [OF ok]
  have H: ?thesis if "holds (custom_ok a) r" using that by (auto simp: holds_def)
  show ?thesis using step
  proof (cases rule: custom_step.cases)
    case (c_adv g bonds re addr rssi ty ad)
    have b: "booted (gw_radio (cy_gw s))" "cy_link s = NoLink" using R c_adv(2) by (auto simp: radio_ok_def)
    show ?thesis
    proof (cases "custom_device_found (ac_base a) g bonds (re_scan re) addr rssi ty ad (ap_bond (cy_app s))")
      case None
      then show ?thesis using c_adv b by (simp add: custom_device_found_eq split: if_splits)
    next
      case (Some x)
      obtain cs bd where x: "x = (cs, bd)" by (cases x)
      have "holds (gw_ok a) (run_gw re (cy_link s) (cy_pc s) (map ScanCall cs, (cy_app s)\<lparr>ap_bond := bd\<rparr>) (cy_gw s))"
        using Some x R c_adv(2) b
        by (intro run_gw_ok [OF M]) (auto simp: custom_device_found_eq radio_defs split: if_splits)
      then show ?thesis using Some x c_adv(1) by (intro H) (auto intro!: custom_run [OF ok])
    qed
  next
    case (c_connected conn re err ret)
    have "PouchBtStart c \<notin> set (fst (bt_connected a ret conn err (cy_app s)))" for c
      by (auto simp: bt_connected_def Let_def)
    then show ?thesis
      using gw_connected [OF c_connected(2), of a re err ret] c_connected(1)
      by (intro H) (cases "bt_connected a ret conn err (cy_app s)", simp add: custom_handlers run)
  next
    case (c_disconnected conn re)
    have "PouchBtStart c \<notin> set (fst (bt_disconnected conn (cy_app s)))" for c by (auto simp: bt_disconnected_def)
    then show ?thesis using gw_disconnected [OF c_disconnected(2)] c_disconnected(1)
      by (intro H) (cases "bt_disconnected conn (cy_app s)", auto simp: custom_handlers intro!: run)
  next
    case (c_security conn err cs d re)
    show ?thesis
    proof (cases "err = 0")
      case True
      then have d: "cs = []" "sd_conn d = Some conn" using c_security(3) by (auto simp: custom_security_changed_def)
      have "sync_step a (n, cy_sync s) cs (0, d)" for n using c_security(3) True by (auto intro: sync_secured)
      moreover have "holds (gw_ok a) (run_gw re (Up conn) (cy_pc s) (cs, cy_app s) (cy_gw s))"
        using R c_security(2) d by (intro run_gw_ok [OF M]) (auto simp: radio_defs)
      ultimately show ?thesis using d c_security(1) by (intro H) (auto intro!: custom_sync_step [OF ok])
    next
      case False
      then have "cs = security_changed conn err" "d = cy_sync s"
        using c_security(3) by (auto simp: custom_security_changed_def security_changed_def)
      then show ?thesis using gw_security [OF c_security(2), of a re err] False c_security(1)
        by (intro H) (auto simp: security_changed_def intro!: run)
    qed
  next
    case (c_pairing_complete conn re bonded)
    then show ?thesis using gw_pairing_complete [of "cy_gw s" conn a re bonded]
      by (intro H) (auto simp: custom_copies auth_defs intro!: run)
  next
    case (c_pairing_failed conn re reason)
    then show ?thesis using gw_pairing_failed [of "cy_gw s" conn a re reason]
      by (intro H) (auto simp: custom_copies auth_defs intro!: run)
  next
    case (c_cancel conn re)
    then show ?thesis using gw_cancel [of "cy_gw s" conn a re]
      by (intro H) (auto simp: custom_copies auth_defs intro!: run)
  next
    case (c_passkey conn f re passkey)
    then show ?thesis using gw_passkey [of "cy_gw s" conn a f re passkey]
      by (intro H) (auto simp: custom_copies auth_defs Let_def split: if_splits intro!: run)
  next
    case (c_finished conn cs d re)
    have "sd_conn (cy_sync s) \<noteq> None" using ok c_finished(3) by (auto simp: custom_ok_def)
    then have "sync_step a (n, cy_sync s) cs (n, d)" for n using c_finished(4) by (auto intro: sync_finished)
    moreover have d: "cs = [] \<or> cs = app_bt_finished conn" "sd_conn d = sd_conn (cy_sync s)"
      using c_finished(4) by (auto simp: custom_bt_finished_def app_bt_finished_def Let_def split: if_splits)
    moreover have "holds (gw_ok a) (run_gw re (Up conn) (cy_pc s) (cs, cy_app s) (cy_gw s))"
      using d(1) gw_step_ok [OF G gw_finished [OF c_finished(2)]] R c_finished(2)
      by (elim disjE) (auto simp: radio_defs intro!: run_gw_ok [OF M])
    ultimately show ?thesis using c_finished(1)
      by (intro H) (auto simp: app_bt_finished_def intro!: custom_sync_step [OF ok])
  next
    case (c_work re)
    obtain n where "sync_ok (n, cy_sync s)" using ok sync_reach_ok by (auto simp: custom_ok_def)
    then obtain conn t where conn: "sd_conn (cy_sync s) = Some conn" "sd_work (cy_sync s) = Some t"
      using c_work(2) by (auto simp: sync_ok_def)
    then have h: "sync_start_handler (cy_sync s) = Some ([PouchBtStart conn], (cy_sync s)\<lparr>sd_work := None\<rparr>)"
      by (simp add: sync_start_handler_def)
    show ?thesis
    proof (cases "cy_link s = NoLink")
      case True
      then have "rd_refs (gw_radio (cy_gw s)) = 0" using R by (simp add: radio_ok_def)
      then have "r = None" using c_work(1) h by (simp add: run_custom_def run_gw_def apply_call_def on_conn_def)
      then show ?thesis using True c_work(2) by simp
    next
      case False
      have "holds (gw_ok a) (run_gw re (cy_link s) (cy_pc s) ([PouchBtStart conn], cy_app s) (cy_gw s))"
        using R False up_booted [OF R] by (intro run_gw_ok [OF M]) (auto simp: radio_defs split: link.splits)
      moreover have "sync_step a (n, cy_sync s) [PouchBtStart conn] (n + 1, (cy_sync s)\<lparr>sd_work := None\<rparr>)" for n
        using conn(2) h by (intro sync_work)
      ultimately show ?thesis using c_work(1) h conn by (intro H) (auto intro!: custom_sync_step [OF ok])
    qed
  next
    case (c_button re)
    have "PouchBtStart c \<notin> set (fst (button_pressed a (cy_app s)))" for c by (auto simp: button_pressed_def split: option.splits)
    then show ?thesis using gw_button [of a "cy_gw s" re] c_button(1)
      by (intro H) (cases "button_pressed a (cy_app s)", auto simp: custom_copies intro!: run)
  next
    case (c_bond_timeout re)
    then show ?thesis using gw_bond_timeout [of a "cy_gw s" re] by (intro H) (auto intro!: run)
  next
    case (c_client cl re ev)
    then show ?thesis using gw_client [of "cy_gw s" cl a re ev] by (intro H) (auto simp: custom_copies intro!: run)
  next
    case (c_lte re creds created evt)
    have "PouchBtStart c \<notin> set (fst (lte_handler creds created evt (cy_app s)))" for c
      by (auto simp: lte_handler_def connect_golioth_client_def split: lte_evt.splits option.splits)
    then show ?thesis using gw_lte [of a "cy_gw s" re creds created evt] c_lte
      by (intro H) (cases "lte_handler creds created evt (cy_app s)", auto simp: custom_copies intro!: run)
  next
    case (c_main e cs pc s' re)
    have "PouchBtStart c \<notin> set cs" for c
      using c_main(2) by (auto simp: custom_main_resume_def custom_main_setup_def Let_def split: main_pc.splits if_splits)
    then show ?thesis using gw_main [OF custom_resume_eq [OF c_main(2)], of re] c_main(1)
      by (intro H) (auto intro!: run)
  qed
qed

lemma custom_reach_ok: "custom_reach a s \<Longrightarrow> custom_ok a s"
proof (induction rule: custom_reach.induct)
  case (c_boot e cs pc s' d re r)
  then have b: "main_begin (no_hl7800 a) e app_init = (cs, pc, s')" "d = sync_init"
    by (auto simp: custom_begin_eq sync_init_def split: prod.splits)
  have "gw_ok a \<lparr>gw_app = s', gw_pc = pc, gw_radio = r\<rparr>"
    using gw_boot_ok [OF b(1), of re] c_boot(2) by (simp add: gw_ok_def main_ok_cfg)
  moreover have "PouchBtStart conn \<notin> set cs" for conn
    using c_boot(1)
    by (auto simp: custom_main_begin_def custom_connect_to_cloud_def custom_connect_golioth_client_def
        custom_main_setup_def Let_def split: if_splits option.splits prod.splits)
  moreover have "rd_trace r = cs" using apply_calls_trace [OF c_boot(2)] by (simp add: radio_init_def)
  ultimately show ?case using sync_boot [of a] b(2) by (auto simp: custom_ok_def)
next
  case (c_next s s')
  then show ?case using custom_step_ok [of a s "Some s'"] by simp
qed

section \<open>A run\<close>

lemma calls_link:
  assumes "apply_calls re cs r = Some r'" "\<And>addr. ScanCall (BtConnCreate addr) \<notin> set cs"
  shows "rd_link r' = rd_link r"
  using assms
proof (induction cs arbitrary: r)
  case (Cons cl cs)
  then obtain r1 where r1: "apply_call re cl r = Some r1" "apply_calls re cs r1 = Some r'" by (auto split: bind_splits)
  have "ScanCall (BtConnCreate addr) \<noteq> cl" for addr using Cons.prems(2) [of addr] by auto
  then have "rd_link r1 = rd_link r"
    using r1(1) by (auto simp: apply_call_def scan_effect_def Let_def split: if_splits app_call.splits scan_call.splits)
  then show ?case using Cons r1(2) by auto
qed simp

lemma custom_then:
  assumes s: "custom_reach a s" "cy_link s \<noteq> NoLink"
    and step: "custom_step a s (run_custom re l pc h d s)"
    and cs: "\<And>addr. ScanCall (BtConnCreate addr) \<notin> set (fst h)"
  obtains s' where "custom_reach a s'" "cy_link s' = l" "cy_sync s' = d" "cy_trace s' = cy_trace s @ fst h"
proof -
  obtain s' where s': "run_custom re l pc h d s = Some s'"
    using custom_step_ok [OF custom_reach_ok [OF s(1)] step] s(2) by (cases "run_custom re l pc h d s") auto
  then have "custom_reach a s'" using step s(1) c_next by simp
  moreover obtain r where r: "apply_calls re (fst h) ((gw_radio (cy_gw s))\<lparr>rd_link := l\<rparr>) = Some r"
      "s' = \<lparr>cy_gw = \<lparr>gw_app = snd h, gw_pc = pc, gw_radio = r\<rparr>, cy_sync = d\<rparr>"
    using s' by (auto simp: run_custom_def run_gw_def split: bind_splits)
  ultimately show ?thesis using that calls_link [OF r(1) cs] apply_calls_trace [OF r(1)] by simp
qed

definition custom_ex_cfg :: app_config where
  "custom_ex_cfg = gw_ex_cfg\<lparr>ac_auto_bond := True\<rparr>"

definition custom_ex_ad :: "bt_data list" where
  "custom_ex_ad = [\<lparr>bt_type = BT_DATA_NAME_COMPLETE, bt_bytes = golioth_text\<rparr>,
     \<lparr>bt_type = BT_DATA_SVC_DATA16, bt_bytes = [1, 2, 0x21, 1]\<rparr>]"

lemma custom_ex_accepts: "custom_accepts scan_ex_gatt (- 50) BT_GAP_ADV_TYPE_ADV_IND custom_ex_ad"
  by (auto simp: custom_accepts_def connectable_def custom_ex_ad_def golioth_named_def name_matches_def svc_data_of_def
      BT_DATA_NAME_COMPLETE_def scan_ex_gatt_def custom_version_is_compatible_def)

lemma custom_ex_connecting: "\<exists>s. custom_reach custom_ex_cfg s \<and> cy_link s = Connecting 7 \<and> cy_sync s = sync_init"
proof -
  define e where "e = \<lparr>me_gpio_interrupt_ret = 0, me_bt_enable_ret = 0, me_creds = None, me_created = None\<rparr>"
  define s1 where "s1 = app_init\<lparr>ap_bond := bonding_enable K_FOREVER bond_init\<rparr>"
  have "\<exists>cs. custom_main_begin custom_ex_cfg e app_init sync_init = (cs, MainReturned 0, s1, sync_init) \<and>
      (\<exists>r. apply_calls gw_ex_env cs radio_init = Some r \<and> rd_scanning r \<and> rd_link r = NoLink \<and> rd_refs r = 0)"
    by (simp add: custom_main_begin_def e_def custom_ex_cfg_def gw_ex_cfg_def custom_connect_to_cloud_def sync_init_def
        custom_main_setup_def custom_scan_start_def app_init_def gw_ex_env_def apply_call_def on_conn_def scan_effect_def
        s1_def radio_init_def)
  then obtain cs r where b: "custom_main_begin custom_ex_cfg e app_init sync_init = (cs, MainReturned 0, s1, sync_init)"
      "apply_calls gw_ex_env cs radio_init = Some r" "rd_scanning r" "rd_link r = NoLink" "rd_refs r = 0" by blast
  define s where "s = \<lparr>cy_gw = \<lparr>gw_app = s1, gw_pc = MainReturned 0, gw_radio = r\<rparr>, cy_sync = sync_init\<rparr>"
  have s: "custom_reach custom_ex_cfg s" using c_boot [OF b(1,2)] by (simp add: s_def)
  have f: "custom_device_found (ac_base custom_ex_cfg) scan_ex_gatt [] (re_scan gw_ex_env) [5] (- 50) BT_GAP_ADV_TYPE_ADV_IND
      custom_ex_ad (ap_bond s1) = Some ([BtScanStop, BtConnCreate [5]], bonding_disable (ap_bond s1))"
    using custom_ex_accepts
    by (simp add: custom_device_found_eq gw_ex_env_def s1_def bonding_enable_def)
  define r2 where "r2 = r\<lparr>rd_scanning := False, rd_trace := rd_trace r @ [ScanCall BtScanStop, ScanCall (BtConnCreate [5])],
      rd_link := Connecting 7, rd_refs := Suc 0\<rparr>"
  have "custom_step custom_ex_cfg s (Some \<lparr>cy_gw = \<lparr>gw_app = s1\<lparr>ap_bond := bonding_disable (ap_bond s1)\<rparr>,
      gw_pc = MainReturned 0, gw_radio = r2\<rparr>, cy_sync = sync_init\<rparr>)"
    using c_adv [of s custom_ex_cfg scan_ex_gatt "[]" gw_ex_env "[5]" "- 50" BT_GAP_ADV_TYPE_ADV_IND custom_ex_ad] b(3,4,5) f
    by (simp add: s_def run_custom_def run_gw_def apply_call_def on_conn_def scan_effect_def gw_ex_env_def r2_def)
  from c_next [OF s this] show ?thesis by (auto simp: r2_def)
qed

text \<open>The node disconnects between the two synchronisations.\<close>

lemma custom_ex_stale: "\<exists>s. custom_reach custom_ex_cfg s \<and> cy_link s = NoLink \<and> sd_work (cy_sync s) \<noteq> None"
proof -
  obtain s1 where s1: "custom_reach custom_ex_cfg s1" "cy_link s1 = Connecting 7" "cy_sync s1 = sync_init"
    using custom_ex_connecting by blast
  obtain s2 where s2: "custom_reach custom_ex_cfg s2" "cy_link s2 = Up 7" "cy_sync s2 = sync_init"
    by (rule custom_then [OF s1(1) _ c_connected [OF s1(2), where err = 0 and re = gw_ex_env and ret = 0]])
       (auto simp: s1 custom_bt_connected_def Let_def)
  define d where "d = sync_init\<lparr>sd_work := Some K_NO_WAIT, sd_conn := Some 7\<rparr>"
  obtain s3 where s3: "custom_reach custom_ex_cfg s3" "cy_link s3 = Up 7" "cy_sync s3 = d"
    by (rule custom_then [OF s2(1) _ c_security [OF s2(2), where err = 0 and re = gw_ex_env and cs = "[]" and d = d]])
       (auto simp: s2 custom_security_changed_def k_work_schedule_def d_def sync_init_def)
  have "custom_step custom_ex_cfg s3 (run_custom gw_ex_env (Up 7) (cy_pc s3) ([PouchBtStart 7], cy_app s3) (d\<lparr>sd_work := None\<rparr>) s3)"
    using c_work [of s3 custom_ex_cfg gw_ex_env] s3 by (simp add: d_def sync_start_handler_def)
  then obtain s4 where s4: "custom_reach custom_ex_cfg s4" "cy_link s4 = Up 7" "cy_sync s4 = d\<lparr>sd_work := None\<rparr>"
      "PouchBtStart 7 \<in> set (cy_trace s4)"
    by (rule custom_then [OF s3(1), rotated]) (auto simp: s3)
  obtain t d' where d': "custom_bt_finished custom_ex_cfg 7 (cy_sync s4) = ([], d')" "sd_work d' = Some t"
    by (simp add: s4 custom_bt_finished_def k_work_schedule_def d_def sync_init_def)
  obtain s5 where s5: "custom_reach custom_ex_cfg s5" "cy_link s5 = Up 7" "cy_sync s5 = d'"
    by (rule custom_then [OF s4(1) _ c_finished [OF s4(2,4) d'(1), of gw_ex_env]]) (auto simp: s4)
  obtain s6 where "custom_reach custom_ex_cfg s6" "cy_link s6 = NoLink" "cy_sync s6 = d'"
    by (rule custom_then [OF s5(1) _ c_disconnected [OF s5(2), of custom_ex_cfg gw_ex_env]])
       (auto simp: s5 custom_bt_disconnected_def custom_scan_start_def)
  then show ?thesis using d'(2) by auto
qed

section \<open>Properties\<close>



end
