(* ===== verification/Spec2Isabelle.thy ===== *)
theory Spec2Isabelle
  imports Downlink_Threads Uplink_Threads Cert_Threads Info Gatt_Leaks Gateway_System Custom_System
begin

text \<open>
  Verification of the Pouch gateway.

  The gateway connects Bluetooth nodes to the Golioth cloud. A node that is found by the
  scanner (\<open>lib/bt/scan.c\<close>) is connected, its GATT service is discovered
  (\<open>lib/bt/connect.c\<close>), its information record and the certificates are exchanged
  (\<open>lib/info.c\<close>, \<open>lib/cert.c\<close> and their transports under \<open>lib/bt\<close>), and then
  its pouch is sent to the cloud by an uplink (\<open>lib/uplink.c\<close>) while the answer comes
  back through a downlink (\<open>lib/downlink.c\<close>), whose blocks live in a slab
  (\<open>lib/block.c\<close>).

  Theories:

  \<^item> \<open>Gateway_Prelude\<close>: C values, stores, pointers, copies, error numbers, build
    configuration.
  \<^item> \<open>Ownership\<close>: the locale \<open>ownership\<close>, contexts that own heap objects; no leak,
    no sharing, no dangling object. Interpreted for downlink contexts and uplinks.
  \<^item> \<open>Byte_Source\<close>: the locales \<open>byte_source\<close> (what a sender pulls from:
    downlink, server certificate) and \<open>bounded_buffer\<close> (what a receiver pushes into:
    info record, device certificate).
  \<^item> \<open>Block\<close>: \<open>lib/block.c\<close>.
  \<^item> \<open>Downlink\<close>, \<open>Downlink_Session\<close>: \<open>lib/downlink.c\<close>; the reading loop refines
    the abstract \<open>seg_read\<close>; sessions of one context among others. \<open>Downlink_Threads\<close>:
    the same functions cut into pieces and run by two threads in any order; order and
    completeness of the bytes, and the one wake-up that is lost.
  \<^item> \<open>Uplink\<close>, \<open>Uplink_Session\<close>, \<open>Uplink_Properties\<close>: \<open>lib/uplink.c\<close>; the
    blocks sent are the \<open>chunks\<close> of the bytes written. \<open>Uplink_Pieces\<close>,
    \<open>Uplink_Stages\<close>, \<open>Uplink_Threads\<close>: its functions in pieces, the stages of a block, and
    the two threads: where they are safe and end, and the four windows in which they do not.
  \<^item> \<open>Cert\<close>: \<open>lib/cert.c\<close>. \<open>Cert_Threads\<close>: a refresh of the server certificate in pieces,
    between and during the reads of another thread.
  \<^item> \<open>Info\<close>: \<open>lib/info.c\<close>.
  \<^item> \<open>Scan\<close>: \<open>lib/bt/bond.c\<close> and \<open>lib/bt/scan.c\<close>.
  \<^item> \<open>Connect\<close>: the discovery callbacks of \<open>lib/bt/connect.c\<close>.
  \<^item> \<open>Gatt_Node\<close>: the record of a connected node and the memory, objects and outside code
    its transports work on. \<open>Gatt_Link\<close>: \<open>lib/bt/downlink.c\<close> and \<open>lib/bt/uplink.c\<close>.
    \<open>Gatt_Certs\<close>: \<open>lib/bt/device_cert.c\<close>, \<open>lib/bt/server_cert.c\<close>, \<open>lib/bt/info.c\<close>.
  \<^item> \<open>Gatt_Invariant\<close>, \<open>Gatt_Safety\<close>, \<open>Gatt_Cert_Safety\<close>, \<open>Gatt_Session\<close>: the phases
    of a node, each handler keeps them, and the calls the Bluetooth stack and the cloud client
    may make (\<open>gatt_call\<close>) with the worlds they reach (\<open>gatt_reach\<close>).
  \<^item> \<open>Gatt_Contracts\<close>: the locales \<open>chunk_sink\<close> (what a receiver relies on: the three data
    callbacks) and \<open>packet_source\<close> (what a packetizer relies on: the two fill callbacks).
  \<^item> \<open>Gateway_App\<close>: \<open>gateway/src/main.c\<close>, the handlers and \<open>main\<close>, cut at its waits,
    and the system they form with the scanner (\<open>gw_step\<close>, \<open>gw_reach\<close>); the handler of
    \<open>gateway/src/fatal_error.c\<close>.
    \<open>Custom_Scan\<close>, \<open>Custom_App\<close>, \<open>Custom_System\<close>: \<open>samples/custom_connect/src\<close>, the
    system its handlers, \<open>main\<close> and work item form, and its two faults.
  \<^item> \<open>Gateway_System\<close>: the application, the node and the cloud client together
    (\<open>sys_step\<close>, \<open>sys_reach\<close>); where the whole is safe and the two ways in which it is not.
  \<^item> \<open>Gatt_Properties\<close>: memory safety of the node, the packets and chunks of the two
    directions end to end, and what goes wrong when a connection ends at a bad moment.
    \<open>Gatt_Exchange\<close>: the information record and the two certificates end to end.
    \<open>Gatt_Progress\<close>: no call leaves a connection with nothing to wait for and without
    having asked for its end, and the one case, a subscription that is cut off, in which it does.
    \<open>Gatt_Leaks\<close>: what a node holds and loses.

  Conventions. An operation of the model has the parameters of the C function, the state it
  reads and writes, and one argument for each answer of code outside the repository (a
  status of the cloud client, the address a \<open>malloc\<close> returns, a parser). It returns
  \<open>None\<close> exactly for undefined behaviour (and, for the one loop that may not end,
  \<open>up_write_loop\<close>, for no result), so that \<open>Some\<close> in a theorem is memory safety and
  termination. Calls out of the component are events of the result. Operations are atomic,
  except in \<open>Downlink_Threads\<close>, \<open>Uplink_Threads\<close> and \<open>Cert_Threads\<close>, where a function is cut at every
  access to what its threads share; a queue operation is one access.
  \<open>size_t\<close> has 32 bits, as on all supported boards, and wraps.

  A receiver, sender or packetizer of the pouch module is an object of the world's store; what
  a receiver or a sender does with a notification is a function that gets the callback of the
  gateway, under \<open>recv_ok\<close> and \<open>ack_ok\<close> in the theorems. What the Bluetooth stack, the
  cloud client, \<open>malloc\<close> and the parsers answer is the record \<open>env\<close>, chosen anew for
  each call.

  Not modelled: the packets a receiver or sender frames (their content is the argument
  \<open>e_receive\<close> or \<open>e_ack\<close> stands for), logging and the callbacks that only log, and threads in the
  transports under \<open>lib/bt\<close>, whose handlers the Bluetooth stack runs one after the other.
\<close>

end
